(* ===== verification/Hogl_Prelude.thy ===== *)
theory Hogl_Prelude
  imports Main "HOL-Library.Word" "HOL-Library.Monad_Syntax"
begin

unbundle bit_operations_syntax

text \<open>
  Shared vocabulary of the development: the C integer types of an LP64 little-endian
  target as words, byte strings of words (the layout of integers in memory and in the raw
  log format), byte buffers with checked access (an access outside the buffer is
  \<open>None\<close>, the model's value for undefined behaviour), and the lemmas on lists, masks
  and bits that the components share.
\<close>

section \<open>Types\<close>

type_synonym u8 = "8 word"
type_synonym u16 = "16 word"
type_synonym u32 = "32 word"
type_synonym u64 = "64 word"
type_synonym bytes = "u8 list"

named_theorems buf_simps \<open>rewriting of checked buffer accesses\<close>
named_theorems wf_intros \<open>introduction rules for well-formedness invariants\<close>

section \<open>Lists\<close>

lemma strict_sorted_same_set_eq:
  fixes f :: "'a \<Rightarrow> 'b::linorder"
  assumes "sorted_wrt (\<lambda>x y. f x < f y) xs" and "sorted_wrt (\<lambda>x y. f x < f y) ys"
    and "set xs = set ys"
  shows "xs = ys"
  using assms
proof (induction xs arbitrary: ys)
  case Nil
  then show ?case by simp
next
  case (Cons x xs)
  from Cons.prems(3) obtain y ys' where ys: "ys = y # ys'"
    by (cases ys) auto
  have "x = y"
  proof (rule ccontr)
    assume "x \<noteq> y"
    with Cons.prems ys have "x \<in> set ys'" "y \<in> set xs" by auto
    with Cons.prems ys have "f y < f x" "f x < f y" by auto
    then show False by simp
  qed
  moreover have "set xs = set ys'"
  proof -
    have "x \<notin> set xs" "y \<notin> set ys'"
      using Cons.prems ys by auto
    with Cons.prems(3) ys \<open>x = y\<close> show ?thesis by auto
  qed
  ultimately show ?case
    using Cons.IH [of ys'] Cons.prems ys by simp
qed

lemma filter_take_prefix: "\<exists>k. filter P (take n xs) = take k (filter P xs)
    \<and> filter P (drop n xs) = drop k (filter P xs)"
proof -
  have "filter P xs = filter P (take n xs) @ filter P (drop n xs)"
    by (metis append_take_drop_id filter_append)
  then show ?thesis
    by (intro exI [of _ "length (filter P (take n xs))"]) simp
qed

section \<open>Byte strings of words\<close>

text \<open>
  \<open>le_bytes n w\<close> is the first \<open>n\<close> bytes of the object representation of \<open>w\<close>;
  \<open>of_le\<close> reads a byte string back as an integer.
\<close>

definition le_bytes :: "nat \<Rightarrow> 'a::len word \<Rightarrow> bytes" where
  "le_bytes n w = map (\<lambda>i. ucast (drop_bit (8 * i) w)) [0..<n]"

fun of_le :: "bytes \<Rightarrow> 'a::len word" where
  "of_le [] = 0"
| "of_le (b # bs) = ucast b OR push_bit 8 (of_le bs)"

lemma length_le_bytes [simp]: "length (le_bytes n w) = n"
  by (simp add: le_bytes_def)

lemma nth_le_bytes: "i < n \<Longrightarrow> le_bytes n w ! i = ucast (drop_bit (8 * i) w)"
  by (simp add: le_bytes_def)

lemma bit_le_bytes:
  "i < n \<Longrightarrow> bit (le_bytes n (w :: 'a::len word) ! i) j \<longleftrightarrow> j < 8 \<and> bit w (8 * i + j)"
  by (auto simp: nth_le_bytes bit_simps ac_simps dest: bit_imp_le_length)

lemma bit_of_le:
  "bit (of_le bs :: 'a::len word) i \<longleftrightarrow>
     i < LENGTH('a) \<and> i div 8 < length bs \<and> bit (bs ! (i div 8)) (i mod 8)"
proof (induction bs arbitrary: i)
  case Nil
  then show ?case by simp
next
  case (Cons b bs)
  show ?case
  proof (cases "i < 8")
    case True
    then show ?thesis by (auto simp: bit_simps)
  next
    case False
    then have "bit (ucast b :: 'a word) i = False"
      by (auto simp: bit_simps dest: bit_imp_le_length)
    moreover have "(i - 8) div 8 = i div 8 - 1" "(i - 8) mod 8 = i mod 8" "0 < i div 8"
      using False by (auto simp: le_div_geq le_mod_geq)
    moreover from this have "i div 8 < Suc (length bs) \<longleftrightarrow> i div 8 - 1 < length bs"
      by linarith
    ultimately show ?thesis
      using False Cons.IH [of "i - 8"] by (auto simp: bit_simps nth_Cons')
  qed
qed

lemma of_le_le_bytes:
  assumes "LENGTH('a) = 8 * n"
  shows "of_le (le_bytes n w) = (w :: 'a::len word)"
proof (rule bit_word_eqI)
  fix i assume "i < LENGTH('a)"
  with assms have "i div 8 < n" by simp
  then show "bit (of_le (le_bytes n w) :: 'a word) i = bit w i"
    using \<open>i < LENGTH('a)\<close> by (simp add: bit_of_le bit_le_bytes)
qed

lemma le_bytes_of_le:
  assumes "length bs = n" and "LENGTH('a) = 8 * n"
  shows "le_bytes n (of_le bs :: 'a::len word) = bs"
proof (rule nth_equalityI)
  show "length (le_bytes n (of_le bs :: 'a word)) = length bs" using assms by simp
next
  fix i assume "i < length (le_bytes n (of_le bs :: 'a word))"
  then have i: "i < n" by simp
  show "le_bytes n (of_le bs :: 'a word) ! i = bs ! i"
  proof (rule bit_word_eqI)
    fix j assume "j < LENGTH(8)"
    then show "bit (le_bytes n (of_le bs :: 'a word) ! i) j = bit (bs ! i) j"
      using i assms by (simp add: bit_le_bytes bit_of_le)
  qed
qed

section \<open>Byte buffers with checked access\<close>

text \<open>
  \<open>peek\<close> and \<open>poke\<close> are \<open>memcpy\<close> from and to a buffer; they are \<open>None\<close>
  when the range leaves the buffer.
\<close>

definition peek :: "'a list \<Rightarrow> nat \<Rightarrow> nat \<Rightarrow> 'a list option" where
  "peek buf off n = (if off + n \<le> length buf then Some (take n (drop off buf)) else None)"

definition poke :: "'a list \<Rightarrow> nat \<Rightarrow> 'a list \<Rightarrow> 'a list option" where
  "poke buf off bs =
     (if off + length bs \<le> length buf
      then Some (take off buf @ bs @ drop (off + length bs) buf) else None)"

lemma poke_Some_iff [buf_simps]: "(\<exists>b. poke buf off bs = Some b) \<longleftrightarrow> off + length bs \<le> length buf"
  by (simp add: poke_def)

lemma peek_Some_iff [buf_simps]: "(\<exists>b. peek buf off n = Some b) \<longleftrightarrow> off + n \<le> length buf"
  by (simp add: peek_def)

lemma poke_in_range: "off + length bs \<le> length buf \<Longrightarrow>
    poke buf off bs = Some (take off buf @ bs @ drop (off + length bs) buf)"
  by (simp add: poke_def)

lemma length_poke: "poke buf off bs = Some b \<Longrightarrow> length b = length buf"
  by (auto simp: poke_def split: if_splits)

lemma peek_length: "peek buf off n = Some b \<Longrightarrow> length b = n"
  by (auto simp: peek_def split: if_splits)

lemma nth_poke: "poke buf off bs = Some b \<Longrightarrow> i < length buf \<Longrightarrow>
    b ! i = (if off \<le> i \<and> i < off + length bs then bs ! (i - off) else buf ! i)"
  by (auto simp: poke_def nth_append min_def split: if_splits)

lemma peek_eqI:
  assumes "length b = length b'"
    and "\<And>i. off \<le> i \<Longrightarrow> i < off + n \<Longrightarrow> i < length b \<Longrightarrow> b ! i = b' ! i"
  shows "peek b off n = peek b' off n"
proof (cases "off + n \<le> length b")
  case True
  then have "take n (drop off b) = take n (drop off b')"
    using assms by (intro nth_equalityI) auto
  with True assms(1) show ?thesis by (simp add: peek_def)
next
  case False
  with assms(1) show ?thesis by (simp add: peek_def)
qed

lemma peek_poke_same: "poke buf off bs = Some b \<Longrightarrow> peek b off (length bs) = Some bs"
  by (auto simp: poke_def peek_def split: if_splits)

lemma peek_poke_disjoint:
  assumes "poke buf off bs = Some b" and "o' + n \<le> off \<or> off + length bs \<le> o'"
  shows "peek b o' n = peek buf o' n"
proof (rule peek_eqI)
  show len: "length b = length buf" using assms(1) by (rule length_poke)
  fix i assume "o' \<le> i" "i < o' + n" "i < length b"
  with assms len show "b ! i = buf ! i" by (auto simp: nth_poke)
qed

section \<open>Index arithmetic under a power-of-two mask\<close>

text \<open>
  A mask of \<open>k\<close> ones computes modulo \<open>2 ^ k\<close>, also across the wrap-around of the
  machine word, because \<open>2 ^ k\<close> divides the modulus of the word.
\<close>

lemma uint_and_mask: "uint (x AND mask k :: 'a::len word) = uint x mod 2 ^ k"
  by (simp add: unsigned_take_bit_eq flip: take_bit_eq_mask) (simp add: take_bit_eq_mod)

lemma unat_and_mask: "unat (x AND mask k :: 'a::len word) = unat x mod 2 ^ k"
  by (simp add: unsigned_take_bit_eq flip: take_bit_eq_mask) (simp add: take_bit_eq_mod)

lemma uint_minus_mask:
  assumes "k \<le> LENGTH('a)"
  shows "uint ((a - b) AND mask k :: 'a::len word) = (uint a - uint b) mod 2 ^ k"
proof -
  have "(2::int) ^ k dvd 2 ^ LENGTH('a)" using assms by (rule le_imp_power_dvd)
  then show ?thesis
    by (simp add: uint_and_mask uint_word_ariths mod_mod_cancel)
qed

lemma uint_plus_mask:
  assumes "k \<le> LENGTH('a)"
  shows "uint ((a + b) AND mask k :: 'a::len word) = (uint a + uint b) mod 2 ^ k"
proof -
  have "(2::int) ^ k dvd 2 ^ LENGTH('a)" using assms by (rule le_imp_power_dvd)
  then show ?thesis
    by (simp add: uint_and_mask uint_word_ariths mod_mod_cancel)
qed

lemma unat_Suc_mask:
  assumes "k \<le> LENGTH('a)"
  shows "unat ((a + 1) AND mask k :: 'a::len word) = Suc (unat a) mod 2 ^ k"
proof -
  have "int (unat ((a + 1) AND mask k)) = int (Suc (unat a) mod 2 ^ k)"
    using uint_plus_mask [OF assms, of a 1] by (simp add: zmod_int add.commute mod_add_left_eq)
  then show ?thesis by (simp only: of_nat_eq_iff)
qed

section \<open>Natural numbers as words\<close>

lemma unat_less: "unat (x :: 'a::len word) < 2 ^ LENGTH('a)"
  by (rule unsigned_less)

lemma unat_word_of_nat: "n < 2 ^ LENGTH('a) \<Longrightarrow> unat (word_of_nat n :: 'a::len word) = n"
  by (simp add: unsigned_of_nat take_bit_nat_eq_self)

lemma unat_two_power: "k < LENGTH('a) \<Longrightarrow> unat (2 ^ k :: 'a::len word) = 2 ^ k"
  using unat_word_of_nat [where 'a = 'a, of "2 ^ k"] by simp

lemma word_of_nat_less:
  fixes w :: "'a::len word"
  assumes "n < unat w"
  shows "word_of_nat n < w"
proof -
  have "unat w < 2 ^ LENGTH('a)" by (rule unsigned_less)
  then have "unat (word_of_nat n :: 'a word) = n"
    using assms by (metis order.strict_trans unat_word_of_nat)
  with assms show ?thesis by (simp add: word_less_nat_alt)
qed

end
