(* ===== verification/Timestamp.thy ===== *)
theory Timestamp
  imports Hogl_Prelude
begin

text \<open>
  Timestamps (\<^verbatim>\<open>include/hogl/detail/timestamp.hpp\<close>): the default build, which
  keeps nanoseconds in the 64-bit member of the union, and the build with
  \<^verbatim>\<open>HOGL_TIMESTAMP_USE_TIMESPEC_FORMAT\<close> (prefix \<open>tsf_\<close>), which keeps a
  \<^verbatim>\<open>timespec\<close> in the two 32-bit members of the same union.
\<close>

section \<open>Definitions\<close>

text \<open>\<^verbatim>\<open>struct timespec\<close>: two 64-bit integers, here as bit patterns.\<close>

record timespec =
  tv_sec :: u64
  tv_nsec :: u64

type_synonym timestamp = u64 \<comment> \<open>the member \<^verbatim>\<open>_v.u64\<close>\<close>

definition nsec_per_sec :: u32 where
  "nsec_per_sec = 1000000000"

definition ts_less :: "timestamp \<Rightarrow> timestamp \<Rightarrow> bool" where
  "ts_less a b \<longleftrightarrow> a < b"

definition ts_greater :: "timestamp \<Rightarrow> timestamp \<Rightarrow> bool" where
  "ts_greater a b \<longleftrightarrow> a > b"

definition ts_eq :: "timestamp \<Rightarrow> timestamp \<Rightarrow> bool" where
  "ts_eq a b \<longleftrightarrow> a = b"

subsection \<open>Nanosecond format\<close>

definition from_timespec :: "timespec \<Rightarrow> timestamp" where
  "from_timespec ts = tv_sec ts * ucast nsec_per_sec + tv_nsec ts"

definition to_timespec :: "timestamp \<Rightarrow> timespec" where
  "to_timespec t = \<lparr>tv_sec = t div ucast nsec_per_sec, tv_nsec = t mod ucast nsec_per_sec\<rparr>"

definition from_nsec :: "u64 \<Rightarrow> timestamp" where
  "from_nsec n = n"

definition to_nsec :: "timestamp \<Rightarrow> u64" where
  "to_nsec t = t"

definition from_usec :: "u64 \<Rightarrow> timestamp" where
  "from_usec u = from_nsec (u * 1000)"

definition to_usec :: "timestamp \<Rightarrow> u64" where
  "to_usec t = to_nsec t div 1000"

definition from_msec :: "u64 \<Rightarrow> timestamp" where
  "from_msec m = from_nsec (m * 1000 * 1000)"

definition to_msec :: "timestamp \<Rightarrow> u64" where
  "to_msec t = to_nsec t div (1000 * 1000)"

definition from_sec :: "u64 \<Rightarrow> timestamp" where
  "from_sec s = from_nsec (s * ucast nsec_per_sec)"

definition to_sec :: "timestamp \<Rightarrow> u64" where
  "to_sec t = to_nsec t div ucast nsec_per_sec"

text \<open>The increments and the arithmetic operators; \<^verbatim>\<open>int\<close> operands are sign-extended.\<close>

definition ts_inc :: "timestamp \<Rightarrow> timestamp" where
  "ts_inc t = from_nsec (to_nsec t + 1)"

definition ts_dec :: "timestamp \<Rightarrow> timestamp" where
  "ts_dec t = from_nsec (to_nsec t - 1)"

definition ts_plus :: "timestamp \<Rightarrow> u64 \<Rightarrow> timestamp" where
  "ts_plus t a = from_nsec (to_nsec t + a)"

definition ts_minus :: "timestamp \<Rightarrow> u64 \<Rightarrow> timestamp" where
  "ts_minus t m = from_nsec (to_nsec t - m)"

definition ts_plus_int :: "timestamp \<Rightarrow> u32 \<Rightarrow> timestamp" where
  "ts_plus_int t a = from_nsec (to_nsec t + scast a)"

definition ts_minus_int :: "timestamp \<Rightarrow> u32 \<Rightarrow> timestamp" where
  "ts_minus_int t m = from_nsec (to_nsec t - scast m)"

definition ts_diff :: "timestamp \<Rightarrow> timestamp \<Rightarrow> timestamp" where
  "ts_diff a b = from_nsec (to_nsec a - to_nsec b)"

definition ts_sum :: "timestamp \<Rightarrow> timestamp \<Rightarrow> timestamp" where
  "ts_sum a b = from_nsec (to_nsec a + to_nsec b)"

subsection \<open>Timespec format\<close>

text \<open>
  On a little-endian target the first member of the struct (\<^verbatim>\<open>sec\<close>) is the
  least significant half of the 64-bit member.
\<close>

definition tsf_union :: "u32 \<Rightarrow> u32 \<Rightarrow> timestamp" where
  "tsf_union sec nsec = ucast sec OR push_bit 32 (ucast nsec)"

definition tsf_sec :: "timestamp \<Rightarrow> u32" where
  "tsf_sec t = ucast t"

definition tsf_nsec :: "timestamp \<Rightarrow> u32" where
  "tsf_nsec t = ucast (drop_bit 32 t)"

definition tsf_from_timespec :: "timespec \<Rightarrow> timestamp" where
  "tsf_from_timespec ts = tsf_union (ucast (tv_sec ts)) (ucast (tv_nsec ts))"

definition tsf_to_timespec :: "timestamp \<Rightarrow> timespec" where
  "tsf_to_timespec t = \<lparr>tv_sec = ucast (tsf_sec t), tv_nsec = ucast (tsf_nsec t)\<rparr>"

definition tsf_from_nsec :: "u64 \<Rightarrow> timestamp" where
  "tsf_from_nsec n = tsf_union (ucast (n div ucast nsec_per_sec)) (ucast (n mod ucast nsec_per_sec))"

text \<open>Both operands of the product are \<^verbatim>\<open>unsigned int\<close>, so it is computed modulo $2^{32}$.\<close>

definition tsf_to_nsec :: "timestamp \<Rightarrow> u64" where
  "tsf_to_nsec t = ucast (tsf_sec t * nsec_per_sec + tsf_nsec t)"

section \<open>Properties of the nanosecond format\<close>

definition valid_timespec :: "timespec \<Rightarrow> bool" where
  "valid_timespec ts \<longleftrightarrow> unat (tv_nsec ts) < 1000000000 \<and>
     unat (tv_sec ts) * 1000000000 + unat (tv_nsec ts) < 2 ^ 64"

lemma unat_nsec_per_sec [simp]: "unat (ucast nsec_per_sec :: u64) = 1000000000"
  by (simp add: nsec_per_sec_def)

lemma unat_from_timespec:
  "valid_timespec ts \<Longrightarrow>
     unat (from_timespec ts) = unat (tv_sec ts) * 1000000000 + unat (tv_nsec ts)"
  by (simp add: from_timespec_def valid_timespec_def unat_word_ariths)

text \<open>
  Converting a \<^verbatim>\<open>timespec\<close> whose nanoseconds since the epoch fit 64 bits to a
  timestamp and back gives the \<^verbatim>\<open>timespec\<close>.
\<close>

lemma timespec_roundtrip:
  assumes "valid_timespec ts"
  shows "to_timespec (from_timespec ts) = ts"
proof -
  note u = unat_from_timespec [OF assms]
  have "from_timespec ts div ucast nsec_per_sec = tv_sec ts"
    using assms by (intro word_unat_eq_iff [THEN iffD2]) (simp add: unat_div u valid_timespec_def)
  moreover have "from_timespec ts mod ucast nsec_per_sec = tv_nsec ts"
    using assms by (intro word_unat_eq_iff [THEN iffD2]) (simp add: unat_mod u valid_timespec_def)
  ultimately show ?thesis by (simp add: to_timespec_def)
qed

text \<open>
  The 64-bit comparison of timestamps is the chronological order of the
  \<^verbatim>\<open>timespec\<close>s they were made from (seconds first, then nanoseconds).
\<close>

lemma timestamp_order_chronological:
  assumes "valid_timespec a" and "valid_timespec b"
  shows "ts_less (from_timespec a) (from_timespec b) \<longleftrightarrow>
     tv_sec a < tv_sec b \<or> (tv_sec a = tv_sec b \<and> tv_nsec a < tv_nsec b)"
proof -
  have "unat (tv_nsec a) < 1000000000" "unat (tv_nsec b) < 1000000000"
    using assms by (simp_all add: valid_timespec_def)
  then show ?thesis
    by (auto simp: ts_less_def word_less_nat_alt word_unat_eq_iff
        unat_from_timespec [OF assms(1)] unat_from_timespec [OF assms(2)])
qed

section \<open>The timespec format\<close>

lemma tsf_sec_union [simp]: "tsf_sec (tsf_union s n) = s"
  by (rule bit_word_eqI) (auto simp: tsf_sec_def tsf_union_def bit_simps)

lemma tsf_nsec_union [simp]: "tsf_nsec (tsf_union s n) = n"
  by (rule bit_word_eqI) (auto simp: tsf_nsec_def tsf_union_def bit_simps dest: bit_imp_le_length)

lemma tsf_timespec_roundtrip:
  assumes "unat (tv_sec ts) < 2 ^ 32" and "unat (tv_nsec ts) < 2 ^ 32"
  shows "tsf_to_timespec (tsf_from_timespec ts) = ts"
proof -
  have "ucast (ucast x :: u32) = x" if "unat x < 2 ^ 32" for x :: u64
    using that by (simp add: word_unat_eq_iff unsigned_ucast_eq unsigned_take_bit_eq take_bit_nat_eq_self)
  with assms show ?thesis
    by (simp add: tsf_to_timespec_def tsf_from_timespec_def)
qed

text \<open>
  In the timespec format the 64-bit value does not order timestamps
  chronologically (the seconds sit in the low half), and the conversion to nanoseconds
  wraps modulo $2^{32}$, so the two functions of the format are not inverse on any time
  past the first four seconds shown here.
\<close>

lemma timespec_format_unordered_and_wraps:
  "ts_less (tsf_from_timespec \<lparr>tv_sec = 2, tv_nsec = 0\<rparr>) (tsf_from_timespec \<lparr>tv_sec = 1, tv_nsec = 5\<rparr>)
   \<and> tsf_to_nsec (tsf_from_nsec 5000000000) = 705032704"
proof
  show "ts_less (tsf_from_timespec \<lparr>tv_sec = 2, tv_nsec = 0\<rparr>)
      (tsf_from_timespec \<lparr>tv_sec = 1, tv_nsec = 5\<rparr>)"
    by (simp add: ts_less_def tsf_from_timespec_def tsf_union_def push_bit_eq_mult)
  show "tsf_to_nsec (tsf_from_nsec 5000000000) = 705032704"
    by (simp add: tsf_to_nsec_def tsf_from_nsec_def nsec_per_sec_def)
qed

end
