(* ===== verification/Timesource.thy ===== *)
theory Timesource
  imports Timestamp
begin

text \<open>
  Time sources (\<^verbatim>\<open>include/hogl/detail/timesource.hpp\<close>, \<^verbatim>\<open>src/timesource.cc\<close>) and the built-in ones
  (\<^verbatim>\<open>src/default-timesource.cc\<close>). A callback reads the clocks of the system, which are an argument;
  on QNX the monotonic clock is computed from the cycle counter, in 128 bits where the compiler has
  such a type and in 64 bits otherwise.
\<close>

section \<open>Definitions\<close>

text \<open>What the callbacks can read: two clocks, the cycle counter and its rate.\<close>

record clocks =
  clk_realtime :: timespec
  clk_monotonic :: timespec
  clk_cycles :: u64
  clk_cycles_per_sec :: u64

record timesource =
  src_callback :: "clocks \<Rightarrow> timestamp"
  src_name :: string

definition timesource_new :: "string \<Rightarrow> (clocks \<Rightarrow> timestamp) \<Rightarrow> timesource" where
  "timesource_new name cb = \<lparr>src_callback = cb, src_name = name\<rparr>"

definition timesource_copy :: "timesource \<Rightarrow> timesource" where
  "timesource_copy ts = \<lparr>src_callback = src_callback ts, src_name = src_name ts\<rparr>"

definition timesource_timestamp :: "timesource \<Rightarrow> clocks \<Rightarrow> timestamp" where
  "timesource_timestamp ts k = src_callback ts k"

definition clock_realtime :: "clocks \<Rightarrow> timestamp" where
  "clock_realtime k = from_timespec (clk_realtime k)"

definition clock_monotonic :: "clocks \<Rightarrow> timestamp" where
  "clock_monotonic k = from_timespec (clk_monotonic k)"

text \<open>QNX: the nanoseconds per cycle as a fixed-point number; \<open>None\<close> is the division by zero.\<close>

definition nspc_scaled :: "nat \<Rightarrow> u64 \<Rightarrow> u64 option" where
  "nspc_scaled SCALE cps = (if cps = 0 then None else Some (push_bit SCALE 1000000000 div cps))"

definition clock_monotonic_qnx128 :: "clocks \<Rightarrow> timestamp option" where
  "clock_monotonic_qnx128 k = do {
     nspc \<leftarrow> nspc_scaled 30 (clk_cycles_per_sec k);
     let nsec = drop_bit 30 (ucast nspc * ucast (clk_cycles k) :: 128 word);
     Some (from_nsec (ucast nsec)) }"

definition clock_monotonic_qnx64 :: "clocks \<Rightarrow> timestamp option" where
  "clock_monotonic_qnx64 k = do {
     nspc \<leftarrow> nspc_scaled 10 (clk_cycles_per_sec k);
     let nsec = drop_bit 10 (nspc * clk_cycles k);
     Some (from_nsec nsec) }"

definition realtime_timesource :: timesource where
  "realtime_timesource = timesource_new ''clock_realtime'' clock_realtime"

definition monotonic_timesource :: timesource where
  "monotonic_timesource = timesource_new ''clock_monotonic'' clock_monotonic"

definition default_timesource :: timesource where
  "default_timesource = timesource_new ''clock_realtime'' clock_realtime"

section \<open>Fixed-point arithmetic\<close>

text \<open>
  Multiplying with a rounded-down fixed-point quotient: never above the exact value, and below it by
  at most one unit and one for each \<open>2 ^ s\<close> of the factor.
\<close>

lemma fixed_point_bounds:
  fixes c p q s :: nat
  assumes "0 < p"
  shows "(q * 2 ^ s div p) * c div 2 ^ s \<le> q * c div p"
    and "q * c div p \<le> (q * 2 ^ s div p) * c div 2 ^ s + c div 2 ^ s + 1"
proof -
  define n where "n = q * 2 ^ s div p"
  define r where "r = q * 2 ^ s mod p"
  define m where "m = n * c div 2 ^ s"
  define e where "e = q * c div p"
  have n: "n * p + r = q * 2 ^ s" "r < p" using assms by (simp_all add: n_def r_def)
  have m: "m * 2 ^ s \<le> n * c" "n * c < (m + 1) * 2 ^ s"
    by (simp_all add: m_def div_times_less_eq_dividend dividend_less_div_times)
  have e: "e * p \<le> q * c" by (simp add: e_def)
  have c: "c < (c div 2 ^ s + 1) * 2 ^ s" by (simp add: dividend_less_div_times)
  have "m * 2 ^ s * p \<le> n * c * p" using m(1) by (rule mult_le_mono1)
  also have "\<dots> \<le> q * 2 ^ s * c" unfolding n(1) [symmetric] by (simp add: algebra_simps)
  finally have "(m * p) * 2 ^ s \<le> (q * c) * 2 ^ s" by (simp add: algebra_simps)
  then show "m \<le> e" using assms by (simp add: e_def less_eq_div_iff_mult_less_eq)
  have "e * p * 2 ^ s \<le> q * c * 2 ^ s" using e by (rule mult_le_mono1)
  also have "\<dots> = (q * 2 ^ s) * c" by (simp add: algebra_simps)
  also have "\<dots> = (n * c) * p + r * c" unfolding n(1) [symmetric] by (simp add: algebra_simps)
  also have "\<dots> < (m + 1) * 2 ^ s * p + (c div 2 ^ s + 1) * 2 ^ s * p"
  proof (rule add_less_le_mono)
    show "n * c * p < (m + 1) * 2 ^ s * p" using m(2) assms by (rule mult_less_mono1)
    have "r * c \<le> p * c" using n(2) by simp
    also have "\<dots> \<le> p * ((c div 2 ^ s + 1) * 2 ^ s)" using c by (intro mult_le_mono2) simp
    finally show "r * c \<le> (c div 2 ^ s + 1) * 2 ^ s * p" by (simp add: algebra_simps)
  qed
  also have "\<dots> = (m + c div 2 ^ s + 2) * p * 2 ^ s" by (simp add: algebra_simps)
  finally have "e * p < (m + c div 2 ^ s + 2) * p" unfolding mult_less_cancel2 ..
  then have "e < m + c div 2 ^ s + 2" unfolding mult_less_cancel2 ..
  then show "e \<le> m + c div 2 ^ s + 1" by simp
qed

lemma nspc_scaled_unat:
  assumes "cps \<noteq> 0" and "s \<le> 30"
  shows "\<exists>n. nspc_scaled s cps = Some n \<and> unat n = 10 ^ 9 * 2 ^ s div unat cps"
proof -
  have "10 ^ 9 * 2 ^ s \<le> (10 ^ 9 * 2 ^ 30 :: nat)" using assms(2) by (intro mult_le_mono2 power_increasing) auto
  then have "unat (push_bit s (1000000000 :: u64)) = 10 ^ 9 * 2 ^ s"
    unfolding unsigned_push_bit_eq by (simp add: push_bit_eq_mult take_bit_nat_eq_self)
  then show ?thesis using assms(1) by (simp add: nspc_scaled_def unat_div)
qed

lemma qnx128_value:
  assumes "clk_cycles_per_sec k \<noteq> 0"
  shows "\<exists>t. clock_monotonic_qnx128 k = Some t
    \<and> unat t = ((10 ^ 9 * 2 ^ 30 div unat (clk_cycles_per_sec k)) * unat (clk_cycles k) div 2 ^ 30) mod 2 ^ 64"
proof -
  obtain n where n: "nspc_scaled 30 (clk_cycles_per_sec k) = Some n"
    "unat n = 10 ^ 9 * 2 ^ 30 div unat (clk_cycles_per_sec k)"
    using nspc_scaled_unat [OF assms, of 30] by auto
  have small: "unat w < 2 ^ 128" for w :: u64 using unat_less [of w] by simp
  have "unat n * unat (clk_cycles k) < 2 ^ 64 * 2 ^ 64"
    using unat_less [of n] unat_less [of "clk_cycles k"] by (intro mult_strict_mono) auto
  then have "unat (ucast n * ucast (clk_cycles k) :: 128 word) = unat n * unat (clk_cycles k)"
    using small by (simp add: unat_word_ariths unsigned_ucast_eq take_bit_nat_eq_self)
  then show ?thesis
    using n(1) unfolding n(2) by (simp add: clock_monotonic_qnx128_def from_nsec_def unsigned_ucast_eq
        drop_bit_eq_div unat_div take_bit_eq_mod)
qed

lemma qnx64_value:
  assumes "clk_cycles_per_sec k \<noteq> 0"
  shows "\<exists>t. clock_monotonic_qnx64 k = Some t
    \<and> unat t = ((10 ^ 9 * 2 ^ 10 div unat (clk_cycles_per_sec k)) * unat (clk_cycles k)) mod 2 ^ 64 div 2 ^ 10"
proof -
  obtain n where n: "nspc_scaled 10 (clk_cycles_per_sec k) = Some n"
    "unat n = 10 ^ 9 * 2 ^ 10 div unat (clk_cycles_per_sec k)"
    using nspc_scaled_unat [OF assms, of 10] by auto
  then show ?thesis
    by (simp add: clock_monotonic_qnx64_def from_nsec_def unsigned_drop_bit_eq drop_bit_eq_div unat_word_ariths)
qed

section \<open>Properties\<close>

text \<open>
  C29: the monotonic clock computed from the cycle counter. Let \<open>e\<close> be the exact number of whole
  nanoseconds for the cycles counted. As long as \<open>e\<close> is below \<open>2 ^ 64\<close>, the 128-bit computation never
  runs ahead of \<open>e\<close>, and lags behind it by at most one nanosecond and one for each \<open>2 ^ 30\<close> cycles.
  The 64-bit computation is within one nanosecond and one for each \<open>2 ^ 10\<close> cycles, but only below
  \<open>2 ^ 54\<close>: its result never reaches \<open>2 ^ 54\<close> nanoseconds (208 days), whatever the counter says.
\<close>

theorem qnx_clock_bounds:
  assumes "clk_cycles_per_sec k \<noteq> 0"
  defines "c \<equiv> unat (clk_cycles k)" and "e \<equiv> 10 ^ 9 * unat (clk_cycles k) div unat (clk_cycles_per_sec k)"
  shows "\<exists>t t'. clock_monotonic_qnx128 k = Some t \<and> clock_monotonic_qnx64 k = Some t'
    \<and> (e < 2 ^ 64 \<longrightarrow> unat t \<le> e \<and> e \<le> unat t + c div 2 ^ 30 + 1)
    \<and> (e < 2 ^ 54 \<longrightarrow> unat t' \<le> e \<and> e \<le> unat t' + c div 2 ^ 10 + 1)
    \<and> unat t' < 2 ^ 54"
proof -
  let ?p = "unat (clk_cycles_per_sec k)"
  have p: "0 < ?p" using assms(1) by (simp add: unat_gt_0)
  obtain t t' where t: "clock_monotonic_qnx128 k = Some t" "unat t = ((10 ^ 9 * 2 ^ 30 div ?p) * c div 2 ^ 30) mod 2 ^ 64"
    and t': "clock_monotonic_qnx64 k = Some t'" "unat t' = ((10 ^ 9 * 2 ^ 10 div ?p) * c) mod 2 ^ 64 div 2 ^ 10"
    using qnx128_value [OF assms(1)] qnx64_value [OF assms(1)] unfolding c_def by blast
  have b: "(10 ^ 9 * 2 ^ s div ?p) * c div 2 ^ s \<le> e" "e \<le> (10 ^ 9 * 2 ^ s div ?p) * c div 2 ^ s + c div 2 ^ s + 1" for s
    unfolding e_def c_def by (rule fixed_point_bounds [OF p])+
  have "unat t \<le> e \<and> e \<le> unat t + c div 2 ^ 30 + 1" if "e < 2 ^ 64"
    using b [of 30] that unfolding t(2) by simp
  moreover have "unat t' \<le> e \<and> e \<le> unat t' + c div 2 ^ 10 + 1" if "e < 2 ^ 54"
  proof -
    have "(10 ^ 9 * 2 ^ 10 div ?p) * c div 2 ^ 10 < 2 ^ 54" using b(1) [of 10] that by linarith
    then have "(10 ^ 9 * 2 ^ 10 div ?p) * c < 2 ^ 64" by (simp add: div_less_iff_less_mult)
    then show ?thesis using b [of 10] unfolding t'(2) by simp
  qed
  moreover have "unat t' < 2 ^ 54" unfolding t'(2) by (simp add: div_less_iff_less_mult)
  ultimately show ?thesis using t(1) t'(1) by blast
qed

definition qnx_clock :: "u64 \<Rightarrow> clocks" where
  "qnx_clock c = \<lparr>clk_realtime = \<lparr>tv_sec = 0, tv_nsec = 0\<rparr>, clk_monotonic = \<lparr>tv_sec = 0, tv_nsec = 0\<rparr>,
     clk_cycles = c, clk_cycles_per_sec = 2400000000\<rparr>"

theorem qnx_clock_bounds_witness:
  "clk_cycles_per_sec (qnx_clock 24000000000) \<noteq> 0
    \<and> (\<exists>t t'. clock_monotonic_qnx128 (qnx_clock 24000000000) = Some t \<and> clock_monotonic_qnx64 (qnx_clock 24000000000) = Some t'
      \<and> unat t \<le> 10000000000 \<and> 10000000000 \<le> unat t + 23 \<and> unat t' \<le> 10000000000)"
  using qnx_clock_bounds [of "qnx_clock 24000000000"] by (auto simp: qnx_clock_def)

end
