(* ===== verification/Bitmap.thy ===== *)
theory Bitmap
  imports Hogl_Prelude
begin

text \<open>
  The section bitmap (\<^verbatim>\<open>include/hogl/detail/bitmap.hpp\<close>) on a target with 64-bit
  words: an array of words and a number of bits. \<^verbatim>\<open>new word[n]\<close> leaves the words
  uninitialised, so their contents are an argument (\<open>junk\<close>) of the model. An access
  outside the array is \<open>None\<close>. The locale \<open>bitset\<close> is the contract the users of
  a bitmap rely on; it is interpreted on the bitmap at the end of this theory and on the
  logging area in theory \<open>Area\<close>.
\<close>

section \<open>Definitions\<close>

record bitmap =
  bm_data :: "u64 list"
  bm_size :: u32

definition bm_nwords :: "u32 \<Rightarrow> u32" where
  "bm_nwords s = (s + 64 - 1) div 64"

definition bm_nbytes :: "u32 \<Rightarrow> u32" where
  "bm_nbytes s = (s + 8 - 1) div 8"

definition bm_which_word :: "u32 \<Rightarrow> u32" where
  "bm_which_word b = b div 64"

definition bm_which_bit :: "u32 \<Rightarrow> u32" where
  "bm_which_bit b = b AND (64 - 1)"

definition bm_resize :: "(nat \<Rightarrow> u64) \<Rightarrow> u32 \<Rightarrow> bitmap" where
  "bm_resize junk s = \<lparr>bm_data = map junk [0..<unat (bm_nwords s)], bm_size = s\<rparr>"

text \<open>\<^verbatim>\<open>memset(data, b, n)\<close> on an array of little-endian words.\<close>

fun memset_words :: "u8 \<Rightarrow> nat \<Rightarrow> u64 list \<Rightarrow> u64 list option" where
  "memset_words b 0 ws = Some ws"
| "memset_words b (Suc n) [] = None"
| "memset_words b (Suc n) (w # ws) =
     map_option ((#) (of_le (replicate (min (Suc n) 8) b @ drop (min (Suc n) 8) (le_bytes 8 w))))
       (memset_words b (Suc n - 8) ws)"

definition bm_set_all :: "bitmap \<Rightarrow> bitmap option" where
  "bm_set_all b = map_option (\<lambda>d. b\<lparr>bm_data := d\<rparr>)
     (memset_words 0xff (unat (bm_nbytes (bm_size b))) (bm_data b))"

definition bm_reset_all :: "bitmap \<Rightarrow> bitmap option" where
  "bm_reset_all b = map_option (\<lambda>d. b\<lparr>bm_data := d\<rparr>)
     (memset_words 0 (unat (bm_nbytes (bm_size b))) (bm_data b))"

definition bm_set :: "bitmap \<Rightarrow> u32 \<Rightarrow> bool \<Rightarrow> bitmap option" where
  "bm_set b i v =
     (let w = unat (bm_which_word i); m = push_bit (unat (bm_which_bit i)) (1 :: u64) in
      if w < length (bm_data b)
      then Some (b\<lparr>bm_data := (bm_data b)[w := (if v then bm_data b ! w OR m
                                               else bm_data b ! w AND NOT m)]\<rparr>)
      else None)"

definition bm_test :: "bitmap \<Rightarrow> u32 \<Rightarrow> bool option" where
  "bm_test b i =
     (let w = unat (bm_which_word i); m = push_bit (unat (bm_which_bit i)) (1 :: u64) in
      if w < length (bm_data b) then Some (bm_data b ! w AND m \<noteq> 0) else None)"

definition bm_reset :: "bitmap \<Rightarrow> u32 \<Rightarrow> bitmap option" where
  "bm_reset b i = bm_set b i False"

definition bm_new :: "(nat \<Rightarrow> u64) \<Rightarrow> u32 \<Rightarrow> bitmap option" where
  "bm_new junk s = bm_reset_all (bm_resize junk s)"

text \<open>The copy constructor copies \<^verbatim>\<open>nbytes\<close> bytes; the rest of the last word stays uninitialised.\<close>

fun memcpy_words :: "nat \<Rightarrow> u64 list \<Rightarrow> u64 list \<Rightarrow> u64 list option" where
  "memcpy_words 0 dst src = Some dst"
| "memcpy_words (Suc n) (d # dst) (s # src) =
     map_option ((#) (of_le (take (min (Suc n) 8) (le_bytes 8 s) @ drop (min (Suc n) 8) (le_bytes 8 d))))
       (memcpy_words (Suc n - 8) dst src)"
| "memcpy_words (Suc n) _ _ = None"

definition bm_copy :: "(nat \<Rightarrow> u64) \<Rightarrow> bitmap \<Rightarrow> bitmap option" where
  "bm_copy junk b =
     (let c = bm_resize junk (bm_size b) in
      map_option (\<lambda>d. c\<lparr>bm_data := d\<rparr>)
        (memcpy_words (unat (bm_nbytes (bm_size b))) (bm_data c) (bm_data b)))"

text \<open>
  A bitmap is well-formed when its array has the words \<open>bm_nwords\<close> asks for and the
  computation of that number did not wrap.
\<close>

definition bm_wf :: "bitmap \<Rightarrow> bool" where
  "bm_wf b \<longleftrightarrow> length (bm_data b) = unat (bm_nwords (bm_size b)) \<and> unat (bm_size b) \<le> 2 ^ 32 - 64"

section \<open>Bits of the array\<close>

lemma unat_bm_nwords: "unat s \<le> 2 ^ 32 - 64 \<Longrightarrow> unat (bm_nwords s) = (unat s + 63) div 64"
proof -
  assume s: "unat s \<le> 2 ^ 32 - 64"
  have "bm_nwords s = (s + 63) div 64" by (simp add: bm_nwords_def add.commute)
  moreover have "unat (s + 63) = unat s + 63"
    using s by (simp add: unat_word_ariths)
  ultimately show ?thesis by (simp add: unat_div)
qed

lemma unat_bm_nbytes: "unat s \<le> 2 ^ 32 - 64 \<Longrightarrow> unat (bm_nbytes s) = (unat s + 7) div 8"
proof -
  assume s: "unat s \<le> 2 ^ 32 - 64"
  have "bm_nbytes s = (s + 7) div 8" by (simp add: bm_nbytes_def add.commute)
  moreover have "unat (s + 7) = unat s + 7"
    using s by (simp add: unat_word_ariths)
  ultimately show ?thesis by (simp add: unat_div)
qed

lemma unat_bm_which_word: "unat (bm_which_word i) = unat i div 64"
  by (simp add: bm_which_word_def unat_div)

lemma unat_bm_which_bit: "unat (bm_which_bit i) = unat i mod 64"
  using unat_and_mask [of i 6] by (simp add: bm_which_bit_def mask_eq_exp_minus_1)

lemma bm_test_bit:
  "bm_test b i = (if unat i div 64 < length (bm_data b)
     then Some (bit (bm_data b ! (unat i div 64)) (unat i mod 64)) else None)"
  by (simp add: bm_test_def unat_bm_which_word unat_bm_which_bit bit_iff_and_push_bit_not_eq_0)

lemma bm_set_bits:
  assumes "unat i div 64 < length (bm_data b)"
  obtains b' where "bm_set b i v = Some b'" "length (bm_data b') = length (bm_data b)"
    "bm_size b' = bm_size b" "\<And>j. bm_test b' j = (if j = i then Some v else bm_test b j)"
proof
  let ?w = "unat i div 64" and ?k = "unat i mod 64"
  let ?nw = "if v then bm_data b ! ?w OR push_bit ?k 1 else bm_data b ! ?w AND NOT (push_bit ?k 1)"
  let ?b = "b\<lparr>bm_data := (bm_data b)[?w := ?nw]\<rparr>"
  show "bm_set b i v = Some ?b"
    using assms by (simp add: bm_set_def Let_def unat_bm_which_word unat_bm_which_bit)
  fix j
  have bits: "bit ?nw n = (if n = ?k then v else bit (bm_data b ! ?w) n)" if "n < 64" for n
    using that by (auto simp: bit_simps)
  have "j = i \<longleftrightarrow> unat j div 64 = ?w \<and> unat j mod 64 = ?k"
    by (metis div_mult_mod_eq word_unat_eq_iff)
  then show "bm_test ?b j = (if j = i then Some v else bm_test b j)"
    using assms bits [of "unat j mod 64"] by (auto simp: bm_test_bit nth_list_update)
qed simp_all

lemma memset_words_defined: "n \<le> 8 * length ws \<Longrightarrow> \<exists>ws'. memset_words b n ws = Some ws'"
  by (induction b n ws rule: memset_words.induct) auto

lemma memset_words_length: "memset_words b n ws = Some ws' \<Longrightarrow> length ws' = length ws"
  by (induction b n ws arbitrary: ws' rule: memset_words.induct) auto

lemma bit_memset_first:
  assumes "k < 64"
  shows "bit (of_le (replicate (min n 8) b @ drop (min n 8) (le_bytes 8 w)) :: u64) k \<longleftrightarrow>
     (if k div 8 < n then bit b (k mod 8) else bit w k)"
  using assms by (auto simp: bit_of_le nth_append min_def bit_le_bytes)

lemma memset_words_bit:
  assumes "memset_words b n ws = Some ws'" and "j < length ws" and "k < 64"
  shows "bit (ws' ! j) k \<longleftrightarrow> (if 8 * j + k div 8 < n then bit b (k mod 8) else bit (ws ! j) k)"
  using assms
proof (induction b n ws arbitrary: ws' j rule: memset_words.induct)
  case (3 b n w ws)
  from "3.prems"(1) obtain r where r: "memset_words b (Suc n - 8) ws = Some r"
    and ws': "ws' = of_le (replicate (min (Suc n) 8) b @ drop (min (Suc n) 8) (le_bytes 8 w)) # r"
    by auto
  show ?case
  proof (cases j)
    case 0
    then show ?thesis
      using ws' bit_memset_first [OF "3.prems"(3), of "Suc n" b w] by (simp del: replicate_Suc)
  next
    case (Suc m)
    have "8 * Suc m + k div 8 < Suc n \<longleftrightarrow> 8 * m + k div 8 < Suc n - 8" by auto
    then show ?thesis
      using Suc ws' "3.IH" [OF r, of m] "3.prems" by simp
  qed
qed auto

lemma byte_of_bit: "8 * (i div 64) + i mod 64 div 8 = (i div 8 :: nat)"
proof -
  have "(i mod 64 + 8 * (8 * (i div 64))) div 8 = 8 * (i div 64) + i mod 64 div 8"
    by (subst div_mult_self2) simp_all
  moreover have "i mod 64 + 8 * (8 * (i div 64)) = i" by simp
  ultimately show ?thesis by simp
qed

lemma div_less_round_up: "i < s \<Longrightarrow> i div 8 < (s + 7) div (8 :: nat)"
  using div_le_mono [of "i + 8" "s + 7" 8] by simp

lemma bm_memset_all:
  assumes "bm_wf b" and "memset_words v (unat (bm_nbytes (bm_size b))) (bm_data b) = Some d"
    and "\<And>k. k < 8 \<Longrightarrow> bit v k = x" and "i < bm_size b"
  shows "bm_test (b\<lparr>bm_data := d\<rparr>) i = Some x"
proof -
  let ?i = "unat i" and ?s = "unat (bm_size b)"
  have s: "?i < ?s" "?s \<le> 2 ^ 32 - 64" "length (bm_data b) = (?s + 63) div 64"
    using assms by (auto simp: bm_wf_def unat_bm_nwords word_less_nat_alt)
  then have w: "?i div 64 < length (bm_data b)" by linarith
  have "8 * (?i div 64) + ?i mod 64 div 8 = ?i div 8" by (rule byte_of_bit)
  moreover have "?i div 8 < (?s + 7) div 8" using s by (intro div_less_round_up)
  ultimately have "bit (d ! (?i div 64)) (?i mod 64) = x"
    using memset_words_bit [OF assms(2) w, of "?i mod 64"] s assms(3) [of "?i mod 64 mod 8"]
    by (simp add: unat_bm_nbytes)
  with w show ?thesis
    by (simp add: bm_test_bit memset_words_length [OF assms(2)])
qed

lemma bm_nbytes_fits: "bm_wf b \<Longrightarrow> unat (bm_nbytes (bm_size b)) \<le> 8 * length (bm_data b)"
  by (auto simp: bm_wf_def unat_bm_nwords unat_bm_nbytes)

lemma bm_set_all_spec:
  assumes "bm_wf b"
  shows "\<exists>b'. bm_set_all b = Some b' \<and> bm_wf b' \<and> bm_size b' = bm_size b
    \<and> (\<forall>i < bm_size b. bm_test b' i = Some True)"
proof -
  obtain d where d: "memset_words 0xff (unat (bm_nbytes (bm_size b))) (bm_data b) = Some d"
    using memset_words_defined bm_nbytes_fits [OF assms] by blast
  have ones: "bit (0xff :: u8) k = True" if "k < 8" for k
  proof -
    have "(0xff :: u8) = mask 8" by (simp add: mask_eq_exp_minus_1)
    with that show ?thesis by (simp only: bit_mask_iff) simp
  qed
  show ?thesis
    using assms bm_memset_all [OF assms d ones]
    by (auto simp: bm_set_all_def d bm_wf_def memset_words_length [OF d])
qed

lemma bm_reset_all_spec:
  assumes "bm_wf b"
  shows "\<exists>b'. bm_reset_all b = Some b' \<and> bm_wf b' \<and> bm_size b' = bm_size b
    \<and> (\<forall>i < bm_size b. bm_test b' i = Some False)"
proof -
  obtain d where d: "memset_words 0 (unat (bm_nbytes (bm_size b))) (bm_data b) = Some d"
    using memset_words_defined bm_nbytes_fits [OF assms] by blast
  show ?thesis
    using assms bm_memset_all [OF assms d, of False]
    by (auto simp: bm_reset_all_def d bm_wf_def memset_words_length [OF d])
qed

lemma bm_resize_wf: "unat s \<le> 2 ^ 32 - 64 \<Longrightarrow> bm_wf (bm_resize junk s)"
  by (simp add: bm_wf_def bm_resize_def)

lemma bm_word_in_range: "bm_wf b \<Longrightarrow> i < bm_size b \<Longrightarrow> unat i div 64 < length (bm_data b)"
  by (auto simp: bm_wf_def unat_bm_nwords word_less_nat_alt)

section \<open>The contract of a bit set\<close>

text \<open>
  Users of a bitmap enable, disable and test numbered sections below \<open>size\<close>; the
  operations are defined there and act as on a set of numbers.
\<close>

locale bitset =
  fixes test :: "'b \<Rightarrow> u32 \<Rightarrow> bool option"
    and put :: "'b \<Rightarrow> u32 \<Rightarrow> bool \<Rightarrow> 'b option"
    and set_all :: "'b \<Rightarrow> 'b option"
    and reset_all :: "'b \<Rightarrow> 'b option"
    and size :: "'b \<Rightarrow> u32"
    and wf :: "'b \<Rightarrow> bool"
  assumes test_defined: "wf b \<Longrightarrow> i < size b \<Longrightarrow> \<exists>v. test b i = Some v"
    and put_spec: "wf b \<Longrightarrow> i < size b \<Longrightarrow> \<exists>b'. put b i v = Some b' \<and> wf b' \<and> size b' = size b
      \<and> (\<forall>j < size b. test b' j = (if j = i then Some v else test b j))"
    and set_all_spec: "wf b \<Longrightarrow> \<exists>b'. set_all b = Some b' \<and> wf b' \<and> size b' = size b
      \<and> (\<forall>j < size b. test b' j = Some True)"
    and reset_all_spec: "wf b \<Longrightarrow> \<exists>b'. reset_all b = Some b' \<and> wf b' \<and> size b' = size b
      \<and> (\<forall>j < size b. test b' j = Some False)"

text \<open>
  \<open>put_where\<close> is the loop shape of \<^verbatim>\<open>mask.cc\<close>: assign one value to every listed
  position that satisfies a predicate, stopping at the first undefined access.
\<close>

fun put_where :: "('b \<Rightarrow> u32 \<Rightarrow> bool \<Rightarrow> 'b option) \<Rightarrow> (u32 \<Rightarrow> bool) \<Rightarrow> bool \<Rightarrow> u32 list \<Rightarrow> 'b \<Rightarrow> 'b option" where
  "put_where put P v [] b = Some b"
| "put_where put P v (i # is) b =
     (if P i then Option.bind (put b i v) (put_where put P v is) else put_where put P v is b)"

context bitset begin

lemma put_where_spec:
  assumes "wf b" and "\<forall>i \<in> set is. i < size b"
  shows "\<exists>b'. put_where put P v is b = Some b' \<and> wf b' \<and> size b' = size b
    \<and> (\<forall>j < size b. test b' j = (if j \<in> set is \<and> P j then Some v else test b j))"
  using assms
proof (induction "is" arbitrary: b)
  case Nil
  then show ?case by simp
next
  case (Cons i "is")
  show ?case
  proof (cases "P i")
    case True
    obtain b1 where b1: "put b i v = Some b1" "wf b1" "size b1 = size b"
      "\<forall>j < size b. test b1 j = (if j = i then Some v else test b j)"
      using put_spec [of b i v] Cons.prems by auto
    then obtain b2 where "put_where put P v is b1 = Some b2" "wf b2" "size b2 = size b1"
      "\<forall>j < size b1. test b2 j = (if j \<in> set is \<and> P j then Some v else test b1 j)"
      using Cons.IH [of b1] Cons.prems by auto
    with b1 True show ?thesis by auto
  next
    case False
    with Cons.IH [of b] Cons.prems show ?thesis by auto
  qed
qed

lemma put_put_same:
  assumes "wf b" and "i < size b" and "put b i v = Some b'" and "put b' i v' = Some b''"
  shows "\<forall>j < size b. test b'' j = (if j = i then Some v' else test b j)"
  using put_spec [OF assms(1,2), of v] put_spec [of b' i v'] assms by auto

end

interpretation bm: bitset bm_test bm_set bm_set_all bm_reset_all bm_size bm_wf
proof unfold_locales
  fix b :: bitmap and i v
  assume b: "bm_wf b" and i: "i < bm_size b"
  note w = bm_word_in_range [OF b i]
  show "\<exists>v. bm_test b i = Some v" using w by (simp add: bm_test_bit)
  obtain b' where "bm_set b i v = Some b'" "length (bm_data b') = length (bm_data b)"
    "bm_size b' = bm_size b" "\<And>j. bm_test b' j = (if j = i then Some v else bm_test b j)"
    using bm_set_bits [OF w] by blast
  with b show "\<exists>b'. bm_set b i v = Some b' \<and> bm_wf b' \<and> bm_size b' = bm_size b
      \<and> (\<forall>j < bm_size b. bm_test b' j = (if j = i then Some v else bm_test b j))"
    by (auto simp: bm_wf_def)
qed (use bm_set_all_spec bm_reset_all_spec in blast)+

text \<open>
  A new bitmap has every bit clear whatever the allocated memory held, and setting one
  bit changes the result of \<^verbatim>\<open>test\<close> for that bit only, for every bitmap of up to
  $2^{32} - 64$ bits.
\<close>

lemma bitmap_new_then_set:
  assumes "unat s \<le> 2 ^ 32 - 64" and "i < s"
  shows "\<exists>b b'. bm_new junk s = Some b \<and> (\<forall>j < s. bm_test b j = Some False)
    \<and> bm_set b i True = Some b' \<and> (\<forall>j < s. bm_test b' j = Some (j = i))"
proof -
  obtain b where b: "bm_new junk s = Some b" "bm_wf b" "bm_size b = s"
    "\<forall>j < s. bm_test b j = Some False"
    using bm_reset_all_spec [OF bm_resize_wf [OF assms(1), of junk]]
    by (auto simp: bm_new_def bm_resize_def)
  then show ?thesis
    using bm.put_spec [of b i True] assms(2) by fastforce
qed

text \<open>The copy constructor preserves every bit below the size.\<close>

lemma memcpy_words_bit:
  assumes "length dst = length src" and "n \<le> 8 * length src"
  shows "\<exists>r. memcpy_words n dst src = Some r \<and> length r = length src
    \<and> (\<forall>j < length src. \<forall>k < 64. 8 * j + k div 8 < n \<longrightarrow> bit (r ! j) k = bit (src ! j) k)"
  using assms
proof (induction n dst src rule: memcpy_words.induct)
  case (2 n d dst s src)
  then obtain r where r: "memcpy_words (Suc n - 8) dst src = Some r" "length r = length src"
    "\<forall>j < length src. \<forall>k < 64. 8 * j + k div 8 < Suc n - 8 \<longrightarrow> bit (r ! j) k = bit (src ! j) k"
    by force
  let ?w = "of_le (take (min (Suc n) 8) (le_bytes 8 s) @ drop (min (Suc n) 8) (le_bytes 8 d)) :: u64"
  have w: "bit ?w k = bit s k" if "k < 64" "k div 8 < Suc n" for k
    using that by (auto simp: bit_of_le nth_append bit_le_bytes)
  have "bit ((?w # r) ! j) k = bit ((s # src) ! j) k"
    if "j < length (s # src)" "k < 64" "8 * j + k div 8 < Suc n" for j k
    using that w r(3) by (cases j) auto
  with r show ?case by auto
qed auto

lemma bm_copy_bits:
  assumes "bm_wf b"
  shows "\<exists>c. bm_copy junk b = Some c \<and> bm_size c = bm_size b
    \<and> (\<forall>i < bm_size b. bm_test c i = bm_test b i)"
proof -
  let ?c = "bm_resize junk (bm_size b)"
  have len: "length (bm_data ?c) = length (bm_data b)"
    using assms by (simp add: bm_resize_def bm_wf_def)
  obtain r where r: "memcpy_words (unat (bm_nbytes (bm_size b))) (bm_data ?c) (bm_data b) = Some r"
    "length r = length (bm_data b)" "\<forall>j < length (bm_data b). \<forall>k < 64.
      8 * j + k div 8 < unat (bm_nbytes (bm_size b)) \<longrightarrow> bit (r ! j) k = bit (bm_data b ! j) k"
    using memcpy_words_bit [OF len bm_nbytes_fits [OF assms]] by blast
  have "bm_test (?c\<lparr>bm_data := r\<rparr>) i = bm_test b i" if i: "i < bm_size b" for i
  proof -
    have "8 * (unat i div 64) + unat i mod 64 div 8 < unat (bm_nbytes (bm_size b))"
      using assms i div_less_round_up [of "unat i" "unat (bm_size b)"]
      by (simp add: bm_wf_def unat_bm_nbytes byte_of_bit word_less_nat_alt)
    with r bm_word_in_range [OF assms i] show ?thesis by (simp add: bm_test_bit)
  qed
  with r show ?thesis by (simp add: bm_copy_def Let_def bm_resize_def)
qed

end
