(* ===== verification/Area.thy ===== *)
theory Area
  imports Bitmap
begin

text \<open>
  Logging areas (\<^verbatim>\<open>include/hogl/detail/area.hpp\<close>, \<^verbatim>\<open>src/area.cc\<close>) and the engine's
  internal sections (\<^verbatim>\<open>src/internal.cc\<close>). An area is a name, an array of section names
  and a bitmap with one bit per section. C strings are character lists without the
  terminating NUL; \<^verbatim>\<open>strcmp\<close> is equality. The area satisfies the contract \<open>bitset\<close>.
\<close>

section \<open>Definitions\<close>

datatype default_section_ids = INFO | WARN | ERROR | FATAL | DEBUG | TRACE

record area =
  ar_name :: string
  ar_section :: "string list"
  ar_bitmap :: bitmap

definition default_section_names :: "string list" where
  "default_section_names = [''INFO'', ''WARN'', ''ERROR'', ''FATAL'', ''DEBUG'', ''TRACE'']"

definition area_new :: "(nat \<Rightarrow> u64) \<Rightarrow> string \<Rightarrow> string list option \<Rightarrow> area option" where
  "area_new junk nm sections =
     (case sections of
        Some ss \<Rightarrow>
          (let n = word_of_nat (length ss) :: u32 in
           map_option (\<lambda>b. \<lparr>ar_name = nm, ar_section = take (unat n) ss, ar_bitmap = b\<rparr>)
             (bm_reset_all (bm_resize junk n)))
      | None \<Rightarrow>
          map_option (\<lambda>b. \<lparr>ar_name = nm, ar_section = default_section_names, ar_bitmap = b\<rparr>)
            (bm_reset_all (bm_resize junk 6)))"

definition area_size :: "area \<Rightarrow> u32" where
  "area_size a = bm_size (ar_bitmap a)"

definition section_name :: "area \<Rightarrow> u32 \<Rightarrow> string" where
  "section_name a i =
     (if i \<ge> area_size a then ''INVALID'' else ar_section a ! unat i)"

definition area_test :: "area \<Rightarrow> u32 \<Rightarrow> bool option" where
  "area_test a s = bm_test (ar_bitmap a) s"

definition area_set_all :: "area \<Rightarrow> area option" where
  "area_set_all a = map_option (\<lambda>b. a\<lparr>ar_bitmap := b\<rparr>) (bm_set_all (ar_bitmap a))"

definition area_reset_all :: "area \<Rightarrow> area option" where
  "area_reset_all a = map_option (\<lambda>b. a\<lparr>ar_bitmap := b\<rparr>) (bm_reset_all (ar_bitmap a))"

definition area_set :: "area \<Rightarrow> u32 \<Rightarrow> bool \<Rightarrow> area option" where
  "area_set a s v = map_option (\<lambda>b. a\<lparr>ar_bitmap := b\<rparr>) (bm_set (ar_bitmap a) s v)"

definition area_reset :: "area \<Rightarrow> u32 \<Rightarrow> area option" where
  "area_reset a s = map_option (\<lambda>b. a\<lparr>ar_bitmap := b\<rparr>) (bm_reset (ar_bitmap a) s)"

definition area_eq :: "area \<Rightarrow> area \<Rightarrow> bool" where
  "area_eq a b \<longleftrightarrow>
     (if ar_name a \<noteq> ar_name b then False
      else if area_size a \<noteq> area_size b then False
      else list_all (\<lambda>i. ar_section a ! i = ar_section b ! i) [0..<unat (area_size a)])"

text \<open>
  The stream inserter. \<open>pad\<close> is the effect of \<^verbatim>\<open>s.width(w)\<close> on the next string
  inserted, with the default fill character and adjustment.
\<close>

definition pad :: "nat \<Rightarrow> string \<Rightarrow> string" where
  "pad w s = replicate (w - length s) CHR '' '' @ s"

fun area_dump_from :: "nat \<Rightarrow> area \<Rightarrow> nat list \<Rightarrow> string option" where
  "area_dump_from w a [] = Some []"
| "area_dump_from w a (i # is) =
     (case area_test a (word_of_nat i) of
        None \<Rightarrow> None
      | Some en \<Rightarrow>
          map_option ((@) (pad w (if en then '''' else ''!'') @ ar_name a @ '':''
                            @ section_name a (word_of_nat i) @ [CHR 0x0a]))
            (area_dump_from w a is))"

definition area_dump :: "nat \<Rightarrow> area \<Rightarrow> string option" where
  "area_dump w a = area_dump_from w a [0..<unat (area_size a)]"

text \<open>The engine's own area.\<close>

datatype internal_section_ids =
  I_INFO | I_WARN | I_ERROR | DROPMARK | TSOFULLMARK | ENGINE_DEBUG | AREA_DEBUG | RING_DEBUG | TLS_DEBUG

definition internal_section_names :: "string list" where
  "internal_section_names = [''INFO'', ''WARN'', ''ERROR'', ''DROPMARK'', ''TSOFULLMARK'',
     ''ENGINE:DEBUG'', ''AREA:DEBUG'', ''RING:DEBUG'', ''TLS:DEBUG'']"

fun internal_id :: "internal_section_ids \<Rightarrow> nat" where
  "internal_id I_INFO = 0" | "internal_id I_WARN = 1" | "internal_id I_ERROR = 2"
| "internal_id DROPMARK = 3" | "internal_id TSOFULLMARK = 4" | "internal_id ENGINE_DEBUG = 5"
| "internal_id AREA_DEBUG = 6" | "internal_id RING_DEBUG = 7" | "internal_id TLS_DEBUG = 8"

text \<open>A well-formed area has a name for each of its sections.\<close>

definition area_wf :: "area \<Rightarrow> bool" where
  "area_wf a \<longleftrightarrow> bm_wf (ar_bitmap a) \<and> length (ar_section a) = unat (area_size a)"

section \<open>Properties\<close>

lemma bm_reset_all_resize:
  assumes "unat n \<le> 2 ^ 32 - 64"
  obtains b where "bm_reset_all (bm_resize junk n) = Some b" "bm_wf b" "bm_size b = n"
    "\<forall>j < n. bm_test b j = Some False"
  using bm_reset_all_spec [OF bm_resize_wf [OF assms, of junk]] by (auto simp: bm_resize_def)

lemma area_new_spec:
  assumes "ss = (case sections of Some ss \<Rightarrow> ss | None \<Rightarrow> default_section_names)"
    and "length ss \<le> 2 ^ 32 - 64"
  obtains a where "area_new junk nm sections = Some a" "area_wf a" "ar_name a = nm"
    "ar_section a = ss" "\<forall>j < area_size a. area_test a j = Some False"
proof -
  let ?n = "word_of_nat (length ss) :: u32"
  have n: "unat ?n = length ss"
    using assms(2) by (simp add: unat_word_of_nat)
  then obtain b where b: "bm_reset_all (bm_resize junk ?n) = Some b" "bm_wf b" "bm_size b = ?n"
    "\<forall>j < ?n. bm_test b j = Some False"
    using bm_reset_all_resize [of ?n junk] assms(2) by metis
  let ?a = "\<lparr>ar_name = nm, ar_section = ss, ar_bitmap = b\<rparr>"
  show thesis
  proof
    show "area_new junk nm sections = Some ?a"
      using b n assms(1)
      by (cases sections) (simp_all add: area_new_def Let_def default_section_names_def)
    show "area_wf ?a" using b n by (simp add: area_wf_def area_size_def)
    show "\<forall>j < area_size ?a. area_test ?a j = Some False"
      using b by (simp add: area_size_def area_test_def)
  qed simp_all
qed

interpretation ar: bitset area_test area_set area_set_all area_reset_all area_size area_wf
proof unfold_locales
  fix a i v
  assume a: "area_wf a" "i < area_size a"
  then show "\<exists>v. area_test a i = Some v"
    using bm.test_defined by (simp add: area_wf_def area_size_def area_test_def)
  show "\<exists>b'. area_set a i v = Some b' \<and> area_wf b' \<and> area_size b' = area_size a
      \<and> (\<forall>j < area_size a. area_test b' j = (if j = i then Some v else area_test a j))"
    using bm.put_spec [of "ar_bitmap a" i v] a
    by (auto simp: area_wf_def area_size_def area_test_def area_set_def)
next
  fix a
  assume a: "area_wf a"
  show "\<exists>b'. area_set_all a = Some b' \<and> area_wf b' \<and> area_size b' = area_size a
      \<and> (\<forall>j < area_size a. area_test b' j = Some True)"
    using bm.set_all_spec [of "ar_bitmap a"] a
    by (auto simp: area_wf_def area_size_def area_test_def area_set_all_def)
  show "\<exists>b'. area_reset_all a = Some b' \<and> area_wf b' \<and> area_size b' = area_size a
      \<and> (\<forall>j < area_size a. area_test b' j = Some False)"
    using bm.reset_all_spec [of "ar_bitmap a"] a
    by (auto simp: area_wf_def area_size_def area_test_def area_reset_all_def)
qed

lemma area_eq_iff:
  assumes "area_wf a" and "area_wf b"
  shows "area_eq a b \<longleftrightarrow> ar_name a = ar_name b \<and> ar_section a = ar_section b"
proof -
  have "area_size a = area_size b" if "ar_section a = ar_section b"
    using assms that by (metis area_wf_def word_unat_eq_iff)
  moreover have "(\<forall>i < unat (area_size a). ar_section a ! i = ar_section b ! i)
      \<longleftrightarrow> ar_section a = ar_section b" if "area_size a = area_size b"
    using assms that by (auto simp: area_wf_def intro: nth_equalityI)
  ultimately show ?thesis
    by (auto simp: area_eq_def list_all_iff)
qed

lemma area_set_fields:
  "area_set a i v = Some a' \<Longrightarrow> ar_name a' = ar_name a \<and> ar_section a' = ar_section a"
  by (auto simp: area_set_def)

text \<open>The enumeration of the internal sections and the array of their names agree.\<close>

lemma internal_ids_have_names: "internal_id s < length internal_section_names"
  by (cases s) (simp_all add: internal_section_names_def)

text \<open>
  Constructing two areas and comparing them with \<^verbatim>\<open>operator==\<close> tells whether their
  names and their section lists agree, null section arrays standing for the default list;
  whatever the allocated bitmaps held, and with every section of the new areas disabled.
\<close>

lemma area_new_eq:
  assumes "length (case_option default_section_names id s1) \<le> 2 ^ 32 - 64"
    and "length (case_option default_section_names id s2) \<le> 2 ^ 32 - 64"
  shows "\<exists>a b. area_new j1 n1 s1 = Some a \<and> area_new j2 n2 s2 = Some b
    \<and> (area_eq a b \<longleftrightarrow> n1 = n2 \<and> case_option default_section_names id s1
                                = case_option default_section_names id s2)
    \<and> (\<forall>i < area_size a. area_test a i = Some False)"
proof -
  obtain a where "area_new j1 n1 s1 = Some a" "area_wf a" "ar_name a = n1"
    "ar_section a = case_option default_section_names id s1"
    "\<forall>j < area_size a. area_test a j = Some False"
    by (rule area_new_spec [OF _ assms(1), of s1]) (auto split: option.splits)
  moreover obtain b where "area_new j2 n2 s2 = Some b" "area_wf b" "ar_name b = n2"
    "ar_section b = case_option default_section_names id s2"
    by (rule area_new_spec [OF _ assms(2), of s2]) (auto split: option.splits)
  ultimately show ?thesis using area_eq_iff by auto
qed

end
