(* ===== verification/Mask.thy ===== *)
theory Mask
  imports Area
begin

text \<open>
  Logging masks (\<^verbatim>\<open>include/hogl/detail/mask.hpp\<close>, \<^verbatim>\<open>src/mask.cc\<close>). The regular
  expressions are those of \<^verbatim>\<open>std::regex\<close> (extended grammar): compiling
  (\<open>None\<close> is the exception \<^verbatim>\<open>regex_error\<close>) and matching are the arguments
  \<open>rec\<close> and \<open>rem\<close> of the model. An input stream is its remaining characters and
  its \<^verbatim>\<open>eofbit\<close> and \<^verbatim>\<open>failbit\<close>.
\<close>

section \<open>Definitions\<close>

type_synonym 're compiler = "string \<Rightarrow> 're option"
type_synonym 're matcher = "'re \<Rightarrow> string \<Rightarrow> bool"

record 're mask_data =
  md_str :: string
  md_area :: 're
  md_sect :: 're
  md_on :: bool

type_synonym 're mask = "'re mask_data list"

definition mask_new :: "'re mask" where
  "mask_new = []"

definition mask_clear :: "'re mask \<Rightarrow> 're mask" where
  "mask_clear m = []"

definition mask_copy :: "'re mask \<Rightarrow> 're mask" where
  "mask_copy m = m"

text \<open>\<^verbatim>\<open>str.find(c, from)\<close>; \<open>None\<close> is \<^verbatim>\<open>npos\<close>.\<close>

fun str_find :: "char \<Rightarrow> nat \<Rightarrow> string \<Rightarrow> nat option" where
  "str_find c from [] = None"
| "str_find c (Suc n) (x # xs) = map_option Suc (str_find c n xs)"
| "str_find c 0 (x # xs) = (if x = c then Some 0 else map_option Suc (str_find c 0 xs))"

text \<open>The two regular expressions and the polarity that \<^verbatim>\<open>mask::add\<close> reads from its argument.\<close>

definition mask_split :: "string \<Rightarrow> string \<times> string \<times> bool" where
  "mask_split str =
     (let on = (case str of [] \<Rightarrow> True | c # _ \<Rightarrow> c \<noteq> CHR ''!'');
          abeg = (if on then 0 else 1);
          (areg, sreg) =
            (case str_find CHR '':'' abeg str of
               None \<Rightarrow> (''.*'', drop abeg str)
             | Some aend \<Rightarrow> (take (aend - abeg) (drop abeg str), drop (aend + 1) str));
          areg = (if areg = [] then ''.*'' else areg);
          sreg = (if sreg = [] then ''.*'' else sreg)
      in (areg, sreg, on))"

definition mask_add :: "'re compiler \<Rightarrow> 're mask \<Rightarrow> string \<Rightarrow> 're mask option" where
  "mask_add rec m str =
     (let (areg, sreg, on) = mask_split str in
      case (rec areg, rec sreg) of
        (Some ra, Some rs) \<Rightarrow> Some (m @ [\<lparr>md_str = str, md_area = ra, md_sect = rs, md_on = on\<rparr>])
      | _ \<Rightarrow> None)"

definition mask_apply_sect :: "'re matcher \<Rightarrow> area \<Rightarrow> 're \<Rightarrow> bool \<Rightarrow> area option" where
  "mask_apply_sect rem a re on =
     put_where area_set (\<lambda>i. rem re (section_name a i)) on
       (map word_of_nat [0..<unat (area_size a)]) a"

fun mask_apply :: "'re matcher \<Rightarrow> 're mask \<Rightarrow> area \<Rightarrow> area option" where
  "mask_apply rem [] a = Some a"
| "mask_apply rem (d # m) a =
     (if rem (md_area d) (ar_name a)
      then Option.bind (mask_apply_sect rem a (md_sect d) (md_on d)) (mask_apply rem m)
      else mask_apply rem m a)"

text \<open>
  The variadic constructor; the list holds the arguments up to the null pointer, and an
  empty string stops it too.
\<close>

fun mask_add_args :: "'re compiler \<Rightarrow> 're mask \<Rightarrow> string list \<Rightarrow> 're mask option" where
  "mask_add_args rec m [] = Some m"
| "mask_add_args rec m (s # ss) =
     (if s = [] then Some m else Option.bind (mask_add rec m s) (\<lambda>m'. mask_add_args rec m' ss))"

definition mask_of_args :: "'re compiler \<Rightarrow> string list \<Rightarrow> 're mask option" where
  "mask_of_args rec args = mask_add_args rec mask_new args"

text \<open>
  \<^verbatim>\<open>istream::get(streambuf&)\<close>: copy characters up to a newline, which stays in the
  stream, or to the end; \<^verbatim>\<open>failbit\<close> when nothing was copied.
\<close>

record istream =
  is_rest :: string
  is_eof :: bool
  is_fail :: bool

definition is_good :: "istream \<Rightarrow> bool" where
  "is_good s \<longleftrightarrow> \<not> is_eof s \<and> \<not> is_fail s"

definition is_get :: "istream \<Rightarrow> string \<times> istream" where
  "is_get s =
     (let l = takeWhile (\<lambda>c. c \<noteq> CHR 0x0a) (is_rest s);
          r = dropWhile (\<lambda>c. c \<noteq> CHR 0x0a) (is_rest s)
      in (l, s\<lparr>is_rest := r, is_eof := (r = []), is_fail := (l = [])\<rparr>))"

function mask_read :: "'re compiler \<Rightarrow> istream \<Rightarrow> 're mask \<Rightarrow> 're mask option" where
  "mask_read rec s m =
     (if is_good s
      then (case is_get s of (l, s') \<Rightarrow> Option.bind (mask_add rec m l) (mask_read rec s'))
      else Some m)"
  by pat_completeness auto

termination
proof (relation "measure (\<lambda>(_, s, _). if is_good s then Suc (length (is_rest s)) else 0)")
  fix rec :: "'re compiler" and s m l s' m'
  assume s: "is_good s" and g: "(l, s') = is_get s"
  have "length (is_rest s') < length (is_rest s)" if "is_good s'"
  proof -
    have l: "l = takeWhile (\<lambda>c. c \<noteq> CHR 0x0a) (is_rest s)"
      and r: "is_rest s' = dropWhile (\<lambda>c. c \<noteq> CHR 0x0a) (is_rest s)" and "is_fail s' = (l = [])"
      using g by (simp_all add: is_get_def Let_def)
    with that have "l \<noteq> []" by (simp add: is_good_def)
    moreover have "length l + length (is_rest s') = length (is_rest s)"
      using l r by (metis length_append takeWhile_dropWhile_id)
    ultimately show ?thesis by (cases l) simp_all
  qed
  with s show "((rec, s', m'), rec, s, m)
      \<in> measure (\<lambda>(_, s, _). if is_good s then Suc (length (is_rest s)) else 0)"
    by simp
qed simp

declare mask_read.simps [simp del]

definition mask_dump :: "nat \<Rightarrow> 're mask \<Rightarrow> string" where
  "mask_dump w m = concat (map (\<lambda>d. pad w '''' @ md_str d @ [CHR 0x0a]) m)"

section \<open>Parsing of mask strings\<close>

lemma str_find_None: "c \<notin> set s \<Longrightarrow> str_find c n s = None"
  by (induction c n s rule: str_find.induct) auto

lemma str_find_Some: "c \<notin> set s \<Longrightarrow> str_find c 0 (s @ c # t) = Some (length s)"
  by (induction s) auto

lemma mask_split_area_sect:
  assumes "CHR '':'' \<notin> set ar" and "\<not> neg \<longrightarrow> take 1 (ar @ '':'' @ sc) \<noteq> ''!''"
  shows "mask_split ((if neg then ''!'' else '''') @ ar @ '':'' @ sc)
    = (if ar = [] then ''.*'' else ar, if sc = [] then ''.*'' else sc, \<not> neg)"
  using assms str_find_Some [OF assms(1), of sc]
  by (cases neg; cases ar) (auto simp: mask_split_def Let_def)

lemma mask_split_sect:
  assumes "CHR '':'' \<notin> set sc" and "\<not> neg \<longrightarrow> take 1 sc \<noteq> ''!''"
  shows "mask_split ((if neg then ''!'' else '''') @ sc)
    = (''.*'', if sc = [] then ''.*'' else sc, \<not> neg)"
  using assms by (cases neg; cases sc) (auto simp: mask_split_def Let_def str_find_None)

section \<open>Application\<close>

lemma set_sections: "set (map word_of_nat [0..<unat (n :: u32)]) = {i. i < n}"
proof (intro equalityI subsetI)
  fix i
  assume "i \<in> {i. i < n}"
  then have "i = word_of_nat (unat i)" "unat i < unat n" by (simp_all add: word_less_nat_alt)
  then show "i \<in> set (map word_of_nat [0..<unat n])" by (metis atLeast_upt imageI lessThan_iff set_map)
qed (auto intro: word_of_nat_less)

lemma put_where_area_fields:
  "put_where area_set P v is a = Some a' \<Longrightarrow> ar_name a' = ar_name a \<and> ar_section a' = ar_section a"
  by (induction "is" arbitrary: a)
    (auto simp: bind_eq_Some_conv split: if_splits dest: area_set_fields)

text \<open>What a list of mask entries says about a section: the last entry that matches it wins.\<close>

definition mask_hits :: "'re matcher \<Rightarrow> string \<Rightarrow> string \<Rightarrow> 're mask_data \<Rightarrow> bool" where
  "mask_hits rem nm sc d \<longleftrightarrow> rem (md_area d) nm \<and> rem (md_sect d) sc"

definition mask_verdict :: "'re matcher \<Rightarrow> 're mask \<Rightarrow> string \<Rightarrow> string \<Rightarrow> bool option \<Rightarrow> bool option" where
  "mask_verdict rem m nm sc v =
     (case filter (mask_hits rem nm sc) (rev m) of [] \<Rightarrow> v | d # _ \<Rightarrow> Some (md_on d))"

lemma mask_verdict_Cons:
  "mask_verdict rem (d # m) nm sc v =
     mask_verdict rem m nm sc (if mask_hits rem nm sc d then Some (md_on d) else v)"
  by (auto simp: mask_verdict_def split: list.splits)

lemma mask_apply_sect_spec:
  assumes "area_wf a"
  shows "\<exists>a'. mask_apply_sect rem a re on = Some a' \<and> area_wf a' \<and> area_size a' = area_size a
    \<and> ar_name a' = ar_name a \<and> ar_section a' = ar_section a
    \<and> (\<forall>i < area_size a. area_test a' i
         = (if rem re (section_name a i) then Some on else area_test a i))"
proof -
  obtain a' where a': "mask_apply_sect rem a re on = Some a'" "area_wf a'" "area_size a' = area_size a"
    "\<forall>i < area_size a. area_test a' i
         = (if i \<in> {i. i < area_size a} \<and> rem re (section_name a i) then Some on else area_test a i)"
    using ar.put_where_spec [OF assms, of "map word_of_nat [0..<unat (area_size a)]"
        "\<lambda>i. rem re (section_name a i)" on]
    unfolding set_sections mask_apply_sect_def by auto
  then show ?thesis
    using put_where_area_fields [of _ on _ a a'] by (auto simp: mask_apply_sect_def)
qed

lemma mask_apply_verdict:
  assumes "area_wf a"
  shows "\<exists>a'. mask_apply rem m a = Some a' \<and> area_wf a'
    \<and> ar_name a' = ar_name a \<and> ar_section a' = ar_section a \<and> area_size a' = area_size a
    \<and> (\<forall>i < area_size a. area_test a' i
         = mask_verdict rem m (ar_name a) (section_name a i) (area_test a i))"
  using assms
proof (induction m arbitrary: a)
  case Nil
  then show ?case by (simp add: mask_verdict_def)
next
  case (Cons d m)
  show ?case
  proof (cases "rem (md_area d) (ar_name a)")
    case True
    obtain b where b: "mask_apply_sect rem a (md_sect d) (md_on d) = Some b" "area_wf b"
      "area_size b = area_size a" "ar_name b = ar_name a" "ar_section b = ar_section a"
      "\<forall>i < area_size a. area_test b i
        = (if rem (md_sect d) (section_name a i) then Some (md_on d) else area_test a i)"
      using mask_apply_sect_spec [OF Cons.prems] by metis
    have "section_name b i = section_name a i" for i
      using b(3-5) by (simp add: section_name_def)
    moreover obtain c where "mask_apply rem m b = Some c" "area_wf c" "ar_name c = ar_name b"
      "ar_section c = ar_section b" "area_size c = area_size b"
      "\<forall>i < area_size b. area_test c i
        = mask_verdict rem m (ar_name b) (section_name b i) (area_test b i)"
      using Cons.IH [OF b(2)] by blast
    ultimately show ?thesis
      using b True by (simp add: mask_verdict_Cons mask_hits_def)
  next
    case False
    with Cons show ?thesis by (simp add: mask_verdict_Cons mask_hits_def)
  qed
qed

text \<open>
  C28: applying a mask to an area never fails and leaves each section as the last entry of
  the mask whose area and section expressions both match says; a section no entry
  matches keeps its state.
\<close>

theorem mask_apply_last_match:
  assumes "area_wf a"
  shows "\<exists>a'. mask_apply rem m a = Some a' \<and> area_wf a'
    \<and> ar_name a' = ar_name a \<and> ar_section a' = ar_section a \<and> area_size a' = area_size a
    \<and> (\<forall>i < area_size a. area_test a' i
         = mask_verdict rem m (ar_name a) (section_name a i) (area_test a i))"
  by (rule mask_apply_verdict [OF assms])

theorem mask_apply_last_match_witness:
  "\<exists>a'. mask_apply (=) [\<lparr>md_str = ''NET:RX'', md_area = ''NET'', md_sect = ''RX'', md_on = True\<rparr>]
      \<lparr>ar_name = ''NET'', ar_section = [''RX''], ar_bitmap = \<lparr>bm_data = [0], bm_size = 1\<rparr>\<rparr> = Some a'
    \<and> area_test a' 0 = Some True"
  using mask_apply_last_match
    [of "\<lparr>ar_name = ''NET'', ar_section = [''RX''], ar_bitmap = \<lparr>bm_data = [0], bm_size = 1\<rparr>\<rparr>" "(=)"
      "[\<lparr>md_str = ''NET:RX'', md_area = ''NET'', md_sect = ''RX'', md_on = True\<rparr>]"]
  by (force simp: area_wf_def area_size_def bm_wf_def bm_nwords_def mask_verdict_def mask_hits_def
      section_name_def)

section \<open>Reading a mask from a stream\<close>

lemma is_get_line:
  assumes "l \<noteq> []" and "CHR 0x0a \<notin> set l"
  shows "is_get \<lparr>is_rest = l @ CHR 0x0a # r, is_eof = False, is_fail = False\<rparr>
    = (l, \<lparr>is_rest = CHR 0x0a # r, is_eof = False, is_fail = False\<rparr>)"
  using assms by (auto simp: is_get_def takeWhile_append dropWhile_append)

text \<open>
  The stream extractor stops at the first newline: a stream that starts with a line
  \<open>l\<close> gives the mask two entries, the one for \<open>l\<close> and the one for the empty string
  (which selects every section of every area); the lines after the first are not read.
\<close>

lemma mask_read_stops_at_newline:
  assumes "l \<noteq> []" and "CHR 0x0a \<notin> set l"
  shows "mask_read rec \<lparr>is_rest = l @ CHR 0x0a # r, is_eof = False, is_fail = False\<rparr> m
    = Option.bind (mask_add rec m l) (\<lambda>m'. mask_add rec m' '''')"
proof -
  have stop: "mask_read rec s = Some" if "\<not> is_good s" for s
    using that by (subst fun_eq_iff) (simp add: mask_read.simps)
  have "mask_read rec \<lparr>is_rest = CHR 0x0a # r, is_eof = False, is_fail = False\<rparr>
      = (\<lambda>m'. mask_add rec m' '''')"
    by (rule ext, subst mask_read.simps) (simp add: is_good_def is_get_def stop)
  then show ?thesis
    using is_get_line [OF assms] by (subst mask_read.simps) (simp add: is_good_def)
qed

end
