(* ===== verification/Args.thy ===== *)
theory Args
  imports Hogl_Prelude
begin

text \<open>
  Log record arguments (\<^verbatim>\<open>include/hogl/detail/args.hpp\<close>) and packed arguments
  (\<^verbatim>\<open>include/hogl/detail/argpack.hpp\<close>) on a 64-bit target. The memory of the caller
  (strings, raw data, dump descriptors) is a function from addresses to bytes. Members a
  constructor leaves uninitialised are never read by the code below; the constructors of
  the model set them to zero and the theorems do not depend on it.
\<close>

section \<open>Arguments\<close>

type_synonym memory = "u64 \<Rightarrow> u8"

definition read_mem :: "memory \<Rightarrow> u64 \<Rightarrow> nat \<Rightarrow> bytes" where
  "read_mem mem p n = map (\<lambda>k. mem (p + word_of_nat k)) [0..<n]"

abbreviation (input) NONE :: u32 where "NONE \<equiv> 0"
abbreviation (input) UINT32 :: u32 where "UINT32 \<equiv> 1"
abbreviation (input) INT32 :: u32 where "INT32 \<equiv> 2"
abbreviation (input) UINT64 :: u32 where "UINT64 \<equiv> 3"
abbreviation (input) INT64 :: u32 where "INT64 \<equiv> 4"
abbreviation (input) POINTER :: u32 where "POINTER \<equiv> 5"
abbreviation (input) DOUBLE :: u32 where "DOUBLE \<equiv> 6"
abbreviation (input) CSTR :: u32 where "CSTR \<equiv> 7"
abbreviation (input) GSTR :: u32 where "GSTR \<equiv> 8"
abbreviation (input) XDUMP :: u32 where "XDUMP \<equiv> 9"
abbreviation (input) RAW :: u32 where "RAW \<equiv> 10"

record arg =
  a_type :: u32
  a_val :: u64
  a_len :: u32

definition is_32bit :: "u32 \<Rightarrow> bool" where
  "is_32bit t \<longleftrightarrow> t = UINT32 \<or> t = INT32"

definition is_simple :: "arg \<Rightarrow> bool" where
  "is_simple a \<longleftrightarrow> a_type a \<noteq> CSTR \<and> a_type a \<noteq> XDUMP \<and> a_type a \<noteq> RAW"

definition arg_none :: arg where
  "arg_none = \<lparr>a_type = NONE, a_val = 0, a_len = 0\<rparr>"

definition arg_bool :: "bool \<Rightarrow> arg" where
  "arg_bool b = \<lparr>a_type = UINT32, a_val = of_bool b, a_len = 0\<rparr>"

definition arg_u8 :: "u8 \<Rightarrow> arg" where
  "arg_u8 i = \<lparr>a_type = UINT32, a_val = ucast i, a_len = 0\<rparr>"

definition arg_u16 :: "u16 \<Rightarrow> arg" where
  "arg_u16 i = \<lparr>a_type = UINT32, a_val = ucast i, a_len = 0\<rparr>"

definition arg_ptr :: "u64 \<Rightarrow> arg" where
  "arg_ptr p = \<lparr>a_type = POINTER, a_val = p, a_len = 0\<rparr>"

definition arg_u32 :: "u32 \<Rightarrow> arg" where
  "arg_u32 i = \<lparr>a_type = UINT32, a_val = ucast i, a_len = 0\<rparr>"

definition arg_i32 :: "u32 \<Rightarrow> arg" where
  "arg_i32 i = \<lparr>a_type = INT32, a_val = scast i, a_len = 0\<rparr>"

definition arg_u64 :: "u64 \<Rightarrow> arg" where
  "arg_u64 u = \<lparr>a_type = UINT64, a_val = u, a_len = 0\<rparr>"

definition arg_i64 :: "u64 \<Rightarrow> arg" where
  "arg_i64 i = \<lparr>a_type = INT64, a_val = i, a_len = 0\<rparr>"

text \<open>A double is given by its 64 bits, a C string by its address and the result of \<^verbatim>\<open>strlen\<close>.\<close>

definition arg_double :: "u64 \<Rightarrow> arg" where
  "arg_double d = \<lparr>a_type = DOUBLE, a_val = d, a_len = 0\<rparr>"

definition arg_cstr :: "u64 \<Rightarrow> u64 \<Rightarrow> arg" where
  "arg_cstr str n = \<lparr>a_type = CSTR, a_val = str, a_len = (if str \<noteq> 0 then ucast n else 0)\<rparr>"

definition arg_string :: "u64 \<Rightarrow> u64 \<Rightarrow> arg" where
  "arg_string p n = \<lparr>a_type = CSTR, a_val = p, a_len = ucast n\<rparr>"

definition arg_gstr :: "u64 \<Rightarrow> arg" where
  "arg_gstr s = \<lparr>a_type = GSTR, a_val = s, a_len = 0\<rparr>"

definition arg_xdump :: "u64 \<Rightarrow> arg" where
  "arg_xdump xd = \<lparr>a_type = XDUMP, a_val = xd, a_len = 0\<rparr>"

definition arg_raw :: "u64 \<Rightarrow> u32 \<Rightarrow> arg" where
  "arg_raw p n = \<lparr>a_type = RAW, a_val = p, a_len = n\<rparr>"

text \<open>
  Layout of \<^verbatim>\<open>struct arg_xdump\<close> in memory: the four format bytes, padding to eight, the
  data pointer, the length. The format packs \<^verbatim>\<open>byte_width\<close> and \<^verbatim>\<open>precision\<close>
  into one byte.
\<close>

record xdump_format =
  xf_type :: u8
  xf_byte_width :: "4 word"
  xf_precision :: "4 word"
  xf_line_width :: u8
  xf_delim :: u8

definition xdump_format_bytes :: "xdump_format \<Rightarrow> bytes" where
  "xdump_format_bytes f =
     [xf_type f, ucast (xf_byte_width f) OR push_bit 4 (ucast (xf_precision f)), xf_line_width f, xf_delim f]"

definition xdump_format_of :: "bytes \<Rightarrow> xdump_format option" where
  "xdump_format_of bs =
     (case bs of
        [t, w, l, d] \<Rightarrow> Some \<lparr>xf_type = t, xf_byte_width = ucast w, xf_precision = ucast (drop_bit 4 w),
                            xf_line_width = l, xf_delim = d\<rparr>
      | _ \<Rightarrow> None)"

definition xd_fmt :: "memory \<Rightarrow> u64 \<Rightarrow> bytes" where
  "xd_fmt mem xd = read_mem mem xd 4"

definition xd_ptr :: "memory \<Rightarrow> u64 \<Rightarrow> u64" where
  "xd_ptr mem xd = of_le (read_mem mem (xd + 8) 8)"

definition xd_len :: "memory \<Rightarrow> u64 \<Rightarrow> u32" where
  "xd_len mem xd = of_le (read_mem mem (xd + 16) 4)"

section \<open>Packed arguments\<close>

record argpack =
  ap_argtype :: u64
  ap_argval :: "u64 list"
  ap_arglen :: "u32 list"

lemma unat_drop_bit_less: "t \<noteq> 0 \<Longrightarrow> unat (drop_bit 4 t :: u64) < unat t"
  by (simp add: unat_drop_bit_eq drop_bit_eq_div unat_div word_neq_0_conv word_less_nat_alt)

function ap_nargs_loop :: "u64 \<Rightarrow> u32 \<Rightarrow> u32" where
  "ap_nargs_loop t n = (if t \<noteq> 0 then ap_nargs_loop (drop_bit 4 t) (n + 1) else n)"
  by pat_completeness auto

termination
  by (relation "measure (\<lambda>(t, _). unat t)") (simp_all add: unat_drop_bit_less)

declare ap_nargs_loop.simps [simp del]

definition ap_nargs :: "argpack \<Rightarrow> u32" where
  "ap_nargs ap = ap_nargs_loop (ap_argtype ap) 0"

text \<open>The argument type word holds four bits per argument; records use the same encoding.\<close>

definition or_arg_type :: "u64 \<Rightarrow> nat \<Rightarrow> u32 \<Rightarrow> u64" where
  "or_arg_type argtype i t = argtype OR push_bit (i * 4) (ucast (t AND 0xf))"

definition nth_arg_type :: "u64 \<Rightarrow> nat \<Rightarrow> u32" where
  "nth_arg_type argtype i = ucast (drop_bit (i * 4) argtype AND 0xf)"

definition ap_set_arg_type :: "argpack \<Rightarrow> nat \<Rightarrow> u32 \<Rightarrow> argpack" where
  "ap_set_arg_type ap i t = ap\<lparr>ap_argtype := or_arg_type (ap_argtype ap) i t\<rparr>"

definition ap_get_arg_type :: "argpack \<Rightarrow> nat \<Rightarrow> u32" where
  "ap_get_arg_type ap i = nth_arg_type (ap_argtype ap) i"

definition ap_get_arg_val32 :: "argpack \<Rightarrow> nat \<Rightarrow> u32" where
  "ap_get_arg_val32 ap i = ucast (ap_argval ap ! i)"

definition ap_get_arg_val64 :: "argpack \<Rightarrow> nat \<Rightarrow> u64" where
  "ap_get_arg_val64 ap i = ap_argval ap ! i"

definition ap_get_arg_data :: "argpack \<Rightarrow> nat \<Rightarrow> u64 \<times> u32" where
  "ap_get_arg_data ap i = (ap_argval ap ! i, ap_arglen ap ! i)"

text \<open>Writing the 32-bit member of the union keeps the upper half of the 64-bit word.\<close>

definition put_low32 :: "u64 \<Rightarrow> u32 \<Rightarrow> u64" where
  "put_low32 w v = (w AND NOT (mask 32)) OR ucast v"

definition ap_set_arg :: "argpack \<Rightarrow> nat \<Rightarrow> arg \<Rightarrow> argpack \<times> u32" where
  "ap_set_arg ap i a =
     (if a_type a = NONE then (ap, 0)
      else
        let ap = ap_set_arg_type ap i (a_type a);
            ap = (if is_32bit (a_type a)
                  then ap\<lparr>ap_argval := (ap_argval ap)[i := put_low32 (ap_argval ap ! i) (ucast (a_val a))]\<rparr>
                  else ap\<lparr>ap_argval := (ap_argval ap)[i := a_val a]\<rparr>)
        in if is_simple a then (ap, 0)
           else (ap\<lparr>ap_arglen := (ap_arglen ap)[i := a_len a]\<rparr>, 1))"

fun ap_set_args :: "argpack \<Rightarrow> nat \<Rightarrow> arg list \<Rightarrow> u32 \<Rightarrow> argpack \<times> u32" where
  "ap_set_args ap i [] n = (ap, n)"
| "ap_set_args ap i (a # as) n =
     (case ap_set_arg ap i a of (ap', k) \<Rightarrow> ap_set_args ap' (Suc i) as (n + k))"

definition ap_populate :: "argpack \<Rightarrow> arg list \<Rightarrow> argpack \<times> u32" where
  "ap_populate ap as = ap_set_args (ap\<lparr>ap_argtype := 0\<rparr>) 0 as 0"

definition ap_clear :: "argpack \<Rightarrow> argpack" where
  "ap_clear ap = ap\<lparr>ap_argtype := 0\<rparr>"

definition ap_wf :: "argpack \<Rightarrow> bool" where
  "ap_wf ap \<longleftrightarrow> length (ap_argval ap) = 16 \<and> length (ap_arglen ap) = 16"

section \<open>The argument type word\<close>

lemma length_read_mem [simp]: "length (read_mem mem p n) = n"
  by (simp add: read_mem_def)

lemma read_mem_eq_Nil [simp]: "read_mem mem p n = [] \<longleftrightarrow> n = 0"
  by (simp add: read_mem_def)

lemma read_mem_0 [simp]: "read_mem mem p 0 = []"
  by simp

lemma take_read_mem: "take m (read_mem mem p n) = read_mem mem p (min m n)"
  by (cases "m \<le> n") (simp_all add: read_mem_def take_map min_def)

lemma xdump_format_roundtrip: "xdump_format_of (xdump_format_bytes f) = Some f"
proof -
  have "(ucast (ucast w OR push_bit 4 (ucast p) :: u8) :: 4 word) = w" for w p :: "4 word"
    by (rule bit_word_eqI) (auto simp: bit_simps)
  moreover have "(ucast (drop_bit 4 (ucast w OR push_bit 4 (ucast p) :: u8)) :: 4 word) = p" for w p :: "4 word"
    by (rule bit_word_eqI) (auto simp: bit_simps dest: bit_imp_le_length)
  ultimately show ?thesis
    by (simp add: xdump_format_of_def xdump_format_bytes_def)
qed

lemma mask4_32: "(0xf :: u32) = mask 4" and mask4_64: "(0xf :: u64) = mask 4"
  by (simp_all add: mask_eq_exp_minus_1)

lemma bit_or_arg_type:
  "bit (or_arg_type w i t) b \<longleftrightarrow> bit w b \<or> (b < 64 \<and> b div 4 = i \<and> bit t (b mod 4))"
proof -
  have "4 * i \<le> b \<and> b - 4 * i < 4 \<longleftrightarrow> b div 4 = i" by auto
  moreover have "b - 4 * i = b mod 4" if "b div 4 = i" using that by (simp add: minus_mult_div_eq_mod mult.commute flip: that)
  ultimately show ?thesis
    unfolding or_arg_type_def mask4_32
    by (auto simp: bit_simps mult.commute [of i 4])
qed

lemma nth_arg_type_eqI:
  assumes "t < 16" and "\<And>k. k < 4 \<Longrightarrow> bit w (4 * i + k) = bit t k"
  shows "nth_arg_type w i = t"
proof (rule bit_word_eqI)
  fix k assume "k < LENGTH(32)"
  have "take_bit 4 t = t"
    using assms(1) by (simp add: word_unat_eq_iff unsigned_take_bit_eq take_bit_nat_eq_self word_less_nat_alt)
  then have "bit t k \<Longrightarrow> k < 4" by (metis bit_take_bit_iff)
  then show "bit (nth_arg_type w i) k = bit t k"
    using assms(2) [of k] \<open>k < LENGTH(32)\<close> unfolding nth_arg_type_def mask4_64
    by (auto simp: bit_simps mult.commute [of i 4] add.commute)
qed

text \<open>The word that encodes the types of an argument list from position \<open>i\<close> on.\<close>

fun argtype_of :: "u64 \<Rightarrow> nat \<Rightarrow> arg list \<Rightarrow> u64" where
  "argtype_of w i [] = w"
| "argtype_of w i (a # as) = argtype_of (or_arg_type w i (a_type a)) (Suc i) as"

lemma bit_argtype_of:
  "bit (argtype_of w i as) b \<longleftrightarrow> bit w b
     \<or> (b < 64 \<and> i \<le> b div 4 \<and> b div 4 < i + length as \<and> bit (a_type (as ! (b div 4 - i))) (b mod 4))"
proof (induction as arbitrary: w i)
  case (Cons a as)
  have "(as ! (b div 4 - Suc i)) = (a # as) ! (b div 4 - i)" if "Suc i \<le> b div 4"
    using that by (cases "b div 4 - i") (simp_all add: Suc_diff_le [symmetric] diff_Suc)
  with Cons.IH show ?case
    by (auto simp: bit_or_arg_type nth_Cons' not_less le_less_Suc_eq Suc_le_eq)
qed auto

lemma nth_argtype_of:
  assumes "i < length as" and "length as \<le> 16" and "a_type (as ! i) < 16"
  shows "nth_arg_type (argtype_of 0 0 as) i = a_type (as ! i)"
  using assms by (intro nth_arg_type_eqI) (auto simp: bit_argtype_of)

lemma ap_nargs_loop_eq:
  assumes "drop_bit (4 * n) t = 0" and "0 < n \<longrightarrow> drop_bit (4 * (n - 1)) t \<noteq> 0"
  shows "ap_nargs_loop t c = c + word_of_nat n"
  using assms
proof (induction n arbitrary: t c)
  case 0
  then show ?case by (simp add: ap_nargs_loop.simps)
next
  case (Suc n)
  have t: "t \<noteq> 0" using Suc.prems(2) by auto
  have "drop_bit (4 * n) (drop_bit 4 t) = 0"
    using Suc.prems(1) by (simp add: add.commute)
  moreover have "drop_bit (4 * (n - 1)) (drop_bit 4 t) \<noteq> 0" if "0 < n"
    using Suc.prems(2) that by (cases n) (simp_all add: add.commute)
  ultimately have "ap_nargs_loop (drop_bit 4 t) (c + 1) = c + 1 + word_of_nat n"
    using Suc.IH by simp
  with t show ?case by (subst ap_nargs_loop.simps) simp
qed

end
