(* ===== verification/Log_Record.thy ===== *)
theory Log_Record
  imports Args Timestamp
begin

text \<open>
  Log records (\<^verbatim>\<open>include/hogl/detail/record.hpp\<close>). The argument storage is a byte
  buffer: \<^verbatim>\<open>argval\<close> and the tailroom behind it, of \<^verbatim>\<open>record_tailroom()\<close> bytes in
  all. Slot \<open>i\<close> is the eight bytes at \<open>8 * i\<close>; strings, raw data and dumps are copied
  behind the slots in use. A write outside the buffer is \<open>None\<close>. The pointer to the
  area is its address, zero for null.
\<close>

section \<open>Definitions\<close>

record log_record =
  r_area :: u64
  r_timestamp :: timestamp
  r_seqnum :: "52 word"
  r_section :: "12 word"
  r_argtype :: u64
  r_argval :: bytes

definition argval_size :: u32 where
  "argval_size = 128"

definition header_size :: u32 where
  "header_size = 32"

definition set_arg_type :: "log_record \<Rightarrow> nat \<Rightarrow> u32 \<Rightarrow> log_record" where
  "set_arg_type r i t = r\<lparr>r_argtype := or_arg_type (r_argtype r) i t\<rparr>"

definition get_arg_type :: "log_record \<Rightarrow> nat \<Rightarrow> u32" where
  "get_arg_type r i = nth_arg_type (r_argtype r) i"

definition clear_arg_type :: "log_record \<Rightarrow> nat \<Rightarrow> log_record" where
  "clear_arg_type r i = r\<lparr>r_argtype := r_argtype r AND NOT (push_bit (i * 4) 0xf)\<rparr>"

definition set_arg_val32 :: "bytes \<Rightarrow> nat \<Rightarrow> u32 \<Rightarrow> bytes option" where
  "set_arg_val32 buf i v = poke buf (8 * i) (le_bytes 4 v)"

definition set_arg_val64 :: "bytes \<Rightarrow> nat \<Rightarrow> u64 \<Rightarrow> bytes option" where
  "set_arg_val64 buf i v = poke buf (8 * i) (le_bytes 8 v)"

definition set_arg_data :: "bytes \<Rightarrow> nat \<Rightarrow> u32 \<Rightarrow> u32 \<Rightarrow> bytes option" where
  "set_arg_data buf i offset len = do {
     buf \<leftarrow> poke buf (8 * i) (le_bytes 4 offset);
     poke buf (8 * i + 4) (le_bytes 4 len)
   }"

definition get_arg_val32 :: "bytes \<Rightarrow> nat \<Rightarrow> u32 option" where
  "get_arg_val32 buf i = map_option of_le (peek buf (8 * i) 4)"

definition get_arg_val64 :: "bytes \<Rightarrow> nat \<Rightarrow> u64 option" where
  "get_arg_val64 buf i = map_option of_le (peek buf (8 * i) 8)"

text \<open>The offset and the length of the data of an argument, and the bytes they denote.\<close>

definition get_arg_data :: "bytes \<Rightarrow> nat \<Rightarrow> (u32 \<times> u32) option" where
  "get_arg_data buf i = do {
     len \<leftarrow> peek buf (8 * i + 4) 4;
     offset \<leftarrow> peek buf (8 * i) 4;
     Some (of_le offset, of_le len)
   }"

definition arg_bytes :: "bytes \<Rightarrow> nat \<Rightarrow> bytes option" where
  "arg_bytes buf i = do {
     (offset, len) \<leftarrow> get_arg_data buf i;
     peek buf (unat offset) (unat len)
   }"

definition copy_cstr :: "memory \<Rightarrow> bytes \<Rightarrow> nat \<Rightarrow> u64 \<Rightarrow> u32 \<Rightarrow> u32 \<Rightarrow> u32 \<Rightarrow> (bytes \<times> u32) option" where
  "copy_cstr mem buf i str len tailroom offset =
     (let room = tailroom - offset in
      if len = 0 \<or> room = 0 then do { buf \<leftarrow> set_arg_data buf i 0 0; Some (buf, 0) }
      else
        let room = room - 1;
            trunc = (len > room);
            len = (if trunc then room else len);
            n = (if trunc \<and> len > 3 then len - 3 else len)
        in do {
          buf \<leftarrow> (if trunc \<and> len > 3 then poke buf (unat offset + unat n) [0x3e, 0x3e, 0x3e] else Some buf);
          buf \<leftarrow> poke buf (unat offset) (read_mem mem str (unat n));
          buf \<leftarrow> poke buf (unat offset + unat len) [0];
          buf \<leftarrow> set_arg_data buf i offset len;
          Some (buf, len + 1)
        })"

definition copy_data :: "memory \<Rightarrow> bytes \<Rightarrow> nat \<Rightarrow> u64 \<Rightarrow> u32 \<Rightarrow> u32 \<Rightarrow> u32 \<Rightarrow> (bytes \<times> u32) option" where
  "copy_data mem buf i data len tailroom offset =
     (let room = tailroom - offset;
          len = (if len > room then room else len)
      in do {
        buf \<leftarrow> poke buf (unat offset) (read_mem mem data (unat len));
        buf \<leftarrow> set_arg_data buf i offset len;
        Some (buf, len)
      })"

definition copy_xdump :: "memory \<Rightarrow> bytes \<Rightarrow> nat \<Rightarrow> u64 \<Rightarrow> u32 \<Rightarrow> u32 \<Rightarrow> (bytes \<times> u32) option" where
  "copy_xdump mem buf i xd tailroom offset =
     (let hlen = 4;
          room = tailroom - offset;
          len = hlen + xd_len mem xd;
          len = (if len > room then room else len)
      in if len < hlen then do { buf \<leftarrow> set_arg_data buf i 0 0; Some (buf, 0) }
      else do {
        buf \<leftarrow> poke buf (unat offset) (xd_fmt mem xd);
        buf \<leftarrow> poke buf (unat offset + 4) (read_mem mem (xd_ptr mem xd) (unat (len - hlen)));
        buf \<leftarrow> set_arg_data buf i offset len;
        Some (buf, len)
      })"

text \<open>
  \<^verbatim>\<open>set_arg\<close>, on the argument storage; the type is recorded by \<open>set_arg_type\<close>.
\<close>

definition set_arg_storage :: "memory \<Rightarrow> u32 \<Rightarrow> nat \<Rightarrow> arg \<Rightarrow> bytes \<times> u32 \<Rightarrow> (bytes \<times> u32) option" where
  "set_arg_storage mem tailroom i a s =
     (case s of (buf, offset) \<Rightarrow>
        if a_type a = RAW then do {
          (buf, k) \<leftarrow> copy_data mem buf i (a_val a) (a_len a) tailroom offset; Some (buf, offset + k) }
        else if a_type a = XDUMP then do {
          (buf, k) \<leftarrow> copy_xdump mem buf i (a_val a) tailroom offset; Some (buf, offset + k) }
        else if a_type a = CSTR then do {
          (buf, k) \<leftarrow> copy_cstr mem buf i (a_val a) (a_len a) tailroom offset; Some (buf, offset + k) }
        else if is_32bit (a_type a) then do {
          buf \<leftarrow> set_arg_val32 buf i (ucast (a_val a)); Some (buf, offset) }
        else do {
          buf \<leftarrow> set_arg_val64 buf i (a_val a); Some (buf, offset) })"

definition set_arg :: "memory \<Rightarrow> nat \<Rightarrow> arg \<Rightarrow> u32 \<Rightarrow> log_record \<times> u32 \<Rightarrow> (log_record \<times> u32) option" where
  "set_arg mem i a tailroom s =
     (case s of (r, offset) \<Rightarrow>
        if a_type a = NONE then Some (r, offset)
        else
          let r = set_arg_type r i (a_type a) in
          do {
            (buf, offset) \<leftarrow> set_arg_storage mem tailroom i a (r_argval r, offset);
            Some (r\<lparr>r_argval := buf\<rparr>, offset)
          })"

fun set_arg_list :: "memory \<Rightarrow> u32 \<Rightarrow> nat \<Rightarrow> arg list \<Rightarrow> log_record \<times> u32 \<Rightarrow> (log_record \<times> u32) option" where
  "set_arg_list mem tailroom i [] s = Some s"
| "set_arg_list mem tailroom i (a # as) s = do {
     s \<leftarrow> set_arg mem i a tailroom s;
     set_arg_list mem tailroom (Suc i) as s
   }"

definition set_args :: "memory \<Rightarrow> u32 \<Rightarrow> arg list \<Rightarrow> log_record \<Rightarrow> log_record option" where
  "set_args mem tailroom as r =
     (let n = word_of_nat (length (filter (\<lambda>a. a_type a \<noteq> NONE) as)) :: u32;
          offset = n * 8
      in map_option fst (set_arg_list mem tailroom 0 as (r\<lparr>r_argtype := 0\<rparr>, offset)))"

text \<open>The loop over packed arguments.\<close>

definition set_packed_arg :: "memory \<Rightarrow> u32 \<Rightarrow> argpack \<Rightarrow> nat \<Rightarrow> bytes \<times> u32 \<Rightarrow> (bytes \<times> u32) option" where
  "set_packed_arg mem tailroom ap i s =
     (case s of (buf, offset) \<Rightarrow>
       let t = ap_get_arg_type ap i; (data, len) = ap_get_arg_data ap i in
       if t = RAW then do {
         (buf, k) \<leftarrow> copy_data mem buf i data len tailroom offset; Some (buf, offset + k) }
       else if t = XDUMP then do {
         (buf, k) \<leftarrow> copy_xdump mem buf i data tailroom offset; Some (buf, offset + k) }
       else if t = CSTR then do {
         (buf, k) \<leftarrow> copy_cstr mem buf i data len tailroom offset; Some (buf, offset + k) }
       else do { buf \<leftarrow> set_arg_val64 buf i (ap_get_arg_val64 ap i); Some (buf, offset) })"

text \<open>\<open>store_all\<close> runs a storing step for the positions of a list in order.\<close>

fun store_all :: "(nat \<Rightarrow> 's \<Rightarrow> 's option) \<Rightarrow> nat list \<Rightarrow> 's \<Rightarrow> 's option" where
  "store_all st [] s = Some s"
| "store_all st (i # is) s = do { s \<leftarrow> st i s; store_all st is s }"

definition set_args_packed :: "memory \<Rightarrow> u32 \<Rightarrow> argpack \<Rightarrow> log_record \<Rightarrow> log_record option" where
  "set_args_packed mem tailroom ap r =
     (let n = ap_nargs ap; offset = n * 8; r = r\<lparr>r_argtype := ap_argtype ap\<rparr> in do {
        (buf, offset) \<leftarrow> store_all (set_packed_arg mem tailroom ap) [0..<unat n] (r_argval r, offset);
        Some (r\<lparr>r_argval := buf\<rparr>)
      })"

definition r_clear :: "log_record \<Rightarrow> log_record" where
  "r_clear r = r\<lparr>r_area := 0, r_timestamp := from_nsec 0, r_seqnum := 0, r_section := 0, r_argtype := 0\<rparr>"

definition set_special :: "u32 \<Rightarrow> u64 \<Rightarrow> u64 \<Rightarrow> log_record \<Rightarrow> log_record option" where
  "set_special t arg1 arg2 r = do {
     buf \<leftarrow> set_arg_val64 (r_argval r) 0 0;
     buf \<leftarrow> set_arg_val64 buf 1 arg1;
     buf \<leftarrow> set_arg_val64 buf 2 arg2;
     Some (r\<lparr>r_area := 0, r_section := 0xfff, r_argtype := ucast t, r_argval := buf\<rparr>)
   }"

definition is_special :: "log_record \<Rightarrow> bool" where
  "is_special r \<longleftrightarrow> \<not> (r_area r \<noteq> 0 \<or> r_section r \<noteq> 0xfff)"

definition r_ack :: "log_record \<Rightarrow> log_record option" where
  "r_ack r = map_option (\<lambda>b. r\<lparr>r_argval := b\<rparr>) (set_arg_val64 (r_argval r) 0 0x7e7f)"

definition r_acked :: "log_record \<Rightarrow> bool option" where
  "r_acked r = map_option (\<lambda>v. v = 0x7e7f) (get_arg_val64 (r_argval r) 0)"

section \<open>What an argument stores\<close>

datatype arg_value = V32 u32 | V64 u64 | VBytes bytes

text \<open>\<open>fetch_val\<close> is how a format handler reads an argument of a given type.\<close>

definition fetch_val :: "u32 \<Rightarrow> nat \<Rightarrow> bytes \<Rightarrow> arg_value option" where
  "fetch_val t i buf =
     (if t = CSTR \<or> t = XDUMP \<or> t = RAW then map_option VBytes (arg_bytes buf i)
      else if is_32bit t then map_option V32 (get_arg_val32 buf i)
      else map_option V64 (get_arg_val64 buf i))"

text \<open>
  The specification: \<open>expected\<close> is the value a handler must see when \<open>room\<close> bytes
  were left for data, \<open>used\<close> the number of bytes it takes there.
\<close>

definition fit_cstr :: "nat \<Rightarrow> bytes \<Rightarrow> bytes" where
  "fit_cstr room s =
     (if s = [] \<or> room = 0 then []
      else if length s \<le> room - 1 then s
      else if room - 1 > 3 then take (room - 4) s @ [0x3e, 0x3e, 0x3e]
      else take (room - 1) s)"

definition xdump_total :: "memory \<Rightarrow> u64 \<Rightarrow> nat" where
  "xdump_total mem xd = (4 + unat (xd_len mem xd)) mod 2 ^ 32"

definition fit_xdump :: "memory \<Rightarrow> nat \<Rightarrow> u64 \<Rightarrow> bytes" where
  "fit_xdump mem room xd =
     (let l = min (xdump_total mem xd) room in
      if l < 4 then [] else xd_fmt mem xd @ read_mem mem (xd_ptr mem xd) (l - 4))"

definition data_of :: "memory \<Rightarrow> nat \<Rightarrow> arg \<Rightarrow> bytes" where
  "data_of mem room a =
     (if a_type a = CSTR then fit_cstr room (read_mem mem (a_val a) (unat (a_len a)))
      else if a_type a = XDUMP then fit_xdump mem room (a_val a)
      else take room (read_mem mem (a_val a) (unat (a_len a))))"

definition expected :: "memory \<Rightarrow> nat \<Rightarrow> arg \<Rightarrow> arg_value" where
  "expected mem room a =
     (if a_type a = CSTR \<or> a_type a = XDUMP \<or> a_type a = RAW then VBytes (data_of mem room a)
      else if is_32bit (a_type a) then V32 (ucast (a_val a)) else V64 (a_val a))"

definition used :: "memory \<Rightarrow> nat \<Rightarrow> arg \<Rightarrow> nat" where
  "used mem room a =
     (if a_type a = CSTR then (if a_len a = 0 \<or> room = 0 then 0 else Suc (length (data_of mem room a)))
      else if a_type a = XDUMP \<or> a_type a = RAW then length (data_of mem room a)
      else 0)"

section \<open>Frames\<close>

text \<open>
  \<open>agree_outside R\<close>: two buffers differ at most on the positions of \<open>R\<close>.
  \<open>settled R f v\<close>: the value \<open>v\<close> that \<open>f\<close> reads depends on the positions in \<open>R\<close> only.
\<close>

definition agree_outside :: "nat set \<Rightarrow> bytes \<Rightarrow> bytes \<Rightarrow> bool" where
  "agree_outside R b b' \<longleftrightarrow> length b' = length b \<and> (\<forall>k < length b. k \<notin> R \<longrightarrow> b' ! k = b ! k)"

definition settled :: "nat set \<Rightarrow> (bytes \<Rightarrow> 'v option) \<Rightarrow> 'v \<Rightarrow> bytes \<Rightarrow> bool" where
  "settled R f v b \<longleftrightarrow> (\<forall>b'. agree_outside (- R) b b' \<longrightarrow> f b' = Some v)"

lemma agree_outside_refl: "agree_outside R b b"
  by (simp add: agree_outside_def)

lemma agree_outside_trans:
  "agree_outside R a b \<Longrightarrow> agree_outside S b c \<Longrightarrow> R \<subseteq> T \<Longrightarrow> S \<subseteq> T \<Longrightarrow> agree_outside T a c"
  unfolding agree_outside_def by (metis subsetD)

lemma agree_outside_poke: "poke b off bs = Some b' \<Longrightarrow> agree_outside {off..<off + length bs} b b'"
  by (auto simp: agree_outside_def nth_poke dest: length_poke)

lemma agree_outside_length: "agree_outside R b b' \<Longrightarrow> length b' = length b"
  by (simp add: agree_outside_def)

lemma settled_value: "settled R f v b \<Longrightarrow> f b = Some v"
  by (simp add: settled_def agree_outside_refl)

lemma settled_frame: "settled R f v b \<Longrightarrow> agree_outside S b b' \<Longrightarrow> R \<inter> S = {} \<Longrightarrow> settled R f v b'"
  unfolding settled_def using agree_outside_trans [of S b b' "- R" _ "- R"] by blast

lemma settled_mono: "settled R f v b \<Longrightarrow> R \<subseteq> S \<Longrightarrow> settled S f v b"
  unfolding settled_def using agree_outside_trans [of "- S" b _ "{}" _ "- R"] agree_outside_refl by blast

lemma settled_peek:
  assumes "peek b off n = Some d"
  shows "settled {off..<off + n} (\<lambda>b. peek b off n) d b"
  unfolding settled_def
proof (intro allI impI)
  fix b' assume "agree_outside (- {off..<off + n}) b b'"
  then have "peek b' off n = peek b off n"
    by (intro peek_eqI) (auto simp: agree_outside_def)
  with assms show "peek b' off n = Some d" by simp
qed

lemma poke_poke_adjacent:
  assumes "off + length xs + length ys \<le> length b"
  shows "Option.bind (poke b off xs) (\<lambda>b. poke b (off + length xs) ys) = poke b off (xs @ ys)"
  using assms by (simp add: poke_def ac_simps)

lemma set_arg_data_poke:
  "8 * i + 8 \<le> length b \<Longrightarrow> set_arg_data b i off len = poke b (8 * i) (le_bytes 4 off @ le_bytes 4 len)"
  using poke_poke_adjacent [of "8 * i" "le_bytes 4 off" "le_bytes 4 len" b]
  by (simp add: set_arg_data_def)

lemma peek_append:
  assumes "peek b off (m + n) = Some (xs @ ys)" and "length xs = m"
  shows "peek b off m = Some xs" and "peek b (off + m) n = Some ys"
proof -
  have e: "take (m + n) (drop off b) = xs @ ys" and l: "off + (m + n) \<le> length b"
    using assms(1) by (auto simp: peek_def split: if_splits)
  show "peek b off m = Some xs"
    using arg_cong [OF e, of "take m"] l assms(2) by (simp add: peek_def)
  show "peek b (off + m) n = Some ys"
    using arg_cong [OF e, of "drop m"] l assms(2) by (simp add: peek_def drop_take add.commute)
qed

lemma arg_bytes_slot:
  fixes off len :: u32
  assumes "peek b (8 * i) 8 = Some (le_bytes 4 off @ le_bytes 4 len)"
    and "peek b (unat off) (unat len) = Some d"
  shows "arg_bytes b i = Some d"
proof -
  have "peek b (8 * i) (4 + 4) = Some (le_bytes 4 off @ le_bytes 4 len)"
    using assms(1) by simp
  from peek_append [OF this length_le_bytes]
  have "get_arg_data b i = Some (of_le (le_bytes 4 off), of_le (le_bytes 4 len))"
    by (simp only: get_arg_data_def bind.bind_lunit)
  moreover have "(of_le (le_bytes 4 w) :: u32) = w" for w :: u32
    by (rule of_le_le_bytes) simp
  ultimately show ?thesis
    using assms(2) by (simp only: arg_bytes_def bind.bind_lunit prod.case)
qed

lemma set_arg_data_settled:
  assumes frame: "agree_outside {off..<off + u} b b1"
    and d: "peek b1 (unat o1) (unat len) = Some d"
    and range: "len = 0 \<or> off \<le> unat o1 \<and> unat o1 + unat len \<le> off + u"
    and fits: "8 * i + 8 \<le> off" "off \<le> length b"
  shows "\<exists>b'. set_arg_data b1 i o1 len = Some b'
    \<and> agree_outside ({8 * i..<8 * i + 8} \<union> {off..<off + u}) b b'
    \<and> settled ({8 * i..<8 * i + 8} \<union> {off..<off + u}) (\<lambda>b. arg_bytes b i) d b'"
proof -
  have len: "length b1 = length b" using frame by (rule agree_outside_length)
  let ?s = "le_bytes 4 o1 @ le_bytes 4 len"
  obtain b' where b': "poke b1 (8 * i) ?s = Some b'" "set_arg_data b1 i o1 len = Some b'"
    using fits len by (simp add: set_arg_data_poke poke_def)
  have "peek b' (8 * i) 8 = Some ?s"
    using peek_poke_same [OF b'(1)] by simp
  then have slot: "settled {8 * i..<8 * i + 8} (\<lambda>b. peek b (8 * i) 8) ?s b'"
    by (rule settled_peek)
  have "peek b' (unat o1) (unat len) = Some d"
  proof (cases "len = 0")
    case True
    with d len length_poke [OF b'(1)] show ?thesis by (simp add: peek_def split: if_splits)
  next
    case False
    with range fits d peek_poke_disjoint [OF b'(1), of "unat o1" "unat len"] show ?thesis by simp
  qed
  then have data: "settled {unat o1..<unat o1 + unat len} (\<lambda>b. peek b (unat o1) (unat len)) d b'"
    by (rule settled_peek)
  have "{unat o1..<unat o1 + unat len} \<subseteq> {off..<off + u}"
    using range by auto
  then have "settled ({8 * i..<8 * i + 8} \<union> {off..<off + u}) (\<lambda>b. peek b (unat o1) (unat len)) d b'"
    by (intro settled_mono [OF data] le_supI2)
  moreover have "settled ({8 * i..<8 * i + 8} \<union> {off..<off + u}) (\<lambda>b. peek b (8 * i) 8) ?s b'"
    by (intro settled_mono [OF slot] Un_upper1)
  ultimately have "settled ({8 * i..<8 * i + 8} \<union> {off..<off + u}) (\<lambda>b. arg_bytes b i) d b'"
    unfolding settled_def using arg_bytes_slot by blast
  moreover have "agree_outside ({8 * i..<8 * i + 8} \<union> {off..<off + u}) b b'"
    using agree_outside_trans [OF frame agree_outside_poke [OF b'(1)]] by simp
  ultimately show ?thesis using b' by blast
qed

section \<open>Storing one argument\<close>

abbreviation arg_region :: "nat \<Rightarrow> nat \<Rightarrow> nat \<Rightarrow> nat set" where
  "arg_region i off u \<equiv> {8 * i..<8 * i + 8} \<union> {off..<off + u}"

text \<open>A copy routine stores \<open>d\<close> as the data of argument \<open>i\<close> and takes \<open>u\<close> bytes for it.\<close>

definition stores :: "nat \<Rightarrow> nat \<Rightarrow> bytes \<Rightarrow> nat \<Rightarrow> bytes \<Rightarrow> (bytes \<times> u32) option \<Rightarrow> bool" where
  "stores i off d u b res \<longleftrightarrow> (\<exists>b' k. res = Some (b', k) \<and> unat k = u
     \<and> agree_outside (arg_region i off u) b b' \<and> settled (arg_region i off u) (\<lambda>b. arg_bytes b i) d b')"

lemma unat_room: "unat off \<le> unat tailroom \<Longrightarrow> unat (tailroom - off :: u32) = unat tailroom - unat off"
  by (simp add: unat_sub word_le_nat_alt)

lemma poke_frame:
  assumes "off + length bs \<le> length b"
  obtains b' where "poke b off bs = Some b'" "agree_outside {off..<off + length bs} b b'"
    "peek b' off (length bs) = Some bs"
  using assms agree_outside_poke peek_poke_same by (metis poke_in_range)

lemma copy_data_stores:
  assumes "unat off \<le> unat tailroom" and "unat tailroom \<le> length b" and "8 * i + 8 \<le> unat off"
  shows "stores i (unat off) (take (unat tailroom - unat off) (read_mem mem data (unat len)))
    (min (unat tailroom - unat off) (unat len)) b (copy_data mem b i data len tailroom off)"
proof -
  let ?len = "if len > tailroom - off then tailroom - off else len"
  let ?d = "read_mem mem data (unat ?len)"
  have l: "unat ?len = min (unat tailroom - unat off) (unat len)"
    using unat_room [OF assms(1)] by (auto simp: word_less_nat_alt)
  then have fits: "unat off + length ?d \<le> length b" using assms by simp
  have d: "?d = take (unat tailroom - unat off) (read_mem mem data (unat len))"
    unfolding l by (simp add: take_read_mem)
  obtain b1 where b1: "poke b (unat off) ?d = Some b1"
    "agree_outside {unat off..<unat off + unat ?len} b b1"
    "peek b1 (unat off) (unat ?len) = Some ?d"
    using poke_frame [OF fits] unfolding length_read_mem by blast
  obtain b' where b': "set_arg_data b1 i off ?len = Some b'"
    "agree_outside (arg_region i (unat off) (unat ?len)) b b'"
    "settled (arg_region i (unat off) (unat ?len)) (\<lambda>b. arg_bytes b i) ?d b'"
    using set_arg_data_settled [OF b1(2,3)] assms by auto
  have "copy_data mem b i data len tailroom off = Some (b', ?len)"
    unfolding copy_data_def Let_def by (simp add: b1(1) b'(1) del: if_split)
  then show ?thesis
    unfolding stores_def d [symmetric] l [symmetric] using b'(2,3) by blast
qed

lemma set_arg_data_empty:
  assumes "8 * i + 8 \<le> off" and "off \<le> length b"
  shows "stores i off [] 0 b (do { b \<leftarrow> set_arg_data b i 0 0; Some (b, 0) })"
proof -
  have "peek b (unat (0 :: u32)) (unat (0 :: u32)) = Some []" by (simp add: peek_def)
  then obtain b' where "set_arg_data b i 0 0 = Some b'" "agree_outside (arg_region i off 0) b b'"
    "settled (arg_region i off 0) (\<lambda>b. arg_bytes b i) [] b'"
    using set_arg_data_settled [OF agree_outside_refl, of b 0 0 "[]" off 0 i] assms by auto
  then show ?thesis unfolding stores_def by (intro exI [of _ b'] exI [of _ 0]) simp
qed

lemma copy_xdump_stores:
  assumes "unat off \<le> unat tailroom" and "unat tailroom \<le> length b" and "8 * i + 8 \<le> unat off"
  shows "stores i (unat off) (fit_xdump mem (unat tailroom - unat off) xd)
    (length (fit_xdump mem (unat tailroom - unat off) xd)) b (copy_xdump mem b i xd tailroom off)"
proof -
  let ?room = "tailroom - off" and ?tot = "4 + xd_len mem xd"
  let ?len = "if ?tot > ?room then ?room else ?tot"
  have tot: "unat ?tot = xdump_total mem xd"
    by (simp add: xdump_total_def unat_word_ariths)
  have l: "unat ?len = min (xdump_total mem xd) (unat tailroom - unat off)"
    using unat_room [OF assms(1)] tot by (auto simp: word_less_nat_alt)
  show ?thesis
  proof (cases "?len < 4")
    case True
    then have "fit_xdump mem (unat tailroom - unat off) xd = []"
      using l by (simp add: fit_xdump_def word_less_nat_alt)
    moreover have "copy_xdump mem b i xd tailroom off = do { b \<leftarrow> set_arg_data b i 0 0; Some (b, 0) }"
      using True by (simp add: copy_xdump_def Let_def)
    ultimately show ?thesis using set_arg_data_empty assms by simp
  next
    case False
    let ?x = "read_mem mem (xd_ptr mem xd) (unat (?len - 4))"
    let ?d = "xd_fmt mem xd @ ?x"
    have four: "length (xd_fmt mem xd) = 4" by (simp add: xd_fmt_def)
    have ge: "4 \<le> unat ?len" "unat (?len - 4) = unat ?len - 4"
      using False unat_sub [of 4 ?len] by (simp_all add: word_less_nat_alt word_le_nat_alt)
    then have len: "length ?d = unat ?len" by (simp add: four)
    then have fits: "unat off + length ?d \<le> length b" using l assms by simp
    have d: "fit_xdump mem (unat tailroom - unat off) xd = ?d"
      using ge by (simp add: fit_xdump_def Let_def flip: l del: if_split)
    obtain b1 where b1: "poke b (unat off) ?d = Some b1"
      "agree_outside {unat off..<unat off + unat ?len} b b1"
      "peek b1 (unat off) (unat ?len) = Some ?d"
      using poke_frame [OF fits] unfolding len by blast
    have pokes: "Option.bind (poke b (unat off) (xd_fmt mem xd)) (\<lambda>b. poke b (unat off + 4) ?x) = Some b1"
      using poke_poke_adjacent [of "unat off" "xd_fmt mem xd" ?x b] fits b1(1) by (simp add: four)
    obtain b' where b': "set_arg_data b1 i off ?len = Some b'"
      "agree_outside (arg_region i (unat off) (unat ?len)) b b'"
      "settled (arg_region i (unat off) (unat ?len)) (\<lambda>b. arg_bytes b i) ?d b'"
      using set_arg_data_settled [OF b1(2,3)] assms by auto
    have "copy_xdump mem b i xd tailroom off =
        do { b \<leftarrow> Option.bind (poke b (unat off) (xd_fmt mem xd)) (\<lambda>b. poke b (unat off + 4) ?x);
             b \<leftarrow> set_arg_data b i off ?len; Some (b, ?len) }"
      using False by (simp add: copy_xdump_def Let_def del: if_split)
    then have "copy_xdump mem b i xd tailroom off = Some (b', ?len)"
      by (simp only: pokes bind.bind_lunit b'(1))
    then show ?thesis
      unfolding stores_def d len using b'(2,3) by blast
  qed
qed

lemma poke_poke_adjacent_rev:
  assumes "off + length xs + length ys \<le> length b"
  shows "Option.bind (poke b (off + length xs) ys) (\<lambda>b. poke b off xs) = poke b off (xs @ ys)"
  using assms by (simp add: poke_def ac_simps)

lemma copy_cstr_pokes:
  fixes len room :: u32 and mem :: memory and str :: u64
  defines "trunc \<equiv> len > room - 1"
  defines "l \<equiv> if trunc then room - 1 else len"
  defines "n \<equiv> if trunc \<and> l > 3 then l - 3 else l"
  defines "d \<equiv> fit_cstr (unat room) (read_mem mem str (unat len))"
  assumes "len \<noteq> 0" and "room \<noteq> 0" and "off + unat room \<le> length b"
  shows "d = read_mem mem str (unat n) @ (if trunc \<and> l > 3 then [0x3e, 0x3e, 0x3e] else [])"
    and "unat l = length d" and "unat l < unat room"
    and "do { b \<leftarrow> (if trunc \<and> l > 3 then poke b (off + unat n) [0x3e, 0x3e, 0x3e] else Some b);
              b \<leftarrow> poke b off (read_mem mem str (unat n));
              poke b (off + unat l) [0] } = poke b off (d @ [0])"
proof -
  let ?s = "read_mem mem str (unat n)" and ?m = "if trunc \<and> l > 3 then [0x3e, 0x3e, 0x3e] else [] :: bytes"
  have r: "unat (room - 1) = unat room - 1" "0 < unat room" "0 < unat len"
    using assms(5,6) by (simp_all add: unat_minus_one unat_gt_0)
  have t: "trunc \<longleftrightarrow> unat room - 1 < unat len" and l: "unat l = min (unat room - 1) (unat len)"
    using r by (auto simp: trunc_def l_def word_less_nat_alt)
  have n: "unat n = (if trunc \<and> l > 3 then unat l - 3 else unat l)"
    using unat_sub [of 3 l] by (auto simp: n_def word_less_nat_alt word_le_nat_alt)
  have l3: "l > 3 \<longleftrightarrow> unat l > 3" by (simp add: word_less_nat_alt)
  show d: "d = ?s @ ?m"
    using r t l n unfolding l3 d_def fit_cstr_def by (auto simp: take_read_mem min_def)
  then show len: "unat l = length d" using n unfolding l3 by auto
  show "unat l < unat room" using r l by linarith
  then have fits: "off + length (?s @ ?m) + length [0 :: u8] \<le> length b"
    using assms(7) len unfolding d by simp
  have "do { b \<leftarrow> (if trunc \<and> l > 3 then poke b (off + unat n) [0x3e, 0x3e, 0x3e] else Some b);
             poke b off ?s } = poke b off (?s @ ?m)"
    using poke_poke_adjacent_rev [of off ?s "[0x3e, 0x3e, 0x3e]" b] fits by auto
  then have "do { b \<leftarrow> (if trunc \<and> l > 3 then poke b (off + unat n) [0x3e, 0x3e, 0x3e] else Some b);
              b \<leftarrow> poke b off ?s; poke b (off + unat l) [0] }
      = Option.bind (poke b off (?s @ ?m)) (\<lambda>b. poke b (off + unat l) [0])"
    by (metis bind_assoc)
  also have "\<dots> = poke b off ((?s @ ?m) @ [0])"
    using poke_poke_adjacent [OF fits] len unfolding d by simp
  finally show "do { b \<leftarrow> (if trunc \<and> l > 3 then poke b (off + unat n) [0x3e, 0x3e, 0x3e] else Some b);
              b \<leftarrow> poke b off ?s; poke b (off + unat l) [0] } = poke b off (d @ [0])"
    unfolding d .
qed

text \<open>A stored string is followed by its terminator.\<close>

lemma copy_cstr_stores:
  assumes "unat off \<le> unat tailroom" and "unat tailroom \<le> length b" and "8 * i + 8 \<le> unat off"
  shows "stores i (unat off) (fit_cstr (unat tailroom - unat off) (read_mem mem str (unat len)))
    (if len = 0 \<or> unat tailroom = unat off then 0
     else Suc (length (fit_cstr (unat tailroom - unat off) (read_mem mem str (unat len)))))
    b (copy_cstr mem b i str len tailroom off)"
proof (cases "len = 0 \<or> tailroom - off = 0")
  case True
  then have "fit_cstr (unat tailroom - unat off) (read_mem mem str (unat len)) = []"
    using unat_room [OF assms(1)] by (auto simp: fit_cstr_def read_mem_def)
  moreover have "copy_cstr mem b i str len tailroom off = do { b \<leftarrow> set_arg_data b i 0 0; Some (b, 0) }"
    using True by (simp add: copy_cstr_def)
  ultimately show ?thesis
    using True set_arg_data_empty [of i "unat off" b] assms by auto
next
  case False
  let ?room = "tailroom - off"
  let ?t = "len > ?room - 1"
  let ?l = "if ?t then ?room - 1 else len"
  let ?n = "if ?t \<and> ?l > 3 then ?l - 3 else ?l"
  let ?d = "fit_cstr (unat ?room) (read_mem mem str (unat len))"
  have room: "unat ?room = unat tailroom - unat off" by (rule unat_room [OF assms(1)])
  note p2 = copy_cstr_pokes(2) [where len = len and room = ?room and off = "unat off" and b = b and mem = mem and str = str]
    and p3 = copy_cstr_pokes(3) [where len = len and room = ?room and off = "unat off" and b = b]
    and p4 = copy_cstr_pokes(4) [where len = len and room = ?room and off = "unat off" and b = b and mem = mem and str = str]
  have l: "unat ?l = length ?d" "unat ?l < unat ?room" using p2 p3 False room assms by simp_all
  then have u: "unat (?l + 1) = Suc (length ?d)"
    using unat_less [of ?room] by (simp add: unat_word_ariths)
  have fits: "unat off + length (?d @ [0]) \<le> length b" using l room assms by simp
  obtain b1 where b1: "poke b (unat off) (?d @ [0]) = Some b1"
    "agree_outside {unat off..<unat off + Suc (length ?d)} b b1"
    "peek b1 (unat off) (length ?d + length [0 :: u8]) = Some (?d @ [0])"
    using poke_frame [OF fits] by auto
  have pd: "peek b1 (unat off) (unat ?l) = Some ?d"
    using peek_append(1) [OF b1(3)] l by simp
  obtain b' where b': "set_arg_data b1 i off ?l = Some b'"
    "agree_outside (arg_region i (unat off) (Suc (length ?d))) b b'"
    "settled (arg_region i (unat off) (Suc (length ?d))) (\<lambda>b. arg_bytes b i) ?d b'"
    using set_arg_data_settled [OF b1(2) pd] l assms by auto
  have "copy_cstr mem b i str len tailroom off = do {
      b \<leftarrow> do { b \<leftarrow> (if ?t \<and> ?l > 3 then poke b (unat off + unat ?n) [0x3e, 0x3e, 0x3e] else Some b);
              b \<leftarrow> poke b (unat off) (read_mem mem str (unat ?n));
              poke b (unat off + unat ?l) [0] };
      b \<leftarrow> set_arg_data b i off ?l; Some (b, ?l + 1) }"
    using False unfolding copy_cstr_def Let_def bind_assoc by (simp only: if_False)
  also have "\<dots> = do { b \<leftarrow> poke b (unat off) (?d @ [0]); b \<leftarrow> set_arg_data b i off ?l; Some (b, ?l + 1) }"
    using p4 False room assms by (simp only: not_False_eq_True simp_thms) simp
  also have "\<dots> = Some (b', ?l + 1)"
    by (simp only: b1(1) b'(1) bind.bind_lunit)
  finally have "copy_cstr mem b i str len tailroom off = Some (b', ?l + 1)" .
  moreover have "\<not> (len = 0 \<or> unat tailroom = unat off)"
    using False by (metis right_minus_eq word_unat_eq_iff)
  ultimately show ?thesis
    unfolding stores_def room [symmetric] using u b'(2,3) by (simp only: if_False) blast
qed

section \<open>Storing a list of arguments\<close>

lemma used_le: "used mem room a \<le> room"
proof -
  have "Suc (length (fit_cstr room s)) \<le> room" if "s \<noteq> []" "0 < room" for s
    using that by (auto simp: fit_cstr_def Suc_le_eq)
  moreover have "length (fit_xdump mem room x) \<le> room" for x
    by (auto simp: fit_xdump_def Let_def xd_fmt_def)
  moreover have "read_mem mem p (unat n) \<noteq> []" if "n \<noteq> 0" for p and n :: u32
    using that by (simp add: unat_eq_0)
  ultimately show ?thesis
    by (simp add: used_def data_of_def)
qed

text \<open>
  \<open>arg_store\<close> is the contract of a step that stores argument \<open>i\<close> of a list: it never
  leaves the buffer, it puts the expected value where a handler finds it, and it touches
  nothing but its slot and the data bytes it takes.
\<close>

definition store_ok :: "memory \<Rightarrow> u32 \<Rightarrow> arg \<Rightarrow> nat \<Rightarrow> bytes \<times> u32 \<Rightarrow> (bytes \<times> u32) option \<Rightarrow> bool" where
  "store_ok mem tailroom a i s res \<longleftrightarrow>
     (case s of (b, off) \<Rightarrow>
        let room = unat tailroom - unat off; u = used mem room a in
        \<exists>b' off'. res = Some (b', off') \<and> unat off' = unat off + u
          \<and> agree_outside (arg_region i (unat off) u) b b'
          \<and> settled (arg_region i (unat off) u) (fetch_val (a_type a) i) (expected mem room a) b')"

lemma store_all_cong:
  "(\<And>i s. i \<in> set is \<Longrightarrow> f i s = g i s) \<Longrightarrow> store_all f is s = store_all g is s"
  by (induction "is" arbitrary: s) (auto intro!: bind_option_cong)

locale arg_store =
  fixes mem :: memory and tailroom :: u32 and as :: "arg list"
    and st :: "nat \<Rightarrow> bytes \<times> u32 \<Rightarrow> (bytes \<times> u32) option"
  assumes store: "i < length as \<Longrightarrow> 8 * i + 8 \<le> unat off \<Longrightarrow> unat off \<le> unat tailroom \<Longrightarrow>
      unat tailroom \<le> length b \<Longrightarrow> store_ok mem tailroom (as ! i) i (b, off) (st i (b, off))"

text \<open>The room left for the data of argument \<open>i\<close>.\<close>

fun room_at :: "memory \<Rightarrow> nat \<Rightarrow> arg list \<Rightarrow> nat \<Rightarrow> nat" where
  "room_at mem room (a # as) (Suc i) = room_at mem (room - used mem room a) as i"
| "room_at mem room as _ = room"

context arg_store begin

lemma store_all_spec:
  assumes "k + n \<le> length as" and "8 * length as \<le> unat off" and "unat off \<le> unat tailroom"
    and "unat tailroom \<le> length b"
  shows "\<exists>b' off'. store_all st [k..<k + n] (b, off) = Some (b', off') \<and> unat off \<le> unat off'
    \<and> unat off' \<le> unat tailroom \<and> agree_outside ({8 * k..<8 * (k + n)} \<union> {unat off..<unat off'}) b b'
    \<and> (\<forall>j < n. fetch_val (a_type (as ! (k + j))) (k + j) b'
          = Some (expected mem (room_at mem (unat tailroom - unat off) (drop k as) j) (as ! (k + j))))"
  using assms
proof (induction n arbitrary: k b off)
  case 0
  then show ?case by (simp add: agree_outside_refl)
next
  case (Suc n)
  let ?a = "as ! k" and ?room = "unat tailroom - unat off"
  let ?u = "used mem ?room ?a"
  obtain b1 off1 where b1: "st k (b, off) = Some (b1, off1)" "unat off1 = unat off + ?u"
    "agree_outside (arg_region k (unat off) ?u) b b1"
    "settled (arg_region k (unat off) ?u) (fetch_val (a_type ?a) k) (expected mem ?room ?a) b1"
    using store [of k off b] Suc.prems unfolding store_ok_def Let_def by auto
  have room1: "unat tailroom - unat off1 = ?room - ?u" "unat off1 \<le> unat tailroom"
    using b1(2) used_le [of mem ?room ?a] Suc.prems by auto
  have drop: "drop k as = ?a # drop (Suc k) as"
    using Suc.prems by (simp add: Cons_nth_drop_Suc)
  obtain b' off' where b': "store_all st [Suc k..<Suc k + n] (b1, off1) = Some (b', off')"
    "unat off1 \<le> unat off'" "unat off' \<le> unat tailroom"
    "agree_outside ({8 * Suc k..<8 * (Suc k + n)} \<union> {unat off1..<unat off'}) b1 b'"
    "\<forall>j < n. fetch_val (a_type (as ! (Suc k + j))) (Suc k + j) b'
      = Some (expected mem (room_at mem (?room - ?u) (drop (Suc k) as) j) (as ! (Suc k + j)))"
  proof -
    have "Suc k + n \<le> length as" "8 * length as \<le> unat off1" "unat tailroom \<le> length b1"
      using Suc.prems b1(2) agree_outside_length [OF b1(3)] by simp_all
    from Suc.IH [OF this(1,2) room1(2) this(3)] that show thesis unfolding room1(1) by blast
  qed
  have "arg_region k (unat off) ?u \<inter> ({8 * Suc k..<8 * (Suc k + n)} \<union> {unat off1..<unat off'}) = {}"
  proof -
    have "8 * Suc (k + n) \<le> unat off" using Suc.prems by simp
    then show ?thesis using b1(2) by (intro equals0I) (simp, linarith)
  qed
  then have here: "fetch_val (a_type ?a) k b' = Some (expected mem ?room ?a)"
    by (intro settled_value [OF settled_frame [OF b1(4) b'(4)]])
  have "agree_outside ({8 * k..<8 * (k + Suc n)} \<union> {unat off..<unat off'}) b b'"
    by (rule agree_outside_trans [OF b1(3) b'(4)]) (use b1(2) b'(2) in auto)
  moreover have "fetch_val (a_type (as ! (k + j))) (k + j) b'
      = Some (expected mem (room_at mem ?room (drop k as) j) (as ! (k + j)))" if "j < Suc n" for j
    using here b'(5) that unfolding drop by (cases j) simp_all
  moreover have "[k..<k + Suc n] = k # [Suc k..<Suc k + n]"
    by (simp add: upt_conv_Cons del: upt_Suc)
  then have "store_all st [k..<k + Suc n] (b, off) = Some (b', off')"
    using b1(1) b'(1) by (simp del: upt_Suc)
  ultimately show ?case using b'(2,3) b1(2) by auto
qed

end

lemma fetch_val_bytes:
  "t = CSTR \<or> t = XDUMP \<or> t = RAW \<Longrightarrow> fetch_val t i = (\<lambda>b. map_option VBytes (arg_bytes b i))"
  by (auto simp: fetch_val_def)

lemma stores_store_ok:
  assumes "stores i (unat off) (data_of mem (unat tailroom - unat off) a) (used mem (unat tailroom - unat off) a) b res"
    and "a_type a = CSTR \<or> a_type a = XDUMP \<or> a_type a = RAW"
    and "unat off \<le> unat tailroom"
  shows "store_ok mem tailroom a i (b, off) (Option.bind res (\<lambda>(b, k). Some (b, off + k)))"
proof -
  let ?room = "unat tailroom - unat off"
  let ?u = "used mem ?room a"
  obtain b' k where r: "res = Some (b', k)" "unat k = ?u" "agree_outside (arg_region i (unat off) ?u) b b'"
    "settled (arg_region i (unat off) ?u) (\<lambda>b. arg_bytes b i) (data_of mem ?room a) b'"
    using assms(1) unfolding stores_def by blast
  have "unat off + ?u < 2 ^ 32"
    using used_le [of mem ?room a] assms(3) unat_less [of tailroom] by simp
  then have "unat (off + k) = unat off + ?u"
    using r(2) by (simp add: unat_word_ariths)
  moreover have "settled (arg_region i (unat off) ?u) (fetch_val (a_type a) i) (expected mem ?room a) b'"
    using r(4) assms(2) unfolding fetch_val_bytes [OF assms(2)] expected_def settled_def by auto
  ultimately show ?thesis
    unfolding store_ok_def Let_def using r by auto
qed

lemma poke_slot_settled:
  assumes "8 * i + length bs \<le> length b" and "length bs \<le> 8"
  obtains b' where "poke b (8 * i) bs = Some b'" "agree_outside (arg_region i off 0) b b'"
    "settled (arg_region i off 0) (\<lambda>b. peek b (8 * i) (length bs)) bs b'"
proof -
  obtain b' where b': "poke b (8 * i) bs = Some b'" "agree_outside {8 * i..<8 * i + length bs} b b'"
    "peek b' (8 * i) (length bs) = Some bs"
    using poke_frame [OF assms(1)] .
  have sub: "{8 * i..<8 * i + length bs} \<subseteq> arg_region i off 0" using assms(2) by auto
  show thesis
  proof
    show "agree_outside (arg_region i off 0) b b'"
      using agree_outside_trans [OF b'(2) agree_outside_refl sub sub] .
    show "settled (arg_region i off 0) (\<lambda>b. peek b (8 * i) (length bs)) bs b'"
      using settled_mono [OF settled_peek [OF b'(3)] sub] .
  qed (rule b')
qed

lemma store_val32_ok:
  assumes "is_32bit (a_type a)" and "8 * i + 8 \<le> length b"
  shows "store_ok mem tailroom a i (b, off) (do { b \<leftarrow> set_arg_val32 b i (ucast (a_val a)); Some (b, off) })"
proof -
  let ?v = "ucast (a_val a) :: u32"
  have t: "a_type a \<noteq> CSTR" "a_type a \<noteq> XDUMP" "a_type a \<noteq> RAW" using assms(1) by (auto simp: is_32bit_def)
  obtain b' where b': "poke b (8 * i) (le_bytes 4 ?v) = Some b'"
    "agree_outside (arg_region i (unat off) 0) b b'"
    "settled (arg_region i (unat off) 0) (\<lambda>b. peek b (8 * i) 4) (le_bytes 4 ?v) b'"
    using poke_slot_settled [of i "le_bytes 4 ?v" b] assms(2) by auto
  have v: "fetch_val (a_type a) i = (\<lambda>b. map_option (\<lambda>x. V32 (of_le x)) (peek b (8 * i) 4))"
    using t assms(1) by (auto simp: fetch_val_def get_arg_val32_def option.map_comp comp_def)
  have "of_le (le_bytes 4 ?v) = ?v" by (rule of_le_le_bytes) simp
  then show ?thesis
    using b' t assms(1) unfolding store_ok_def v
    by (auto simp: used_def expected_def set_arg_val32_def settled_def)
qed

lemma store_val64_ok:
  assumes "a_type a \<noteq> CSTR" "a_type a \<noteq> XDUMP" "a_type a \<noteq> RAW" and "8 * i + 8 \<le> length b"
    and "if is_32bit (a_type a) then ucast v = (ucast (a_val a) :: u32) else v = a_val a"
  shows "store_ok mem tailroom a i (b, off) (do { b \<leftarrow> set_arg_val64 b i v; Some (b, off) })"
proof -
  obtain b' where b': "poke b (8 * i) (le_bytes 8 v) = Some b'"
    "agree_outside (arg_region i (unat off) 0) b b'"
    "settled (arg_region i (unat off) 0) (\<lambda>b. peek b (8 * i) 8) (le_bytes 8 v) b'"
    using poke_slot_settled [of i "le_bytes 8 v" b] assms(4) by auto
  have low: "le_bytes 8 v = le_bytes 4 (ucast v :: u32) @ le_bytes 4 (drop_bit 32 v)"
  proof (rule nth_equalityI)
    fix j assume "j < length (le_bytes 8 v)"
    then show "le_bytes 8 v ! j = (le_bytes 4 (ucast v :: u32) @ le_bytes 4 (drop_bit 32 v)) ! j"
      by (intro bit_word_eqI) (auto simp: nth_append bit_le_bytes bit_simps algebra_simps)
  qed simp
  have "fetch_val (a_type a) i c = Some (expected mem room a)"
    if "peek c (8 * i) 8 = Some (le_bytes 8 v)" for c room
  proof -
    have "peek c (8 * i) 4 = Some (le_bytes 4 (ucast v :: u32))"
      using peek_append(1) [of c "8 * i" 4 4 "le_bytes 4 (ucast v :: u32)"] that unfolding low by simp
    then show ?thesis
      using that assms
      by (simp add: fetch_val_def expected_def get_arg_val32_def get_arg_val64_def of_le_le_bytes split: if_splits)
  qed
  then show ?thesis
    using b' assms unfolding store_ok_def
    by (auto simp: used_def set_arg_val64_def settled_def)
qed

lemma copy_store_ok:
  assumes "unat off \<le> unat tailroom" and "unat tailroom \<le> length b" and "8 * i + 8 \<le> unat off"
  shows "a_type a = RAW \<Longrightarrow> store_ok mem tailroom a i (b, off)
      (do { (b, k) \<leftarrow> copy_data mem b i (a_val a) (a_len a) tailroom off; Some (b, off + k) })"
    and "a_type a = XDUMP \<Longrightarrow> store_ok mem tailroom a i (b, off)
      (do { (b, k) \<leftarrow> copy_xdump mem b i (a_val a) tailroom off; Some (b, off + k) })"
    and "a_type a = CSTR \<Longrightarrow> store_ok mem tailroom a i (b, off)
      (do { (b, k) \<leftarrow> copy_cstr mem b i (a_val a) (a_len a) tailroom off; Some (b, off + k) })"
  using copy_data_stores [OF assms, of mem "a_val a" "a_len a"] copy_xdump_stores [OF assms, of mem "a_val a"]
    copy_cstr_stores [OF assms, of mem "a_val a" "a_len a"] assms(1)
  by (auto intro!: stores_store_ok simp: data_of_def used_def min.commute)

lemma set_arg_storage_ok:
  assumes "unat off \<le> unat tailroom" and "unat tailroom \<le> length b" and "8 * i + 8 \<le> unat off"
  shows "store_ok mem tailroom a i (b, off) (set_arg_storage mem tailroom i a (b, off))"
  using copy_store_ok [OF assms, of a mem] store_val32_ok [of a i b mem tailroom off]
    store_val64_ok [of a i b "a_val a" mem tailroom off] assms
  unfolding set_arg_storage_def by (simp split: if_splits)

interpretation direct: arg_store mem tailroom as "\<lambda>i. set_arg_storage mem tailroom i (as ! i)"
  for mem tailroom as
  by unfold_locales (rule set_arg_storage_ok)

lemma set_arg_list_store_all:
  assumes "\<forall>a \<in> set as. a_type a \<noteq> NONE"
  shows "set_arg_list mem tailroom k as (r, off) =
    map_option (\<lambda>(b, off). (r\<lparr>r_argtype := argtype_of (r_argtype r) k as, r_argval := b\<rparr>, off))
      (store_all (\<lambda>i. set_arg_storage mem tailroom i (as ! (i - k))) [k..<k + length as] (r_argval r, off))"
  using assms
proof (induction as arbitrary: k r off)
  case (Cons a as)
  have "[k..<k + length (a # as)] = k # [Suc k..<Suc k + length as]"
    by (simp add: upt_conv_Cons del: upt_Suc)
  moreover have "store_all (\<lambda>i. set_arg_storage mem tailroom i ((a # as) ! (i - k))) [Suc k..<Suc k + length as] s
      = store_all (\<lambda>i. set_arg_storage mem tailroom i (as ! (i - Suc k))) [Suc k..<Suc k + length as] s" for s
    by (rule store_all_cong) (auto simp: nth_Cons')
  ultimately show ?case
    using Cons by (cases "set_arg_storage mem tailroom k a (r_argval r, off)")
      (auto simp: set_arg_def set_arg_type_def Let_def simp del: upt_Suc split: prod.splits)
qed simp

lemma set_arg_list_none:
  "set_arg_list mem tailroom k (as @ replicate n arg_none) s = set_arg_list mem tailroom k as s"
proof -
  have "set_arg_list mem tailroom k (replicate n arg_none) s = Some s" for k s
    by (induction n arbitrary: k) (auto simp: set_arg_def arg_none_def split: prod.splits)
  then show ?thesis
    by (induction as arbitrary: k s) (auto simp: bind_eq_None_conv intro: bind_option_cong)
qed

section \<open>Packed arguments carry the same values\<close>

lemma ap_set_arg_argtype:
  "a_type a \<noteq> NONE \<Longrightarrow> ap_argtype (fst (ap_set_arg ap i a)) = or_arg_type (ap_argtype ap) i (a_type a)"
  by (simp add: ap_set_arg_def ap_set_arg_type_def Let_def)

lemma ap_set_arg_wf: "ap_wf ap \<Longrightarrow> ap_wf (fst (ap_set_arg ap i a))"
  by (simp add: ap_set_arg_def ap_set_arg_type_def Let_def ap_wf_def)

lemma ap_set_arg_other:
  "j \<noteq> i \<Longrightarrow> ap_argval (fst (ap_set_arg ap i a)) ! j = ap_argval ap ! j
    \<and> ap_arglen (fst (ap_set_arg ap i a)) ! j = ap_arglen ap ! j"
  by (simp add: ap_set_arg_def ap_set_arg_type_def Let_def)

lemma ucast_put_low32: "(ucast (put_low32 w v) :: u32) = v"
  by (rule bit_word_eqI) (auto simp: put_low32_def bit_simps)

lemma ap_set_arg_value:
  assumes "ap_wf ap" and "i < 16" and "a_type a \<noteq> NONE"
  shows "if is_32bit (a_type a) then ucast (ap_argval (fst (ap_set_arg ap i a)) ! i) = (ucast (a_val a) :: u32)
      else ap_argval (fst (ap_set_arg ap i a)) ! i = a_val a"
    and "\<not> is_simple a \<Longrightarrow> ap_arglen (fst (ap_set_arg ap i a)) ! i = a_len a"
  using assms by (auto simp: ap_set_arg_def ap_set_arg_type_def Let_def ap_wf_def ucast_put_low32)

text \<open>A pack carries an argument at a position.\<close>

definition ap_carries :: "argpack \<Rightarrow> nat \<Rightarrow> arg \<Rightarrow> bool" where
  "ap_carries ap i a \<longleftrightarrow>
     (if is_32bit (a_type a) then ucast (ap_argval ap ! i) = (ucast (a_val a) :: u32)
      else ap_argval ap ! i = a_val a) \<and> (\<not> is_simple a \<longrightarrow> ap_arglen ap ! i = a_len a)"

lemma ap_set_args_spec:
  assumes "ap_wf ap" and "k + length as \<le> 16" and "\<forall>a \<in> set as. a_type a \<noteq> NONE"
  shows "ap_argtype (fst (ap_set_args ap k as n)) = argtype_of (ap_argtype ap) k as
    \<and> (\<forall>j < k. ap_argval (fst (ap_set_args ap k as n)) ! j = ap_argval ap ! j
      \<and> ap_arglen (fst (ap_set_args ap k as n)) ! j = ap_arglen ap ! j)
    \<and> (\<forall>j < length as. ap_carries (fst (ap_set_args ap k as n)) (k + j) (as ! j))"
  using assms
proof (induction as arbitrary: ap k n)
  case (Cons a as)
  let ?ap = "fst (ap_set_arg ap k a)" and ?n = "n + snd (ap_set_arg ap k a)"
  let ?p = "fst (ap_set_args ?ap (Suc k) as ?n)"
  have step: "ap_set_args ap k (a # as) n = ap_set_args ?ap (Suc k) as ?n"
    by (simp split: prod.split)
  have a: "a_type a \<noteq> NONE" "k < 16" using Cons.prems by auto
  have wf: "ap_wf ?ap" "Suc k + length as \<le> 16" "\<forall>a \<in> set as. a_type a \<noteq> NONE"
    using Cons.prems ap_set_arg_wf by auto
  note IH = Cons.IH [OF wf, of ?n]
  have "ap_carries ?ap k a"
    using ap_set_arg_value [OF Cons.prems(1) a(2,1)] unfolding ap_carries_def by simp
  then have "ap_carries ?p k a"
    using IH by (simp add: ap_carries_def)
  then have "\<forall>j < length (a # as). ap_carries ?p (k + j) ((a # as) ! j)"
    using IH by (auto simp: nth_Cons' gr0_conv_Suc)
  moreover have "\<forall>j < k. ap_argval ?p ! j = ap_argval ap ! j \<and> ap_arglen ?p ! j = ap_arglen ap ! j"
    using IH by (simp add: ap_set_arg_other)
  ultimately show ?case
    unfolding step using IH ap_set_arg_argtype [OF a(1)] by simp
qed simp

lemma ap_populate_none: "ap_populate ap (as @ replicate m arg_none) = ap_populate ap as"
proof -
  have none: "ap_set_args ap k (replicate m arg_none) n = (ap, n)" for ap k n
    by (induction m arbitrary: k) (auto simp: ap_set_arg_def arg_none_def)
  have "ap_set_args ap k (as @ replicate m arg_none) n = ap_set_args ap k as n" for ap k n
    by (induction as arbitrary: ap k n) (auto simp: none split: prod.splits)
  then show ?thesis by (simp add: ap_populate_def)
qed

definition valid_args :: "arg list \<Rightarrow> bool" where
  "valid_args as \<longleftrightarrow> length as \<le> 16 \<and> list_all (\<lambda>a. a_type a \<noteq> NONE \<and> a_type a \<le> RAW) as"

lemma valid_args_type:
  "valid_args as \<Longrightarrow> i < length as \<Longrightarrow> a_type (as ! i) \<noteq> NONE \<and> a_type (as ! i) < 16"
  by (auto simp: valid_args_def list_all_length word_le_nat_alt word_less_nat_alt)

lemma ap_populate_spec:
  assumes "ap_wf ap" and "valid_args as"
  shows "ap_argtype (fst (ap_populate ap as)) = argtype_of 0 0 as"
    and "i < length as \<Longrightarrow> ap_carries (fst (ap_populate ap as)) i (as ! i)"
  using assms ap_set_args_spec [of "ap\<lparr>ap_argtype := 0\<rparr>" 0 as 0]
  by (auto simp: ap_populate_def ap_wf_def valid_args_def list_all_iff)

lemma ap_populate_nargs:
  assumes "ap_wf ap" and "valid_args as"
  shows "ap_nargs (fst (ap_populate ap as)) = word_of_nat (length as)"
proof -
  let ?t = "argtype_of 0 0 as" and ?n = "length as"
  have "drop_bit (4 * ?n) ?t = 0"
    by (rule bit_word_eqI) (auto simp: bit_simps bit_argtype_of)
  moreover have "drop_bit (4 * (?n - 1)) ?t \<noteq> 0" if "0 < ?n"
  proof
    assume z: "drop_bit (4 * (?n - 1)) ?t = 0"
    have "nth_arg_type ?t (?n - 1) = a_type (as ! (?n - 1))"
      using assms(2) that valid_args_type [OF assms(2), of "?n - 1"]
      by (intro nth_argtype_of) (auto simp: valid_args_def)
    moreover have "nth_arg_type ?t (?n - 1) = 0"
      using z by (simp add: nth_arg_type_def mult.commute)
    ultimately show False using valid_args_type [OF assms(2), of "?n - 1"] that by simp
  qed
  ultimately show ?thesis
    using ap_nargs_loop_eq [of ?n ?t 0] ap_populate_spec(1) [OF assms] by (simp add: ap_nargs_def)
qed

lemma packed_arg_store:
  assumes "ap_wf ap" and "valid_args as"
  shows "arg_store mem tailroom as (set_packed_arg mem tailroom (fst (ap_populate ap as)))"
proof
  fix i and off :: u32 and b :: bytes
  assume i: "i < length as" and fits: "8 * i + 8 \<le> unat off" "unat off \<le> unat tailroom" "unat tailroom \<le> length b"
  let ?ap = "fst (ap_populate ap as)" and ?a = "as ! i"
  have t: "ap_get_arg_type ?ap i = a_type ?a"
    using nth_argtype_of [OF i] valid_args_type [OF assms(2) i] assms
    by (simp add: ap_get_arg_type_def ap_populate_spec valid_args_def)
  have c: "ap_carries ?ap i ?a" by (rule ap_populate_spec(2) [OF assms i])
  show "store_ok mem tailroom ?a i (b, off) (set_packed_arg mem tailroom ?ap i (b, off))"
  proof (cases "is_simple ?a")
    case True
    then have "set_packed_arg mem tailroom ?ap i (b, off)
        = do { b \<leftarrow> set_arg_val64 b i (ap_argval ?ap ! i); Some (b, off) }"
      using t by (simp add: set_packed_arg_def is_simple_def ap_get_arg_val64_def Let_def split: prod.split)
    then show ?thesis
      using True c fits store_val64_ok [of ?a i b "ap_argval ?ap ! i" mem tailroom off]
      by (simp add: ap_carries_def is_simple_def)
  next
    case False
    then have "ap_get_arg_data ?ap i = (a_val ?a, a_len ?a)"
      using c by (auto simp: ap_carries_def ap_get_arg_data_def is_simple_def is_32bit_def)
    then show ?thesis
      using False t copy_store_ok [OF fits(2,3,1), of ?a mem]
      by (auto simp: set_packed_arg_def is_simple_def)
  qed
qed

section \<open>Properties\<close>

text \<open>What \<open>set_args\<close> and \<open>set_args_packed\<close> must establish for an argument list.\<close>

definition args_stored :: "memory \<Rightarrow> u32 \<Rightarrow> arg list \<Rightarrow> log_record \<Rightarrow> log_record \<Rightarrow> bool" where
  "args_stored mem tailroom as r r' \<longleftrightarrow>
     length (r_argval r') = length (r_argval r) \<and> r_argtype r' = argtype_of 0 0 as
     \<and> r_area r' = r_area r \<and> r_timestamp r' = r_timestamp r \<and> r_seqnum r' = r_seqnum r
     \<and> r_section r' = r_section r
     \<and> (\<forall>i < length as. get_arg_type r' i = a_type (as ! i)
          \<and> fetch_val (get_arg_type r' i) i (r_argval r')
            = Some (expected mem (room_at mem (unat tailroom - 8 * length as) as i) (as ! i)))"

lemma unat_data_offset: "length as \<le> 16 \<Longrightarrow> unat (word_of_nat (length as) * 8 :: u32) = 8 * length as"
  by (simp add: unat_word_ariths unat_word_of_nat)

lemma args_storedI:
  assumes "valid_args as"
    and "length b' = length (r_argval r)"
    and "\<forall>i < length as. fetch_val (a_type (as ! i)) i b'
      = Some (expected mem (room_at mem (unat tailroom - 8 * length as) as i) (as ! i))"
  shows "args_stored mem tailroom as r (r\<lparr>r_argtype := argtype_of 0 0 as, r_argval := b'\<rparr>)"
  using assms valid_args_type [OF assms(1)] nth_argtype_of [of _ as]
  unfolding args_stored_def get_arg_type_def by (simp add: valid_args_def)

lemma set_args_stored:
  assumes "valid_args as" and "128 \<le> unat tailroom" and "unat tailroom \<le> length (r_argval r)"
  shows "\<exists>r'. set_args mem tailroom (as @ replicate (16 - length as) arg_none) r = Some r'
    \<and> args_stored mem tailroom as r r'"
proof -
  let ?st = "\<lambda>i. set_arg_storage mem tailroom i (as ! i)"
  let ?off = "word_of_nat (length as) * 8 :: u32"
  have as: "length as \<le> 16" "\<forall>a \<in> set as. a_type a \<noteq> NONE"
    using assms(1) by (auto simp: valid_args_def list_all_iff)
  note off = unat_data_offset [OF as(1)]
  obtain b' o' where b': "store_all ?st [0..<length as] (r_argval r, ?off) = Some (b', o')"
    "agree_outside ({0..<8 * length as} \<union> {unat ?off..<unat o'}) (r_argval r) b'"
    "\<forall>j < length as. fetch_val (a_type (as ! j)) j b'
      = Some (expected mem (room_at mem (unat tailroom - 8 * length as) as j) (as ! j))"
    using direct.store_all_spec [of 0 "length as" as ?off tailroom "r_argval r" mem] assms as(1) off by auto
  have "filter (\<lambda>a. a_type a \<noteq> NONE) (as @ replicate (16 - length as) arg_none) = as"
    using as(2) by (simp add: arg_none_def filter_id_conv)
  then have "set_args mem tailroom (as @ replicate (16 - length as) arg_none) r
      = Some (r\<lparr>r_argtype := argtype_of 0 0 as, r_argval := b'\<rparr>)"
    using set_arg_list_store_all [OF as(2), of mem tailroom 0 "r\<lparr>r_argtype := 0\<rparr>" ?off] b'(1)
    by (simp add: set_args_def set_arg_list_none)
  then show ?thesis
    using args_storedI [OF assms(1) agree_outside_length [OF b'(2)] b'(3)] by blast
qed

lemma set_args_packed_stored:
  assumes "valid_args as" and "128 \<le> unat tailroom" and "unat tailroom \<le> length (r_argval r)" and "ap_wf ap"
  shows "\<exists>r'. set_args_packed mem tailroom (fst (ap_populate ap (as @ replicate (16 - length as) arg_none))) r = Some r'
    \<and> args_stored mem tailroom as r r'"
proof -
  let ?ap = "fst (ap_populate ap as)"
  let ?off = "word_of_nat (length as) * 8 :: u32"
  have as: "length as \<le> 16" using assms(1) by (simp add: valid_args_def)
  note off = unat_data_offset [OF as]
  obtain b' o' where b': "store_all (set_packed_arg mem tailroom ?ap) [0..<length as] (r_argval r, ?off) = Some (b', o')"
    "agree_outside ({0..<8 * length as} \<union> {unat ?off..<unat o'}) (r_argval r) b'"
    "\<forall>j < length as. fetch_val (a_type (as ! j)) j b'
      = Some (expected mem (room_at mem (unat tailroom - 8 * length as) as j) (as ! j))"
    using arg_store.store_all_spec [OF packed_arg_store [OF assms(4,1)], of 0 "length as" ?off tailroom "r_argval r" mem]
      assms as off by auto
  have "set_args_packed mem tailroom ?ap r = Some (r\<lparr>r_argtype := argtype_of 0 0 as, r_argval := b'\<rparr>)"
    using b'(1) ap_populate_nargs [OF assms(4,1)] ap_populate_spec(1) [OF assms(4,1)] as
    by (simp add: set_args_packed_def unat_word_of_nat)
  then show ?thesis
    using args_storedI [OF assms(1) agree_outside_length [OF b'(2)] b'(3)] ap_populate_none by metis
qed

text \<open>
  C17: posting arguments is memory safe and the two ways of doing it agree. For every list of up
  to 16 arguments and every record with at least 128 bytes of argument storage, both the
  inline path and the path through a packed argument list stay inside the storage, keep
  the record header, store the same type word, and make every argument read back as the
  specification says (truncated to the room left behind the preceding arguments).
\<close>

theorem set_args_paths_agree:
  assumes "valid_args as" and "128 \<le> unat tailroom" and "unat tailroom \<le> length (r_argval r)" and "ap_wf ap"
  shows "\<exists>r1 r2. set_args mem tailroom (as @ replicate (16 - length as) arg_none) r = Some r1
    \<and> set_args_packed mem tailroom (fst (ap_populate ap (as @ replicate (16 - length as) arg_none))) r = Some r2
    \<and> args_stored mem tailroom as r r1 \<and> args_stored mem tailroom as r r2
    \<and> r_argtype r1 = r_argtype r2
    \<and> (\<forall>i < length as. fetch_val (get_arg_type r1 i) i (r_argval r1) = fetch_val (get_arg_type r2 i) i (r_argval r2))"
  using set_args_stored [OF assms(1-3), of mem] set_args_packed_stored [OF assms, of mem]
  unfolding args_stored_def by fastforce

theorem set_args_paths_agree_witness:
  "\<exists>r1 r2. set_args (\<lambda>p. ucast p) 224 ([arg_gstr 64, arg_cstr 100 5, arg_i32 7] @ replicate 13 arg_none)
        \<lparr>r_area = 1, r_timestamp = 2, r_seqnum = 3, r_section = 4, r_argtype = 5, r_argval = replicate 224 0\<rparr> = Some r1
    \<and> set_args_packed (\<lambda>p. ucast p) 224
        (fst (ap_populate \<lparr>ap_argtype = 9, ap_argval = replicate 16 3, ap_arglen = replicate 16 8\<rparr>
          ([arg_gstr 64, arg_cstr 100 5, arg_i32 7] @ replicate 13 arg_none)))
        \<lparr>r_area = 1, r_timestamp = 2, r_seqnum = 3, r_section = 4, r_argtype = 5, r_argval = replicate 224 0\<rparr> = Some r2
    \<and> fetch_val (get_arg_type r1 1) 1 (r_argval r1) = fetch_val (get_arg_type r2 1) 1 (r_argval r2)"
  using set_args_paths_agree [of "[arg_gstr 64, arg_cstr 100 5, arg_i32 7]" 224
      "\<lparr>r_area = 1, r_timestamp = 2, r_seqnum = 3, r_section = 4, r_argtype = 5, r_argval = replicate 224 0\<rparr>"
      "\<lparr>ap_argtype = 9, ap_argval = replicate 16 3, ap_arglen = replicate 16 8\<rparr>" "\<lambda>p. ucast p"]
  by (fastforce simp: valid_args_def ap_wf_def arg_gstr_def arg_cstr_def arg_i32_def)

text \<open>The complete value of an argument and the space it needs.\<close>

definition full_size :: "memory \<Rightarrow> arg \<Rightarrow> nat" where
  "full_size mem a =
     (if a_type a = CSTR then (if a_len a = 0 then 0 else Suc (unat (a_len a)))
      else if a_type a = RAW then unat (a_len a)
      else if a_type a = XDUMP then 4 + unat (xd_len mem (a_val a))
      else 0)"

definition full_value :: "memory \<Rightarrow> arg \<Rightarrow> arg_value" where
  "full_value mem a =
     (if a_type a = CSTR \<or> a_type a = RAW then VBytes (read_mem mem (a_val a) (unat (a_len a)))
      else if a_type a = XDUMP
        then VBytes (xd_fmt mem (a_val a)
               @ read_mem mem (xd_ptr mem (a_val a)) (unat (xd_len mem (a_val a))))
      else if is_32bit (a_type a) then V32 (ucast (a_val a)) else V64 (a_val a))"

lemma expected_full:
  assumes "full_size mem a \<le> room" and "room < 2 ^ 32"
  shows "expected mem room a = full_value mem a \<and> used mem room a = full_size mem a"
proof -
  consider "a_type a = CSTR" | "a_type a = XDUMP" | "a_type a = RAW"
    | "a_type a \<noteq> CSTR" "a_type a \<noteq> XDUMP" "a_type a \<noteq> RAW" by blast
  then show ?thesis
  proof cases
    case 1
    then show ?thesis
      using assms(1) by (auto simp: expected_def full_value_def used_def full_size_def data_of_def fit_cstr_def
          unat_eq_0 split: if_splits)
  next
    case 2
    then have "xdump_total mem (a_val a) = full_size mem a"
      using assms by (simp add: xdump_total_def full_size_def)
    with 2 show ?thesis
      using assms(1) by (simp add: expected_def full_value_def used_def full_size_def data_of_def
          fit_xdump_def xd_fmt_def)
  next
    case 3
    then show ?thesis
      using assms(1) by (simp add: expected_def full_value_def used_def full_size_def data_of_def take_read_mem)
  qed (simp add: expected_def full_value_def used_def full_size_def)
qed

lemma room_at_full:
  assumes "sum_list (map (full_size mem) as) \<le> room" and "room < 2 ^ 32" and "i < length as"
  shows "full_size mem (as ! i) \<le> room_at mem room as i \<and> room_at mem room as i \<le> room"
  using assms
proof (induction as arbitrary: i room)
  case (Cons a as)
  have u: "used mem room a = full_size mem a" using expected_full Cons.prems by simp
  show ?case
  proof (cases i)
    case (Suc j)
    have "sum_list (map (full_size mem) as) \<le> room - full_size mem a" "room - full_size mem a < 2 ^ 32"
      using Cons.prems by simp_all
    then show ?thesis
      using Cons.IH [of "room - full_size mem a" j] Cons.prems Suc u by fastforce
  qed (use Cons.prems in auto)
qed simp

text \<open>
  C18: arguments that fit are stored without loss: when the eight-byte slots and the data of
  all arguments fit the record's storage, every argument reads back with its type and its
  complete value, numbers at their width and strings, raw data and dumps byte for byte.
\<close>

theorem set_args_roundtrip:
  assumes "valid_args as" and "128 \<le> unat tailroom" and "unat tailroom \<le> length (r_argval r)"
    and "8 * length as + sum_list (map (full_size mem) as) \<le> unat tailroom"
  shows "\<exists>r'. set_args mem tailroom (as @ replicate (16 - length as) arg_none) r = Some r'
    \<and> (\<forall>i < length as. get_arg_type r' i = a_type (as ! i)
         \<and> fetch_val (a_type (as ! i)) i (r_argval r') = Some (full_value mem (as ! i)))"
proof -
  let ?room = "unat tailroom - 8 * length as"
  obtain r' where r': "set_args mem tailroom (as @ replicate (16 - length as) arg_none) r = Some r'"
    "args_stored mem tailroom as r r'"
    using set_args_stored [OF assms(1-3)] by blast
  have "expected mem (room_at mem ?room as i) (as ! i) = full_value mem (as ! i)" if "i < length as" for i
  proof -
    have "full_size mem (as ! i) \<le> room_at mem ?room as i \<and> room_at mem ?room as i \<le> ?room"
      using assms(4) that unat_less [of tailroom] by (intro room_at_full) auto
    moreover have "?room < 2 ^ 32"
      using unat_less [of tailroom] by (simp add: less_imp_diff_less)
    ultimately show ?thesis
      using expected_full [of mem "as ! i" "room_at mem ?room as i"] by simp
  qed
  with r' show ?thesis unfolding args_stored_def by (metis (no_types, lifting))
qed

theorem set_args_roundtrip_witness:
  "\<exists>r'. set_args (\<lambda>p. ucast p) 224 ([arg_cstr 97 3, arg_i32 (- 5)] @ replicate 14 arg_none)
        \<lparr>r_area = 1, r_timestamp = 2, r_seqnum = 3, r_section = 4, r_argtype = 5, r_argval = replicate 224 0\<rparr> = Some r'
    \<and> fetch_val CSTR 0 (r_argval r') = Some (VBytes [97, 98, 99])
    \<and> fetch_val INT32 1 (r_argval r') = Some (V32 (- 5))"
proof -
  let ?as = "[arg_cstr 97 3, arg_i32 (- 5)]" and ?mem = "\<lambda>p. ucast p"
  have v: "full_value ?mem (?as ! 0) = VBytes [97, 98, 99]" "full_value ?mem (?as ! 1) = V32 (- 5)"
    by (simp_all add: full_value_def arg_cstr_def arg_i32_def read_mem_def upt_rec is_32bit_def)
  have "\<exists>r'. set_args ?mem 224 (?as @ replicate (16 - length ?as) arg_none)
        \<lparr>r_area = 1, r_timestamp = 2, r_seqnum = 3, r_section = 4, r_argtype = 5, r_argval = replicate 224 0\<rparr> = Some r'
    \<and> (\<forall>i < length ?as. get_arg_type r' i = a_type (?as ! i)
         \<and> fetch_val (a_type (?as ! i)) i (r_argval r') = Some (full_value ?mem (?as ! i)))"
    by (rule set_args_roundtrip) (simp_all add: valid_args_def full_size_def arg_cstr_def arg_i32_def)
  then obtain r' where "set_args ?mem 224 (?as @ replicate (16 - length ?as) arg_none)
        \<lparr>r_area = 1, r_timestamp = 2, r_seqnum = 3, r_section = 4, r_argtype = 5, r_argval = replicate 224 0\<rparr> = Some r'"
    and "\<forall>i < length ?as. fetch_val (a_type (?as ! i)) i (r_argval r') = Some (full_value ?mem (?as ! i))"
    by blast
  moreover from this(2) have "fetch_val (a_type (?as ! 0)) 0 (r_argval r') = Some (full_value ?mem (?as ! 0))"
    "fetch_val (a_type (?as ! 1)) 1 (r_argval r') = Some (full_value ?mem (?as ! 1))"
    by (auto dest: spec [of _ 0] spec [of _ 1])
  ultimately show ?thesis
    unfolding v by (auto simp: arg_cstr_def arg_i32_def)
qed

end
