(* ===== verification/Ringbuf.thy ===== *)
theory Ringbuf
  imports Log_Record
begin

text \<open>
  The single-reader single-writer ring (\<^verbatim>\<open>include/hogl/detail/ringbuf.hpp\<close>,
  \<^verbatim>\<open>src/ringbuf.cc\<close>) and its reference count (\<^verbatim>\<open>include/hogl/detail/refcount.hpp\<close>).
  Head, tail and the capacity mask are 32-bit words and the code's mask arithmetic is kept.
  The record buffer is the list of its slots; \<open>get_record_addr\<close> and \<open>get_index\<close>
  are the address computations, and the operations below use slot numbers for record
  pointers (theorem \<open>ring_record_pointers\<close> relates the two). A writer that has to wait in
  \<^verbatim>\<open>push_commit\<close> is the value \<open>None\<close>. Interleavings of a writer with the reader are
  the subject of theory \<open>Ring_Conc\<close>.
\<close>

section \<open>Definitions\<close>

record ring_options =
  ro_capacity :: u32
  ro_prio :: u32
  ro_flags :: u32
  ro_record_tailroom :: u32

record 'r ringbuf =
  rb_name :: string
  rb_flags :: u32
  rb_prio :: u32
  rb_rec_top :: u64
  rb_rec_shift :: u32
  rb_rec_tailroom :: u32
  rb_capacity :: u32
  rb_refcnt :: int
  rb_block_active :: bool
  rb_timesource :: u64
  rb_tail :: u32
  rb_seqnum :: u64
  rb_dropcnt :: u64
  rb_head :: u32
  rb_slots :: "'r list"

definition SHARED :: u32 where "SHARED = push_bit 0 1"
definition IMMORTAL :: u32 where "IMMORTAL = push_bit 1 1"
definition REUSABLE :: u32 where "REUSABLE = push_bit 2 1"
definition BLOCKING :: u32 where "BLOCKING = push_bit 3 1"

text \<open>The address computations; \<^verbatim>\<open>i << _rec_shift\<close> is a 32-bit shift.\<close>

definition get_record_addr :: "'r ringbuf \<Rightarrow> u32 \<Rightarrow> u64" where
  "get_record_addr rb i = rb_rec_top rb + ucast (push_bit (unat (rb_rec_shift rb)) i)"

definition get_index :: "'r ringbuf \<Rightarrow> u64 \<Rightarrow> u32" where
  "get_index rb r = ucast (signed_drop_bit (unat (rb_rec_shift rb)) (r - rb_rec_top rb))"

definition commit_head :: "'r ringbuf \<Rightarrow> u32 \<Rightarrow> 'r ringbuf" where
  "commit_head rb h = rb\<lparr>rb_head := h\<rparr>"

definition commit_tail :: "'r ringbuf \<Rightarrow> u32 \<Rightarrow> 'r ringbuf" where
  "commit_tail rb t = rb\<lparr>rb_tail := t\<rparr>"

definition record_size :: "'r ringbuf \<Rightarrow> u32" where
  "record_size rb = push_bit (unat (rb_rec_shift rb)) 1"

definition ring_capacity :: "'r ringbuf \<Rightarrow> u32" where
  "ring_capacity rb = rb_capacity rb + 1"

definition ring_size :: "'r ringbuf \<Rightarrow> u32" where
  "ring_size rb = (rb_tail rb - (rb_head rb + 1)) AND rb_capacity rb"

definition ring_room :: "'r ringbuf \<Rightarrow> u32" where
  "ring_room rb = (rb_head rb - rb_tail rb) AND rb_capacity rb"

definition ring_empty :: "'r ringbuf \<Rightarrow> bool" where
  "ring_empty rb \<longleftrightarrow> (rb_head rb + 1) AND rb_capacity rb = rb_tail rb"

definition ring_orphan :: "'r ringbuf \<Rightarrow> bool" where
  "ring_orphan rb \<longleftrightarrow> rb_refcnt rb = 1"

definition ring_shared :: "'r ringbuf \<Rightarrow> bool" where
  "ring_shared rb \<longleftrightarrow> rb_flags rb AND SHARED \<noteq> 0"

definition ring_immortal :: "'r ringbuf \<Rightarrow> bool" where
  "ring_immortal rb \<longleftrightarrow> rb_flags rb AND IMMORTAL \<noteq> 0"

definition ring_reusable :: "'r ringbuf \<Rightarrow> bool" where
  "ring_reusable rb \<longleftrightarrow> rb_flags rb AND REUSABLE \<noteq> 0"

definition ring_blocking :: "'r ringbuf \<Rightarrow> bool" where
  "ring_blocking rb \<longleftrightarrow> rb_flags rb AND BLOCKING \<noteq> 0"

definition inc_seqnum :: "'r ringbuf \<Rightarrow> u64 \<times> 'r ringbuf" where
  "inc_seqnum rb = (rb_seqnum rb, rb\<lparr>rb_seqnum := rb_seqnum rb + 1\<rparr>)"

definition inc_dropcnt :: "'r ringbuf \<Rightarrow> 'r ringbuf" where
  "inc_dropcnt rb = rb\<lparr>rb_dropcnt := rb_dropcnt rb + 1\<rparr>"

definition set_timesource :: "u64 \<Rightarrow> 'r ringbuf \<Rightarrow> 'r ringbuf" where
  "set_timesource ts rb = rb\<lparr>rb_timesource := ts\<rparr>"

text \<open>
  Reference counting. \<open>release\<close> tells whether the ring survives, was deleted, or the
  count became negative (\<^verbatim>\<open>abort\<close>).
\<close>

datatype 'a release = Kept 'a | Deleted | Abort

definition ring_hold :: "'r ringbuf \<Rightarrow> 'r ringbuf" where
  "ring_hold rb = rb\<lparr>rb_refcnt := rb_refcnt rb + 1\<rparr>"

definition ring_release :: "'r ringbuf \<Rightarrow> 'r ringbuf release" where
  "ring_release rb =
     (let r = rb_refcnt rb - 1; rb = rb\<lparr>rb_refcnt := r\<rparr> in
      if r < 0 then Abort
      else if r > 0 then Kept rb
      else if \<not> ring_immortal rb then Deleted else Kept rb)"

definition ring_unblock :: "'r ringbuf \<Rightarrow> 'r ringbuf" where
  "ring_unblock rb = (if rb_block_active rb then rb\<lparr>rb_block_active := False\<rparr> else rb)"

definition push_begin :: "'r ringbuf \<Rightarrow> u32" where
  "push_begin rb = rb_tail rb"

definition push_commit :: "'r ringbuf \<Rightarrow> 'r ringbuf option" where
  "push_commit rb =
     (let t = rb_tail rb in
      if rb_head rb = t
      then (if \<not> ring_blocking rb then Some (inc_dropcnt rb) else None)
      else Some (commit_tail rb ((t + 1) AND rb_capacity rb)))"

definition pop_begin :: "'r ringbuf \<Rightarrow> u32 option" where
  "pop_begin rb =
     (let h = (rb_head rb + 1) AND rb_capacity rb in if h = rb_tail rb then None else Some h)"

definition pop_commit :: "'r ringbuf \<Rightarrow> 'r ringbuf" where
  "pop_commit rb = commit_head rb ((rb_head rb + 1) AND rb_capacity rb)"

text \<open>The iterator of the reader; the ring it belongs to is an argument.\<close>

record pop_iterator =
  it_head :: u32
  it_tail :: u32

definition it_next :: "'r ringbuf \<Rightarrow> pop_iterator \<Rightarrow> (u32 \<times> pop_iterator) option" where
  "it_next rb it =
     (let h = (it_head it + 1) AND rb_capacity rb in
      if h = it_tail it then None else Some (h, it\<lparr>it_head := h\<rparr>))"

definition it_rewind :: "u32 \<Rightarrow> pop_iterator \<Rightarrow> pop_iterator" where
  "it_rewind r it = it\<lparr>it_head := r\<rparr>"

definition it_commit :: "pop_iterator \<Rightarrow> 'r ringbuf \<Rightarrow> 'r ringbuf" where
  "it_commit it rb = commit_head rb (it_head it)"

definition it_reset :: "'r ringbuf \<Rightarrow> pop_iterator" where
  "it_reset rb = \<lparr>it_head = rb_head rb, it_tail = rb_tail rb\<rparr>"

definition it_invalid :: pop_iterator where
  "it_invalid = \<lparr>it_head = 0, it_tail = 0\<rparr>"

text \<open>
  Construction. A shift by the width of the type is undefined, so rounding up a number
  beyond \<open>2 ^ 31\<close> is \<open>None\<close>. The allocated size is a 32-bit product;
  \<open>alloc\<close> gives the address of a block of that size or \<open>None\<close>.
\<close>

function roundup_log2_from :: "nat \<Rightarrow> u32 \<Rightarrow> nat option" where
  "roundup_log2_from i v =
     (if i \<ge> 32 then None
      else if push_bit i 1 < v then roundup_log2_from (Suc i) v
      else Some i)"
  by pat_completeness auto

termination by (relation "measure (\<lambda>(i, _). 32 - i)") auto

declare roundup_log2_from.simps [simp del]

definition roundup_log2 :: "u32 \<Rightarrow> nat option" where
  "roundup_log2 v = roundup_log2_from 0 v"

definition roundup_power2 :: "u32 \<Rightarrow> u32 option" where
  "roundup_power2 v = map_option (\<lambda>i. push_bit i 1) (roundup_log2 v)"

definition PRIORITY_CEILING :: u32 where
  "PRIORITY_CEILING = 9999"

definition zero_record :: "u32 \<Rightarrow> log_record" where
  "zero_record tailroom = \<lparr>r_area = 0, r_timestamp = 0, r_seqnum = 0, r_section = 0, r_argtype = 0,
     r_argval = replicate (unat tailroom) 0\<rparr>"

text \<open>\<^verbatim>\<open>sizeof(record)\<close> and the tailroom asked for beyond the argument storage.\<close>

definition record_bytes :: "ring_options \<Rightarrow> u32" where
  "record_bytes opts = 160 + (if ro_record_tailroom opts > argval_size then ro_record_tailroom opts - argval_size else 0)"

definition ringbuf_new :: "(u32 \<Rightarrow> u64 option) \<Rightarrow> u64 \<Rightarrow> string \<Rightarrow> ring_options \<Rightarrow> log_record ringbuf option" where
  "ringbuf_new alloc dflt_ts nm opts = do {
     cap \<leftarrow> roundup_power2 (ro_capacity opts);
     let prio = (if 9999 <s ro_prio opts then PRIORITY_CEILING else ro_prio opts);
     shift \<leftarrow> roundup_log2 (record_bytes opts);
     let rsize = (push_bit shift 1 :: u32);
     let bytes = cap * rsize;
     let rb = \<lparr>rb_name = nm, rb_flags = ro_flags opts, rb_prio = prio, rb_rec_top = 0,
               rb_rec_shift = word_of_nat shift, rb_rec_tailroom = rsize - header_size,
               rb_capacity = cap - 1, rb_refcnt = 0, rb_block_active = False, rb_timesource = dflt_ts,
               rb_tail = 0, rb_seqnum = 0, rb_dropcnt = 0, rb_head = cap - 1, rb_slots = []\<rparr>;
     (case alloc bytes of
       None \<Rightarrow> Some (rb\<lparr>rb_capacity := 0\<rparr>)
     | Some p \<Rightarrow> Some (rb\<lparr>rb_rec_top := p,
         rb_slots := replicate (unat bytes div unat rsize) (zero_record (rsize - header_size))\<rparr>))
   }"

definition ring_reset :: "'r ringbuf \<Rightarrow> 'r ringbuf" where
  "ring_reset rb = rb\<lparr>rb_tail := 0, rb_head := rb_capacity rb, rb_seqnum := 0, rb_dropcnt := 0\<rparr>"

definition default_ring_opts :: ring_options where
  "default_ring_opts = \<lparr>ro_capacity = 1024, ro_prio = 0, ro_flags = 0, ro_record_tailroom = 128\<rparr>"

text \<open>A whole push: fill the slot \<^verbatim>\<open>push_begin\<close> returned and commit.\<close>

definition write_slot :: "'r ringbuf \<Rightarrow> u32 \<Rightarrow> 'r \<Rightarrow> 'r ringbuf option" where
  "write_slot rb i x =
     (if unat i < length (rb_slots rb) then Some (rb\<lparr>rb_slots := (rb_slots rb)[unat i := x]\<rparr>) else None)"

definition read_slot :: "'r ringbuf \<Rightarrow> u32 \<Rightarrow> 'r option" where
  "read_slot rb i = (if unat i < length (rb_slots rb) then Some (rb_slots rb ! unat i) else None)"

definition ring_push :: "'r \<Rightarrow> 'r ringbuf \<Rightarrow> 'r ringbuf option" where
  "ring_push x rb = do { rb \<leftarrow> write_slot rb (push_begin rb) x; push_commit rb }"

definition ring_pop :: "'r ringbuf \<Rightarrow> ('r \<times> 'r ringbuf) option" where
  "ring_pop rb = do { h \<leftarrow> pop_begin rb; x \<leftarrow> read_slot rb h; Some (x, pop_commit rb) }"

section \<open>The invariant and the contents\<close>

text \<open>
  The capacity is a mask of \<open>k\<close> ones, the slots are \<open>2 ^ k\<close>, both indices are below.
  The contents are the records strictly between head and tail.
\<close>

definition ring_wf :: "'r ringbuf \<Rightarrow> bool" where
  "ring_wf rb \<longleftrightarrow> (\<exists>k < 32. rb_capacity rb = mask k \<and> length (rb_slots rb) = 2 ^ k
     \<and> unat (rb_head rb) < 2 ^ k \<and> unat (rb_tail rb) < 2 ^ k)"

abbreviation nslots :: "'r ringbuf \<Rightarrow> nat" where
  "nslots rb \<equiv> length (rb_slots rb)"

text \<open>The slot numbers from a head position (exclusive) to a tail position (exclusive).\<close>

definition span :: "nat \<Rightarrow> nat \<Rightarrow> nat \<Rightarrow> nat list" where
  "span N h t = map (\<lambda>j. (h + 1 + j) mod N) [0..<(t + N - (h + 1)) mod N]"

definition contents :: "'r ringbuf \<Rightarrow> 'r list" where
  "contents rb = map ((!) (rb_slots rb)) (span (nslots rb) (unat (rb_head rb)) (unat (rb_tail rb)))"

lemma ring_wfE:
  assumes "ring_wf rb"
  obtains k where "k < 32" "rb_capacity rb = mask k" "nslots rb = 2 ^ k"
    "unat (rb_head rb) < nslots rb" "unat (rb_tail rb) < nslots rb" "0 < nslots rb"
  using assms unfolding ring_wf_def by auto

lemma nslots_less:
  assumes "ring_wf rb"
  shows "nslots rb < 2 ^ 32"
proof -
  obtain k where "k < 32" "nslots rb = 2 ^ k" using assms by (rule ring_wfE)
  moreover from this have "(2 :: nat) ^ k < 2 ^ 32" by (intro power_strict_increasing) auto
  ultimately show ?thesis by simp
qed

lemma unat_next_index:
  "ring_wf rb \<Longrightarrow> unat ((i + 1) AND rb_capacity rb) = Suc (unat i) mod nslots rb"
  by (erule ring_wfE) (simp add: unat_Suc_mask)

text \<open>Distance arithmetic modulo the number of slots.\<close>

lemma unat_masked_diff:
  fixes a b :: u32
  assumes "k \<le> 32" and "unat b \<le> 2 ^ k"
  shows "unat ((a - b) AND mask k) = (unat a + 2 ^ k - unat b) mod 2 ^ k"
proof -
  have "int (unat ((a - b) AND mask k)) = (int (unat a) - int (unat b)) mod 2 ^ k"
    using uint_minus_mask [of k a b] assms(1) by simp
  also have "\<dots> = (int (unat a) - int (unat b) + 2 ^ k) mod 2 ^ k" by simp
  also have "int (unat a) - int (unat b) + 2 ^ k = int (unat a + 2 ^ k - unat b)"
    using assms(2) by (simp add: of_nat_diff)
  finally have "int (unat ((a - b) AND mask k)) = int ((unat a + 2 ^ k - unat b) mod 2 ^ k)"
    by (simp add: zmod_int)
  then show ?thesis by (simp only: of_nat_eq_iff)
qed

lemma ring_room_unat:
  "ring_wf rb \<Longrightarrow> unat (ring_room rb) = (unat (rb_head rb) + nslots rb - unat (rb_tail rb)) mod nslots rb"
  by (erule ring_wfE) (simp add: ring_room_def unat_masked_diff)

lemma ring_size_unat:
  assumes "ring_wf rb"
  shows "unat (ring_size rb) = length (contents rb)"
proof -
  from assms obtain k where k: "k < 32" "rb_capacity rb = mask k" "nslots rb = 2 ^ k"
    "unat (rb_head rb) < nslots rb" "unat (rb_tail rb) < nslots rb" by (rule ring_wfE)
  have "(2 :: nat) ^ k < 2 ^ 32" using k(1) by (intro power_strict_increasing) auto
  then have "unat (rb_head rb + 1) = Suc (unat (rb_head rb))"
    using k(3,4) by (simp add: unat_word_ariths)
  with k show ?thesis
    by (simp add: ring_size_def unat_masked_diff contents_def span_def)
qed

section \<open>Spans of slots\<close>

lemma span_len:
  assumes "h < N" and "t < N"
  shows "length (span N h t) = (if h < t then t - h - 1 else t + N - h - 1)"
proof (cases "h < t")
  case True
  then have "t + N - (h + 1) = t - h - 1 + N" by simp
  then have "(t + N - (h + 1)) mod N = t - h - 1"
    using assms by (simp only: mod_add_self2) simp
  with True show ?thesis by (simp add: span_def)
next
  case False
  with assms show ?thesis by (simp add: span_def)
qed

lemma span_nth: "j < length (span N h t) \<Longrightarrow> span N h t ! j = (h + 1 + j) mod N"
  by (simp add: span_def)

lemma span_nth_cases:
  assumes "h < N" and "t < N" and "j < length (span N h t)"
  shows "span N h t ! j = (if h + 1 + j < N then h + 1 + j else h + 1 + j - N)"
proof -
  have "h + 1 + j < 2 * N" using assms span_len [OF assms(1,2)] by (auto split: if_splits)
  then show ?thesis
    using assms(3) by (simp add: span_nth mod_if)
qed

lemma span_snoc:
  assumes "h < N" and "t < N" and "h \<noteq> t"
  shows "span N h (Suc t mod N) = span N h t @ [t]"
proof (rule nth_equalityI)
  have m: "Suc t mod N = (if Suc t = N then 0 else Suc t)" using assms by (simp add: mod_if)
  show len: "length (span N h (Suc t mod N)) = length (span N h t @ [t])"
    using assms span_len [of h N t] span_len [of h N "Suc t mod N"] unfolding m by auto
  fix j assume j: "j < length (span N h (Suc t mod N))"
  have "(h + 1 + length (span N h t)) mod N = t"
    using assms span_len [OF assms(1,2)] by (auto simp: mod_if)
  then show "span N h (Suc t mod N) ! j = (span N h t @ [t]) ! j"
    using j len by (auto simp: nth_append span_nth less_Suc_eq)
qed

lemma span_Nil: "h < N \<Longrightarrow> span N h (Suc h mod N) = []"
  by (cases "Suc h = N") (auto simp: span_def)

lemma span_Cons:
  assumes "h < N" and "t < N" and "Suc h mod N \<noteq> t"
  shows "span N h t = (Suc h mod N) # span N (Suc h mod N) t"
proof (rule nth_equalityI)
  let ?h = "Suc h mod N"
  have m: "?h = (if Suc h = N then 0 else Suc h)" using assms by (simp add: mod_if)
  have h: "?h < N" using assms by simp
  show len: "length (span N h t) = length (?h # span N ?h t)"
    using assms span_len [OF assms(1,2)] span_len [OF h assms(2)] unfolding m by auto
  fix j assume j: "j < length (span N h t)"
  show "span N h t ! j = (?h # span N ?h t) ! j"
  proof (cases j)
    case 0
    with j show ?thesis by (simp add: span_nth)
  next
    case (Suc i)
    then have "(?h # span N ?h t) ! j = (?h + 1 + i) mod N" using j len by (simp add: span_nth)
    also have "\<dots> = (Suc h + (1 + i)) mod N" by (metis add.assoc mod_add_left_eq)
    also have "Suc h + (1 + i) = h + 1 + j" using Suc by simp
    finally show ?thesis using j by (simp add: span_nth)
  qed
qed

lemma span_tail_not_in: "h < N \<Longrightarrow> t < N \<Longrightarrow> t \<notin> set (span N h t)"
  using span_len [of h N t] span_nth_cases [of h N t]
  by (fastforce simp: in_set_conv_nth split: if_splits)

lemma span_less: "0 < N \<Longrightarrow> x \<in> set (span N h t) \<Longrightarrow> x < N"
  by (auto simp: span_def)

lemma distinct_span: "h < N \<Longrightarrow> t < N \<Longrightarrow> distinct (span N h t)"
  unfolding distinct_conv_nth using span_len [of h N t] span_nth_cases [of h N t] by auto

lemma span_drop:
  assumes "h < N" and "t < N" and "j < length (span N h t)"
  shows "span N (span N h t ! j) t = drop (Suc j) (span N h t)"
  using assms
proof (induction j arbitrary: h)
  case 0
  then have "Suc h mod N \<noteq> t" using span_Nil by force
  from span_Cons [OF 0(1,2) this] show ?case by simp
next
  case (Suc j)
  then have ne: "Suc h mod N \<noteq> t" using span_Nil by force
  note c = span_Cons [OF Suc.prems(1,2) ne]
  have "j < length (span N (Suc h mod N) t)" using Suc.prems(3) c by simp
  with Suc.IH [of "Suc h mod N"] Suc.prems c show ?case by simp
qed

text \<open>Walking through a span as the iterator does.\<close>

lemma span_walk:
  assumes "h < N" and "t < N" and "k \<le> length (span N h t)"
  defines "p \<equiv> if k = 0 then h else span N h t ! (k - 1)"
  shows "p < N"
    and "k < length (span N h t) \<Longrightarrow> Suc p mod N = span N h t ! k \<and> span N h t ! k \<noteq> t"
    and "k = length (span N h t) \<Longrightarrow> Suc p mod N = t"
proof -
  show p: "p < N"
    using assms span_less [of N "span N h t ! (k - 1)" h t] by (cases k) auto
  have d: "span N p t = drop k (span N h t)"
    using assms span_drop [of h N t "k - 1"] by (cases k) (auto simp: p_def)
  show "Suc p mod N = span N h t ! k \<and> span N h t ! k \<noteq> t" if "k < length (span N h t)"
  proof -
    have ne: "Suc p mod N \<noteq> t" using span_Nil [OF p] d that by force
    then have "drop k (span N h t) = (Suc p mod N) # span N (Suc p mod N) t"
      using span_Cons [OF p assms(2)] d by simp
    then have "span N h t ! k = Suc p mod N" using that by (metis hd_drop_conv_nth list.sel(1))
    with ne show ?thesis by simp
  qed
  show "Suc p mod N = t" if "k = length (span N h t)"
    using span_Cons [OF p assms(2)] d that by force
qed

section \<open>Operations on the contents\<close>

lemma ring_full_iff: "ring_wf rb \<Longrightarrow> rb_head rb = rb_tail rb \<longleftrightarrow> unat (ring_room rb) = 0"
proof (erule ring_wfE)
  fix k assume k: "k < 32" "rb_capacity rb = mask k" "nslots rb = 2 ^ k"
    "unat (rb_head rb) < nslots rb" "unat (rb_tail rb) < nslots rb" "0 < nslots rb"
  then have wf: "ring_wf rb" by (auto simp: ring_wf_def)
  have "(h + N - t) mod N = 0 \<longleftrightarrow> h = t" if "h < N" "t < N" for h t N :: nat
    using that by (cases "t \<le> h") (auto simp: mod_if)
  with k show ?thesis by (simp add: ring_room_unat [OF wf] word_unat_eq_iff)
qed

lemma ring_size_room:
  assumes "ring_wf rb"
  shows "length (contents rb) + unat (ring_room rb) = nslots rb - 1"
proof -
  from assms obtain k where k: "unat (rb_head rb) < nslots rb" "unat (rb_tail rb) < nslots rb"
    by (rule ring_wfE)
  have "(h + N - t) mod N = (if h < t then h + N - t else h - t)" if "h < N" "t < N" for h t N :: nat
    using that by (auto simp: mod_if)
  with k show ?thesis
    using span_len [OF k] by (simp add: contents_def ring_room_unat [OF assms])
qed

lemma ring_empty_iff: "ring_wf rb \<Longrightarrow> ring_empty rb \<longleftrightarrow> contents rb = []"
proof (erule ring_wfE)
  fix k assume k: "k < 32" "rb_capacity rb = mask k" "nslots rb = 2 ^ k"
    "unat (rb_head rb) < nslots rb" "unat (rb_tail rb) < nslots rb" "0 < nslots rb"
  then have wf: "ring_wf rb" by (auto simp: ring_wf_def)
  have "ring_empty rb \<longleftrightarrow> Suc (unat (rb_head rb)) mod nslots rb = unat (rb_tail rb)"
    by (simp add: ring_empty_def word_unat_eq_iff unat_next_index [OF wf])
  also have "\<dots> \<longleftrightarrow> contents rb = []"
    using span_Nil [OF k(4)] span_Cons [OF k(4,5)] by (metis contents_def list.distinct(1) map_is_Nil_conv)
  finally show ?thesis .
qed

lemma write_slot_tail:
  assumes "ring_wf rb"
  shows "\<exists>rb'. write_slot rb (rb_tail rb) x = Some rb' \<and> ring_wf rb' \<and> contents rb' = contents rb
    \<and> rb' = rb\<lparr>rb_slots := (rb_slots rb)[unat (rb_tail rb) := x]\<rparr>"
proof -
  from assms obtain k where k: "unat (rb_head rb) < nslots rb" "unat (rb_tail rb) < nslots rb"
    by (rule ring_wfE)
  have "unat (rb_tail rb) \<notin> set (span (nslots rb) (unat (rb_head rb)) (unat (rb_tail rb)))"
    by (rule span_tail_not_in [OF k])
  then show ?thesis
    using assms k by (auto simp: write_slot_def ring_wf_def contents_def nth_list_update)
qed

lemma push_commit_spec:
  assumes "ring_wf rb"
  shows "unat (ring_room rb) > 0 \<Longrightarrow> \<exists>rb'. push_commit rb = Some rb' \<and> ring_wf rb'
      \<and> contents rb' = contents rb @ [rb_slots rb ! unat (rb_tail rb)] \<and> rb_dropcnt rb' = rb_dropcnt rb
      \<and> rb' = rb\<lparr>rb_tail := (rb_tail rb + 1) AND rb_capacity rb\<rparr>"
    and "unat (ring_room rb) = 0 \<Longrightarrow> push_commit rb =
      (if ring_blocking rb then None else Some (inc_dropcnt rb))"
proof -
  from assms obtain k where k: "k < 32" "rb_capacity rb = mask k" "nslots rb = 2 ^ k"
    "unat (rb_head rb) < nslots rb" "unat (rb_tail rb) < nslots rb" by (rule ring_wfE)
  let ?rb = "rb\<lparr>rb_tail := (rb_tail rb + 1) AND rb_capacity rb\<rparr>"
  assume "unat (ring_room rb) > 0"
  then have ne: "rb_head rb \<noteq> rb_tail rb" using ring_full_iff [OF assms] by simp
  then have "unat (rb_head rb) \<noteq> unat (rb_tail rb)" by (simp add: word_unat_eq_iff)
  from span_snoc [OF k(4,5) this]
  have "contents ?rb = contents rb @ [rb_slots rb ! unat (rb_tail rb)]"
    using unat_next_index [OF assms, of "rb_tail rb"] by (simp add: contents_def)
  moreover have "ring_wf ?rb"
    using k unat_next_index [OF assms, of "rb_tail rb"] unfolding ring_wf_def by auto
  ultimately show "\<exists>rb'. push_commit rb = Some rb' \<and> ring_wf rb'
      \<and> contents rb' = contents rb @ [rb_slots rb ! unat (rb_tail rb)] \<and> rb_dropcnt rb' = rb_dropcnt rb
      \<and> rb' = ?rb"
    using ne by (simp add: push_commit_def commit_tail_def)
next
  assume "unat (ring_room rb) = 0"
  then show "push_commit rb = (if ring_blocking rb then None else Some (inc_dropcnt rb))"
    using ring_full_iff [OF assms] by (simp add: push_commit_def)
qed

lemma it_commit_contents:
  assumes "ring_wf rb" and "unat h < nslots rb"
  shows "ring_wf (commit_head rb h)"
    and "contents (commit_head rb h) = map ((!) (rb_slots rb)) (span (nslots rb) (unat h) (unat (rb_tail rb)))"
  using assms by (auto simp: ring_wf_def commit_head_def contents_def)

lemma ring_pop_spec:
  assumes "ring_wf rb"
  shows "contents rb = [] \<Longrightarrow> ring_pop rb = None"
    and "contents rb = x # xs \<Longrightarrow> \<exists>rb'. ring_pop rb = Some (x, rb') \<and> ring_wf rb' \<and> contents rb' = xs
      \<and> rb_dropcnt rb' = rb_dropcnt rb"
proof -
  from assms obtain k where k: "k < 32" "rb_capacity rb = mask k" "nslots rb = 2 ^ k"
    "unat (rb_head rb) < nslots rb" "unat (rb_tail rb) < nslots rb" "0 < nslots rb" by (rule ring_wfE)
  let ?h = "(rb_head rb + 1) AND rb_capacity rb"
  have h: "unat ?h = Suc (unat (rb_head rb)) mod nslots rb" by (rule unat_next_index [OF assms])
  show "ring_pop rb = None" if "contents rb = []"
    using that ring_empty_iff [OF assms] by (simp add: ring_pop_def pop_begin_def ring_empty_def)
  assume c: "contents rb = x # xs"
  then have "?h \<noteq> rb_tail rb" using ring_empty_iff [OF assms] by (simp add: ring_empty_def)
  moreover from this have "contents rb = rb_slots rb ! unat ?h # contents (commit_head rb ?h)"
    using span_Cons [OF k(4,5)] h by (simp add: contents_def commit_head_def word_unat_eq_iff)
  moreover have "unat ?h < nslots rb" using h k(6) by simp
  ultimately show "\<exists>rb'. ring_pop rb = Some (x, rb') \<and> ring_wf rb' \<and> contents rb' = xs
      \<and> rb_dropcnt rb' = rb_dropcnt rb"
    using c it_commit_contents [OF assms, of ?h]
    by (simp add: ring_pop_def pop_begin_def read_slot_def pop_commit_def commit_head_def)
qed

lemma unat_push_1: "k \<le> 31 \<Longrightarrow> unat (push_bit k 1 :: u32) = 2 ^ k"
  by (simp add: unat_two_power)

lemma unat_mask32: "k \<le> 31 \<Longrightarrow> unat (mask k :: u32) = 2 ^ k - 1"
  using unat_sub [of 1 "push_bit k 1 :: u32"] unat_push_1 [of k]
  by (simp add: mask_eq_exp_minus_1 word_le_nat_alt)

section \<open>The contract of a bounded queue that counts its drops\<close>

fun push_all :: "('x \<Rightarrow> 'q \<Rightarrow> 'q option) \<Rightarrow> 'x list \<Rightarrow> 'q \<Rightarrow> 'q option" where
  "push_all push [] q = Some q"
| "push_all push (x # xs) q = do { q \<leftarrow> push x q; push_all push xs q }"

fun pop_all :: "('q \<Rightarrow> ('x \<times> 'q) option) \<Rightarrow> nat \<Rightarrow> 'q \<Rightarrow> ('x list \<times> 'q) option" where
  "pop_all pop 0 q = Some ([], q)"
| "pop_all pop (Suc n) q = do { (x, q) \<leftarrow> pop q; (xs, q) \<leftarrow> pop_all pop n q; Some (x # xs, q) }"

locale bounded_fifo =
  fixes push :: "'x \<Rightarrow> 'q \<Rightarrow> 'q option"
    and pop :: "'q \<Rightarrow> ('x \<times> 'q) option"
    and items :: "'q \<Rightarrow> 'x list"
    and room :: "'q \<Rightarrow> nat"
    and drops :: "'q \<Rightarrow> u64"
    and wf :: "'q \<Rightarrow> bool"
  assumes push_room: "wf q \<Longrightarrow> 0 < room q \<Longrightarrow> \<exists>q'. push x q = Some q' \<and> wf q'
      \<and> items q' = items q @ [x] \<and> Suc (room q') = room q \<and> drops q' = drops q"
    and push_full: "wf q \<Longrightarrow> room q = 0 \<Longrightarrow> \<exists>q'. push x q = Some q' \<and> wf q'
      \<and> items q' = items q \<and> room q' = 0 \<and> drops q' = drops q + 1"
    and pop_Nil: "wf q \<Longrightarrow> items q = [] \<Longrightarrow> pop q = None"
    and pop_Cons: "wf q \<Longrightarrow> items q = x # xs \<Longrightarrow> \<exists>q'. pop q = Some (x, q') \<and> wf q' \<and> items q' = xs
      \<and> drops q' = drops q"

context bounded_fifo begin

lemma push_all_spec:
  "wf q \<Longrightarrow> \<exists>q'. push_all push xs q = Some q' \<and> wf q' \<and> items q' = items q @ take (room q) xs
    \<and> drops q' = drops q + word_of_nat (length xs - room q)"
proof (induction xs arbitrary: q)
  case (Cons x xs)
  show ?case
  proof (cases "room q")
    case 0
    with push_full Cons.prems obtain q1 where "push x q = Some q1" "wf q1" "items q1 = items q"
      "room q1 = 0" "drops q1 = drops q + 1" by blast
    with Cons.IH [of q1] 0 show ?thesis by (auto simp: ac_simps)
  next
    case (Suc n)
    with push_room [OF Cons.prems] obtain q1 where "push x q = Some q1" "wf q1"
      "items q1 = items q @ [x]" "room q1 = n" "drops q1 = drops q" by auto
    with Cons.IH [of q1] Suc show ?thesis by auto
  qed
qed simp

lemma pop_all_spec:
  "wf q \<Longrightarrow> \<exists>q'. pop_all pop (length (items q)) q = Some (items q, q') \<and> wf q' \<and> items q' = []
    \<and> drops q' = drops q"
proof (induction "items q" arbitrary: q)
  case (Cons x xs)
  obtain q1 where q1: "pop q = Some (x, q1)" "wf q1" "items q1 = xs" "drops q1 = drops q"
    using pop_Cons [OF Cons.prems Cons.hyps(2) [symmetric]] by blast
  with Cons.hyps(1) [of q1] show ?case
    unfolding Cons.hyps(2) [symmetric] by auto
qed auto

end

definition ring_nonblocking :: "'r ringbuf \<Rightarrow> bool" where
  "ring_nonblocking rb \<longleftrightarrow> ring_wf rb \<and> \<not> ring_blocking rb"

interpretation rq: bounded_fifo ring_push ring_pop contents "\<lambda>rb. unat (ring_room rb)" rb_dropcnt ring_nonblocking
proof unfold_locales
  fix q :: "'r ringbuf" and x
  assume q: "ring_nonblocking q"
  then obtain q1 where q1: "write_slot q (rb_tail q) x = Some q1" "ring_wf q1" "contents q1 = contents q"
    "q1 = q\<lparr>rb_slots := (rb_slots q)[unat (rb_tail q) := x]\<rparr>"
    using write_slot_tail [of q x] unfolding ring_nonblocking_def by blast
  have same: "ring_room q1 = ring_room q" "ring_blocking q1 = ring_blocking q" "rb_dropcnt q1 = rb_dropcnt q"
    "rb_tail q1 = rb_tail q"
    unfolding q1(4) by (simp_all add: ring_room_def ring_blocking_def)
  have x: "rb_slots q1 ! unat (rb_tail q) = x"
    using q q1(4) by (auto simp: ring_nonblocking_def elim!: ring_wfE)
  {
    assume "0 < unat (ring_room q)"
    then obtain q2 where q2: "push_commit q1 = Some q2" "ring_wf q2" "contents q2 = contents q1 @ [x]"
      "rb_dropcnt q2 = rb_dropcnt q" "q2 = q1\<lparr>rb_tail := (rb_tail q1 + 1) AND rb_capacity q1\<rparr>"
      using push_commit_spec(1) [OF q1(2)] same x by auto
    have "nslots q2 = nslots q" unfolding q2(5) q1(4) by simp
    then have "Suc (unat (ring_room q2)) = unat (ring_room q)"
      using ring_size_room [OF q2(2)] ring_size_room [OF q1(2)] q2(3) same q1(4) by simp
    moreover have "ring_nonblocking q2"
      using q q2 same unfolding q2(5) by (simp add: ring_nonblocking_def ring_blocking_def)
    ultimately show "\<exists>q'. ring_push x q = Some q' \<and> ring_nonblocking q' \<and> contents q' = contents q @ [x]
        \<and> Suc (unat (ring_room q')) = unat (ring_room q) \<and> rb_dropcnt q' = rb_dropcnt q"
      using q1 q2 by (simp add: ring_push_def push_begin_def)
  next
    assume "unat (ring_room q) = 0"
    then have "push_commit q1 = Some (inc_dropcnt q1)"
      using push_commit_spec(2) [OF q1(2)] same q by (simp add: ring_nonblocking_def)
    then show "\<exists>q'. ring_push x q = Some q' \<and> ring_nonblocking q' \<and> contents q' = contents q
        \<and> unat (ring_room q') = 0 \<and> rb_dropcnt q' = rb_dropcnt q + 1"
      using q1 q \<open>unat (ring_room q) = 0\<close> same
      by (auto simp: ring_push_def push_begin_def inc_dropcnt_def ring_nonblocking_def ring_wf_def contents_def
          ring_room_def ring_blocking_def)
  }
next
  fix q :: "'r ringbuf" and x xs
  assume q: "ring_nonblocking q"
  then have wf: "ring_wf q" by (simp add: ring_nonblocking_def)
  show "ring_pop q = None" if "contents q = []" by (rule ring_pop_spec(1) [OF wf that])
  assume "contents q = x # xs"
  from ring_pop_spec(2) [OF wf this] q
  show "\<exists>q'. ring_pop q = Some (x, q') \<and> ring_nonblocking q' \<and> contents q' = xs \<and> rb_dropcnt q' = rb_dropcnt q"
    by (auto simp: ring_nonblocking_def ring_pop_def pop_commit_def commit_head_def ring_blocking_def bind_eq_Some_conv)
qed

text \<open>
  C6: a non-blocking ring is a queue that never reorders or duplicates records and accounts for
  every record it rejects: pushing a list of records stores its first \<open>room\<close> of them behind
  the old contents and adds the number of the others to the drop count, and the reader
  then pops exactly the stored records in order and leaves the ring empty.
\<close>

theorem ring_fifo_drop_accounting:
  assumes "ring_wf rb" and "\<not> ring_blocking rb"
  shows "\<exists>rb' rb''. push_all ring_push xs rb = Some rb'
    \<and> contents rb' = contents rb @ take (unat (ring_room rb)) xs
    \<and> rb_dropcnt rb' = rb_dropcnt rb + word_of_nat (length xs - unat (ring_room rb))
    \<and> pop_all ring_pop (unat (ring_size rb')) rb' = Some (contents rb', rb'') \<and> ring_empty rb''"
proof -
  have q: "ring_nonblocking rb" using assms by (simp add: ring_nonblocking_def)
  then obtain rb' where rb': "push_all ring_push xs rb = Some rb'" "ring_nonblocking rb'"
    "contents rb' = contents rb @ take (unat (ring_room rb)) xs"
    "rb_dropcnt rb' = rb_dropcnt rb + word_of_nat (length xs - unat (ring_room rb))"
    using rq.push_all_spec by blast
  moreover obtain rb'' where "pop_all ring_pop (length (contents rb')) rb' = Some (contents rb', rb'')"
    "ring_nonblocking rb''" "contents rb'' = []"
    using rq.pop_all_spec [OF rb'(2)] by blast
  moreover have "unat (ring_size rb') = length (contents rb')"
    using rb'(2) by (simp add: ring_size_unat ring_nonblocking_def)
  ultimately show ?thesis
    by (auto simp: ring_nonblocking_def ring_empty_iff)
qed

definition demo_ring :: "nat ringbuf" where
  "demo_ring = \<lparr>rb_name = ''demo'', rb_flags = 0, rb_prio = 0, rb_rec_top = 0, rb_rec_shift = 8, rb_rec_tailroom = 224,
     rb_capacity = 3, rb_refcnt = 1, rb_block_active = False, rb_timesource = 0, rb_tail = 0, rb_seqnum = 0,
     rb_dropcnt = 0, rb_head = 3, rb_slots = [0, 0, 0, 0]\<rparr>"

theorem ring_fifo_drop_accounting_witness:
  "\<exists>rb' rb''. push_all ring_push [10, 20, 30, 40, 50] demo_ring = Some rb'
    \<and> contents rb' = [10, 20, 30] \<and> rb_dropcnt rb' = 2
    \<and> pop_all ring_pop (unat (ring_size rb')) rb' = Some ([10, 20, 30], rb'') \<and> ring_empty rb''"
proof -
  have "ring_wf demo_ring" "\<not> ring_blocking demo_ring"
    by (auto simp: ring_wf_def demo_ring_def ring_blocking_def mask_eq_exp_minus_1 intro!: exI [of _ 2])
  moreover have "contents demo_ring = []" "unat (ring_room demo_ring) = 3" "rb_dropcnt demo_ring = 0"
    by (simp_all add: contents_def span_def demo_ring_def ring_room_def)
  ultimately show ?thesis
    using ring_fifo_drop_accounting [of demo_ring "[10, 20, 30, 40, 50]"] by auto
qed

text \<open>
  C13: the operations of a ring keep it well-formed, and every slot number that they give to a writer or
  a reader, from whatever position an iterator has, is the number of a slot.
\<close>

theorem ring_ops_well_typed:
  assumes "ring_wf rb"
  shows "(\<exists>rb'. write_slot rb (push_begin rb) x = Some rb' \<and> ring_wf rb')
    \<and> (\<forall>rb'. push_commit rb = Some rb' \<longrightarrow> ring_wf rb')
    \<and> (\<forall>h. pop_begin rb = Some h \<longrightarrow> read_slot rb h \<noteq> None) \<and> ring_wf (pop_commit rb)
    \<and> (\<forall>it h it'. it_next rb it = Some (h, it') \<longrightarrow> read_slot rb h \<noteq> None \<and> ring_wf (it_commit it' rb))
    \<and> ring_wf (ring_reset rb) \<and> ring_wf (snd (inc_seqnum rb)) \<and> ring_wf (ring_unblock rb)
    \<and> ring_wf (ring_hold rb) \<and> (\<forall>rb'. ring_release rb = Kept rb' \<longrightarrow> ring_wf rb')"
proof -
  have idx: "unat ((i + 1) AND rb_capacity rb) < nslots rb" for i
    using assms by (simp add: unat_next_index [OF assms]) (auto elim: ring_wfE)
  have "\<exists>rb'. write_slot rb (push_begin rb) x = Some rb' \<and> ring_wf rb'"
    using write_slot_tail [OF assms, of x] by (auto simp: push_begin_def)
  moreover have "ring_wf rb'" if "push_commit rb = Some rb'" for rb'
  proof -
    have "ring_wf (inc_dropcnt rb)" using assms by (simp add: ring_wf_def inc_dropcnt_def)
    moreover have "ring_wf (commit_tail rb ((rb_tail rb + 1) AND rb_capacity rb))"
      using assms idx [of "rb_tail rb"] by (auto simp: ring_wf_def commit_tail_def)
    ultimately show ?thesis using that by (auto simp: push_commit_def Let_def split: if_splits)
  qed
  moreover have "ring_wf (commit_head rb ((i + 1) AND rb_capacity rb))" for i
    using it_commit_contents(1) [OF assms idx] .
  moreover have "read_slot rb ((i + 1) AND rb_capacity rb) \<noteq> None" for i
    using idx by (simp add: read_slot_def)
  moreover have "ring_wf (ring_reset rb)"
    using assms by (auto simp: ring_wf_def ring_reset_def unat_mask32)
  ultimately show ?thesis
    using assms by (auto simp: pop_begin_def pop_commit_def it_next_def it_commit_def inc_seqnum_def ring_unblock_def ring_hold_def
        ring_release_def ring_wf_def Let_def split: if_splits)
qed

theorem ring_ops_well_typed_witness:
  "ring_wf demo_ring \<and> ring_wf (pop_commit demo_ring) \<and> ring_wf (ring_reset demo_ring)
    \<and> (\<exists>rb'. write_slot demo_ring (push_begin demo_ring) 5 = Some rb' \<and> ring_wf rb')"
proof -
  have "ring_wf demo_ring"
    by (auto simp: ring_wf_def demo_ring_def mask_eq_exp_minus_1 intro!: exI [of _ 2])
  with ring_ops_well_typed [OF this, of 5] show ?thesis by blast
qed

section \<open>Construction and record addresses\<close>

lemma roundup_log2_from_spec:
  assumes "i \<le> 31" and "unat v \<le> 2 ^ 31" and "\<forall>j < i. 2 ^ j < unat v"
  shows "\<exists>k \<le> 31. roundup_log2_from i v = Some k \<and> unat v \<le> 2 ^ k \<and> (\<forall>j < k. 2 ^ j < unat v)"
  using assms
proof (induction "31 - i" arbitrary: i)
  case 0
  then have "i = 31" by simp
  with 0 show ?case
    using unat_push_1 [of 31] by (subst roundup_log2_from.simps) (auto simp: word_less_nat_alt)
next
  case (Suc n)
  have p: "unat (push_bit i 1 :: u32) = 2 ^ i"
    using Suc.prems(1) by (rule unat_push_1)
  show ?case
  proof (cases "2 ^ i < unat v")
    case True
    have "\<forall>j < Suc i. 2 ^ j < unat v" using True Suc.prems(3) by (auto simp: less_Suc_eq)
    moreover have "n = 31 - Suc i" "Suc i \<le> 31" using Suc.hyps(2) by simp_all
    ultimately obtain k where "k \<le> 31" "roundup_log2_from (Suc i) v = Some k" "unat v \<le> 2 ^ k" "\<forall>j < k. 2 ^ j < unat v"
      using Suc.hyps(1) [of "Suc i"] assms(2) by blast
    then show ?thesis
      using True p Suc.prems(1) by (subst roundup_log2_from.simps) (simp add: word_less_nat_alt)
  next
    case False
    then show ?thesis
      using p Suc.prems by (subst roundup_log2_from.simps) (auto simp: word_less_nat_alt)
  qed
qed

lemma roundup_log2_spec:
  assumes "unat v \<le> 2 ^ 31"
  obtains k where "k \<le> 31" "roundup_log2 v = Some k" "unat v \<le> 2 ^ k" "\<forall>j < k. 2 ^ j < unat v"
  using roundup_log2_from_spec [of 0 v] assms unfolding roundup_log2_def by auto


lemma roundup_log2_Some_unat:
  assumes "roundup_log2 v = Some k"
  shows "k \<le> 31" and "unat v \<le> 2 ^ k"
proof -
  have "k \<le> 31 \<and> unat v \<le> 2 ^ k" if "roundup_log2_from i v = Some k" for i
    using that
  proof (induction i v rule: roundup_log2_from.induct)
    case (1 i v)
    show ?case
    proof (cases "i < 32 \<and> push_bit i 1 < v")
      case True
      with 1 show ?thesis using roundup_log2_from.simps [of i v] by auto
    next
      case False
      then have "i \<le> 31" "i = k" "\<not> push_bit i 1 < v"
        using 1(2) roundup_log2_from.simps [of i v] by (auto split: if_splits)
      then show ?thesis using unat_push_1 [of i] by (simp add: word_less_nat_alt)
    qed
  qed
  with assms show "k \<le> 31" "unat v \<le> 2 ^ k" unfolding roundup_log2_def by blast+
qed

lemma unat_alloc_size:
  "k + s < 32 \<Longrightarrow> unat (push_bit k 1 * push_bit s 1 :: u32) = 2 ^ (k + s)"
  using unat_two_power [where 'a = 32, of "k + s"] by (simp add: power_add)

lemma ringbuf_new_eq:
  assumes "roundup_log2 (ro_capacity opts) = Some k" and "roundup_log2 (record_bytes opts) = Some s"
    and "k + s < 32" and "alloc (push_bit (k + s) 1) = Some p"
  shows "ringbuf_new alloc ts nm opts = Some
    \<lparr>rb_name = nm, rb_flags = ro_flags opts,
      rb_prio = (if 9999 <s ro_prio opts then PRIORITY_CEILING else ro_prio opts), rb_rec_top = p,
      rb_rec_shift = word_of_nat s, rb_rec_tailroom = push_bit s 1 - header_size,
      rb_capacity = mask k, rb_refcnt = 0, rb_block_active = False, rb_timesource = ts,
      rb_tail = 0, rb_seqnum = 0, rb_dropcnt = 0, rb_head = mask k,
      rb_slots = replicate (2 ^ k) (zero_record (push_bit s 1 - header_size))\<rparr>"
proof -
  have "push_bit k 1 * push_bit s 1 = (push_bit (k + s) 1 :: u32)" by (simp add: power_add)
  moreover have "unat (push_bit k 1 * push_bit s 1 :: u32) div unat (push_bit s 1 :: u32) = 2 ^ k"
    using unat_alloc_size [OF assms(3)] unat_push_1 [of s] assms(3) by (simp add: power_add)
  moreover have "push_bit k 1 - 1 = (mask k :: u32)" by (simp add: mask_eq_exp_minus_1)
  ultimately show ?thesis
    using assms(1,2,4) by (simp add: ringbuf_new_def roundup_power2_def Let_def del: push_bit_of_1)
qed

lemma ring_tailroom:
  assumes "roundup_log2 (record_bytes opts) = Some s" and "unat (ro_record_tailroom opts) < 2 ^ 31"
  shows "224 \<le> unat (push_bit s 1 - header_size)"
    and "unat (ro_record_tailroom opts) \<le> unat (push_bit s 1 - header_size)"
proof -
  let ?tail = "unat (ro_record_tailroom opts)"
  note s = roundup_log2_Some_unat [OF assms(1)]
  have rb: "unat (record_bytes opts) = (if ?tail > 128 then ?tail + 32 else 160)"
    using unat_sub [of 128 "ro_record_tailroom opts"] assms(2)
    by (auto simp: record_bytes_def argval_size_def word_less_nat_alt word_le_nat_alt unat_word_ariths)
  then have ge: "160 \<le> (2 :: nat) ^ s" "?tail + 32 \<le> 2 ^ s"
    using s(2) by (auto split: if_splits)
  have "8 \<le> s"
  proof (rule ccontr)
    assume "\<not> 8 \<le> s"
    then have "(2 :: nat) ^ s \<le> 2 ^ 7" by (intro power_increasing) auto
    with ge(1) show False by simp
  qed
  then have "(2 :: nat) ^ 8 \<le> 2 ^ s" by (intro power_increasing) auto
  moreover have "unat (push_bit s 1 - header_size :: u32) = 2 ^ s - 32"
    using unat_sub [of 32 "push_bit s 1 :: u32"] unat_push_1 [OF s(1)] ge(1)
    by (simp add: header_size_def word_le_nat_alt)
  ultimately show "224 \<le> unat (push_bit s 1 - header_size)"
    "?tail \<le> unat (push_bit s 1 - header_size)"
    using ge by simp_all
qed

text \<open>Record pointers and slot numbers correspond while the buffer is smaller than 4 GB.\<close>

lemma get_record_addr_eq:
  assumes "unat (rb_rec_shift rb) = s" and "unat i < 2 ^ k" and "k + s \<le> 32"
  shows "get_record_addr rb i = rb_rec_top rb + word_of_nat (unat i * 2 ^ s)"
    and "unat i * 2 ^ s < 2 ^ 32"
proof -
  have "unat i * 2 ^ s < 2 ^ k * 2 ^ s" using assms(2) by simp
  also have "\<dots> \<le> (2 :: nat) ^ 32" unfolding power_add [symmetric] using assms(3) by (intro power_increasing) auto
  finally show lt: "unat i * 2 ^ s < 2 ^ 32" .
  have "push_bit s i = word_of_nat (unat i * 2 ^ s)"
    by (simp add: push_bit_eq_mult)
  moreover have "unat (word_of_nat (unat i * 2 ^ s) :: u32) = unat i * 2 ^ s"
    using lt by (intro unat_word_of_nat) simp
  ultimately have "unat (push_bit s i) = unat i * 2 ^ s" by (simp only:)
  then have "ucast (push_bit s i) = (word_of_nat (unat i * 2 ^ s) :: u64)"
    by (metis of_nat_unat)
  then show "get_record_addr rb i = rb_rec_top rb + word_of_nat (unat i * 2 ^ s)"
    by (simp add: get_record_addr_def assms(1))
qed

lemma get_index_get_record_addr:
  assumes "unat (rb_rec_shift rb) = s" and "unat i < 2 ^ k" and "k + s \<le> 32"
  shows "get_index rb (get_record_addr rb i) = i"
proof -
  let ?d = "word_of_nat (unat i * 2 ^ s) :: u64"
  note a = get_record_addr_eq [OF assms]
  have d: "unat ?d = unat i * 2 ^ s" using a(2) by (intro unat_word_of_nat) simp
  then have "take_bit 32 ?d = ?d"
    using a(2) by (simp add: word_unat_eq_iff unsigned_take_bit_eq take_bit_nat_eq_self)
  moreover have "\<not> bit (take_bit 32 ?d) 63" by (subst bit_take_bit_iff) simp
  ultimately have "\<not> bit ?d 63" by metis
  then have "signed_drop_bit s ?d = drop_bit s ?d"
    by (intro bit_word_eqI) (auto simp: bit_simps not_le dest: bit_imp_le_length)
  moreover have "unat (drop_bit s ?d) = unat i"
    unfolding unat_drop_bit_eq d by (simp add: drop_bit_eq_div)
  ultimately have "signed_drop_bit s ?d = word_of_nat (unat i)"
    by (metis of_nat_unat ucast_id)
  moreover have "(ucast (ucast i :: u64) :: u32) = i" by (rule bit_word_eqI) (simp add: bit_simps)
  ultimately show ?thesis
    unfolding get_index_def assms(1) a(1) by simp
qed

text \<open>
  C20: a ring constructed with any options whose record buffer is smaller than 4 GB is an
  empty, well-formed ring of at least the requested capacity (one slot is reserved); its records
  have at least the requested tailroom, never less than 224 bytes, and slot numbers and
  record addresses convert into each other.
\<close>

theorem ring_new_sound:
  assumes "roundup_log2 (ro_capacity opts) = Some k" and "roundup_log2 (record_bytes opts) = Some s"
    and "k + s < 32" and "alloc (push_bit (k + s) 1) = Some p"
    and "unat (ro_record_tailroom opts) < 2 ^ 31"
  shows "\<exists>rb. ringbuf_new alloc ts nm opts = Some rb \<and> ring_wf rb \<and> contents rb = []
    \<and> unat (ro_capacity opts) \<le> nslots rb \<and> unat (ring_room rb) = nslots rb - 1
    \<and> 224 \<le> unat (rb_rec_tailroom rb) \<and> unat (ro_record_tailroom opts) \<le> unat (rb_rec_tailroom rb)
    \<and> (\<forall>x \<in> set (rb_slots rb). length (r_argval x) = unat (rb_rec_tailroom rb))
    \<and> (\<forall>i. unat i < nslots rb \<longrightarrow> get_index rb (get_record_addr rb i) = i
          \<and> get_record_addr rb i = p + word_of_nat (unat i * unat (record_size rb)))"
proof -
  note k = roundup_log2_Some_unat [OF assms(1)] and s = roundup_log2_Some_unat [OF assms(2)]
  obtain rb where new: "ringbuf_new alloc ts nm opts = Some rb"
    and f: "rb_capacity rb = mask k" "rb_head rb = mask k" "rb_tail rb = 0" "rb_rec_top rb = p"
      "rb_rec_shift rb = word_of_nat s" "rb_rec_tailroom rb = push_bit s 1 - header_size"
      "rb_slots rb = replicate (2 ^ k) (zero_record (push_bit s 1 - header_size))"
    using ringbuf_new_eq [of opts k s alloc p ts nm] assms by simp
  have n: "nslots rb = 2 ^ k" and h: "unat (rb_head rb) = 2 ^ k - 1"
    using f k(1) by (simp_all add: unat_mask32)
  have wf: "ring_wf rb"
    unfolding ring_wf_def using f n h k(1) by (intro exI [of _ k]) simp
  have empty: "contents rb = []"
    using f(3) n h by (simp add: contents_def span_def)
  have t: "224 \<le> unat (rb_rec_tailroom rb)" "unat (ro_record_tailroom opts) \<le> unat (rb_rec_tailroom rb)"
    using ring_tailroom [OF assms(2,5)] f(6) by simp_all
  have sh: "unat (rb_rec_shift rb) = s" using f(5) s(1) by (simp add: unat_word_of_nat)
  have rs: "unat (record_size rb) = 2 ^ s" unfolding record_size_def sh by (rule unat_push_1 [OF s(1)])
  have "get_index rb (get_record_addr rb i) = i
      \<and> get_record_addr rb i = p + word_of_nat (unat i * unat (record_size rb))" if "unat i < nslots rb" for i
    using get_index_get_record_addr [OF sh, of i k] get_record_addr_eq(1) [OF sh, of i k] that n assms(3) f(4) rs
    by simp
  moreover have "\<forall>x \<in> set (rb_slots rb). length (r_argval x) = unat (rb_rec_tailroom rb)"
    using f(6,7) by (simp add: zero_record_def)
  moreover have "unat (ring_room rb) = nslots rb - 1"
    using ring_size_room [OF wf] empty by simp
  moreover have "unat (ro_capacity opts) \<le> nslots rb" using k(2) n by simp
  ultimately show ?thesis
    using new wf empty t by blast
qed

theorem ring_new_sound_witness:
  "\<exists>rb. ringbuf_new (\<lambda>n. Some 0x10000) 7 ''main'' default_ring_opts = Some rb \<and> ring_wf rb \<and> contents rb = []
    \<and> 1024 \<le> nslots rb \<and> 224 \<le> unat (rb_rec_tailroom rb)"
proof -
  have "roundup_log2 (ro_capacity default_ring_opts) = Some 10" "roundup_log2 (record_bytes default_ring_opts) = Some 8"
    by (simp_all add: roundup_log2_def default_ring_opts_def record_bytes_def argval_size_def roundup_log2_from.simps)
  from ring_new_sound [OF this, where alloc = "\<lambda>n. Some 0x10000" and p = "0x10000" and ts = "7" and nm = "''main''"]
  show ?thesis
    by (auto simp: default_ring_opts_def)
qed

text \<open>
  The size of the record buffer is computed in 32 bits: a ring of $2^{24}$ default records,
  which needs 4 GB, asks the allocator for zero bytes and reports its full capacity although
  no record has storage, so the first push writes outside the buffer.
\<close>

lemma ring_alloc_size_wraps:
  "\<exists>rb. ringbuf_new (\<lambda>n. if n = 0 then Some p else None) ts nm
      \<lparr>ro_capacity = 0x1000000, ro_prio = 0, ro_flags = 0, ro_record_tailroom = 128\<rparr> = Some rb
    \<and> ring_capacity rb = 0x1000000 \<and> rb_slots rb = [] \<and> ring_push x rb = None"
proof -
  have "roundup_log2 0x1000000 = Some 24" "roundup_log2 160 = Some 8"
    by (simp_all add: roundup_log2_def roundup_log2_from.simps)
  then show ?thesis
    by (simp add: ringbuf_new_def roundup_power2_def record_bytes_def argval_size_def ring_capacity_def
        ring_push_def write_slot_def Let_def)
qed

end
