(* ===== verification/Ring_Conc.thy ===== *)
theory Ring_Conc
  imports Ringbuf
begin

text \<open>
  One writer and the reader on one ring, interleaved (\<^verbatim>\<open>include/hogl/detail/ringbuf.hpp\<close>, and the
  part of a poll of \<^verbatim>\<open>src/engine.cc\<close> that concerns one ring). A step is an access to a shared
  field or to a slot, or a critical section of \<^verbatim>\<open>_block_mutex\<close>; memory is sequentially
  consistent. Between \<^verbatim>\<open>push_begin\<close> and \<^verbatim>\<open>push_commit\<close> the writer's slot may hold anything. The
  reader keeps \<^emph>\<open>pointers\<close> to the records it has walked over and reads a record only when it
  flushes it. The lists of what was posted, pushed and written out are ghost state.
\<close>

section \<open>Definitions\<close>

text \<open>
  Where the writer is: filling the slot, at the test of \<^verbatim>\<open>_head\<close> in \<^verbatim>\<open>push_commit\<close>, before the
  advance of the tail, before and in the wait of \<^verbatim>\<open>block\<close>.
\<close>

datatype 'r writer_pc =
    W_idle | W_fill u32 'r | W_check u32 'r | W_commit u32 'r | W_block u32 'r | W_wait u32 'r

text \<open>
  Where the reader is: between polls, walking with its iterator, the pointers taken from it and
  the number of them that are flushed, at the test and at the signal of \<^verbatim>\<open>unblock\<close>.
\<close>

datatype reader_pc = R_idle | R_walk pop_iterator "u32 list" nat | R_check | R_signal

record 'r conc =
  c_ring :: "'r ringbuf"
  c_writer :: "'r writer_pc"
  c_reader :: reader_pc
  c_posted :: "'r list"
  c_pushed :: "'r list"
  c_out :: "'r list"

text \<open>
  Steps of the writer. \<open>spur\<close> allows the wait to return without a signal, as POSIX does.
\<close>

inductive wstep :: "bool \<Rightarrow> 'r conc \<Rightarrow> 'r conc \<Rightarrow> bool" for spur where
  push_begin: "c_writer c = W_idle
    \<Longrightarrow> wstep spur c (c\<lparr>c_writer := W_fill (push_begin (c_ring c)) x, c_posted := c_posted c @ [x]\<rparr>)"
| scribble: "c_writer c = W_fill p x \<Longrightarrow> write_slot (c_ring c) p y = Some rb
    \<Longrightarrow> wstep spur c (c\<lparr>c_ring := rb\<rparr>)"
| filled: "c_writer c = W_fill p x \<Longrightarrow> write_slot (c_ring c) p x = Some rb
    \<Longrightarrow> wstep spur c (c\<lparr>c_ring := rb, c_writer := W_check (rb_tail rb) x\<rparr>)"
| room: "c_writer c = W_check t x \<Longrightarrow> rb_head (c_ring c) \<noteq> t
    \<Longrightarrow> wstep spur c (c\<lparr>c_writer := W_commit t x\<rparr>)"
| drop: "c_writer c = W_check t x \<Longrightarrow> rb_head (c_ring c) = t \<Longrightarrow> \<not> ring_blocking (c_ring c)
    \<Longrightarrow> wstep spur c (c\<lparr>c_ring := inc_dropcnt (c_ring c), c_writer := W_idle\<rparr>)"
| full: "c_writer c = W_check t x \<Longrightarrow> rb_head (c_ring c) = t \<Longrightarrow> ring_blocking (c_ring c)
    \<Longrightarrow> wstep spur c (c\<lparr>c_writer := W_block t x\<rparr>)"
| commit: "c_writer c = W_commit t x
    \<Longrightarrow> wstep spur c (c\<lparr>c_ring := commit_tail (c_ring c) ((t + 1) AND rb_capacity (c_ring c)),
          c_writer := W_idle, c_pushed := c_pushed c @ [x]\<rparr>)"
| block: "c_writer c = W_block t x
    \<Longrightarrow> wstep spur c (c\<lparr>c_ring := (c_ring c)\<lparr>rb_block_active := True\<rparr>, c_writer := W_wait t x\<rparr>)"
| spurious: "c_writer c = W_wait t x \<Longrightarrow> spur \<Longrightarrow> wstep spur c (c\<lparr>c_writer := W_check t x\<rparr>)"

text \<open>\<^verbatim>\<open>pthread_cond_signal\<close> wakes a writer that waits and is lost otherwise.\<close>

fun signalled :: "'r writer_pc \<Rightarrow> 'r writer_pc" where
  "signalled (W_wait t x) = W_check t x"
| "signalled w = w"

text \<open>
  Steps of the reader. With ordering (\<open>tso\<close>) a poll may flush only the first \<open>n\<close> records it walked
  over; it then rewinds to the last of them, and leaves the ring alone when there is none.
  Without ordering it flushes all, and always commits and unblocks.
\<close>

inductive rstep :: "bool \<Rightarrow> 'r conc \<Rightarrow> 'r conc \<Rightarrow> bool" for tso where
  reset: "c_reader c = R_idle \<Longrightarrow> rstep tso c (c\<lparr>c_reader := R_walk (it_reset (c_ring c)) [] 0\<rparr>)"
| advance: "c_reader c = R_walk it ps n \<Longrightarrow> it_next (c_ring c) it = Some (p, it')
    \<Longrightarrow> rstep tso c (c\<lparr>c_reader := R_walk it' (ps @ [p]) n\<rparr>)"
| flush: "c_reader c = R_walk it ps n \<Longrightarrow> n < length ps \<Longrightarrow> read_slot (c_ring c) (ps ! n) = Some y
    \<Longrightarrow> rstep tso c (c\<lparr>c_reader := R_walk it ps (Suc n), c_out := c_out c @ [y]\<rparr>)"
| commit_tso: "c_reader c = R_walk it ps n \<Longrightarrow> it_next (c_ring c) it = None \<Longrightarrow> tso \<Longrightarrow> 0 < n
    \<Longrightarrow> rstep tso c (c\<lparr>c_ring := it_commit (it_rewind (ps ! (n - 1)) it) (c_ring c), c_reader := R_check\<rparr>)"
| skip_tso: "c_reader c = R_walk it ps n \<Longrightarrow> it_next (c_ring c) it = None \<Longrightarrow> tso \<Longrightarrow> n = 0
    \<Longrightarrow> rstep tso c (c\<lparr>c_reader := R_idle\<rparr>)"
| commit_notso: "c_reader c = R_walk it ps n \<Longrightarrow> it_next (c_ring c) it = None \<Longrightarrow> \<not> tso \<Longrightarrow> n = length ps
    \<Longrightarrow> rstep tso c (c\<lparr>c_ring := it_commit it (c_ring c), c_reader := R_check\<rparr>)"
| active: "c_reader c = R_check \<Longrightarrow> rb_block_active (c_ring c)
    \<Longrightarrow> rstep tso c (c\<lparr>c_reader := R_signal\<rparr>)"
| inactive: "c_reader c = R_check \<Longrightarrow> \<not> rb_block_active (c_ring c)
    \<Longrightarrow> rstep tso c (c\<lparr>c_reader := R_idle\<rparr>)"
| signal: "c_reader c = R_signal
    \<Longrightarrow> rstep tso c (c\<lparr>c_ring := (c_ring c)\<lparr>rb_block_active := False\<rparr>, c_writer := signalled (c_writer c),
          c_reader := R_idle\<rparr>)"

definition cstep :: "bool \<Rightarrow> bool \<Rightarrow> 'r conc \<Rightarrow> 'r conc \<Rightarrow> bool" where
  "cstep tso spur c c' \<longleftrightarrow> wstep spur c c' \<or> rstep tso c c'"

abbreviation csteps :: "bool \<Rightarrow> bool \<Rightarrow> 'r conc \<Rightarrow> 'r conc \<Rightarrow> bool" where
  "csteps tso spur \<equiv> (cstep tso spur)\<^sup>*\<^sup>*"

text \<open>A fresh ring with nobody at it.\<close>

definition conc_start :: "'r ringbuf \<Rightarrow> 'r conc" where
  "conc_start rb = \<lparr>c_ring = rb, c_writer = W_idle, c_reader = R_idle, c_posted = [], c_pushed = [], c_out = []\<rparr>"

definition fresh_ring :: "'r ringbuf \<Rightarrow> bool" where
  "fresh_ring rb \<longleftrightarrow> ring_wf rb \<and> ring_empty rb \<and> rb_dropcnt rb = 0 \<and> \<not> rb_block_active rb"

section \<open>The invariant\<close>

text \<open>The occupied slots in order, and the position of an iterator among them.\<close>

definition occupied :: "'r ringbuf \<Rightarrow> nat list" where
  "occupied rb = span (nslots rb) (unat (rb_head rb)) (unat (rb_tail rb))"

fun in_flight :: "'r writer_pc \<Rightarrow> 'r list" where
  "in_flight W_idle = []"
| "in_flight (W_fill p x) = [x]"
| "in_flight (W_check t x) = [x]"
| "in_flight (W_commit t x) = [x]"
| "in_flight (W_block t x) = [x]"
| "in_flight (W_wait t x) = [x]"

fun writer_inv :: "'r ringbuf \<Rightarrow> 'r writer_pc \<Rightarrow> bool" where
  "writer_inv rb W_idle \<longleftrightarrow> True"
| "writer_inv rb (W_fill p x) \<longleftrightarrow> p = rb_tail rb"
| "writer_inv rb (W_check t x) \<longleftrightarrow> t = rb_tail rb \<and> rb_slots rb ! unat t = x"
| "writer_inv rb (W_commit t x) \<longleftrightarrow> t = rb_tail rb \<and> rb_slots rb ! unat t = x \<and> rb_head rb \<noteq> t"
| "writer_inv rb (W_block t x) \<longleftrightarrow> t = rb_tail rb \<and> rb_slots rb ! unat t = x \<and> ring_blocking rb"
| "writer_inv rb (W_wait t x) \<longleftrightarrow> t = rb_tail rb \<and> rb_slots rb ! unat t = x \<and> ring_blocking rb \<and> rb_block_active rb"

text \<open>The pointers are the first occupied slots; the iterator's tail is the tail of some earlier time.\<close>

definition walk_inv :: "'r ringbuf \<Rightarrow> pop_iterator \<Rightarrow> u32 list \<Rightarrow> bool" where
  "walk_inv rb it ps \<longleftrightarrow> (let S = occupied rb in
     map unat ps = take (length ps) S
     \<and> unat (it_head it) = (unat (rb_head rb) # S) ! length ps
     \<and> (\<exists>m \<le> length S. length ps \<le> m \<and> unat (it_tail it) = (S @ [unat (rb_tail rb)]) ! m))"

fun flushed :: "reader_pc \<Rightarrow> nat" where
  "flushed (R_walk it ps n) = n"
| "flushed r = 0"

fun reader_inv :: "'r ringbuf \<Rightarrow> reader_pc \<Rightarrow> bool" where
  "reader_inv rb (R_walk it ps n) \<longleftrightarrow> n \<le> length ps \<and> walk_inv rb it ps"
| "reader_inv rb r \<longleftrightarrow> True"

definition conc_inv :: "'r conc \<Rightarrow> bool" where
  "conc_inv c \<longleftrightarrow> (let rb = c_ring c in
     ring_wf rb \<and> writer_inv rb (c_writer c) \<and> reader_inv rb (c_reader c)
     \<and> flushed (c_reader c) \<le> length (c_out c)
     \<and> contents rb = drop (length (c_out c) - flushed (c_reader c)) (c_pushed c)
     \<and> take (length (c_out c)) (c_pushed c) = c_out c
     \<and> (ring_blocking rb \<longrightarrow> c_posted c = c_pushed c @ in_flight (c_writer c))
     \<and> rb_dropcnt rb + of_nat (length (c_pushed c @ in_flight (c_writer c))) = of_nat (length (c_posted c)))"

section \<open>Walking over the occupied slots\<close>

lemma contents_occupied: "contents rb = map ((!) (rb_slots rb)) (occupied rb)"
  by (simp add: contents_def occupied_def)

lemma occupied_bounds:
  assumes "ring_wf rb"
  shows "unat (rb_tail rb) \<notin> set (occupied rb)" and "distinct (occupied rb)"
    and "i \<in> set (occupied rb) \<Longrightarrow> i < nslots rb"
proof -
  from assms obtain k where b: "unat (rb_head rb) < nslots rb" "unat (rb_tail rb) < nslots rb" "0 < nslots rb"
    by (rule ring_wfE)
  show "unat (rb_tail rb) \<notin> set (occupied rb)" "distinct (occupied rb)"
    using span_tail_not_in [OF b(1,2)] distinct_span [OF b(1,2)] by (simp_all add: occupied_def)
  show "i < nslots rb" if "i \<in> set (occupied rb)"
    using that span_less [OF b(3)] by (simp add: occupied_def)
qed

lemma occupied_not_tail: "ring_wf rb \<Longrightarrow> n < length (occupied rb) \<Longrightarrow> occupied rb ! n \<noteq> unat (rb_tail rb)"
  by (metis nth_mem occupied_bounds(1))

lemma occupied_next:
  assumes "ring_wf rb" and "k \<le> length (occupied rb)"
  shows "Suc ((unat (rb_head rb) # occupied rb) ! k) mod nslots rb = (occupied rb @ [unat (rb_tail rb)]) ! k"
proof -
  from assms(1) obtain e where b: "unat (rb_head rb) < nslots rb" "unat (rb_tail rb) < nslots rb"
    by (rule ring_wfE)
  have "(unat (rb_head rb) # occupied rb) ! k = (if k = 0 then unat (rb_head rb) else occupied rb ! (k - 1))"
    by (cases k) auto
  then show ?thesis
    using span_walk(2,3) [OF b, of k] assms(2) by (auto simp: occupied_def nth_append)
qed

text \<open>Moving the head to the position an iterator reaches after \<open>k\<close> records removes these.\<close>

lemma occupied_commit_head:
  assumes wf: "ring_wf rb" and k: "k \<le> length (occupied rb)" and h: "unat h = (unat (rb_head rb) # occupied rb) ! k"
  shows "ring_wf (commit_head rb h)" and "contents (commit_head rb h) = drop k (contents rb)"
    and "rb_head rb \<noteq> rb_tail rb \<Longrightarrow> h \<noteq> rb_tail rb"
proof -
  from wf obtain e where b: "unat (rb_head rb) < nslots rb" "unat (rb_tail rb) < nslots rb" by (rule ring_wfE)
  have "unat h < nslots rb"
    using b k h occupied_bounds(3) [OF wf] by (cases k) (auto intro: nth_mem)
  note c = it_commit_contents [OF wf this]
  show "ring_wf (commit_head rb h)" by (rule c)
  show "contents (commit_head rb h) = drop k (contents rb)"
    using c(2) k h span_drop [OF b, of "k - 1"] by (cases k) (auto simp: contents_occupied occupied_def drop_map)
  show "h \<noteq> rb_tail rb" if "rb_head rb \<noteq> rb_tail rb"
    using that k h occupied_not_tail [OF wf, of "k - 1"] by (cases k) (auto simp: word_unat_eq_iff)
qed

lemma walk_start: "ring_wf rb \<Longrightarrow> walk_inv rb (it_reset rb) []"
  by (auto simp: walk_inv_def Let_def it_reset_def intro!: exI [of _ "length (occupied rb)"])

lemma walk_length: "walk_inv rb it ps \<Longrightarrow> length ps \<le> length (occupied rb)"
  by (auto simp: walk_inv_def Let_def)

lemma walk_next:
  assumes wf: "ring_wf rb" and w: "walk_inv rb it ps" and n: "it_next rb it = Some (p, it')"
  shows "walk_inv rb it' (ps @ [p])"
proof -
  let ?S = "occupied rb" and ?k = "length ps"
  from w obtain m where m: "m \<le> length ?S" "?k \<le> m" "unat (it_tail it) = (?S @ [unat (rb_tail rb)]) ! m"
    and ps: "map unat ps = take ?k ?S" and h: "unat (it_head it) = (unat (rb_head rb) # ?S) ! ?k"
    by (auto simp: walk_inv_def Let_def)
  have p: "p = (it_head it + 1) AND rb_capacity rb" "p \<noteq> it_tail it" and it': "it' = it\<lparr>it_head := p\<rparr>"
    using n by (auto simp: it_next_def Let_def split: if_splits)
  have up: "unat p = (?S @ [unat (rb_tail rb)]) ! ?k"
    using occupied_next [OF wf walk_length [OF w]] h p(1) unat_next_index [OF wf] by simp
  with p(2) m have "?k < m" by (auto simp: word_unat_eq_iff le_less)
  with m(1) up have "?k < length ?S" "unat p = ?S ! ?k" by (auto simp: nth_append)
  with ps \<open>?k < m\<close> m it' show ?thesis
    by (auto simp: walk_inv_def Let_def take_Suc_conv_app_nth)
qed

lemma walk_read:
  assumes wf: "ring_wf rb" and w: "walk_inv rb it ps" and n: "n < length ps"
  shows "read_slot rb (ps ! n) = Some (contents rb ! n)" and "ps ! n \<noteq> rb_tail rb"
    and "unat (ps ! n) = (unat (rb_head rb) # occupied rb) ! Suc n"
proof -
  have l: "n < length (occupied rb)" using n walk_length [OF w] by simp
  have "map unat ps ! n = take (length ps) (occupied rb) ! n" using w by (simp add: walk_inv_def Let_def)
  with n have u: "unat (ps ! n) = occupied rb ! n" by simp
  then show "read_slot rb (ps ! n) = Some (contents rb ! n)"
    using l occupied_bounds(3) [OF wf, of "occupied rb ! n"] by (simp add: read_slot_def contents_occupied)
  show "ps ! n \<noteq> rb_tail rb"
    using u occupied_not_tail [OF wf l] by (auto simp: word_unat_eq_iff)
  show "unat (ps ! n) = (unat (rb_head rb) # occupied rb) ! Suc n" using u by simp
qed

lemma walk_commit_tail:
  assumes wf: "ring_wf rb" and w: "walk_inv rb it ps" and ne: "rb_head rb \<noteq> rb_tail rb"
  shows "walk_inv (commit_tail rb ((rb_tail rb + 1) AND rb_capacity rb)) it ps"
proof -
  let ?S = "occupied rb" and ?rb = "commit_tail rb ((rb_tail rb + 1) AND rb_capacity rb)"
  from wf obtain e where b: "unat (rb_head rb) < nslots rb" "unat (rb_tail rb) < nslots rb" by (rule ring_wfE)
  have S: "occupied ?rb = ?S @ [unat (rb_tail rb)]"
    using span_snoc [OF b] ne unat_next_index [OF wf, of "rb_tail rb"]
    by (simp add: occupied_def commit_tail_def word_unat_eq_iff)
  from w obtain m where "m \<le> length ?S" "length ps \<le> m" "unat (it_tail it) = (?S @ [unat (rb_tail rb)]) ! m"
    by (auto simp: walk_inv_def Let_def)
  then have "\<exists>m \<le> length (?S @ [unat (rb_tail rb)]). length ps \<le> m
      \<and> unat (it_tail it) = ((?S @ [unat (rb_tail rb)]) @ [unat (rb_tail ?rb)]) ! m"
    by (intro exI [of _ m]) (auto simp: nth_append)
  moreover have "rb_head ?rb = rb_head rb" by (simp add: commit_tail_def)
  ultimately show ?thesis
    using w walk_length [OF w] unfolding walk_inv_def S Let_def
    by (cases ps) (auto simp: nth_append)
qed

section \<open>Every step keeps the invariant\<close>

lemma reader_inv_cong:
  assumes "nslots rb' = nslots rb" and "rb_head rb' = rb_head rb" and "rb_tail rb' = rb_tail rb"
  shows "reader_inv rb' r \<longleftrightarrow> reader_inv rb r"
  using assms by (cases r) (simp_all add: walk_inv_def occupied_def)

lemma write_tail:
  assumes "ring_wf rb" and "write_slot rb (rb_tail rb) y = Some rb'"
  shows "ring_wf rb' \<and> contents rb' = contents rb \<and> rb_slots rb' ! unat (rb_tail rb) = y
    \<and> nslots rb' = nslots rb \<and> rb_head rb' = rb_head rb \<and> rb_tail rb' = rb_tail rb
    \<and> rb_dropcnt rb' = rb_dropcnt rb \<and> ring_blocking rb' = ring_blocking rb"
proof -
  have "unat (rb_tail rb) < nslots rb" using assms(1) by (rule ring_wfE)
  moreover obtain q where "write_slot rb (rb_tail rb) y = Some q" "ring_wf q" "contents q = contents rb"
    and q: "q = rb\<lparr>rb_slots := (rb_slots rb)[unat (rb_tail rb) := y]\<rparr>"
    using write_slot_tail [OF assms(1), of y] by blast
  moreover from this have "rb' = q" using assms(2) by simp
  ultimately show ?thesis by (simp add: q ring_blocking_def)
qed

lemma ring_fields [simp]:
  "ring_wf (rb\<lparr>rb_block_active := b\<rparr>) = ring_wf rb" "contents (rb\<lparr>rb_block_active := b\<rparr>) = contents rb"
  "ring_wf (inc_dropcnt rb) = ring_wf rb" "contents (inc_dropcnt rb) = contents rb"
  "ring_blocking (rb\<lparr>rb_block_active := b\<rparr>) = ring_blocking rb" "ring_blocking (inc_dropcnt rb) = ring_blocking rb"
  "ring_blocking (commit_head rb h) = ring_blocking rb" "ring_blocking (commit_tail rb h) = ring_blocking rb"
  "rb_dropcnt (inc_dropcnt rb) = rb_dropcnt rb + 1"
  "rb_dropcnt (commit_head rb h) = rb_dropcnt rb" "rb_dropcnt (commit_tail rb h) = rb_dropcnt rb"
  by (simp_all add: ring_wf_def contents_def inc_dropcnt_def ring_blocking_def commit_head_def commit_tail_def)

lemma reader_inv_fields [simp]:
  "reader_inv (rb\<lparr>rb_block_active := b\<rparr>) r = reader_inv rb r" "reader_inv (inc_dropcnt rb) r = reader_inv rb r"
  by (rule reader_inv_cong; simp add: inc_dropcnt_def)+

lemma commit_tail_spec:
  assumes wf: "ring_wf rb" and ne: "rb_head rb \<noteq> rb_tail rb"
  defines "rb' \<equiv> commit_tail rb ((rb_tail rb + 1) AND rb_capacity rb)"
  shows "ring_wf rb'" and "contents rb' = contents rb @ [rb_slots rb ! unat (rb_tail rb)]"
proof -
  have "0 < unat (ring_room rb)" using ring_full_iff [OF wf] ne by simp
  with push_commit_spec(1) [OF wf] show "ring_wf rb'" "contents rb' = contents rb @ [rb_slots rb ! unat (rb_tail rb)]"
    by (auto simp: rb'_def commit_tail_def)
qed

lemma conc_invD:
  assumes "conc_inv c"
  shows "ring_wf (c_ring c)" and "writer_inv (c_ring c) (c_writer c)" and "reader_inv (c_ring c) (c_reader c)"
  using assms by (auto simp: conc_inv_def Let_def)

lemma out_bound: "conc_inv c \<Longrightarrow> length (c_out c) \<le> length (c_pushed c)"
  by (metis (no_types, lifting) conc_inv_def length_take min.absorb_iff2 min.commute)

lemma writer_inv_only:
  assumes "conc_inv c" and "writer_inv (c_ring c) w" and "in_flight w = in_flight (c_writer c)"
  shows "conc_inv (c\<lparr>c_writer := w\<rparr>)"
  using assms by (simp add: conc_inv_def Let_def)

lemma writer_inv_active: "writer_inv rb w \<Longrightarrow> writer_inv (rb\<lparr>rb_block_active := True\<rparr>) w"
  by (cases w) simp_all

lemma commit_step_inv:
  assumes inv: "conc_inv c" and w: "c_writer c = W_commit t x"
  shows "conc_inv (c\<lparr>c_ring := commit_tail (c_ring c) ((t + 1) AND rb_capacity (c_ring c)), c_writer := W_idle,
    c_pushed := c_pushed c @ [x]\<rparr>)"
proof -
  let ?rb = "c_ring c"
  have wf: "ring_wf ?rb" and "writer_inv ?rb (W_commit t x)" using conc_invD(1,2) [OF inv] unfolding w by this+
  then have ne: "rb_head ?rb \<noteq> rb_tail ?rb" and t: "t = rb_tail ?rb" "rb_slots ?rb ! unat t = x" by auto
  define rb where "rb = commit_tail ?rb ((t + 1) AND rb_capacity ?rb)"
  have "ring_wf rb" "contents rb = contents ?rb @ [x]" "ring_blocking rb = ring_blocking ?rb" "rb_dropcnt rb = rb_dropcnt ?rb"
    using commit_tail_spec [OF wf ne] unfolding rb_def t(1) t(2) [unfolded t(1)] by simp_all
  moreover have "reader_inv rb (c_reader c)"
    using conc_invD(3) [OF inv] walk_commit_tail [OF wf _ ne] unfolding rb_def t(1)
    by (cases "c_reader c") simp_all
  moreover have "flushed (c_reader c) \<le> length (c_out c)"
    "contents ?rb = drop (length (c_out c) - flushed (c_reader c)) (c_pushed c)"
    "take (length (c_out c)) (c_pushed c) = c_out c" "ring_blocking ?rb \<longrightarrow> c_posted c = c_pushed c @ [x]"
    "rb_dropcnt ?rb + of_nat (length (c_pushed c @ [x])) = of_nat (length (c_posted c))"
    using inv w by (simp_all add: conc_inv_def Let_def)
  ultimately show ?thesis
    using out_bound [OF inv] by (simp add: conc_inv_def Let_def flip: rb_def)
qed

lemma wstep_inv:
  assumes "wstep spur c c'" and "conc_inv c"
  shows "conc_inv c'"
  using assms
proof cases
  case (push_begin x)
  with assms(2) show ?thesis by (simp add: conc_inv_def Let_def Ringbuf.push_begin_def algebra_simps)
next
  case (scribble p x y rb)
  with assms(2) have "ring_wf (c_ring c)" "p = rb_tail (c_ring c)" by (simp_all add: conc_inv_def Let_def)
  with scribble write_tail [of "c_ring c" y rb] reader_inv_cong [of rb "c_ring c"] assms(2)
  show ?thesis by (simp add: conc_inv_def Let_def)
next
  case (filled p x rb)
  with assms(2) have "ring_wf (c_ring c)" "p = rb_tail (c_ring c)" by (simp_all add: conc_inv_def Let_def)
  with filled write_tail [of "c_ring c" x rb] reader_inv_cong [of rb "c_ring c"] assms(2)
  show ?thesis by (simp add: conc_inv_def Let_def)
next
  case (drop t x)
  with assms(2) show ?thesis by (simp add: conc_inv_def Let_def algebra_simps)
next
  case (commit t x)
  with assms(2) show ?thesis by (simp add: commit_step_inv)
next
  case (room t x)
  with assms(2) conc_invD(2) [OF assms(2)] show ?thesis by (auto intro: writer_inv_only)
next
  case (full t x)
  with assms(2) conc_invD(2) [OF assms(2)] show ?thesis by (auto intro: writer_inv_only)
next
  case (block t x)
  let ?c = "c\<lparr>c_ring := (c_ring c)\<lparr>rb_block_active := True\<rparr>\<rparr>"
  have "conc_inv ?c"
    using assms(2) writer_inv_active [OF conc_invD(2) [OF assms(2)]] by (simp add: conc_inv_def Let_def)
  moreover have "writer_inv (c_ring ?c) (W_wait t x)"
    using conc_invD(2) [OF assms(2)] block(2) by auto
  ultimately have "conc_inv (?c\<lparr>c_writer := W_wait t x\<rparr>)"
    by (rule writer_inv_only) (simp add: block(2))
  with block(1) show ?thesis by simp
next
  case (spurious t x)
  with assms(2) conc_invD(2) [OF assms(2)] show ?thesis by (auto intro: writer_inv_only)
qed

lemma writer_inv_head:
  assumes "writer_inv rb w" and "rb_head rb \<noteq> rb_tail rb \<Longrightarrow> h \<noteq> rb_tail rb"
  shows "writer_inv (commit_head rb h) w"
  using assms by (cases w) (auto simp: commit_head_def ring_blocking_def)

text \<open>Committing \<open>n\<close> flushed records.\<close>

lemma commit_inv:
  assumes inv: "conc_inv c" and r: "c_reader c = R_walk it ps n"
    and h: "unat h = (unat (rb_head (c_ring c)) # occupied (c_ring c)) ! n"
  shows "conc_inv (c\<lparr>c_ring := commit_head (c_ring c) h, c_reader := R_check\<rparr>)"
proof -
  have wf: "ring_wf (c_ring c)" and n: "n \<le> length (occupied (c_ring c))"
    using conc_invD [OF inv] r walk_length [of "c_ring c" it ps] by simp_all
  note s = occupied_commit_head [OF wf n h]
  have "writer_inv (commit_head (c_ring c) h) (c_writer c)"
    by (rule writer_inv_head [OF conc_invD(2) [OF inv] s(3)])
  with inv r s(1,2) show ?thesis by (simp add: conc_inv_def Let_def)
qed

lemma signalled_inv:
  "writer_inv rb w \<Longrightarrow> writer_inv (rb\<lparr>rb_block_active := False\<rparr>) (signalled w)"
  by (cases w) (simp_all add: ring_blocking_def)

lemma in_flight_signalled [simp]: "in_flight (signalled w) = in_flight w"
  by (cases w) simp_all

lemma rstep_inv:
  assumes "rstep tso c c'" and "conc_inv c"
  shows "conc_inv c'"
  using assms(1)
proof cases
  case reset
  with assms(2) walk_start [of "c_ring c"] show ?thesis by (simp add: conc_inv_def Let_def)
next
  case (advance it ps n p it')
  with assms(2) walk_next [of "c_ring c" it ps p it'] show ?thesis by (simp add: conc_inv_def Let_def)
next
  case (flush it ps n y)
  then have w: "ring_wf (c_ring c)" "walk_inv (c_ring c) it ps" "n \<le> length (c_out c)"
    and c: "contents (c_ring c) = drop (length (c_out c) - n) (c_pushed c)"
    and o: "take (length (c_out c)) (c_pushed c) = c_out c"
    using assms(2) by (simp_all add: conc_inv_def Let_def)
  from walk_read(1) [OF w(1,2) flush(3)] flush(4) have y: "y = contents (c_ring c) ! n" by simp
  have "n < length (contents (c_ring c))"
    using flush(3) walk_length [OF w(2)] by (simp add: contents_occupied)
  with c y w(3) have l: "length (c_out c) < length (c_pushed c)" "y = c_pushed c ! length (c_out c)" by simp_all
  with o have "take (Suc (length (c_out c))) (c_pushed c) = c_out c @ [y]" by (simp add: take_Suc_conv_app_nth)
  with flush assms(2) l(1) show ?thesis by (simp add: conc_inv_def Let_def)
next
  case (commit_tso it ps n)
  then have "ring_wf (c_ring c)" "walk_inv (c_ring c) it ps" "n - 1 < length ps"
    using conc_invD [OF assms(2)] by auto
  from walk_read(3) [OF this] commit_tso commit_inv [OF assms(2) commit_tso(2), of "ps ! (n - 1)"]
  show ?thesis by (simp add: it_commit_def it_rewind_def)
next
  case (commit_notso it ps n)
  then have "unat (it_head it) = (unat (rb_head (c_ring c)) # occupied (c_ring c)) ! n"
    using conc_invD(3) [OF assms(2)] by (simp add: walk_inv_def Let_def)
  with commit_notso commit_inv [OF assms(2) commit_notso(2)] show ?thesis by (simp add: it_commit_def)
next
  case signal
  with assms(2) signalled_inv [of "c_ring c" "c_writer c"] show ?thesis by (simp add: conc_inv_def Let_def)
qed (use assms(2) in \<open>simp_all add: conc_inv_def Let_def\<close>)

lemma start_inv: "fresh_ring rb \<Longrightarrow> conc_inv (conc_start rb)"
  using ring_empty_iff [of rb] by (simp add: conc_inv_def conc_start_def fresh_ring_def)

lemma cstep_inv: "cstep tso spur c c' \<Longrightarrow> conc_inv c \<Longrightarrow> conc_inv c'"
  unfolding cstep_def by (blast intro: wstep_inv rstep_inv)

lemma csteps_inv: "csteps tso spur c c' \<Longrightarrow> conc_inv c \<Longrightarrow> conc_inv c'"
  by (induction rule: rtranclp_induct) (auto intro: cstep_inv)

section \<open>Executing interleavings\<close>

text \<open>An interleaving as the list of its moves; a move that is not possible gives \<open>None\<close>.\<close>

datatype 'r move = M_begin 'r | M_scribble 'r | M_filled | M_test | M_commit | M_block | M_spurious
  | M_reset | M_next | M_flush | M_done | M_unblock | M_signal

definition test_move :: "'r conc \<Rightarrow> u32 \<Rightarrow> 'r \<Rightarrow> 'r conc" where
  "test_move c t x =
     (if rb_head (c_ring c) \<noteq> t then c\<lparr>c_writer := W_commit t x\<rparr>
      else if ring_blocking (c_ring c) then c\<lparr>c_writer := W_block t x\<rparr>
      else c\<lparr>c_ring := inc_dropcnt (c_ring c), c_writer := W_idle\<rparr>)"

definition done_move :: "bool \<Rightarrow> 'r conc \<Rightarrow> pop_iterator \<Rightarrow> u32 list \<Rightarrow> nat \<Rightarrow> 'r conc option" where
  "done_move tso c it ps n =
     (case it_next (c_ring c) it of Some _ \<Rightarrow> None
      | None \<Rightarrow>
          if \<not> tso then (if n = length ps then Some (c\<lparr>c_ring := it_commit it (c_ring c), c_reader := R_check\<rparr>) else None)
          else if n = 0 then Some (c\<lparr>c_reader := R_idle\<rparr>)
          else Some (c\<lparr>c_ring := it_commit (it_rewind (ps ! (n - 1)) it) (c_ring c), c_reader := R_check\<rparr>))"

definition wmove :: "bool \<Rightarrow> 'r move \<Rightarrow> 'r conc \<Rightarrow> 'r conc option" where
  "wmove spur m c =
     (case c_writer c of
        W_idle \<Rightarrow> (case m of
            M_begin x \<Rightarrow> Some (c\<lparr>c_writer := W_fill (push_begin (c_ring c)) x, c_posted := c_posted c @ [x]\<rparr>)
          | _ \<Rightarrow> None)
      | W_fill p x \<Rightarrow> (case m of
            M_scribble y \<Rightarrow> map_option (\<lambda>rb. c\<lparr>c_ring := rb\<rparr>) (write_slot (c_ring c) p y)
          | M_filled \<Rightarrow> map_option (\<lambda>rb. c\<lparr>c_ring := rb, c_writer := W_check (rb_tail rb) x\<rparr>) (write_slot (c_ring c) p x)
          | _ \<Rightarrow> None)
      | W_check t x \<Rightarrow> (case m of M_test \<Rightarrow> Some (test_move c t x) | _ \<Rightarrow> None)
      | W_commit t x \<Rightarrow> (case m of
            M_commit \<Rightarrow> Some (c\<lparr>c_ring := commit_tail (c_ring c) ((t + 1) AND rb_capacity (c_ring c)),
              c_writer := W_idle, c_pushed := c_pushed c @ [x]\<rparr>)
          | _ \<Rightarrow> None)
      | W_block t x \<Rightarrow> (case m of
            M_block \<Rightarrow> Some (c\<lparr>c_ring := (c_ring c)\<lparr>rb_block_active := True\<rparr>, c_writer := W_wait t x\<rparr>)
          | _ \<Rightarrow> None)
      | W_wait t x \<Rightarrow> (case m of M_spurious \<Rightarrow> if spur then Some (c\<lparr>c_writer := W_check t x\<rparr>) else None | _ \<Rightarrow> None))"

definition rmove :: "bool \<Rightarrow> 'r move \<Rightarrow> 'r conc \<Rightarrow> 'r conc option" where
  "rmove tso m c =
     (case c_reader c of
        R_idle \<Rightarrow> (case m of M_reset \<Rightarrow> Some (c\<lparr>c_reader := R_walk (it_reset (c_ring c)) [] 0\<rparr>) | _ \<Rightarrow> None)
      | R_walk it ps n \<Rightarrow> (case m of
            M_next \<Rightarrow> map_option (\<lambda>(p, it). c\<lparr>c_reader := R_walk it (ps @ [p]) n\<rparr>) (it_next (c_ring c) it)
          | M_flush \<Rightarrow>
              (if n < length ps then map_option (\<lambda>y. c\<lparr>c_reader := R_walk it ps (Suc n), c_out := c_out c @ [y]\<rparr>) (read_slot (c_ring c) (ps ! n))
               else None)
          | M_done \<Rightarrow> done_move tso c it ps n
          | _ \<Rightarrow> None)
      | R_check \<Rightarrow> (case m of
            M_unblock \<Rightarrow> Some (c\<lparr>c_reader := if rb_block_active (c_ring c) then R_signal else R_idle\<rparr>)
          | _ \<Rightarrow> None)
      | R_signal \<Rightarrow> (case m of
            M_signal \<Rightarrow> Some (c\<lparr>c_ring := (c_ring c)\<lparr>rb_block_active := False\<rparr>, c_writer := signalled (c_writer c), c_reader := R_idle\<rparr>)
          | _ \<Rightarrow> None))"

definition cmove :: "bool \<Rightarrow> bool \<Rightarrow> 'r move \<Rightarrow> 'r conc \<Rightarrow> 'r conc option" where
  "cmove tso spur m c = (case wmove spur m c of None \<Rightarrow> rmove tso m c | Some c' \<Rightarrow> Some c')"

fun cmoves :: "bool \<Rightarrow> bool \<Rightarrow> 'r move list \<Rightarrow> 'r conc \<Rightarrow> 'r conc option" where
  "cmoves tso spur [] c = Some c"
| "cmoves tso spur (m # ms) c = do { c' \<leftarrow> cmove tso spur m c; cmoves tso spur ms c' }"

lemma wmove_sound: "wmove spur m c = Some c' \<Longrightarrow> wstep spur c c'"
  by (auto simp: wmove_def test_move_def split: writer_pc.splits move.splits if_splits intro: wstep.intros)

lemma rmove_sound: "rmove tso m c = Some c' \<Longrightarrow> rstep tso c c'"
  by (auto simp: rmove_def done_move_def simp del: One_nat_def split: reader_pc.splits move.splits if_splits option.splits
      intro: rstep.intros)

lemma cmoves_sound: "cmoves tso spur ms c = Some c' \<Longrightarrow> csteps tso spur c c'"
proof (induction ms arbitrary: c)
  case (Cons m ms)
  then obtain c1 where "cmove tso spur m c = Some c1" "csteps tso spur c1 c'" by (auto simp: bind_eq_Some_conv)
  moreover from this have "cstep tso spur c c1"
    by (auto simp: cmove_def cstep_def split: option.splits intro: wmove_sound rmove_sound)
  ultimately show ?case by (meson converse_rtranclp_into_rtranclp)
qed simp

lemmas conc_eval = cmove_def wmove_def rmove_def test_move_def done_move_def push_begin_def write_slot_def read_slot_def commit_tail_def commit_head_def
  it_next_def it_reset_def it_commit_def it_rewind_def ring_blocking_def BLOCKING_def Let_def

text \<open>A ring of two slots that blocks.\<close>

definition small_ring :: "nat ringbuf" where
  "small_ring = demo_ring\<lparr>rb_flags := BLOCKING, rb_capacity := 1, rb_head := 1, rb_slots := [0, 0]\<rparr>"

text \<open>A ring that lost the wakeup: the record 8 is in the hands of the waiting writer, the ring is empty.\<close>

definition lost_state :: "nat conc" where
  "lost_state = \<lparr>c_ring = small_ring\<lparr>rb_tail := 1, rb_head := 0, rb_slots := [7, 8], rb_block_active := True\<rparr>, c_writer = W_wait 1 8,
     c_reader = R_idle, c_posted = [7, 8], c_pushed = [7], c_out = [7]\<rparr>"

lemma small_ring_fresh: "fresh_ring small_ring"
  by (auto simp: fresh_ring_def ring_wf_def ring_empty_def small_ring_def demo_ring_def mask_eq_exp_minus_1 intro!: exI [of _ 1])

definition lost_run :: "nat move list" where
  "lost_run = [M_begin 7, M_scribble 99, M_filled, M_test, M_commit, M_begin 8, M_filled, M_test,
     M_reset, M_next, M_flush, M_done, M_unblock, M_block]"

lemma lost_run_reaches: "cmoves True False lost_run (conc_start small_ring) = Some lost_state"
  by (simp add: lost_run_def lost_state_def conc_start_def small_ring_def demo_ring_def conc_eval)

lemma blocking_small: "ring_blocking (rb\<lparr>rb_tail := t\<rparr>) = ring_blocking rb" "ring_blocking (rb\<lparr>rb_head := t\<rparr>) = ring_blocking rb"
  "ring_blocking (rb\<lparr>rb_slots := s\<rparr>) = ring_blocking rb" "ring_blocking small_ring"
  by (simp_all add: ring_blocking_def small_ring_def BLOCKING_def)

section \<open>Properties\<close>

text \<open>
  C7: whatever the interleaving of a writer and the reader on a ring, with or without ordering
  and with spurious wakeups, every pointer that the reader holds is inside the buffer, points to
  the complete record that is due next in the order of the pushes and never to the slot the
  writer is filling; what the reader has written out is a prefix of what was pushed; and on a
  blocking ring everything posted was pushed or is still in the hands of the writer, on
  the others the drop count makes up the difference.
\<close>

theorem concurrent_ring_safe:
  assumes "fresh_ring rb" and "csteps tso spur (conc_start rb) c"
  shows "take (length (c_out c)) (c_pushed c) = c_out c
    \<and> contents (c_ring c) = drop (length (c_out c) - flushed (c_reader c)) (c_pushed c)
    \<and> (\<forall>it ps n i. c_reader c = R_walk it ps n \<longrightarrow> i < length ps
         \<longrightarrow> read_slot (c_ring c) (ps ! i) = Some (c_pushed c ! (length (c_out c) - n + i)) \<and> ps ! i \<noteq> push_begin (c_ring c))
    \<and> (ring_blocking (c_ring c) \<longrightarrow> c_posted c = c_pushed c @ in_flight (c_writer c))
    \<and> of_nat (length (c_posted c)) = rb_dropcnt (c_ring c) + of_nat (length (c_pushed c) + length (in_flight (c_writer c)))"
proof -
  have inv: "conc_inv c" using assms by (blast intro: csteps_inv start_inv)
  have "read_slot (c_ring c) (ps ! i) = Some (c_pushed c ! (length (c_out c) - n + i)) \<and> ps ! i \<noteq> push_begin (c_ring c)"
    if "c_reader c = R_walk it ps n" "i < length ps" for it ps n i
  proof -
    have w: "walk_inv (c_ring c) it ps" using conc_invD(3) [OF inv] that(1) by simp
    have "i < length (contents (c_ring c))"
      using that(2) walk_length [OF w] by (simp add: contents_occupied)
    moreover have "contents (c_ring c) = drop (length (c_out c) - n) (c_pushed c)"
      using inv that(1) by (simp add: conc_inv_def Let_def)
    ultimately show ?thesis
      using walk_read(1,2) [OF conc_invD(1) [OF inv] w that(2)] by (simp add: push_begin_def)
  qed
  with inv show ?thesis by (simp add: conc_inv_def Let_def)
qed

theorem concurrent_ring_safe_witness:
  "csteps True False (conc_start small_ring) lost_state \<and> c_out lost_state = [7] \<and> contents (c_ring lost_state) = []
    \<and> c_posted lost_state = c_pushed lost_state @ [8]"
  using concurrent_ring_safe [OF small_ring_fresh cmoves_sound [OF lost_run_reaches]] cmoves_sound [OF lost_run_reaches]
  by (simp add: lost_state_def blocking_small)

text \<open>On every run \<open>P\<close> holds within \<open>n\<close> steps, and no run stops before.\<close>

primrec within :: "nat \<Rightarrow> ('s \<Rightarrow> 's \<Rightarrow> bool) \<Rightarrow> ('s \<Rightarrow> bool) \<Rightarrow> 's \<Rightarrow> bool" where
  "within 0 step P s \<longleftrightarrow> P s"
| "within (Suc n) step P s \<longleftrightarrow> P s \<or> (\<exists>s'. step s s') \<and> (\<forall>s'. step s s' \<longrightarrow> within n step P s')"

lemma within_mono: "within m step P s \<Longrightarrow> m \<le> n \<Longrightarrow> within n step P s"
proof (induction n arbitrary: m s)
  case (Suc n)
  show ?case
  proof (cases m)
    case 0
    with Suc.prems show ?thesis by simp
  next
    case (Suc k)
    with Suc.prems Suc.IH [of k] show ?thesis by auto
  qed
qed simp

text \<open>A number that every step of the reader makes smaller while the writer waits.\<close>

definition wake_steps :: "'r conc \<Rightarrow> nat" where
  "wake_steps c = (let L = length (contents (c_ring c)) in
     case c_reader c of R_idle \<Rightarrow> 2 * L + 4 | R_walk it ps n \<Rightarrow> 2 * L + 3 - length ps - n | R_check \<Rightarrow> 2 | R_signal \<Rightarrow> 1)"

lemma walk_contents: "walk_inv (c_ring c) it ps \<Longrightarrow> length ps \<le> length (contents (c_ring c))"
  using walk_length by (simp add: contents_occupied)

lemma waiting_progress:
  assumes "conc_inv c" and "c_writer c = W_wait t x"
  shows "\<exists>c'. cstep False False c c'"
proof (cases "c_reader c")
  case (R_walk it ps n)
  note w = conc_invD(1,3) [OF assms(1), unfolded R_walk, simplified]
  consider p where "it_next (c_ring c) it = Some p" | "it_next (c_ring c) it = None" "n = length ps"
    | "n < length ps" using w by fastforce
  then have "\<exists>c'. rstep False c c'"
  proof cases
    case (1 p)
    with R_walk show ?thesis by (cases p) (blast intro: rstep.advance)
  next
    case 2
    with R_walk show ?thesis by (blast intro: rstep.commit_notso)
  next
    case 3
    with R_walk walk_read(1) [of "c_ring c" it ps n] w show ?thesis by (blast intro: rstep.flush)
  qed
  then show ?thesis by (auto simp: cstep_def)
next
  case R_check
  then show ?thesis
    by (cases "rb_block_active (c_ring c)") (auto simp: cstep_def intro: rstep.active rstep.inactive)
qed (auto simp: cstep_def intro: rstep.intros)

lemma waiting_step:
  assumes "conc_inv c" and "c_writer c = W_wait t x" and "cstep False False c c'"
  shows "c_writer c' = W_check t x \<or> c_writer c' = W_wait t x \<and> wake_steps c' < wake_steps c"
proof -
  have "rstep False c c'" using assms(2,3) by (auto simp: cstep_def elim: wstep.cases)
  moreover have "conc_inv c'" using calculation assms(1) by (rule rstep_inv)
  note w = conc_invD(3) [OF assms(1)] conc_invD(3) [OF this]
  from calculation show ?thesis
  proof cases
    case (advance it ps n p it')
    with w assms(2) walk_contents [of c' it' "ps @ [p]"] show ?thesis by (auto simp: wake_steps_def)
  next
    case (flush it ps n y)
    with w assms(2) walk_contents [of c it ps] show ?thesis by (simp add: wake_steps_def)
  next
    case (commit_notso it ps n)
    with w assms(2) walk_contents [of c it ps] show ?thesis by (simp add: wake_steps_def)
  next
    case inactive
    with assms(2) conc_invD(2) [OF assms(1)] show ?thesis by simp
  qed (use assms(2) in \<open>simp_all add: wake_steps_def\<close>)
qed

lemma woken_within:
  "conc_inv c \<Longrightarrow> c_writer c = W_wait t x \<Longrightarrow> wake_steps c \<le> n
    \<Longrightarrow> within n (cstep False False) (\<lambda>c. c_writer c = W_check t x) c"
proof (induction n arbitrary: c)
  case 0
  then have False using walk_contents conc_invD(3) [of c]
    by (cases "c_reader c") (fastforce simp: wake_steps_def)+
  then show ?case ..
next
  case (Suc n)
  have "within n (cstep False False) (\<lambda>c. c_writer c = W_check t x) c'" if "cstep False False c c'" for c'
    using waiting_step [OF Suc.prems(1,2) that] Suc.IH [of c'] Suc.prems cstep_inv [OF that]
      within_mono [of 0 _ _ c' n] by auto
  with waiting_progress [OF Suc.prems(1,2)] show ?case by simp
qed


text \<open>
  C9: without ordering a writer that waits on a full ring is woken whatever the interleaving was,
  even if the reader tested \<^verbatim>\<open>_block_active\<close> just before the writer set it: on every run from
  there, without relying on spurious wakeups, it is back at the test of the head within two
  steps for each slot of the ring and two more, and no run stops before.
\<close>

theorem waiting_writer_woken:
  assumes "fresh_ring rb" and "csteps False False (conc_start rb) c" and "c_writer c = W_wait t x"
  shows "within (2 * nslots (c_ring c) + 2) (cstep False False) (\<lambda>c. c_writer c = W_check t x) c"
proof -
  have inv: "conc_inv c" using assms by (blast intro: csteps_inv start_inv)
  have "0 < nslots (c_ring c)" using conc_invD(1) [OF inv] by (rule ring_wfE)
  then have "length (contents (c_ring c)) < nslots (c_ring c)"
    using ring_size_room [OF conc_invD(1) [OF inv]] by linarith
  then have "wake_steps c \<le> 2 * nslots (c_ring c) + 2"
    by (auto simp: wake_steps_def Let_def split: reader_pc.split)
  with inv assms(3) show ?thesis by (rule woken_within)
qed

definition wait_run :: "nat move list" where
  "wait_run = [M_begin 7, M_filled, M_test, M_commit, M_begin 8, M_filled, M_test,
     M_reset, M_next, M_flush, M_done, M_unblock, M_block]"

lemma wait_run_reaches: "cmoves False False wait_run (conc_start small_ring) = Some lost_state"
  by (simp add: wait_run_def lost_state_def conc_start_def small_ring_def demo_ring_def conc_eval)

theorem waiting_writer_woken_witness:
  "csteps False False (conc_start small_ring) lost_state
    \<and> within 6 (cstep False False) (\<lambda>c. c_writer c = W_check 1 8) lost_state"
  using waiting_writer_woken [OF small_ring_fresh cmoves_sound [OF wait_run_reaches], of 1 8] cmoves_sound [OF wait_run_reaches]
  by (simp add: lost_state_def numeral_eq_Suc)

text \<open>With ordering, a waiting writer at an empty ring is never woken.\<close>

definition forgotten :: "'r writer_pc \<Rightarrow> 'r conc \<Rightarrow> bool" where
  "forgotten w c \<longleftrightarrow> c_writer c = w \<and> ring_empty (c_ring c)
     \<and> (c_reader c = R_idle \<or> (\<exists>it. c_reader c = R_walk it [] 0 \<and> it_next (c_ring c) it = None))"

lemma forgotten_waits: "forgotten w c \<Longrightarrow> c_writer c = w \<and> ring_empty (c_ring c)"
  by (simp add: forgotten_def)

lemma forgotten_step:
  assumes "cstep True False c c'" and "forgotten (W_wait t x) c"
  shows "forgotten (W_wait t x) c'"
proof -
  have "rstep True c c'" using assms by (auto simp: cstep_def forgotten_def elim: wstep.cases)
  then show ?thesis
    using assms(2) by cases (auto simp: forgotten_def ring_empty_def it_next_def it_reset_def)
qed

lemma forgotten_steps: "csteps True False c c' \<Longrightarrow> forgotten (W_wait t x) c \<Longrightarrow> forgotten (W_wait t x) c'"
  by (induction rule: rtranclp_induct) (auto intro: forgotten_step)

text \<open>
  C30: with ordering the wakeup can be lost. The reader unblocks only a ring from which it has just
  taken a record, and tests \<^verbatim>\<open>_block_active\<close> without the mutex. When the writer has found the ring
  full and the reader empties it before the writer marks itself as blocked, the writer waits at an
  empty ring in every state that follows, unless the system wakes it without cause.
\<close>

theorem ordered_reader_loses_wakeup:
  "fresh_ring small_ring \<and> csteps True False (conc_start small_ring) lost_state
    \<and> c_writer lost_state = W_wait 1 8 \<and> in_flight (c_writer lost_state) = [8]
    \<and> {c. csteps True False lost_state c} \<subseteq> {c. c_writer c = W_wait 1 8 \<and> ring_empty (c_ring c)}"
proof -
  have "forgotten (W_wait 1 8) lost_state"
    by (simp add: forgotten_def lost_state_def ring_empty_def small_ring_def demo_ring_def)
  then have "{c. csteps True False lost_state c} \<subseteq> {c. c_writer c = W_wait 1 8 \<and> ring_empty (c_ring c)}"
    by (blast dest: forgotten_steps forgotten_waits)
  then show ?thesis
    using small_ring_fresh cmoves_sound [OF lost_run_reaches] by (simp add: lost_state_def)
qed

end
