(* ===== verification/Ring_Linear.thy ===== *)
theory Ring_Linear
  imports Ring_Conc
begin

text \<open>
  The interleaved ring against the sequential one. The theories on posting and on the engine use a
  ring through \<open>ring_push\<close> and \<open>ring_pop\<close> as if each were one step. Here every interleaving of
  \<open>Ring_Conc\<close> is matched with a sequence of these calls: a push takes effect at the advance of the
  tail, or where a full ring counts a drop, a pop where the reader commits its iterator.
\<close>

section \<open>Sequences of operations\<close>

datatype 'r ring_op = Push 'r | Pop 'r

text \<open>A sequence of calls on a ring; \<open>None\<close> when a push would wait or a pop gives another record.\<close>

fun seq_run :: "'r ring_op list \<Rightarrow> 'r ringbuf \<Rightarrow> 'r ringbuf option" where
  "seq_run [] s = Some s"
| "seq_run (Push x # ops) s = do { s \<leftarrow> ring_push x s; seq_run ops s }"
| "seq_run (Pop y # ops) s =
     (case ring_pop s of None \<Rightarrow> None | Some (z, s) \<Rightarrow> if z = y then seq_run ops s else None)"

fun pushes :: "'r ring_op list \<Rightarrow> 'r list" where
  "pushes [] = []"
| "pushes (Push x # ops) = x # pushes ops"
| "pushes (Pop y # ops) = pushes ops"

fun pops :: "'r ring_op list \<Rightarrow> 'r list" where
  "pops [] = []"
| "pops (Push x # ops) = pops ops"
| "pops (Pop y # ops) = y # pops ops"

lemma pushes_append [simp]: "pushes (xs @ ys) = pushes xs @ pushes ys"
  by (induction xs rule: pushes.induct) auto

lemma pops_append [simp]: "pops (xs @ ys) = pops xs @ pops ys"
  by (induction xs rule: pops.induct) auto

lemma pushes_map_Pop [simp]: "pushes (map Pop ys) = []"
  by (induction ys) auto

lemma pops_map_Pop [simp]: "pops (map Pop ys) = ys"
  by (induction ys) auto

lemma seq_run_append: "seq_run (xs @ ys) s = Option.bind (seq_run xs s) (seq_run ys)"
proof (induction xs s rule: seq_run.induct)
  case (2 x ops s)
  then show ?case by (cases "ring_push x s") simp_all
qed (auto split: option.splits)

section \<open>The sequential operations on the contents\<close>

text \<open>A sequential ring that a concurrent one is matched with.\<close>

definition same_queue :: "'r ringbuf \<Rightarrow> 'r ringbuf \<Rightarrow> bool" where
  "same_queue s rb \<longleftrightarrow> ring_wf s \<and> contents s = contents rb \<and> nslots s = nslots rb
     \<and> ring_blocking s = ring_blocking rb \<and> rb_dropcnt s = rb_dropcnt rb"

lemma same_queue_room:
  assumes "same_queue s rb" and "ring_wf rb"
  shows "unat (ring_room s) = unat (ring_room rb)"
  using ring_size_room [of s] ring_size_room [OF assms(2)] assms(1) by (simp add: same_queue_def)

lemma inc_dropcnt_slots: "nslots (inc_dropcnt rb) = nslots rb"
  by (simp add: inc_dropcnt_def)

lemma commit_slots:
  "nslots (commit_head rb h) = nslots rb" "nslots (commit_tail rb t) = nslots rb"
  by (simp_all add: commit_head_def commit_tail_def)

lemma ring_push_cases:
  assumes wf: "ring_wf s"
  shows "0 < unat (ring_room s) \<Longrightarrow> \<exists>s'. ring_push x s = Some s' \<and> ring_wf s' \<and> contents s' = contents s @ [x]
      \<and> nslots s' = nslots s \<and> ring_blocking s' = ring_blocking s \<and> rb_dropcnt s' = rb_dropcnt s"
    and "unat (ring_room s) = 0 \<Longrightarrow> \<not> ring_blocking s \<Longrightarrow> \<exists>s'. ring_push x s = Some s' \<and> ring_wf s'
      \<and> contents s' = contents s \<and> nslots s' = nslots s \<and> ring_blocking s' = ring_blocking s
      \<and> rb_dropcnt s' = rb_dropcnt s + 1"
proof -
  obtain q where q: "write_slot s (rb_tail s) x = Some q" using write_slot_tail [OF wf] by blast
  note w = write_tail [OF wf q]
  have room: "unat (ring_room q) = unat (ring_room s)"
    using w by (intro same_queue_room [OF _ wf]) (simp add: same_queue_def)
  have push: "ring_push x s = push_commit q" by (simp add: ring_push_def push_begin_def q)
  {
    assume "0 < unat (ring_room s)"
    with w room obtain r where "push_commit q = Some r" "ring_wf r" "contents r = contents s @ [x]" "rb_dropcnt r = rb_dropcnt s"
      and r: "r = q\<lparr>rb_tail := (rb_tail q + 1) AND rb_capacity q\<rparr>"
      using push_commit_spec(1) [of q] by auto
    with w push show "\<exists>s'. ring_push x s = Some s' \<and> ring_wf s' \<and> contents s' = contents s @ [x]
        \<and> nslots s' = nslots s \<and> ring_blocking s' = ring_blocking s \<and> rb_dropcnt s' = rb_dropcnt s"
      by (simp add: r ring_blocking_def)
  next
    assume "unat (ring_room s) = 0" "\<not> ring_blocking s"
    with w room push push_commit_spec(2) [of q] have "ring_push x s = Some (inc_dropcnt q)" by simp
    with w show "\<exists>s'. ring_push x s = Some s' \<and> ring_wf s' \<and> contents s' = contents s \<and> nslots s' = nslots s
        \<and> ring_blocking s' = ring_blocking s \<and> rb_dropcnt s' = rb_dropcnt s + 1"
      by (simp add: inc_dropcnt_slots)
  }
qed

lemma ring_pops:
  assumes "ring_wf s" and "contents s = ys @ zs"
  shows "\<exists>s'. seq_run (map Pop ys) s = Some s' \<and> ring_wf s' \<and> contents s' = zs
    \<and> nslots s' = nslots s \<and> ring_blocking s' = ring_blocking s \<and> rb_dropcnt s' = rb_dropcnt s"
  using assms
proof (induction ys arbitrary: s)
  case (Cons y ys)
  obtain r where r: "ring_pop s = Some (y, r)" "ring_wf r" "contents r = ys @ zs" "rb_dropcnt r = rb_dropcnt s"
    using ring_pop_spec(2) [OF Cons.prems(1), of y "ys @ zs"] Cons.prems(2) by auto
  have "nslots r = nslots s" "ring_blocking r = ring_blocking s"
    using r(1) by (auto simp: ring_pop_def pop_commit_def commit_head_def ring_blocking_def bind_eq_Some_conv)
  with Cons.IH [OF r(2,3)] r show ?case by simp
qed simp

section \<open>The simulation\<close>

text \<open>The records whose pop has taken effect: a walk that is not committed has taken none.\<close>

definition taken :: "'r conc \<Rightarrow> 'r list" where
  "taken c = take (length (c_out c) - flushed (c_reader c)) (c_out c)"

definition matches :: "'r ringbuf \<Rightarrow> 'r ring_op list \<Rightarrow> 'r conc \<Rightarrow> bool" where
  "matches rb ops c \<longleftrightarrow> (\<exists>s. seq_run ops rb = Some s \<and> same_queue s (c_ring c)
     \<and> pushes ops @ in_flight (c_writer c) = c_posted c \<and> pops ops = taken c)"

lemma matches_start: "fresh_ring rb \<Longrightarrow> matches rb [] (conc_start rb)"
  by (simp add: matches_def conc_start_def fresh_ring_def same_queue_def taken_def)

lemma matches_stutter:
  assumes "matches rb ops c" and "same_queue (c_ring c') (c_ring c)"
    and "taken c' = taken c" and "pushes ops @ in_flight (c_writer c) = c_posted c \<Longrightarrow> pushes ops @ in_flight (c_writer c') = c_posted c'"
  shows "\<exists>more. matches rb (ops @ more) c'"
  using assms by (intro exI [of _ "[]"]) (auto simp: matches_def same_queue_def)

lemma same_queue_refl: "ring_wf rb \<Longrightarrow> same_queue rb rb"
  by (simp add: same_queue_def)

lemma same_queue_active: "ring_wf rb \<Longrightarrow> same_queue (rb\<lparr>rb_block_active := b\<rparr>) rb"
  by (simp add: same_queue_def)

lemma same_queue_write:
  "ring_wf rb \<Longrightarrow> write_slot rb (rb_tail rb) y = Some rb' \<Longrightarrow> same_queue rb' rb"
  using write_tail [of rb y rb'] by (simp add: same_queue_def)

text \<open>One more call at the end.\<close>

lemma matches_push:
  assumes m: "matches rb ops c" and p: "c_posted c = c_posted c'" "in_flight (c_writer c) = [x]" "in_flight (c_writer c') = []"
    and t: "taken c' = taken c"
    and s: "\<And>s. same_queue s (c_ring c) \<Longrightarrow> \<exists>s'. ring_push x s = Some s' \<and> same_queue s' (c_ring c')"
  shows "\<exists>more. matches rb (ops @ more) c'"
proof -
  from m obtain q where q: "seq_run ops rb = Some q" "same_queue q (c_ring c)" "pushes ops @ [x] = c_posted c" "pops ops = taken c"
    using p(2) by (auto simp: matches_def)
  from s [OF q(2)] obtain q' where "ring_push x q = Some q'" "same_queue q' (c_ring c')" by blast
  with q p t show ?thesis
    by (intro exI [of _ "[Push x]"]) (simp add: matches_def seq_run_append)
qed

lemma wstep_matches:
  assumes "wstep spur c c'" and inv: "conc_inv c" and m: "matches rb ops c"
  shows "\<exists>more. matches rb (ops @ more) c'"
  using assms(1)
proof cases
  case (scribble p x y r)
  with conc_invD(1,2) [OF inv] show ?thesis
    by (intro matches_stutter [OF m]) (auto simp: taken_def intro: same_queue_write)
next
  case (filled p x r)
  with conc_invD(1,2) [OF inv] show ?thesis
    by (intro matches_stutter [OF m]) (auto simp: taken_def intro: same_queue_write)
next
  case (drop t x)
  with conc_invD(1,2) [OF inv] have "unat (ring_room (c_ring c)) = 0"
    using ring_full_iff by fastforce
  then have "\<exists>s'. ring_push x s = Some s' \<and> same_queue s' (inc_dropcnt (c_ring c))" if "same_queue s (c_ring c)" for s
    using ring_push_cases(2) [of s x] same_queue_room [OF that conc_invD(1) [OF inv]] that drop
    by (auto simp: same_queue_def inc_dropcnt_slots)
  with drop show ?thesis by (intro matches_push [OF m, of _ x]) (auto simp: taken_def)
next
  case (commit t x)
  with conc_invD(2) [OF inv] have ne: "rb_head (c_ring c) \<noteq> rb_tail (c_ring c)"
    and t: "t = rb_tail (c_ring c)" "rb_slots (c_ring c) ! unat (rb_tail (c_ring c)) = x" by auto
  have r: "0 < unat (ring_room (c_ring c))" using ne ring_full_iff [OF conc_invD(1) [OF inv]] by simp
  have "\<exists>s'. ring_push x s = Some s' \<and> same_queue s' (commit_tail (c_ring c) ((t + 1) AND rb_capacity (c_ring c)))"
    if "same_queue s (c_ring c)" for s
    using ring_push_cases(1) [of s x] same_queue_room [OF that conc_invD(1) [OF inv]] that r t
      commit_tail_spec(2) [OF conc_invD(1) [OF inv] ne]
    by (auto simp: same_queue_def commit_slots)
  with commit show ?thesis by (intro matches_push [OF m, of _ x]) (auto simp: taken_def)
qed (use conc_invD(1) [OF inv] in \<open>intro matches_stutter [OF m]; simp add: taken_def same_queue_refl same_queue_active\<close>)+

lemma matches_commit:
  assumes m: "matches rb ops c" and inv: "conc_inv c" and r: "c_reader c = R_walk it ps n"
    and h: "unat h = (unat (rb_head (c_ring c)) # occupied (c_ring c)) ! n"
  shows "\<exists>more. matches rb (ops @ more) (c\<lparr>c_ring := commit_head (c_ring c) h, c_reader := R_check\<rparr>)"
proof -
  let ?ys = "drop (length (c_out c) - n) (c_out c)"
  from m obtain q where q: "seq_run ops rb = Some q" "same_queue q (c_ring c)"
    "pushes ops @ in_flight (c_writer c) = c_posted c" "pops ops = taken c"
    by (auto simp: matches_def)
  have o: "n \<le> length (c_out c)" "contents (c_ring c) = drop (length (c_out c) - n) (c_pushed c)"
    "take (length (c_out c)) (c_pushed c) = c_out c"
    using inv r by (simp_all add: conc_inv_def Let_def)
  have "n \<le> length (occupied (c_ring c))"
    using conc_invD(3) [OF inv] r walk_length [of "c_ring c" it ps] by simp
  note w = occupied_commit_head [OF conc_invD(1) [OF inv] this h]
  have "contents q = ?ys @ drop n (contents q)"
    using q(2) o by (simp add: same_queue_def) (metis append_take_drop_id diff_le_self drop_append drop_drop le_add_diff_inverse2 diff_is_0_eq' drop0)
  from ring_pops [OF _ this] q(2) w obtain q' where "seq_run (map Pop ?ys) q = Some q'" "same_queue q' (commit_head (c_ring c) h)"
    by (auto simp: same_queue_def commit_slots)
  with q r show ?thesis
    by (intro exI [of _ "map Pop ?ys"]) (simp add: matches_def seq_run_append taken_def)
qed

lemma rstep_matches:
  assumes "rstep tso c c'" and inv: "conc_inv c" and m: "matches rb ops c"
  shows "\<exists>more. matches rb (ops @ more) c'"
  using assms(1)
proof cases
  case (flush it ps n y)
  moreover have "n \<le> length (c_out c)" using inv flush by (simp add: conc_inv_def Let_def)
  ultimately show ?thesis
    using conc_invD(1) [OF inv] by (intro matches_stutter [OF m]) (simp_all add: taken_def same_queue_refl)
next
  case (commit_tso it ps n)
  then have "ring_wf (c_ring c)" "walk_inv (c_ring c) it ps" "n - 1 < length ps"
    using conc_invD [OF inv] by auto
  from walk_read(3) [OF this] commit_tso matches_commit [OF m inv commit_tso(2), of "ps ! (n - 1)"]
  show ?thesis by (simp add: it_commit_def it_rewind_def)
next
  case (commit_notso it ps n)
  then have "unat (it_head it) = (unat (rb_head (c_ring c)) # occupied (c_ring c)) ! n"
    using conc_invD(3) [OF inv] by (simp add: walk_inv_def Let_def)
  with commit_notso matches_commit [OF m inv commit_notso(2)] show ?thesis by (simp add: it_commit_def)
qed (use conc_invD(1) [OF inv] in \<open>intro matches_stutter [OF m]; simp add: taken_def same_queue_refl same_queue_active\<close>)+

lemma csteps_matches:
  assumes "csteps tso spur (conc_start rb) c" and "fresh_ring rb"
  shows "\<exists>ops. matches rb ops c"
  using assms(1)
proof (induction rule: rtranclp_induct)
  case base
  show ?case using matches_start [OF assms(2)] ..
next
  case (step c c')
  have "conc_inv c" by (rule csteps_inv [OF step.hyps(1) start_inv [OF assms(2)]])
  with step.IH step.hyps(2) show ?case
    unfolding cstep_def using wstep_matches rstep_matches by blast
qed

section \<open>Properties\<close>

text \<open>
  C8: the ring may be used as if each push and each pop were one step. For every interleaving of a
  writer and the reader, blocking or not, with or without ordering, there is a sequence of calls of
  \<open>ring_push\<close> and \<open>ring_pop\<close> on the same fresh ring that succeeds and ends with the same contents
  and the same drop count. It pushes exactly what was posted, in order and up to the record still in
  the hands of the writer, and it pops exactly what the reader wrote out, in order and up to the
  records of a walk that is not committed yet.
\<close>

theorem ring_linearizable:
  assumes "fresh_ring rb" and "csteps tso spur (conc_start rb) c"
  shows "\<exists>ops s. seq_run ops rb = Some s \<and> contents s = contents (c_ring c) \<and> rb_dropcnt s = rb_dropcnt (c_ring c)
    \<and> pushes ops @ in_flight (c_writer c) = c_posted c
    \<and> pops ops = take (length (c_out c) - flushed (c_reader c)) (c_out c)"
  using csteps_matches [OF assms(2,1)] by (auto simp: matches_def same_queue_def taken_def)

theorem ring_linearizable_witness:
  "\<exists>ops s. seq_run ops small_ring = Some s \<and> contents s = [] \<and> rb_dropcnt s = 0 \<and> pushes ops = [7] \<and> pops ops = [7]"
  using ring_linearizable [OF small_ring_fresh cmoves_sound [OF lost_run_reaches]]
  by (simp add: lost_state_def small_ring_def demo_ring_def contents_def span_def)

end
