(* ===== verification/Ostrbuf.thy ===== *)
theory Ostrbuf
  imports Hogl_Prelude
begin

text \<open>
  Output stream buffers (\<^verbatim>\<open>ostrbuf\<close> and its subclasses for file descriptors, stdio,
  two streams at once and no output) and the base class \<^verbatim>\<open>output\<close>.

  The buffer is the list of its first \<^verbatim>\<open>_size\<close> bytes. A subclass is an extension of
  the record, and \<^verbatim>\<open>do_flush\<close>, the virtual function, is an argument of the operations
  of the base class. The operating system appears as the bytes that arrived and as a
  function giving the outcome of each call: everything written, only the first bytes, or
  an error with its message.
\<close>

section \<open>The base class\<close>

record ostrbuf =
  ob_capacity :: u32
  ob_buf :: bytes
  ob_failed :: bool
  ob_error :: string

type_synonym 'a flusher = "bytes \<Rightarrow> 'a ostrbuf_scheme \<Rightarrow> 'a ostrbuf_scheme"

definition ob_room :: "'a ostrbuf_scheme \<Rightarrow> nat" where
  "ob_room s = unat (ob_capacity s) - length (ob_buf s)"

definition ob_do_copy :: "bytes \<Rightarrow> 'a ostrbuf_scheme \<Rightarrow> 'a ostrbuf_scheme" where
  "ob_do_copy data s = s\<lparr>ob_buf := ob_buf s @ data\<rparr>"

definition ob_failure :: "string \<Rightarrow> 'a ostrbuf_scheme \<Rightarrow> 'a ostrbuf_scheme" where
  "ob_failure err s = s\<lparr>ob_error := take 63 err, ob_failed := True\<rparr>"

definition ob_new :: "bool \<Rightarrow> u64 \<Rightarrow> ostrbuf" where
  "ob_new malloc_ok capacity =
     (let s = \<lparr>ob_capacity = 0, ob_buf = [], ob_failed = False, ob_error = ''''\<rparr> in
      if capacity \<noteq> 0
      then (if \<not> malloc_ok then ob_failure ''failed to allocate data buffer - no memory'' s
            else s\<lparr>ob_capacity := ucast capacity\<rparr>)
      else s)"

definition ob_reset :: "'a ostrbuf_scheme \<Rightarrow> 'a ostrbuf_scheme" where
  "ob_reset s = s\<lparr>ob_buf := []\<rparr>"

definition ob_flush :: "'a flusher \<Rightarrow> 'a ostrbuf_scheme \<Rightarrow> 'a ostrbuf_scheme" where
  "ob_flush do_flush s = do_flush [] s"

definition ob_push :: "'a flusher \<Rightarrow> bytes \<Rightarrow> 'a ostrbuf_scheme \<Rightarrow> 'a ostrbuf_scheme" where
  "ob_push do_flush data s = (if length data > ob_room s then do_flush data s else ob_do_copy data s)"

text \<open>A C string is pushed up to its terminator, which \<^verbatim>\<open>strlen\<close> finds.\<close>

definition str_bytes :: "string \<Rightarrow> bytes" where
  "str_bytes s = map of_char s"

definition ob_push_str :: "'a flusher \<Rightarrow> string \<Rightarrow> 'a ostrbuf_scheme \<Rightarrow> 'a ostrbuf_scheme" where
  "ob_push_str do_flush s = ob_push do_flush (str_bytes s)"

definition ob_push_char :: "'a flusher \<Rightarrow> char \<Rightarrow> 'a ostrbuf_scheme \<Rightarrow> 'a ostrbuf_scheme" where
  "ob_push_char do_flush c = ob_push do_flush [of_char c]"

section \<open>Streams\<close>

datatype io = Complete | Short nat | IoError string

record ostrbuf_fd = ostrbuf +
  fd_flags :: u32
  fd_fd :: int
  fd_sink :: bytes
  fd_io :: "nat \<Rightarrow> io"
  fd_calls :: nat

definition CLOSE_ON_DELETE :: u32 where
  "CLOSE_ON_DELETE = push_bit 0 1"

text \<open>
  \<^verbatim>\<open>writev\<close> returns the number of bytes as a 64-bit integer, which \<^verbatim>\<open>int r\<close> cuts to
  32 bits before the comparison with zero.
\<close>

definition fd_do_flush :: "bytes \<Rightarrow> ostrbuf_fd \<Rightarrow> ostrbuf_fd" where
  "fd_do_flush data s =
     (if ob_failed s then s
      else let out = ob_buf s @ data;
               s = (if out \<noteq> []
                    then (case fd_io s (fd_calls s) of
                            IoError err \<Rightarrow> ob_failure err (s\<lparr>fd_calls := Suc (fd_calls s)\<rparr>)
                          | w \<Rightarrow>
                              let n = (case w of Short n \<Rightarrow> min n (length out) | _ \<Rightarrow> length out);
                                  s = s\<lparr>fd_calls := Suc (fd_calls s), fd_sink := fd_sink s @ take n out\<rparr>
                              in if (word_of_nat n :: u32) <s 0 then ob_failure ''Success'' s else s)
                    else s)
           in ob_reset s)"

definition fd_new :: "bool \<Rightarrow> int \<Rightarrow> u32 \<Rightarrow> u32 \<Rightarrow> (nat \<Rightarrow> io) \<Rightarrow> ostrbuf_fd" where
  "fd_new malloc_ok fd flags capacity io =
     ostrbuf.extend (ob_new malloc_ok (ucast capacity)) (ostrbuf_fd.fields flags fd [] io 0)"

definition fd_close :: "ostrbuf_fd \<Rightarrow> ostrbuf_fd" where
  "fd_close s = s\<lparr>fd_fd := -1\<rparr>"

definition fd_delete :: "ostrbuf_fd \<Rightarrow> ostrbuf_fd" where
  "fd_delete s = (if fd_flags s AND CLOSE_ON_DELETE \<noteq> 0 then s\<lparr>fd_fd := -1\<rparr> else s)"

text \<open>
  With stdio there is one \<^verbatim>\<open>fwrite\<close> for the buffer and one for the new data; a short
  count or an error sets the error flag of the \<^verbatim>\<open>FILE\<close>, which stays set.
\<close>

record ostrbuf_stdio = ostrbuf +
  sf_flags :: u32
  sf_open :: bool
  sf_sink :: bytes
  sf_io :: "nat \<Rightarrow> io"
  sf_calls :: nat
  sf_ferror :: bool

definition sf_fwrite :: "bytes \<Rightarrow> ostrbuf_stdio \<Rightarrow> ostrbuf_stdio" where
  "sf_fwrite data s =
     (let n = (case sf_io s (sf_calls s) of Complete \<Rightarrow> length data | Short n \<Rightarrow> min n (length data) | IoError _ \<Rightarrow> 0)
      in s\<lparr>sf_calls := Suc (sf_calls s), sf_sink := sf_sink s @ take n data,
           sf_ferror := sf_ferror s \<or> n < length data\<rparr>)"

definition sf_put :: "bytes \<Rightarrow> ostrbuf_stdio \<Rightarrow> ostrbuf_stdio" where
  "sf_put data s = (if data \<noteq> [] then sf_fwrite data s else s)"

definition sf_do_flush :: "string \<Rightarrow> bytes \<Rightarrow> ostrbuf_stdio \<Rightarrow> ostrbuf_stdio" where
  "sf_do_flush err data s =
     (if ob_failed s then s
      else let s = sf_put (ob_buf s) s;
               s = sf_put data s;
               s = (if sf_ferror s then ob_failure err s else s)
           in ob_reset s)"

definition sf_new :: "bool \<Rightarrow> u32 \<Rightarrow> u32 \<Rightarrow> (nat \<Rightarrow> io) \<Rightarrow> ostrbuf_stdio" where
  "sf_new malloc_ok flags capacity io =
     ostrbuf.extend (ob_new malloc_ok (ucast capacity)) (ostrbuf_stdio.fields flags True [] io 0 False)"

definition sf_delete :: "ostrbuf_stdio \<Rightarrow> ostrbuf_stdio" where
  "sf_delete s = (if sf_flags s AND CLOSE_ON_DELETE \<noteq> 0 then s\<lparr>sf_open := False\<rparr> else s)"

text \<open>Two streams at once; \<open>f0\<close> and \<open>f1\<close> are their \<^verbatim>\<open>do_flush\<close>.\<close>

record ('a, 'b) ostrbuf_tee = ostrbuf +
  te_o0 :: "'a ostrbuf_scheme"
  te_o1 :: "'b ostrbuf_scheme"

definition te_failed :: "('a, 'b) ostrbuf_tee \<Rightarrow> bool" where
  "te_failed s \<longleftrightarrow> ob_failed (te_o0 s) \<or> ob_failed (te_o1 s)"

definition te_error :: "('a, 'b) ostrbuf_tee \<Rightarrow> string" where
  "te_error s = (if ob_failed (te_o0 s) then ob_error (te_o0 s) else ob_error (te_o1 s))"

definition te_do_flush :: "'a flusher \<Rightarrow> 'b flusher \<Rightarrow> bytes \<Rightarrow> ('a, 'b) ostrbuf_tee \<Rightarrow> ('a, 'b) ostrbuf_tee" where
  "te_do_flush f0 f1 data s =
     (if te_failed s then s
      else let s = (if ob_buf s \<noteq> []
                    then s\<lparr>te_o0 := f0 (ob_buf s) (te_o0 s), te_o1 := f1 (ob_buf s) (te_o1 s)\<rparr> else s);
               s = (if data \<noteq> [] then s\<lparr>te_o0 := f0 data (te_o0 s), te_o1 := f1 data (te_o1 s)\<rparr> else s)
           in ob_reset s)"

definition te_new :: "bool \<Rightarrow> 'a ostrbuf_scheme \<Rightarrow> 'b ostrbuf_scheme \<Rightarrow> u32 \<Rightarrow> ('a, 'b) ostrbuf_tee" where
  "te_new malloc_ok o0 o1 capacity =
     ostrbuf.extend (ob_new malloc_ok (ucast capacity)) (ostrbuf_tee.fields o0 o1)"

text \<open>No output. Writing to it in the failed state throws, which is \<open>None\<close>.\<close>

definition null_do_flush :: "bytes \<Rightarrow> ostrbuf \<Rightarrow> ostrbuf option" where
  "null_do_flush data s = (if ob_failed s then None else Some (ob_reset s))"

definition null_new :: "bool \<Rightarrow> u32 \<Rightarrow> ostrbuf" where
  "null_new malloc_ok capacity = ob_new malloc_ok (ucast capacity)"

definition null_new_failed :: "string \<Rightarrow> ostrbuf" where
  "null_new_failed err = ob_failure err (ob_new True 0)"

section \<open>Outputs\<close>

text \<open>
  A format is the functions it overrides, on a stream with a given \<^verbatim>\<open>do_flush\<close>. The
  name of the next chunk is null for the last footer.
\<close>

record ('d, 's) out_format =
  of_process :: "'d \<Rightarrow> 's \<Rightarrow> 's"
  of_header :: "string \<Rightarrow> bool \<Rightarrow> 's \<Rightarrow> 's"
  of_footer :: "string option \<Rightarrow> 's \<Rightarrow> 's"

definition out_process :: "('d, 's) out_format \<Rightarrow> 'd \<Rightarrow> 's \<Rightarrow> 's" where
  "out_process fmt d s = of_process fmt d s"

definition out_header :: "('d, 's) out_format \<Rightarrow> string \<Rightarrow> bool \<Rightarrow> 's \<Rightarrow> 's" where
  "out_header fmt n first s = of_header fmt n first s"

definition out_footer :: "('d, 'a ostrbuf_scheme) out_format \<Rightarrow> 'a flusher \<Rightarrow> string option \<Rightarrow> 'a ostrbuf_scheme \<Rightarrow> 'a ostrbuf_scheme" where
  "out_footer fmt do_flush n s = ob_flush do_flush (of_footer fmt n s)"

text \<open>Without a stream an output gets a failed null stream.\<close>

definition out_init :: "ostrbuf option \<Rightarrow> ostrbuf" where
  "out_init sb = (case sb of Some s \<Rightarrow> s | None \<Rightarrow> null_new_failed ''underlying stream uninitialized'')"

text \<open>Opening a plain file or a pipe; a failed open throws.\<close>

definition output_plainfile :: "('d, ostrbuf_fd) out_format \<Rightarrow> bool \<Rightarrow> int \<Rightarrow> string \<Rightarrow> u32 \<Rightarrow> (nat \<Rightarrow> io) \<Rightarrow> string + ostrbuf_fd" where
  "output_plainfile fmt malloc_ok fd nm capacity io =
     (if fd < 0 then Inl ''hogl::output_plainfile: failed to open file for writing''
      else Inr (out_header fmt nm True (fd_new malloc_ok fd CLOSE_ON_DELETE capacity io)))"

definition output_pipe :: "('d, ostrbuf_stdio) out_format \<Rightarrow> bool \<Rightarrow> bool \<Rightarrow> u32 \<Rightarrow> (nat \<Rightarrow> io) \<Rightarrow> string + ostrbuf_stdio" where
  "output_pipe fmt malloc_ok popen_ok capacity io =
     (if \<not> popen_ok then Inl ''hogl::output_pipe: failed to open output pipe.''
      else Inr (out_header fmt ''pipe'' True (sf_new malloc_ok CLOSE_ON_DELETE capacity io)))"

definition output_stdout :: "('d, ostrbuf_stdio) out_format \<Rightarrow> bool \<Rightarrow> u32 \<Rightarrow> (nat \<Rightarrow> io) \<Rightarrow> ostrbuf_stdio" where
  "output_stdout fmt malloc_ok capacity io = out_header fmt ''stdout'' True (sf_new malloc_ok 0 capacity io)"

definition output_stderr :: "('d, ostrbuf_stdio) out_format \<Rightarrow> bool \<Rightarrow> u32 \<Rightarrow> (nat \<Rightarrow> io) \<Rightarrow> ostrbuf_stdio" where
  "output_stderr fmt malloc_ok capacity io = out_header fmt ''stderr'' True (sf_new malloc_ok 0 capacity io)"

definition output_tee :: "bool \<Rightarrow> 'a ostrbuf_scheme \<Rightarrow> 'b ostrbuf_scheme \<Rightarrow> u32 \<Rightarrow> ('a, 'b) ostrbuf_tee" where
  "output_tee malloc_ok o0 o1 capacity = te_new malloc_ok o0 o1 capacity"

text \<open>The destructors write the last footer and delete the stream.\<close>

definition output_plainfile_delete :: "('d, ostrbuf_fd) out_format \<Rightarrow> ostrbuf_fd \<Rightarrow> ostrbuf_fd" where
  "output_plainfile_delete fmt s = fd_delete (out_footer fmt fd_do_flush None s)"

definition output_stdio_delete :: "('d, ostrbuf_stdio) out_format \<Rightarrow> string \<Rightarrow> ostrbuf_stdio \<Rightarrow> ostrbuf_stdio" where
  "output_stdio_delete fmt err s = sf_delete (out_footer fmt (sf_do_flush err) None s)"

section \<open>The contract of a stream\<close>

text \<open>
  A stream under the condition \<open>ok\<close> on its environment: a flush that does not end in the
  failed state delivered what was buffered and the new data, in order, and a failed
  stream stays as it is.
\<close>

locale out_stream =
  fixes flush :: "bytes \<Rightarrow> 'a ostrbuf_scheme \<Rightarrow> 'a ostrbuf_scheme"
    and sent :: "'a ostrbuf_scheme \<Rightarrow> bytes"
    and bad :: "'a ostrbuf_scheme \<Rightarrow> bool"
    and ok :: "'a ostrbuf_scheme \<Rightarrow> bool"
  assumes flush_ok: "ok s \<Longrightarrow> ok (flush d s)"
    and flush_sends: "ok s \<Longrightarrow> \<not> bad (flush d s) \<Longrightarrow> sent (flush d s) = sent s @ ob_buf s @ d \<and> ob_buf (flush d s) = []"
    and flush_bad: "bad s \<Longrightarrow> bad (flush d s)"
    and copy_frame: "sent (s\<lparr>ob_buf := b\<rparr>) = sent s" "bad (s\<lparr>ob_buf := b\<rparr>) = bad s" "ok (s\<lparr>ob_buf := b\<rparr>) = ok s"
begin

lemma push_step:
  assumes "ok s"
  shows "ok (ob_push flush d s)" and "bad s \<Longrightarrow> bad (ob_push flush d s)"
    and "\<not> bad (ob_push flush d s) \<Longrightarrow> sent (ob_push flush d s) @ ob_buf (ob_push flush d s) = sent s @ ob_buf s @ d"
proof -
  show "ok (ob_push flush d s)" "bad s \<Longrightarrow> bad (ob_push flush d s)"
    using assms flush_ok flush_bad copy_frame by (simp_all add: ob_push_def ob_do_copy_def)
  show "sent (ob_push flush d s) @ ob_buf (ob_push flush d s) = sent s @ ob_buf s @ d" if "\<not> bad (ob_push flush d s)"
  proof (cases "length d > ob_room s")
    case True
    with that show ?thesis using flush_sends [OF assms, of d] by (simp add: ob_push_def)
  next
    case False
    then show ?thesis using copy_frame by (simp add: ob_push_def ob_do_copy_def)
  qed
qed

lemma push_all:
  assumes "ok s" and "\<not> bad (fold (ob_push flush) ds s)"
  shows "ok (fold (ob_push flush) ds s)"
    and "sent (fold (ob_push flush) ds s) @ ob_buf (fold (ob_push flush) ds s) = sent s @ ob_buf s @ concat ds"
proof -
  have "ok (fold (ob_push flush) ds s) \<and> sent (fold (ob_push flush) ds s) @ ob_buf (fold (ob_push flush) ds s)
      = sent s @ ob_buf s @ concat ds"
    using assms
  proof (induction ds arbitrary: s)
    case (Cons d ds)
    have mono: "bad t \<Longrightarrow> ok t \<Longrightarrow> bad (fold (ob_push flush) xs t)" for xs t
      by (induction xs arbitrary: t) (simp_all add: push_step)
    have k: "ok (ob_push flush d s)" by (rule push_step(1) [OF Cons.prems(1)])
    have nb: "\<not> bad (ob_push flush d s)" using mono [OF _ k] Cons.prems(2) by auto
    have "sent (ob_push flush d s) @ ob_buf (ob_push flush d s) @ concat ds = sent s @ ob_buf s @ d @ concat ds"
      using push_step(3) [OF Cons.prems(1) nb] by (metis append.assoc)
    with Cons.IH [OF k] Cons.prems(2) show ?case by simp
  qed simp
  then show "ok (fold (ob_push flush) ds s)"
    "sent (fold (ob_push flush) ds s) @ ob_buf (fold (ob_push flush) ds s) = sent s @ ob_buf s @ concat ds" by auto
qed

text \<open>Pushes followed by a flush deliver everything in order, unless the stream failed.\<close>

lemma push_flush:
  assumes "ok s" and "\<not> bad (ob_flush flush (fold (ob_push flush) ds s))"
  shows "sent (ob_flush flush (fold (ob_push flush) ds s)) = sent s @ ob_buf s @ concat ds"
    and "ob_buf (ob_flush flush (fold (ob_push flush) ds s)) = []"
proof -
  let ?t = "fold (ob_push flush) ds s"
  have nb: "\<not> bad ?t" using assms(2) flush_bad by (auto simp: ob_flush_def)
  note t = push_all [OF assms(1) nb]
  show "sent (ob_flush flush ?t) = sent s @ ob_buf s @ concat ds" "ob_buf (ob_flush flush ?t) = []"
    using flush_sends [OF t(1), of "[]"] assms(2) t(2) by (simp_all add: ob_flush_def)
qed

end

text \<open>A file descriptor whose writes are never short.\<close>

definition fd_complete :: "ostrbuf_fd \<Rightarrow> bool" where
  "fd_complete s \<longleftrightarrow> (\<forall>k n. fd_io s k \<noteq> Short n)"

interpretation fdo: out_stream fd_do_flush fd_sink ob_failed fd_complete
proof
  fix s :: ostrbuf_fd and d b
  show "fd_complete s \<Longrightarrow> fd_complete (fd_do_flush d s)"
    by (auto simp: fd_do_flush_def fd_complete_def Let_def ob_reset_def ob_failure_def split: io.split)
  show "ob_failed s \<Longrightarrow> ob_failed (fd_do_flush d s)" by (simp add: fd_do_flush_def)
  assume c: "fd_complete s" and nf: "\<not> ob_failed (fd_do_flush d s)"
  then have "fd_io s (fd_calls s) \<noteq> Short n" for n by (simp add: fd_complete_def)
  with nf show "fd_sink (fd_do_flush d s) = fd_sink s @ ob_buf s @ d \<and> ob_buf (fd_do_flush d s) = []"
    by (cases "fd_io s (fd_calls s)") (auto simp: fd_do_flush_def Let_def ob_reset_def ob_failure_def split: if_splits)
qed (simp_all add: fd_complete_def)

text \<open>For stdio every loss is reported, so no condition is needed.\<close>

definition sf_sound :: "ostrbuf_stdio \<Rightarrow> bool" where
  "sf_sound s \<longleftrightarrow> sf_ferror s \<longrightarrow> ob_failed s"

lemma sf_put_fields [simp]:
  "ob_buf (sf_put d s) = ob_buf s" "ob_failed (sf_put d s) = ob_failed s" "sf_ferror s \<Longrightarrow> sf_ferror (sf_put d s)"
  by (simp_all add: sf_put_def sf_fwrite_def Let_def)

lemma sf_put_sends: "\<not> sf_ferror (sf_put d s) \<Longrightarrow> sf_sink (sf_put d s) = sf_sink s @ d"
  by (auto simp: sf_put_def sf_fwrite_def Let_def split: if_splits)

interpretation sfo: out_stream "sf_do_flush err" sf_sink ob_failed sf_sound
proof
  fix s :: ostrbuf_stdio and d b
  show "sf_sound (sf_do_flush err d s)" if "sf_sound s"
    using that by (simp add: sf_do_flush_def sf_sound_def Let_def ob_reset_def ob_failure_def)
  show "ob_failed s \<Longrightarrow> ob_failed (sf_do_flush err d s)" by (simp add: sf_do_flush_def)
  assume nf: "\<not> ob_failed (sf_do_flush err d s)"
  define s1 where "s1 = sf_put (ob_buf s) s"
  define s2 where "s2 = sf_put d s1"
  have g: "\<not> ob_failed s" using nf by (simp add: sf_do_flush_def split: if_splits)
  then have eq: "sf_do_flush err d s = ob_reset (if sf_ferror s2 then ob_failure err s2 else s2)"
    by (simp add: sf_do_flush_def Let_def s2_def s1_def)
  then have e2: "\<not> sf_ferror s2" using nf by (simp add: ob_reset_def ob_failure_def split: if_splits)
  then have e1: "\<not> sf_ferror s1" using sf_put_fields(3) s2_def by blast
  have "sf_sink s2 = sf_sink s @ ob_buf s @ d"
    using sf_put_sends [of d s1] sf_put_sends [of "ob_buf s" s] e1 e2 by (simp add: s2_def [symmetric] s1_def [symmetric])
  then show "sf_sink (sf_do_flush err d s) = sf_sink s @ ob_buf s @ d \<and> ob_buf (sf_do_flush err d s) = []"
    using eq e2 by (simp add: ob_reset_def)
qed (simp_all add: sf_sound_def)

section \<open>Both streams of a tee\<close>

text \<open>What the tee does on one of its streams: no call for no data.\<close>

definition put_some :: "('s \<Rightarrow> 's) \<Rightarrow> bytes \<Rightarrow> 's \<Rightarrow> 's" where
  "put_some f d s = (if d \<noteq> [] then f s else s)"

context out_stream begin

lemma put_some_flush:
  assumes "ok s" and "ob_buf s = []"
  shows "ok (put_some (flush d) d s)" and "bad s \<Longrightarrow> bad (put_some (flush d) d s)"
    and "\<not> bad (put_some (flush d) d s) \<Longrightarrow> sent (put_some (flush d) d s) = sent s @ d \<and> ob_buf (put_some (flush d) d s) = []"
  using assms flush_ok flush_sends [OF assms(1), of d] flush_bad by (auto simp: put_some_def)

lemma put_twice:
  assumes "ok s" and "ob_buf s = []" and "\<not> bad (put_some (flush e) e (put_some (flush d) d s))"
  shows "sent (put_some (flush e) e (put_some (flush d) d s)) = sent s @ d @ e"
    and "ob_buf (put_some (flush e) e (put_some (flush d) d s)) = []"
proof -
  let ?t = "put_some (flush d) d s"
  have "\<not> bad ?t" using assms(3) flush_bad by (auto simp: put_some_def split: if_splits)
  then have t: "sent ?t = sent s @ d" "ob_buf ?t = []" using put_some_flush(3) [OF assms(1,2)] by blast+
  show "sent (put_some (flush e) e ?t) = sent s @ d @ e" "ob_buf (put_some (flush e) e ?t) = []"
    using put_some_flush(3) [OF put_some_flush(1) [OF assms(1,2), of d] t(2) assms(3)] t(1) by simp_all
qed

end

lemma te_fields:
  "te_o0 (s\<lparr>ob_buf := b\<rparr>) = te_o0 s" "te_o1 (s\<lparr>ob_buf := b\<rparr>) = te_o1 s" "ob_buf (s\<lparr>te_o0 := x, te_o1 := y\<rparr>) = ob_buf s"
  for s :: "('a, 'b) ostrbuf_tee"
  by (cases s, simp)+

lemma te_do_flush_put:
  fixes s :: "('a, 'b) ostrbuf_tee"
  assumes "\<not> te_failed s"
  shows "te_o0 (te_do_flush f0 f1 d s) = put_some (f0 d) d (put_some (f0 (ob_buf s)) (ob_buf s) (te_o0 s))"
    and "te_o1 (te_do_flush f0 f1 d s) = put_some (f1 d) d (put_some (f1 (ob_buf s)) (ob_buf s) (te_o1 s))"
    and "ob_buf (te_do_flush f0 f1 d s) = []"
  using assms by (simp_all add: te_do_flush_def put_some_def ob_reset_def Let_def te_fields)

text \<open>
  A tee over two streams that are written through it only: both receive what the tee is
  given, in order, unless one of them failed.
\<close>

locale two_streams = a: out_stream f0 sent0 ob_failed ok0 + b: out_stream f1 sent1 ob_failed ok1
  for f0 :: "bytes \<Rightarrow> 'a ostrbuf_scheme \<Rightarrow> 'a ostrbuf_scheme" and sent0 ok0
    and f1 :: "bytes \<Rightarrow> 'b ostrbuf_scheme \<Rightarrow> 'b ostrbuf_scheme" and sent1 ok1
begin

definition drained :: "('a, 'b) ostrbuf_tee \<Rightarrow> bool" where
  "drained s \<longleftrightarrow> te_failed s \<or> ok0 (te_o0 s) \<and> ok1 (te_o1 s) \<and> ob_buf (te_o0 s) = [] \<and> ob_buf (te_o1 s) = []"

lemma te_flush:
  assumes "drained s"
  shows "drained (te_do_flush f0 f1 d s)"
    and "\<not> te_failed (te_do_flush f0 f1 d s) \<Longrightarrow> sent0 (te_o0 (te_do_flush f0 f1 d s)) = sent0 (te_o0 s) @ ob_buf s @ d"
    and "\<not> te_failed (te_do_flush f0 f1 d s) \<Longrightarrow> sent1 (te_o1 (te_do_flush f0 f1 d s)) = sent1 (te_o1 s) @ ob_buf s @ d"
    and "\<not> te_failed (te_do_flush f0 f1 d s) \<Longrightarrow> ob_buf (te_do_flush f0 f1 d s) = []"
proof -
  let ?t = "te_do_flush f0 f1 d s"
  have stay: "te_failed s \<Longrightarrow> ?t = s" by (simp add: te_do_flush_def)
  have go: "sent0 (te_o0 ?t) = sent0 (te_o0 s) @ ob_buf s @ d \<and> sent1 (te_o1 ?t) = sent1 (te_o1 s) @ ob_buf s @ d
      \<and> ob_buf ?t = [] \<and> drained ?t" if "\<not> te_failed ?t"
  proof -
    have ns: "\<not> te_failed s" using that stay by auto
    have k: "ok0 (te_o0 s)" "ok1 (te_o1 s)" "ob_buf (te_o0 s) = []" "ob_buf (te_o1 s) = []"
      using assms ns by (simp_all add: drained_def)
    note p = te_do_flush_put [OF ns, of f0 f1 d]
    have nf: "\<not> ob_failed (te_o0 ?t)" "\<not> ob_failed (te_o1 ?t)" using that by (simp_all add: te_failed_def)
    have "ok0 (te_o0 ?t)" "ok1 (te_o1 ?t)"
      unfolding p(1,2) using k a.flush_ok b.flush_ok by (simp_all add: put_some_def)
    with a.put_twice [OF k(1,3) nf(1) [unfolded p(1)]] b.put_twice [OF k(2,4) nf(2) [unfolded p(2)]] p
    show ?thesis by (simp add: drained_def)
  qed
  show "drained ?t" using go by (cases "te_failed ?t") (auto simp: drained_def)
  show "\<not> te_failed ?t \<Longrightarrow> sent0 (te_o0 ?t) = sent0 (te_o0 s) @ ob_buf s @ d"
    "\<not> te_failed ?t \<Longrightarrow> sent1 (te_o1 ?t) = sent1 (te_o1 s) @ ob_buf s @ d" "\<not> te_failed ?t \<Longrightarrow> ob_buf ?t = []"
    using go by blast+
qed

end

sublocale two_streams \<subseteq> left: out_stream "te_do_flush f0 f1" "\<lambda>s. sent0 (te_o0 s)" te_failed drained
  by unfold_locales (use te_flush in \<open>auto simp: te_failed_def drained_def te_do_flush_def te_fields\<close>)

sublocale two_streams \<subseteq> right: out_stream "te_do_flush f0 f1" "\<lambda>s. sent1 (te_o1 s)" te_failed drained
  by unfold_locales (use te_flush in \<open>auto simp: te_failed_def drained_def te_do_flush_def te_fields\<close>)

interpretation fdsf: two_streams fd_do_flush fd_sink fd_complete "sf_do_flush err" sf_sink sf_sound
  by unfold_locales

text \<open>A count below 2^31 is not negative as an \<^verbatim>\<open>int\<close>.\<close>

lemma small_count [simp]:
  assumes "n < 2 ^ 31"
  shows "\<not> (word_of_nat n :: u32) <s 0"
proof -
  have "signed_take_bit 31 (int n) = int n"
    using assms by (intro signed_take_bit_int_eq_self) simp_all
  then have "sint (word_of_int (int n) :: u32) = int n" by (simp add: sint_sbintrunc' del: of_int_of_nat_eq)
  then show ?thesis by (simp add: word_sless_alt)
qed

lemma small_count_numeral [simp]: "numeral k < (2147483648 :: nat) \<Longrightarrow> \<not> (numeral k :: u32) <s 0"
  using small_count [of "numeral k"] by simp

lemma small_count_1 [simp]: "\<not> (1 :: u32) <s 0"
  using small_count [of 1] by simp

section \<open>Properties\<close>

text \<open>
  C33: data pushed into a buffered stream in pieces and then flushed arrives complete and in
  order after what was buffered before, whatever the capacity of the buffer, if the stream is not
  failed afterwards; for a file descriptor also none of its writes may be short, because a short
  write is not reported. For stdio every short write is reported, so nothing else is asked.
\<close>

theorem stream_delivers_in_order:
  assumes "fd_complete s" and "\<not> ob_failed (ob_flush fd_do_flush (fold (ob_push fd_do_flush) ds s))"
    and "sf_sound t" and "\<not> ob_failed (ob_flush (sf_do_flush err) (fold (ob_push (sf_do_flush err)) ds t))"
  shows "fd_sink (ob_flush fd_do_flush (fold (ob_push fd_do_flush) ds s)) = fd_sink s @ ob_buf s @ concat ds
    \<and> sf_sink (ob_flush (sf_do_flush err) (fold (ob_push (sf_do_flush err)) ds t)) = sf_sink t @ ob_buf t @ concat ds"
  using fdo.push_flush(1) [OF assms(1,2)] sfo.push_flush(1) [OF assms(3,4)] by blast

theorem stream_delivers_in_order_witness:
  "fd_sink (ob_flush fd_do_flush (fold (ob_push fd_do_flush) [[1, 2], [3], [4, 5, 6, 7]] (fd_new True 5 0 3 (\<lambda>_. Complete))))
      = [1, 2, 3, 4, 5, 6, 7]"
proof -
  let ?s = "fd_new True 5 0 3 (\<lambda>_. Complete)" and ?t = "sf_new True 0 3 (\<lambda>_. Complete)"
  let ?ds = "[[1, 2], [3], [4, 5, 6, 7]] :: bytes list"
  have d: "fd_complete ?s" "sf_sound ?t" "fd_sink ?s = []" "ob_buf ?s = []"
    by (simp_all add: fd_complete_def sf_sound_def fd_new_def sf_new_def ob_new_def ostrbuf.defs ostrbuf_fd.defs ostrbuf_stdio.defs Let_def)
  have f: "\<not> ob_failed (ob_flush fd_do_flush (fold (ob_push fd_do_flush) ?ds ?s))"
    "\<not> ob_failed (ob_flush (sf_do_flush ''e'') (fold (ob_push (sf_do_flush ''e'')) ?ds ?t))"
    by (simp_all add: ob_flush_def ob_push_def ob_room_def ob_do_copy_def fd_do_flush_def sf_do_flush_def sf_put_def sf_fwrite_def
        ob_reset_def fd_new_def sf_new_def ob_new_def ostrbuf.defs ostrbuf_fd.defs ostrbuf_stdio.defs Let_def)
  from stream_delivers_in_order [OF d(1) f(1) d(2) f(2)] d show ?thesis by simp
qed

text \<open>
  C34: a tee over a file descriptor and a stdio stream that hold nothing in buffers of their own: both
  receive the same data, complete and in order, if neither is failed afterwards and no write
  to the descriptor is short.
\<close>

theorem tee_mirrors:
  assumes "fd_complete (te_o0 s)" and "sf_sound (te_o1 s)" and "ob_buf (te_o0 s) = []" and "ob_buf (te_o1 s) = []"
    and "\<not> te_failed (ob_flush (te_do_flush fd_do_flush (sf_do_flush err))
                     (fold (ob_push (te_do_flush fd_do_flush (sf_do_flush err))) ds s))"
  shows "let t = ob_flush (te_do_flush fd_do_flush (sf_do_flush err)) (fold (ob_push (te_do_flush fd_do_flush (sf_do_flush err))) ds s)
    in fd_sink (te_o0 t) = fd_sink (te_o0 s) @ ob_buf s @ concat ds \<and> sf_sink (te_o1 t) = sf_sink (te_o1 s) @ ob_buf s @ concat ds"
proof -
  have "fdsf.drained s" using assms(1-4) by (simp add: fdsf.drained_def)
  from fdsf.left.push_flush(1) [OF this assms(5)] fdsf.right.push_flush(1) [OF this assms(5)] show ?thesis
    by (simp add: Let_def)
qed

theorem tee_mirrors_witness:
  "let t = ob_flush (te_do_flush fd_do_flush (sf_do_flush ''e''))
      (fold (ob_push (te_do_flush fd_do_flush (sf_do_flush ''e''))) [[1, 2], [3]]
         (te_new True (fd_new True 5 0 8 (\<lambda>_. Complete)) (sf_new True 0 8 (\<lambda>_. Complete)) 2))
    in fd_sink (te_o0 t) = [1, 2, 3] \<and> sf_sink (te_o1 t) = [1, 2, 3]"
proof -
  let ?s = "te_new True (fd_new True 5 0 8 (\<lambda>_. Complete)) (sf_new True 0 8 (\<lambda>_. Complete)) 2"
  note defs = fd_new_def sf_new_def te_new_def ob_new_def ostrbuf.defs ostrbuf_fd.defs ostrbuf_stdio.defs ostrbuf_tee.defs Let_def
  have i: "fd_complete (te_o0 ?s)" "sf_sound (te_o1 ?s)" "ob_buf (te_o0 ?s) = []" "ob_buf (te_o1 ?s) = []"
    by (simp_all add: fd_complete_def sf_sound_def defs)
  have e: "fd_sink (te_o0 ?s) = []" "sf_sink (te_o1 ?s) = []" "ob_buf ?s = []" by (simp_all add: defs)
  have f: "\<not> te_failed (ob_flush (te_do_flush fd_do_flush (sf_do_flush ''e''))
                     (fold (ob_push (te_do_flush fd_do_flush (sf_do_flush ''e''))) [[1, 2], [3]] ?s))"
    by (simp add: te_failed_def ob_flush_def ob_push_def ob_room_def ob_do_copy_def te_do_flush_def fd_do_flush_def sf_do_flush_def
        sf_put_def sf_fwrite_def ob_reset_def defs)
  from tee_mirrors [OF i f] e show ?thesis by (simp add: Let_def)
qed

text \<open>
  Once a stream has failed, nothing pushed later reaches the file, and the failure and its
  message stay.
\<close>

lemma failed_stream_stays_failed:
  assumes "ob_failed s"
  shows "let t = ob_flush fd_do_flush (fold (ob_push fd_do_flush) ds s)
    in ob_failed t \<and> ob_error t = ob_error s \<and> fd_sink t = fd_sink s \<and> fd_calls t = fd_calls s"
proof -
  have step: "ob_failed (ob_push fd_do_flush d t) \<and> ob_error (ob_push fd_do_flush d t) = ob_error t
      \<and> fd_sink (ob_push fd_do_flush d t) = fd_sink t \<and> fd_calls (ob_push fd_do_flush d t) = fd_calls t" if "ob_failed t" for d t
    using that by (simp add: ob_push_def fd_do_flush_def ob_do_copy_def)
  have "ob_failed (fold (ob_push fd_do_flush) ds s) \<and> ob_error (fold (ob_push fd_do_flush) ds s) = ob_error s
      \<and> fd_sink (fold (ob_push fd_do_flush) ds s) = fd_sink s \<and> fd_calls (fold (ob_push fd_do_flush) ds s) = fd_calls s"
    using assms
  proof (induction ds arbitrary: s)
    case (Cons d ds)
    from Cons.IH [of "ob_push fd_do_flush d s"] step [OF Cons.prems, of d] show ?case by simp
  qed simp
  then show ?thesis by (simp add: ob_flush_def fd_do_flush_def Let_def)
qed

text \<open>
  C35: a short write is taken for a complete one: the rest of the data is dropped from the
  buffer and the stream does not count as failed.
\<close>

theorem short_write_is_silent:
  assumes "\<not> ob_failed s" and "fd_io s (fd_calls s) = Short n" and "n < length (ob_buf s @ d)" and "n < 2 ^ 31"
  shows "fd_sink (fd_do_flush d s) = fd_sink s @ take n (ob_buf s @ d)
    \<and> ob_buf (fd_do_flush d s) = [] \<and> \<not> ob_failed (fd_do_flush d s)"
proof -
  have "min n (length (ob_buf s @ d)) = n" using assms(3) by simp
  moreover have "\<not> (word_of_nat n :: u32) <s 0" using assms(4) by (rule small_count)
  moreover have "ob_buf s @ d \<noteq> []" using assms(3) by auto
  ultimately show ?thesis using assms(1,2) by (simp add: fd_do_flush_def Let_def ob_reset_def del: append_is_Nil_conv)
qed

theorem short_write_is_silent_witness:
  "let s = ob_push fd_do_flush [1, 2] (fd_new True 5 0 2 (\<lambda>_. Short 1)); t = fd_do_flush [3] s
    in fd_sink t = [1] \<and> ob_buf t = [] \<and> \<not> ob_failed t"
proof -
  define s where "s = ob_push fd_do_flush [1, 2] (fd_new True 5 0 2 (\<lambda>_. Short 1))"
  have "\<not> ob_failed s" "fd_io s (fd_calls s) = Short 1" "ob_buf s = [1, 2]" "fd_sink s = []"
    by (simp_all add: s_def ob_push_def ob_room_def ob_do_copy_def fd_new_def ob_new_def ostrbuf.defs ostrbuf_fd.defs Let_def)
  with short_write_is_silent [of s 1 "[3]"] have "fd_sink (fd_do_flush [3] s) = [1] \<and> ob_buf (fd_do_flush [3] s) = [] \<and> \<not> ob_failed (fd_do_flush [3] s)"
    by simp
  then show ?thesis unfolding s_def Let_def .
qed

end
