(* ===== verification/Format_Raw.thy ===== *)
theory Format_Raw
  imports Log_Record Area Ostrbuf
begin

text \<open>
  The raw format handler (\<^verbatim>\<open>src/format-raw.cc\<close>): a record as a packed binary image,
  pushed piece by piece into the output stream. The memory of the process is a function
  from addresses to bytes (for global strings) and a function from addresses to areas;
  reading an argument outside the record, a string that never ends or an area that does
  not exist is \<open>None\<close>.
\<close>

section \<open>Definitions\<close>

partial_function (option) mem_strlen :: "memory \<Rightarrow> u64 \<Rightarrow> nat \<Rightarrow> nat option" where
  "mem_strlen mem p n = (if mem p = 0 then Some n else mem_strlen mem (p + 1) (Suc n))"

record fmt_data =
  fd_ring_name :: string
  fd_record :: log_record

definition add_uint :: "'a flusher \<Rightarrow> nat \<Rightarrow> 'w::len word \<Rightarrow> 'a ostrbuf_scheme \<Rightarrow> 'a ostrbuf_scheme" where
  "add_uint f n v s = ob_push f (le_bytes n v) s"

text \<open>\<open>n\<close> is the size of the length field; longer data is cut to what the field can hold.\<close>

definition add_blob :: "'a flusher \<Rightarrow> nat \<Rightarrow> bytes \<Rightarrow> 'a ostrbuf_scheme \<Rightarrow> 'a ostrbuf_scheme" where
  "add_blob f n data s =
     (let k = min (length data) (2 ^ (8 * n) - 1);
          s = add_uint f n (word_of_nat k :: u64) s
      in ob_push f (take k data) s)"

definition add_str :: "'a flusher \<Rightarrow> nat \<Rightarrow> bytes \<Rightarrow> 'a ostrbuf_scheme \<Rightarrow> 'a ostrbuf_scheme" where
  "add_str f n data s = add_blob f n data s"

definition add_arg :: "'a flusher \<Rightarrow> memory \<Rightarrow> log_record \<Rightarrow> nat \<Rightarrow> 'a ostrbuf_scheme \<Rightarrow> 'a ostrbuf_scheme option" where
  "add_arg f mem r i s =
     (let t = get_arg_type r i in
      if t = XDUMP \<or> t = RAW then do { data \<leftarrow> arg_bytes (r_argval r) i; Some (add_blob f 4 data s) }
      else if t = CSTR then do { data \<leftarrow> arg_bytes (r_argval r) i; Some (add_str f 2 data s) }
      else if t = GSTR then do {
        p \<leftarrow> get_arg_val64 (r_argval r) i;
        len \<leftarrow> mem_strlen mem p 0;
        Some (add_str f 2 (read_mem mem p len) s) }
      else if t = INT32 \<or> t = UINT32 then do { v \<leftarrow> get_arg_val32 (r_argval r) i; Some (add_uint f 4 v s) }
      else do { v \<leftarrow> get_arg_val64 (r_argval r) i; Some (add_uint f 8 v s) })"

fun add_args_from :: "'a flusher \<Rightarrow> memory \<Rightarrow> log_record \<Rightarrow> nat list \<Rightarrow> 'a ostrbuf_scheme \<Rightarrow> 'a ostrbuf_scheme option" where
  "add_args_from f mem r [] s = Some s"
| "add_args_from f mem r (i # is) s =
     (if get_arg_type r i = NONE then Some s
      else do { s \<leftarrow> add_arg f mem r i s; add_args_from f mem r is s })"

definition add_args :: "'a flusher \<Rightarrow> memory \<Rightarrow> log_record \<Rightarrow> 'a ostrbuf_scheme \<Rightarrow> 'a ostrbuf_scheme option" where
  "add_args f mem r s = add_args_from f mem r [0..<16] (add_uint f 8 (r_argtype r) s)"

definition names_of :: "(u64 \<Rightarrow> area option) \<Rightarrow> log_record \<Rightarrow> (string \<times> string) option" where
  "names_of areas r =
     (if r_area r \<noteq> 0
      then map_option (\<lambda>a. (ar_name a, section_name a (ucast (r_section r)))) (areas (r_area r))
      else Some (''INVALID'', ''INVALID''))"

definition raw_pack :: "'a flusher \<Rightarrow> memory \<Rightarrow> (u64 \<Rightarrow> area option) \<Rightarrow> fmt_data \<Rightarrow> 'a ostrbuf_scheme \<Rightarrow> 'a ostrbuf_scheme option" where
  "raw_pack f mem areas d s = do {
     let r = fd_record d;
     (area_name, sect_name) \<leftarrow> names_of areas r;
     let s = add_uint f 8 (to_nsec (r_timestamp r)) s;
     let s = add_uint f 8 (ucast (r_seqnum r) :: u64) s;
     let s = add_str f 1 (str_bytes (fd_ring_name d)) s;
     let s = add_str f 1 (str_bytes area_name) s;
     let s = add_str f 1 (str_bytes sect_name) s;
     add_args f mem r s
   }"

definition raw_process :: "'a flusher \<Rightarrow> memory \<Rightarrow> (u64 \<Rightarrow> area option) \<Rightarrow> fmt_data \<Rightarrow> 'a ostrbuf_scheme \<Rightarrow> 'a ostrbuf_scheme option" where
  "raw_process f mem areas d s = raw_pack f mem areas d s"

section \<open>The image of a record\<close>

text \<open>
  What a reader may rely on: the values of the arguments, with global strings read at
  the time of packing, and the bytes that represent them.
\<close>

definition arg_view :: "memory \<Rightarrow> log_record \<Rightarrow> nat \<Rightarrow> (u32 \<times> arg_value) option" where
  "arg_view mem r i =
     (let t = get_arg_type r i in
      if t = GSTR then do {
        p \<leftarrow> get_arg_val64 (r_argval r) i;
        len \<leftarrow> mem_strlen mem p 0;
        Some (CSTR, VBytes (read_mem mem p len)) }
      else map_option (Pair t) (fetch_val t i (r_argval r)))"

fun args_view_from :: "memory \<Rightarrow> log_record \<Rightarrow> nat list \<Rightarrow> (u32 \<times> arg_value) list option" where
  "args_view_from mem r [] = Some []"
| "args_view_from mem r (i # is) =
     (if get_arg_type r i = NONE then Some []
      else do { v \<leftarrow> arg_view mem r i; vs \<leftarrow> args_view_from mem r is; Some (v # vs) })"

definition args_view :: "memory \<Rightarrow> log_record \<Rightarrow> (u32 \<times> arg_value) list option" where
  "args_view mem r = args_view_from mem r [0..<16]"

definition blob_image :: "nat \<Rightarrow> bytes \<Rightarrow> bytes" where
  "blob_image n data = (let k = min (length data) (2 ^ (8 * n) - 1) in le_bytes n (word_of_nat k :: u64) @ take k data)"

fun value_image :: "u32 \<times> arg_value \<Rightarrow> bytes" where
  "value_image (t, V32 v) = le_bytes 4 v"
| "value_image (t, V64 v) = le_bytes 8 v"
| "value_image (t, VBytes d) = blob_image (if t = CSTR then 2 else 4) d"

definition raw_image :: "fmt_data \<Rightarrow> string \<times> string \<Rightarrow> (u32 \<times> arg_value) list \<Rightarrow> bytes" where
  "raw_image d nms vs =
     le_bytes 8 (to_nsec (r_timestamp (fd_record d))) @ le_bytes 8 (ucast (r_seqnum (fd_record d)) :: u64)
     @ blob_image 1 (str_bytes (fd_ring_name d)) @ blob_image 1 (str_bytes (fst nms)) @ blob_image 1 (str_bytes (snd nms))
     @ le_bytes 8 (r_argtype (fd_record d)) @ concat (map value_image vs)"

text \<open>
  On a stream of the contract \<open>out_stream\<close> packing adds exactly the image; the relation
  is that of pushing the image as pieces.
\<close>

definition pushes :: "('s \<Rightarrow> 's) \<Rightarrow> (bytes \<Rightarrow> 's \<Rightarrow> 's) \<Rightarrow> bytes \<Rightarrow> bool" where
  "pushes g push d \<longleftrightarrow> (\<exists>ps. concat ps = d \<and> g = fold push ps)"

lemma pushes_push: "pushes (push d) push d"
  unfolding pushes_def by (rule exI [of _ "[d]"]) auto

lemma pushes_comp: "pushes g push d \<Longrightarrow> pushes h push e \<Longrightarrow> pushes (\<lambda>s. h (g s)) push (d @ e)"
proof -
  assume "pushes g push d" "pushes h push e"
  then obtain ps qs where "concat ps = d" "g = fold push ps" "concat qs = e" "h = fold push qs"
    by (auto simp: pushes_def)
  then have "concat (ps @ qs) = d @ e \<and> (\<lambda>s. h (g s)) = fold push (ps @ qs)" by auto
  then show ?thesis unfolding pushes_def by blast
qed

lemma pushes_add_uint: "pushes (add_uint f n v) (ob_push f) (le_bytes n v)"
  unfolding add_uint_def by (rule pushes_push)

lemma pushes_add_blob: "pushes (add_blob f n d) (ob_push f) (blob_image n d)"
  unfolding add_blob_def blob_image_def Let_def
  by (rule pushes_comp [OF pushes_add_uint pushes_push])

lemma pushes_add_str: "pushes (add_str f n d) (ob_push f) (blob_image n d)"
  unfolding add_str_def by (rule pushes_add_blob)

lemma pushes_id: "pushes (\<lambda>s. s) push []"
  unfolding pushes_def by (rule exI [of _ "[]"]) auto

lemma add_arg_image:
  assumes "arg_view mem r i = Some v" and "get_arg_type r i \<noteq> NONE"
  shows "\<exists>g. (\<forall>s. add_arg f mem r i s = Some (g s)) \<and> pushes g (ob_push f) (value_image v)"
proof -
  let ?t = "get_arg_type r i"
  consider "?t = XDUMP \<or> ?t = RAW" | "?t = CSTR" | "?t = GSTR" | "?t = INT32 \<or> ?t = UINT32"
    | "?t \<noteq> XDUMP" "?t \<noteq> RAW" "?t \<noteq> CSTR" "?t \<noteq> GSTR" "?t \<noteq> INT32" "?t \<noteq> UINT32" by blast
  then show ?thesis
  proof cases
    case 1
    then obtain d where "arg_bytes (r_argval r) i = Some d" "v = (?t, VBytes d)" "?t \<noteq> CSTR" "?t \<noteq> GSTR"
      using assms(1) by (auto simp: arg_view_def fetch_val_def)
    with 1 pushes_add_blob [of f 4 d] show ?thesis
      by (intro exI [of _ "add_blob f 4 d"]) (auto simp: add_arg_def)
  next
    case 2
    then obtain d where "arg_bytes (r_argval r) i = Some d" "v = (?t, VBytes d)"
      using assms(1) by (auto simp: arg_view_def fetch_val_def)
    with 2 pushes_add_str [of f 2 d] show ?thesis
      by (intro exI [of _ "add_str f 2 d"]) (auto simp: add_arg_def)
  next
    case 3
    then obtain p n where "get_arg_val64 (r_argval r) i = Some p" "mem_strlen mem p 0 = Some n"
      "v = (CSTR, VBytes (read_mem mem p n))"
      using assms(1) by (auto simp: arg_view_def bind_eq_Some_conv)
    with 3 pushes_add_str [of f 2 "read_mem mem p n"] show ?thesis
      by (intro exI [of _ "add_str f 2 (read_mem mem p n)"]) (auto simp: add_arg_def)
  next
    case 4
    then obtain w where "get_arg_val32 (r_argval r) i = Some w" "v = (?t, V32 w)"
      using assms(1) by (auto simp: arg_view_def fetch_val_def is_32bit_def)
    with 4 pushes_add_uint [of f 4 w] show ?thesis
      by (intro exI [of _ "add_uint f 4 w"]) (auto simp: add_arg_def)
  next
    case 5
    then obtain w where "get_arg_val64 (r_argval r) i = Some w" "v = (?t, V64 w)"
      using assms(1) by (auto simp: arg_view_def fetch_val_def is_32bit_def)
    with 5 pushes_add_uint [of f 8 w] show ?thesis
      by (intro exI [of _ "add_uint f 8 w"]) (auto simp: add_arg_def)
  qed
qed

lemma add_args_image:
  assumes "args_view_from mem r is = Some vs"
  shows "\<exists>g. (\<forall>s. add_args_from f mem r is s = Some (g s)) \<and> pushes g (ob_push f) (concat (map value_image vs))"
  using assms
proof (induction "is" arbitrary: vs)
  case Nil
  then show ?case by (auto intro!: exI [of _ "\<lambda>s. s"] pushes_id)
next
  case (Cons i "is")
  show ?case
  proof (cases "get_arg_type r i = NONE")
    case True
    with Cons.prems show ?thesis by (auto intro!: exI [of _ "\<lambda>s. s"] pushes_id)
  next
    case False
    then obtain v ws where v: "arg_view mem r i = Some v" "args_view_from mem r is = Some ws" "vs = v # ws"
      using Cons.prems by (auto simp: bind_eq_Some_conv)
    obtain g where g: "\<forall>s. add_arg f mem r i s = Some (g s)" "pushes g (ob_push f) (value_image v)"
      using add_arg_image [OF v(1) False, of f] by blast
    obtain h where h: "\<forall>s. add_args_from f mem r is s = Some (h s)" "pushes h (ob_push f) (concat (map value_image ws))"
      using Cons.IH [OF v(2)] by blast
    have "\<forall>s. add_args_from f mem r (i # is) s = Some (h (g s))" using False g(1) h(1) by simp
    with pushes_comp [OF g(2) h(2)] v(3) show ?thesis by (intro exI [of _ "\<lambda>s. h (g s)"]) simp
  qed
qed

lemma raw_process_image:
  assumes "names_of areas (fd_record d) = Some nms" and "args_view mem (fd_record d) = Some vs"
  obtains g where "\<And>s. raw_process f mem areas d s = Some (g s)" and "pushes g (ob_push f) (raw_image d nms vs)"
proof -
  obtain a b where ab: "nms = (a, b)" by fastforce
  obtain h where h: "\<forall>s. add_args_from f mem (fd_record d) [0..<16] s = Some (h s)"
    "pushes h (ob_push f) (concat (map value_image vs))"
    using add_args_image [OF assms(2) [unfolded args_view_def], of f] by blast
  let ?g = "\<lambda>s. h (add_uint f 8 (r_argtype (fd_record d)) (add_str f 1 (str_bytes b) (add_str f 1 (str_bytes a)
    (add_str f 1 (str_bytes (fd_ring_name d)) (add_uint f 8 (ucast (r_seqnum (fd_record d)) :: u64)
    (add_uint f 8 (to_nsec (r_timestamp (fd_record d))) s))))))"
  have "pushes ?g (ob_push f) (((((((le_bytes 8 (to_nsec (r_timestamp (fd_record d))) @ le_bytes 8 (ucast (r_seqnum (fd_record d)) :: u64))
     @ blob_image 1 (str_bytes (fd_ring_name d))) @ blob_image 1 (str_bytes a)) @ blob_image 1 (str_bytes b))
     @ le_bytes 8 (r_argtype (fd_record d))) @ concat (map value_image vs)))"
    by (intro pushes_comp pushes_add_uint pushes_add_str h(2))
  then have "pushes ?g (ob_push f) (raw_image d nms vs)" by (simp add: raw_image_def ab)
  moreover have "raw_process f mem areas d s = Some (?g s)" for s
    using h(1) assms(1) by (simp add: raw_process_def raw_pack_def add_args_def ab Let_def)
  ultimately show thesis by (intro that [of ?g])
qed

end
