(* ===== verification/Rdbuf.thy ===== *)
theory Rdbuf
  imports Hogl_Prelude "HOL-Library.Monad_Syntax"
begin

text \<open>
  The buffered file reader of the tools (\<^verbatim>\<open>tools/rdbuf.hpp\<close>, \<^verbatim>\<open>tools/rdbuf.cc\<close>).
  \<^verbatim>\<open>_data + _head\<close> for \<^verbatim>\<open>_size\<close> bytes is the list \<open>rd_pend\<close> of the bytes not yet
  handed out. The file is what is left of its contents after the read position; the
  operating system decides by \<open>rd_reads\<close> how many bytes a read returns at most, or that
  it fails, and by \<open>rd_notes\<close> what was appended to the file when a wait for a change
  returns. Following a file may wait for ever, hence \<open>option\<close>.
\<close>

section \<open>Definitions\<close>

record file_rdbuf =
  rd_pend :: bytes
  rd_capacity :: u32
  rd_count :: u64
  rd_tailf :: bool
  rd_errno :: int
  rd_file :: bytes
  rd_reads :: "nat \<Rightarrow> nat + int"
  rd_notes :: "nat \<Rightarrow> bytes + int"
  rd_calls :: nat
  rd_waits :: nat

definition rd_reset :: "file_rdbuf \<Rightarrow> file_rdbuf" where
  "rd_reset s = s\<lparr>rd_pend := [], rd_errno := 0, rd_count := 0\<rparr>"

text \<open>
  Opening a file; \<open>contents\<close> is the file from its start, and following a file starts at
  its end. The first component tells whether the descriptor is valid. When there is no memory
  for the buffer the constructor returns at once with the error, and all other members,
  the descriptor too, keep what \<open>junk\<close> says was in the memory of the object.
\<close>

definition rd_new :: "bool \<times> file_rdbuf \<Rightarrow> bool \<Rightarrow> bool \<Rightarrow> u32 \<Rightarrow> bytes \<Rightarrow> (nat \<Rightarrow> nat + int) \<Rightarrow> (nat \<Rightarrow> bytes + int)
    \<Rightarrow> int option \<times> int option \<times> int option \<Rightarrow> bool \<times> file_rdbuf" where
  "rd_new junk is_stdin tailf capacity contents reads notes errs =
     (case errs of (no_memory, no_file, no_inotify) \<Rightarrow>
        case no_memory of
          Some e \<Rightarrow> (fst junk, (snd junk)\<lparr>rd_tailf := tailf, rd_errno := e\<rparr>)
        | None \<Rightarrow>
            (let s = \<lparr>rd_pend = rd_pend (snd junk), rd_capacity = capacity, rd_count = rd_count (snd junk), rd_tailf = tailf,
                      rd_errno = rd_errno (snd junk), rd_file = contents, rd_reads = reads, rd_notes = notes, rd_calls = 0, rd_waits = 0\<rparr>
             in case (if is_stdin then None else no_file) of
                  Some e \<Rightarrow> (False, s\<lparr>rd_errno := e\<rparr>)
                | None \<Rightarrow>
                    (if tailf
                     then (let s = s\<lparr>rd_file := []\<rparr> in
                           case no_inotify of Some e \<Rightarrow> (True, s\<lparr>rd_errno := e\<rparr>) | None \<Rightarrow> (True, rd_reset s))
                     else (True, rd_reset s))))"

text \<open>\<^verbatim>\<open>copy_out\<close>: the copied bytes and the length that is left to read.\<close>

definition copy_out :: "nat \<Rightarrow> file_rdbuf \<Rightarrow> bytes \<times> nat \<times> file_rdbuf" where
  "copy_out len s =
     (let n = min (length (rd_pend s)) len
      in (take n (rd_pend s), len - n, s\<lparr>rd_count := rd_count s + word_of_nat n, rd_pend := drop n (rd_pend s)\<rparr>))"

partial_function (option) read_in :: "file_rdbuf \<Rightarrow> (bool \<times> file_rdbuf) option" where
  "read_in s =
     (case rd_reads s (rd_calls s) of
        Inr e \<Rightarrow> Some (False, s\<lparr>rd_calls := Suc (rd_calls s), rd_errno := e\<rparr>)
      | Inl k \<Rightarrow>
          (let n = min (min (max 1 k) (unat (rd_capacity s))) (length (rd_file s));
               s = s\<lparr>rd_calls := Suc (rd_calls s)\<rparr>
           in if n = 0
              then (if rd_tailf s
                    then (case rd_notes s (rd_waits s) of
                            Inr e \<Rightarrow> Some (False, s\<lparr>rd_waits := Suc (rd_waits s), rd_errno := e\<rparr>)
                          | Inl added \<Rightarrow> read_in (s\<lparr>rd_waits := Suc (rd_waits s), rd_file := rd_file s @ added\<rparr>))
                    else Some (False, s))
              else Some (True, s\<lparr>rd_pend := take n (rd_file s), rd_file := drop n (rd_file s)\<rparr>)))"

text \<open>
  \<^verbatim>\<open>read\<close>: whether everything was read, and the bytes that were copied; on a failure
  these are the first bytes of the request.
\<close>

partial_function (option) rd_read :: "nat \<Rightarrow> file_rdbuf \<Rightarrow> (bool \<times> bytes \<times> file_rdbuf) option" where
  "rd_read len s =
     (if len = 0 then Some (True, [], s)
      else do {
        (ok, s) \<leftarrow> (if rd_pend s = [] then read_in s else Some (True, s));
        if \<not> ok then Some (False, [], s)
        else do {
          let (d, len, s) = copy_out len s;
          (ok, d', s) \<leftarrow> rd_read len s;
          Some (ok, d @ d', s)
        }
      })"

section \<open>The contract of a reader\<close>

text \<open>
  What a parser relies on: under the condition \<open>fine\<close> a read returns, it delivers the
  next bytes when there are enough, and otherwise fails with all that was left.
\<close>

locale byte_source =
  fixes get :: "nat \<Rightarrow> 's \<Rightarrow> (bool \<times> bytes \<times> 's) option"
    and avail :: "'s \<Rightarrow> bytes"
    and fine :: "'s \<Rightarrow> bool"
  assumes get_enough: "fine s \<Longrightarrow> n \<le> length (avail s) \<Longrightarrow>
      \<exists>s'. get n s = Some (True, take n (avail s), s') \<and> fine s' \<and> avail s' = drop n (avail s)"
    and get_short: "fine s \<Longrightarrow> length (avail s) < n \<Longrightarrow>
      \<exists>s'. get n s = Some (False, avail s, s') \<and> fine s' \<and> avail s' = []"
begin

lemma get_append:
  assumes "fine s" and "avail s = d @ rest" and "length d = n"
  obtains s' where "get n s = Some (True, d, s')" "fine s'" "avail s' = rest"
  using get_enough [OF assms(1), of n] assms(2,3) by auto

end

text \<open>A file that is not followed, on which reads do not fail, and a buffer that holds something.\<close>

definition rd_left :: "file_rdbuf \<Rightarrow> bytes" where
  "rd_left s = rd_pend s @ rd_file s"

definition rd_fine :: "file_rdbuf \<Rightarrow> bool" where
  "rd_fine s \<longleftrightarrow> \<not> rd_tailf s \<and> rd_capacity s \<noteq> 0 \<and> (\<forall>k e. rd_reads s k \<noteq> Inr e)"

lemma read_in_fine:
  assumes "rd_fine s" and "rd_pend s = []"
  obtains (eof) s' where "read_in s = Some (False, s')" "rd_fine s'" "rd_left s = []" "rd_left s' = []"
  | (data) s' where "read_in s = Some (True, s')" "rd_fine s'" "rd_left s' = rd_left s" "rd_pend s' \<noteq> []"
proof -
  obtain k where k: "rd_reads s (rd_calls s) = Inl k"
    using assms(1) unfolding rd_fine_def by (metis sum.exhaust)
  let ?n = "min (min (max 1 k) (unat (rd_capacity s))) (length (rd_file s))"
  have cap: "0 < unat (rd_capacity s)" using assms(1) by (simp add: rd_fine_def unat_gt_0)
  show thesis
  proof (cases "rd_file s = []")
    case True
    let ?s' = "s\<lparr>rd_calls := Suc (rd_calls s)\<rparr>"
    have "read_in s = Some (False, ?s')"
      using True k assms(1) by (subst read_in.simps) (simp add: rd_fine_def)
    moreover have "rd_fine ?s'" "rd_left s = []" "rd_left ?s' = []"
      using assms True by (simp_all add: rd_fine_def rd_left_def)
    ultimately show thesis by (rule eof)
  next
    case False
    let ?s' = "s\<lparr>rd_calls := Suc (rd_calls s), rd_pend := take ?n (rd_file s), rd_file := drop ?n (rd_file s)\<rparr>"
    have n: "?n \<noteq> 0" using False cap by simp
    have "read_in s = Some (True, ?s')"
      using n k by (subst read_in.simps) (simp only: sum.case Let_def, simp)
    moreover have "rd_fine ?s'" "rd_left ?s' = rd_left s" "rd_pend ?s' \<noteq> []"
      using assms False n by (simp_all add: rd_fine_def rd_left_def)
    ultimately show thesis by (rule data)
  qed
qed

text \<open>
  The loop returns, with the bytes asked for or everything that is left; each round
  copies at least one byte.
\<close>

lemma rd_read_fine:
  assumes "rd_fine s"
  shows "\<exists>s'. rd_read n s = Some (n \<le> length (rd_left s), take n (rd_left s), s') \<and> rd_fine s' \<and> rd_left s' = drop n (rd_left s)"
  using assms
proof (induction n arbitrary: s rule: less_induct)
  case (less n)
  show ?case
  proof (cases "n = 0")
    case True
    with less.prems show ?thesis by (subst rd_read.simps) simp
  next
    case n: False
    have step: "\<exists>s'. rd_read n s = Some (n \<le> length (rd_left s), take n (rd_left s), s') \<and> rd_fine s' \<and> rd_left s' = drop n (rd_left s)"
      if t: "(if rd_pend s = [] then read_in s else Some (True, s)) = Some (True, t)" "rd_fine t" "rd_left t = rd_left s" "rd_pend t \<noteq> []" for t
    proof -
      let ?k = "min (length (rd_pend t)) n"
      let ?u = "t\<lparr>rd_count := rd_count t + word_of_nat ?k, rd_pend := drop ?k (rd_pend t)\<rparr>"
      have c: "copy_out n t = (take ?k (rd_pend t), n - ?k, ?u)" by (simp add: copy_out_def Let_def)
      have k: "0 < ?k" "?k \<le> n" using n t(4) by simp_all
      have u: "rd_fine ?u" "rd_left ?u = drop ?k (rd_left t)"
        using t(2) by (simp_all add: rd_fine_def rd_left_def)
      obtain s' where s': "rd_read (n - ?k) ?u = Some (n - ?k \<le> length (rd_left ?u), take (n - ?k) (rd_left ?u), s')"
        "rd_fine s'" "rd_left s' = drop (n - ?k) (rd_left ?u)"
        using less.IH [of "n - ?k" ?u] k u(1) by auto
      have "rd_read n s = Some (n - ?k \<le> length (rd_left ?u), take ?k (rd_pend t) @ take (n - ?k) (rd_left ?u), s')"
        using n t(1) c s'(1) by (subst rd_read.simps) simp
      moreover have "take ?k (rd_pend t) @ take (n - ?k) (rd_left ?u) = take n (rd_left t)"
      proof -
        have "take ?k (rd_pend t) = take ?k (rd_left t)" by (simp add: rd_left_def)
        then show ?thesis using k(2) by (simp add: u(2) flip: take_add)
      qed
      moreover have "n - ?k \<le> length (rd_left ?u) \<longleftrightarrow> n \<le> length (rd_left s)"
      proof -
        have "?k \<le> length (rd_left t)" by (simp add: rd_left_def)
        then show ?thesis using u(2) t(3) k(2) by auto
      qed
      ultimately show ?thesis using s'(2,3) u(2) t(3) k(2) by simp
    qed
    show ?thesis
    proof (cases "rd_pend s = []")
      case True
      from less.prems True show ?thesis
      proof (cases rule: read_in_fine)
        case (eof s')
        then show ?thesis using n True by (subst rd_read.simps) simp
      next
        case (data s')
        then show ?thesis using step [of s'] True by simp
      qed
    next
      case False
      then show ?thesis using step [of s] less.prems by simp
    qed
  qed
qed

interpretation frd: byte_source rd_read rd_left rd_fine
proof
  show "\<exists>s'. rd_read n s = Some (True, take n (rd_left s), s') \<and> rd_fine s' \<and> rd_left s' = drop n (rd_left s)"
    if "rd_fine s" "n \<le> length (rd_left s)" for s n
    using rd_read_fine [OF that(1), of n] that(2) by auto
  show "\<exists>s'. rd_read n s = Some (False, rd_left s, s') \<and> rd_fine s' \<and> rd_left s' = []"
    if "rd_fine s" "length (rd_left s) < n" for s n
    using rd_read_fine [OF that(1), of n] that(2) by auto
qed

end
