(* ===== verification/Raw_Parser.thy ===== *)
theory Raw_Parser
  imports Format_Raw Rdbuf
begin

text \<open>
  The parser of raw logs (\<^verbatim>\<open>tools/raw-parser.hpp\<close>, \<^verbatim>\<open>tools/raw-parser.cc\<close>). It reads
  through the interface \<^verbatim>\<open>rdbuf\<close>, here the function \<open>get\<close> of the contract \<open>byte_source\<close>.
  The record buffer and the name buffers have the sizes the code allocates; a write
  outside them is \<open>None\<close>.
\<close>

section \<open>Definitions\<close>

datatype raw_version = V1 | V1_1

definition MAX_NAME_LEN :: nat where
  "MAX_NAME_LEN = 256"

record 's raw_parser =
  rp_in :: 's
  rp_failed :: bool
  rp_error :: string
  rp_record :: log_record
  rp_ring_name :: bytes
  rp_area_name :: bytes
  rp_section_name :: bytes
  rp_ver :: raw_version

type_synonym 's getter = "nat \<Rightarrow> 's \<Rightarrow> (bool \<times> bytes \<times> 's) option"

text \<open>\<^verbatim>\<open>_error.clear()\<close> clears the state of the stream, not its text.\<close>

definition rp_reset :: "'s raw_parser \<Rightarrow> 's raw_parser" where
  "rp_reset p = p\<lparr>rp_failed := False\<rparr>"

definition rp_fail :: "string \<Rightarrow> 's raw_parser \<Rightarrow> 's raw_parser" where
  "rp_fail err p = p\<lparr>rp_error := rp_error p @ err, rp_failed := True\<rparr>"

text \<open>
  The contents of fresh memory is \<open>junk\<close>. The record is \<open>max_record_size\<close> bytes with
  32 bytes of header in front of the argument storage.
\<close>

definition rp_new :: "(nat \<Rightarrow> u8) \<Rightarrow> bool \<Rightarrow> bool \<Rightarrow> 's \<Rightarrow> raw_version \<Rightarrow> u32 \<Rightarrow> 's raw_parser" where
  "rp_new junk record_ok name_ok src ver max_record_size =
     (let p = \<lparr>rp_in = src, rp_failed = False, rp_error = '''',
               rp_record = \<lparr>r_area = 0, r_timestamp = 0, r_seqnum = 0, r_section = 0, r_argtype = 0,
                            r_argval = map junk [0..<unat max_record_size - unat header_size]\<rparr>,
               rp_ring_name = map junk [0..<MAX_NAME_LEN],
               rp_area_name = map junk [0..<MAX_NAME_LEN],
               rp_section_name = map junk [0..<MAX_NAME_LEN], rp_ver = ver\<rparr>;
          p = rp_reset p
      in if \<not> record_ok then rp_fail ''init: failed to allocate record buffer. '' p
         else if \<not> name_ok then rp_fail ''init: failed to allocate ring name. '' p
         else p)"

definition read_uint :: "'s getter \<Rightarrow> nat \<Rightarrow> string \<Rightarrow> 's raw_parser \<Rightarrow> (u64 \<times> 's raw_parser) option" where
  "read_uint get n stage p =
     (if rp_failed p then Some (0, p)
      else do {
        (ok, d, src) \<leftarrow> get n (rp_in p);
        let p = p\<lparr>rp_in := src\<rparr>;
        Some (of_le d, if \<not> ok then rp_fail (''input: failed to read uint @ '' @ stage) p else p)
      })"

definition read_blob :: "'s getter \<Rightarrow> nat \<Rightarrow> bytes \<Rightarrow> nat \<Rightarrow> string \<Rightarrow> 's raw_parser \<Rightarrow> (u64 \<times> bytes \<times> 's raw_parser) option" where
  "read_blob get n buf off stage p =
     (if rp_failed p then Some (0, buf, p)
      else do {
        (len, p) \<leftarrow> read_uint get n stage p;
        if rp_failed p \<or> len = 0 then Some (0, buf, p)
        else do {
          (ok, d, src) \<leftarrow> get (unat (ucast len :: u32)) (rp_in p);
          let p = p\<lparr>rp_in := src\<rparr>;
          buf \<leftarrow> poke buf off d;
          if \<not> ok then Some (0, buf, rp_fail (''input: failed to read blob @ '' @ stage) p)
          else Some (len, buf, p)
        }
      })"

definition read_str :: "'s getter \<Rightarrow> nat \<Rightarrow> bytes \<Rightarrow> nat \<Rightarrow> string \<Rightarrow> 's raw_parser \<Rightarrow> (u64 \<times> bytes \<times> 's raw_parser) option" where
  "read_str get n buf off stage p =
     (if rp_failed p then Some (0, buf, p)
      else do {
        (len, buf, p) \<leftarrow> read_blob get n buf off stage p;
        if rp_failed p then Some (0, buf, p)
        else do {
          buf \<leftarrow> poke buf (off + unat len) [0];
          Some (len + 1, buf, p)
        }
      })"

definition read_arg :: "'s getter \<Rightarrow> nat \<Rightarrow> u32 \<Rightarrow> u64 \<Rightarrow> 's raw_parser \<Rightarrow> (u64 \<times> 's raw_parser) option" where
  "read_arg get i t offset p =
     (let r = rp_record p in
      if t = GSTR \<or> t = CSTR then do {
        let r = (if t = GSTR then set_arg_type (clear_arg_type r i) i CSTR else r);
        (n, buf, p) \<leftarrow> read_str get 2 (r_argval r) (unat offset) ''cstr-arg'' p;
        buf \<leftarrow> set_arg_data buf i (ucast offset) (ucast (n - 1));
        Some (offset + n, p\<lparr>rp_record := r\<lparr>r_argval := buf\<rparr>\<rparr>) }
      else if t = XDUMP \<or> t = RAW then do {
        (n, buf, p) \<leftarrow> read_blob get (if rp_ver p = V1 then 2 else 4) (r_argval r) (unat offset) ''raw-arg'' p;
        buf \<leftarrow> set_arg_data buf i (ucast offset) (ucast n);
        Some (offset + n, p\<lparr>rp_record := r\<lparr>r_argval := buf\<rparr>\<rparr>) }
      else if t = INT32 \<or> t = UINT32 then do {
        (v, p) \<leftarrow> read_uint get 4 ''uint32-arg'' p;
        buf \<leftarrow> set_arg_val32 (r_argval r) i (ucast v);
        Some (offset, p\<lparr>rp_record := r\<lparr>r_argval := buf\<rparr>\<rparr>) }
      else do {
        (v, p) \<leftarrow> read_uint get 8 ''uint64-arg'' p;
        buf \<leftarrow> set_arg_val64 (r_argval r) i v;
        Some (offset, p\<lparr>rp_record := r\<lparr>r_argval := buf\<rparr>\<rparr>) })"

fun read_args_from :: "'s getter \<Rightarrow> nat list \<Rightarrow> u64 \<Rightarrow> 's raw_parser \<Rightarrow> 's raw_parser option" where
  "read_args_from get [] offset p = Some p"
| "read_args_from get (i # is) offset p =
     (if rp_failed p then Some p
      else let t = get_arg_type (rp_record p) i in
        if t = NONE then Some p
        else do {
          (offset, p) \<leftarrow> read_arg get i t offset p;
          read_args_from get is offset p
        })"

definition read_args :: "'s getter \<Rightarrow> 's raw_parser \<Rightarrow> 's raw_parser option" where
  "read_args get p =
     (if rp_failed p then Some p
      else do {
        (v, p) \<leftarrow> read_uint get 8 ''argtype'' p;
        read_args_from get [0..<16] (16 * 8) (p\<lparr>rp_record := (rp_record p)\<lparr>r_argtype := v\<rparr>\<rparr>)
      })"

text \<open>A C string in a buffer, and \<^verbatim>\<open>isprint\<close> in the C locale.\<close>

definition cstr_of :: "bytes \<Rightarrow> bytes" where
  "cstr_of buf = takeWhile (\<lambda>b. b \<noteq> 0) buf"

definition is_print :: "u8 \<Rightarrow> bool" where
  "is_print b \<longleftrightarrow> 0x20 \<le> b \<and> b \<le> 0x7e"

definition valid_name :: "bytes \<Rightarrow> bool" where
  "valid_name buf \<longleftrightarrow>
     (if \<not> list_all is_print (cstr_of buf) then False
      else let n = length (cstr_of buf) in n \<ge> 2 \<and> n \<le> 128)"

definition read_name :: "'s getter \<Rightarrow> bytes \<Rightarrow> string \<Rightarrow> 's raw_parser \<Rightarrow> (bytes \<times> 's raw_parser) option" where
  "read_name get buf stage p = do {
     (_, buf, p) \<leftarrow> read_str get 1 buf 0 stage p;
     if rp_failed p then Some (buf, p)
     else if \<not> valid_name buf then Some (buf, rp_fail (''format: failed to validate name @'' @ stage) p)
     else Some (buf, p)
   }"

text \<open>\<^verbatim>\<open>next\<close>; \<open>area\<close> is the address of the parser's own area. True when there is a record.\<close>

definition rp_next :: "'s getter \<Rightarrow> u64 \<Rightarrow> 's raw_parser \<Rightarrow> (bool \<times> 's raw_parser) option" where
  "rp_next get area p = do {
     let p = p\<lparr>rp_record := (r_clear (rp_record p))\<lparr>r_area := area\<rparr>\<rparr>;
     (v, p) \<leftarrow> read_uint get 8 ''timestamp'' p;
     let p = p\<lparr>rp_record := (rp_record p)\<lparr>r_timestamp := from_nsec v\<rparr>\<rparr>;
     if rp_failed p then Some (False, rp_reset p)
     else do {
       (v, p) \<leftarrow> read_uint get 8 ''seqnum'' p;
       let p = p\<lparr>rp_record := (rp_record p)\<lparr>r_seqnum := ucast v\<rparr>\<rparr>;
       (b, p) \<leftarrow> read_name get (rp_ring_name p) ''ring-name'' p;
       let p = p\<lparr>rp_ring_name := b\<rparr>;
       (b, p) \<leftarrow> read_name get (rp_area_name p) ''area-name'' p;
       let p = p\<lparr>rp_area_name := b\<rparr>;
       (b, p) \<leftarrow> read_name get (rp_section_name p) ''section-name'' p;
       let p = p\<lparr>rp_section_name := b\<rparr>;
       p \<leftarrow> read_args get p;
       Some (\<not> rp_failed p, p)
     }
   }"

section \<open>Bytes and types\<close>

lemma of_le_le_bytes_ucast:
  "(of_le (le_bytes n (w :: 'a::len word)) :: 'b::len word) = ucast (take_bit (8 * n) w)"
proof (rule bit_word_eqI)
  fix i assume i: "i < LENGTH('b)"
  have "i div 8 < n \<longleftrightarrow> i < 8 * n" by auto
  with i show "bit (of_le (le_bytes n w) :: 'b word) i = bit (ucast (take_bit (8 * n) w) :: 'b word) i"
    by (auto simp: bit_of_le bit_le_bytes bit_simps dest: bit_imp_le_length)
qed

lemma of_le_length:
  assumes "k < 2 ^ (8 * n)" and "n \<le> 8"
  shows "(of_le (le_bytes n (word_of_nat k :: u64)) :: u64) = word_of_nat k"
proof -
  have "(2::nat) ^ (8 * n) \<le> 2 ^ 64" using assms(2) by (intro power_increasing) auto
  then have "k < 2 ^ 64" using assms(1) by (rule less_le_trans [rotated])
  then have "take_bit (8 * n) (word_of_nat k :: u64) = word_of_nat k"
    using assms(1) by (simp add: word_unat_eq_iff unsigned_take_bit_eq unat_word_of_nat take_bit_nat_eq_self)
  then show ?thesis by (simp add: of_le_le_bytes_ucast)
qed

lemma nth_arg_type_bits:
  "nth_arg_type w i = nth_arg_type w' i" if "\<And>k. k < 4 \<Longrightarrow> bit w (4 * i + k) = bit w' (4 * i + k)"
  using that unfolding nth_arg_type_def mask4_64
  by (intro bit_word_eqI) (auto simp: bit_simps mult.commute [of i 4] add.commute)

lemma remap_type:
  assumes "i < 16"
  shows "get_arg_type (set_arg_type (clear_arg_type r i) i CSTR) i = CSTR"
    and "j \<noteq> i \<Longrightarrow> get_arg_type (set_arg_type (clear_arg_type r i) i CSTR) j = get_arg_type r j"
proof -
  have b: "bit (or_arg_type (r_argtype r AND NOT (push_bit (i * 4) 0xf)) i CSTR) b
      \<longleftrightarrow> (if b div 4 = i then b < 64 \<and> bit CSTR (b mod 4) else bit (r_argtype r) b)" for b
  proof -
    have "i * 4 \<le> b \<and> b - i * 4 < 4 \<longleftrightarrow> b div 4 = i" by auto
    then show ?thesis
      unfolding mask4_64 by (auto simp: bit_or_arg_type bit_simps dest: bit_imp_le_length)
  qed
  show "get_arg_type (set_arg_type (clear_arg_type r i) i CSTR) i = CSTR"
    unfolding get_arg_type_def set_arg_type_def clear_arg_type_def
    by (simp, rule nth_arg_type_eqI) (use assms in \<open>auto simp: b\<close>)
  show "j \<noteq> i \<Longrightarrow> get_arg_type (set_arg_type (clear_arg_type r i) i CSTR) j = get_arg_type r j"
    unfolding get_arg_type_def set_arg_type_def clear_arg_type_def
    by (simp, rule nth_arg_type_bits) (auto simp: b)
qed


section \<open>Reading back what was packed\<close>

text \<open>
  The parts of the parser's state that do not change while it reads an argument, and the
  bytes an argument takes behind the slots.
\<close>

definition same_names :: "'s raw_parser \<Rightarrow> 's raw_parser \<Rightarrow> bool" where
  "same_names p q \<longleftrightarrow> rp_ring_name q = rp_ring_name p \<and> rp_area_name q = rp_area_name p
     \<and> rp_section_name q = rp_section_name p \<and> rp_ver q = rp_ver p"

definition same_head :: "log_record \<Rightarrow> log_record \<Rightarrow> bool" where
  "same_head r r' \<longleftrightarrow> r_area r' = r_area r \<and> r_timestamp r' = r_timestamp r \<and> r_seqnum r' = r_seqnum r
     \<and> r_section r' = r_section r"

fun value_room :: "u32 \<times> arg_value \<Rightarrow> nat" where
  "value_room (t, VBytes d) = (if t = CSTR then Suc (length d) else length d)"
| "value_room (t, v) = 0"

text \<open>The sizes the format can represent.\<close>

fun value_fits :: "u32 \<times> arg_value \<Rightarrow> bool" where
  "value_fits (t, VBytes d) = (length d < (if t = CSTR then 2 ^ 16 else 2 ^ 32))"
| "value_fits (t, v) = True"

lemma ucast_word_of_nat: "(ucast (word_of_nat n :: u64) :: u32) = word_of_nat n"
  by (simp add: word_unat_eq_iff unsigned_ucast_eq unsigned_of_nat take_bit_take_bit)

lemma set_arg_data_stored:
  assumes "poke b off (d @ z) = Some b1" and "length d < 2 ^ 32" and "off < 2 ^ 32" and "8 * i + 8 \<le> off"
  obtains b' where "set_arg_data b1 i (word_of_nat off) (word_of_nat (length d)) = Some b'"
    "agree_outside (arg_region i off (length (d @ z))) b b'"
    "settled (arg_region i off (length (d @ z))) (\<lambda>b. arg_bytes b i) d b'"
proof -
  have u: "unat (word_of_nat off :: u32) = off" "unat (word_of_nat (length d) :: u32) = length d"
    using assms(2,3) by (simp_all add: unat_word_of_nat)
  have "peek b1 off (length d + length z) = Some (d @ z)" using peek_poke_same [OF assms(1)] by simp
  from peek_append(1) [OF this refl] have pk: "peek b1 (unat (word_of_nat off :: u32)) (unat (word_of_nat (length d) :: u32)) = Some d"
    by (simp only: u)
  have "off \<le> length b" using assms(1) by (simp add: poke_def split: if_splits)
  from set_arg_data_settled [OF agree_outside_poke [OF assms(1)] pk _ assms(4) this] show thesis
    using that u by auto
qed

lemma fetch_settled:
  assumes "settled R (\<lambda>b. arg_bytes b i) d b" and "t = CSTR \<or> t = XDUMP \<or> t = RAW"
  shows "settled R (fetch_val t i) (VBytes d) b"
  using assms(1) unfolding fetch_val_bytes [OF assms(2)] settled_def by simp

lemma poke_value_settled:
  assumes "8 * i + length bs \<le> length b" and "length bs \<le> 8" and "\<And>c. peek c (8 * i) (length bs) = Some bs \<Longrightarrow> fetch_val t i c = Some v"
  obtains b' where "poke b (8 * i) bs = Some b'" "agree_outside (arg_region i off 0) b b'"
    "settled (arg_region i off 0) (fetch_val t i) v b'"
  using poke_slot_settled [OF assms(1,2), of off] assms(3) unfolding settled_def by metis

text \<open>A record as the tools see it: what the writer logged and what the parser delivers.\<close>

record log_view =
  lv_timestamp :: u64
  lv_seqnum :: "52 word"
  lv_ring :: bytes
  lv_area :: bytes
  lv_section :: bytes
  lv_args :: "(u32 \<times> arg_value) list"

definition data_view :: "memory \<Rightarrow> (u64 \<Rightarrow> area option) \<Rightarrow> fmt_data \<Rightarrow> log_view option" where
  "data_view mem areas d = do {
     nms \<leftarrow> names_of areas (fd_record d);
     vs \<leftarrow> args_view mem (fd_record d);
     Some \<lparr>lv_timestamp = to_nsec (r_timestamp (fd_record d)), lv_seqnum = r_seqnum (fd_record d),
           lv_ring = str_bytes (fd_ring_name d), lv_area = str_bytes (fst nms), lv_section = str_bytes (snd nms), lv_args = vs\<rparr>
   }"

definition parser_view :: "'s raw_parser \<Rightarrow> log_view option" where
  "parser_view p = do {
     vs \<leftarrow> args_view (\<lambda>_. 0) (rp_record p);
     Some \<lparr>lv_timestamp = to_nsec (r_timestamp (rp_record p)), lv_seqnum = r_seqnum (rp_record p),
           lv_ring = cstr_of (rp_ring_name p), lv_area = cstr_of (rp_area_name p), lv_section = cstr_of (rp_section_name p), lv_args = vs\<rparr>
   }"

definition good_name :: "bytes \<Rightarrow> bool" where
  "good_name d \<longleftrightarrow> list_all is_print d \<and> 2 \<le> length d \<and> length d \<le> 128"

definition raw_ok :: "nat \<Rightarrow> log_view \<Rightarrow> bool" where
  "raw_ok room v \<longleftrightarrow> good_name (lv_ring v) \<and> good_name (lv_area v) \<and> good_name (lv_section v)
     \<and> list_all value_fits (lv_args v) \<and> 128 + sum_list (map value_room (lv_args v)) \<le> room"

definition rp_wf :: "nat \<Rightarrow> 's raw_parser \<Rightarrow> bool" where
  "rp_wf room p \<longleftrightarrow> length (rp_ring_name p) = 256 \<and> length (rp_area_name p) = 256 \<and> length (rp_section_name p) = 256
     \<and> length (r_argval (rp_record p)) = room \<and> room < 2 ^ 32 \<and> rp_ver p = V1_1 \<and> \<not> rp_failed p"

lemma cstr_of_poke:
  assumes "poke buf 0 (d @ [0]) = Some b" and "0 \<notin> set d"
  shows "cstr_of b = d" and "length b = length buf" and "valid_name b \<longleftrightarrow> good_name d"
proof -
  have b: "b = d @ 0 # drop (Suc (length d)) buf" using assms(1) by (simp add: poke_def split: if_splits)
  have "\<forall>x \<in> set d. x \<noteq> 0" using assms(2) by metis
  then show c: "cstr_of b = d" unfolding cstr_of_def b by (subst takeWhile_append2) auto
  show "length b = length buf" by (rule length_poke [OF assms(1)])
  show "valid_name b \<longleftrightarrow> good_name d" by (simp add: valid_name_def c good_name_def Let_def)
qed

lemma good_name_no_nul: "good_name d \<Longrightarrow> 0 \<notin> set d"
  by (auto simp: good_name_def is_print_def list_all_iff)

text \<open>Updates of different fields commute; this brings them into one order.\<close>

lemma rp_order:
  "p\<lparr>rp_record := r, rp_in := s\<rparr> = p\<lparr>rp_in := s, rp_record := r\<rparr>"
  "p\<lparr>rp_ring_name := x, rp_in := s\<rparr> = p\<lparr>rp_in := s, rp_ring_name := x\<rparr>"
  "p\<lparr>rp_area_name := x, rp_in := s\<rparr> = p\<lparr>rp_in := s, rp_area_name := x\<rparr>"
  "p\<lparr>rp_section_name := x, rp_in := s\<rparr> = p\<lparr>rp_in := s, rp_section_name := x\<rparr>"
  "p\<lparr>rp_ring_name := x, rp_record := r\<rparr> = p\<lparr>rp_record := r, rp_ring_name := x\<rparr>"
  "p\<lparr>rp_area_name := x, rp_record := r\<rparr> = p\<lparr>rp_record := r, rp_area_name := x\<rparr>"
  "p\<lparr>rp_section_name := x, rp_record := r\<rparr> = p\<lparr>rp_record := r, rp_section_name := x\<rparr>"
  by (cases p, simp)+

context byte_source begin

lemma read_uint_ok:
  assumes "fine (rp_in p)" and "\<not> rp_failed p" and "avail (rp_in p) = d @ rest" and "length d = n"
  obtains src where "read_uint get n stage p = Some (of_le d, p\<lparr>rp_in := src\<rparr>)" "fine src" "avail src = rest"
proof -
  obtain src where "get n (rp_in p) = Some (True, d, src)" "fine src" "avail src = rest"
    using get_append [OF assms(1,3,4)] .
  with assms(2) show thesis by (intro that [of src]) (simp_all add: read_uint_def)
qed

lemma blob_image_short: "length d < 2 ^ (8 * n) \<Longrightarrow> blob_image n d = le_bytes n (word_of_nat (length d) :: u64) @ d"
proof -
  assume "length d < 2 ^ (8 * n)"
  then have "min (length d) (2 ^ (8 * n) - 1) = length d" by auto
  then show ?thesis by (simp only: blob_image_def Let_def take_all order_refl)
qed

lemma read_blob_ok:
  assumes "fine (rp_in p)" and "\<not> rp_failed p" and "avail (rp_in p) = blob_image n d @ rest"
    and "length d < 2 ^ (8 * n)" and "n \<le> 4" and "off + length d \<le> length buf"
  obtains src buf' where "read_blob get n buf off stage p = Some (word_of_nat (length d), buf', p\<lparr>rp_in := src\<rparr>)"
    "fine src" "avail src = rest" "poke buf off d = Some buf'"
proof -
  have a: "avail (rp_in p) = le_bytes n (word_of_nat (length d) :: u64) @ (d @ rest)"
    using assms(3) blob_image_short [OF assms(4)] by simp
  obtain s1 where s1: "read_uint get n stage p = Some (of_le (le_bytes n (word_of_nat (length d) :: u64)), p\<lparr>rp_in := s1\<rparr>)"
    "fine s1" "avail s1 = d @ rest"
    using read_uint_ok [OF assms(1,2) a, of n stage] by auto
  have l: "(of_le (le_bytes n (word_of_nat (length d) :: u64)) :: u64) = word_of_nat (length d)"
    using assms(4,5) by (intro of_le_length) auto
  have "(2::nat) ^ (8 * n) \<le> 2 ^ 32" using assms(5) by (intro power_increasing) auto
  then have small: "length d < 2 ^ 32" using assms(4) by (rule less_le_trans [rotated])
  then have u: "unat (ucast (word_of_nat (length d) :: u64) :: u32) = length d" "unat (word_of_nat (length d) :: u64) = length d"
    by (simp_all add: unsigned_ucast_eq unat_word_of_nat take_bit_nat_eq_self)
  obtain buf' where buf': "poke buf off d = Some buf'" using assms(6) by (simp add: poke_def)
  show thesis
  proof (cases "d = []")
    case True
    have "read_blob get n buf off stage p = Some (word_of_nat (length d), buf', p\<lparr>rp_in := s1\<rparr>)"
      using s1(1) l True assms(2) buf' by (simp add: read_blob_def poke_def split: if_splits)
    with s1 True buf' show thesis by (intro that [of buf' s1]) auto
  next
    case False
    then have nz: "(word_of_nat (length d) :: u64) \<noteq> 0" using u(2) by (metis length_0_conv unat_0)
    obtain s2 where s2: "get (length d) s1 = Some (True, d, s2)" "fine s2" "avail s2 = rest"
      using get_append [OF s1(2,3)] by blast
    have "read_blob get n buf off stage p = Some (word_of_nat (length d), buf', p\<lparr>rp_in := s2\<rparr>)"
      using s1(1) l nz assms(2) buf' s2(1) u(1) by (simp add: read_blob_def)
    with s2 buf' show thesis by (intro that [of buf' s2]) auto
  qed
qed

lemma read_str_ok:
  assumes "fine (rp_in p)" and "\<not> rp_failed p" and "avail (rp_in p) = blob_image n d @ rest"
    and "length d < 2 ^ (8 * n)" and "n \<le> 4" and "off + length d < length buf"
  obtains src buf' where "read_str get n buf off stage p = Some (word_of_nat (Suc (length d)), buf', p\<lparr>rp_in := src\<rparr>)"
    "fine src" "avail src = rest" "poke buf off (d @ [0]) = Some buf'"
proof -
  obtain src b1 where s: "read_blob get n buf off stage p = Some (word_of_nat (length d), b1, p\<lparr>rp_in := src\<rparr>)"
    "fine src" "avail src = rest" "poke buf off d = Some b1"
    by (rule read_blob_ok [OF assms(1-5), of off buf stage]) (use assms(6) in auto)
  have "(2::nat) ^ (8 * n) \<le> 2 ^ 32" using assms(5) by (intro power_increasing) auto
  then have "length d < 2 ^ 32" using assms(4) by (rule less_le_trans [rotated])
  then have u: "unat (word_of_nat (length d) :: u64) = length d" by (simp add: unat_word_of_nat)
  obtain b2 where b2: "poke b1 (off + length d) [0] = Some b2"
    using assms(6) length_poke [OF s(4)] by (simp add: poke_def)
  have "poke buf off (d @ [0]) = Some b2" using poke_poke_adjacent [of off d "[0]" buf] s(4) b2 assms(6) by simp
  moreover have "read_str get n buf off stage p = Some (word_of_nat (Suc (length d)), b2, p\<lparr>rp_in := src\<rparr>)"
    using s(1) b2 assms(2) u by (simp add: read_str_def)
  ultimately show thesis using s(2,3) that by blast
qed

text \<open>What reading one argument must establish.\<close>

definition arg_read :: "nat \<Rightarrow> u64 \<Rightarrow> 's raw_parser \<Rightarrow> u32 \<times> arg_value \<Rightarrow> bytes \<Rightarrow> (u64 \<times> 's raw_parser) option \<Rightarrow> bool" where
  "arg_read i off p v rest res \<longleftrightarrow> (\<exists>src r' off'. res = Some (off', p\<lparr>rp_in := src, rp_record := r'\<rparr>) \<and> fine src \<and> avail src = rest
     \<and> unat off' = unat off + value_room v \<and> same_head (rp_record p) r'
     \<and> agree_outside (arg_region i (unat off) (value_room v)) (r_argval (rp_record p)) (r_argval r')
     \<and> get_arg_type r' i = fst v \<and> (\<forall>j. j \<noteq> i \<longrightarrow> get_arg_type r' j = get_arg_type (rp_record p) j)
     \<and> settled (arg_region i (unat off) (value_room v)) (fetch_val (fst v) i) (snd v) (r_argval r'))"

lemma read_arg_str:
  assumes "fine (rp_in p)" and "\<not> rp_failed p" and "avail (rp_in p) = value_image (CSTR, VBytes d) @ rest"
    and "get_arg_type (rp_record p) i = GSTR \<or> get_arg_type (rp_record p) i = CSTR" and "i < 16"
    and "length d < 2 ^ 16" and "128 \<le> unat off" and "unat off + length d < length (r_argval (rp_record p))"
    and "length (r_argval (rp_record p)) < 2 ^ 32"
  shows "arg_read i off p (CSTR, VBytes d) rest (read_arg get i (get_arg_type (rp_record p) i) off p)"
proof -
  let ?t = "get_arg_type (rp_record p) i" and ?r = "rp_record p"
  let ?r1 = "if ?t = GSTR then set_arg_type (clear_arg_type ?r i) i CSTR else ?r"
  have types: "get_arg_type ?r1 i = CSTR" "j \<noteq> i \<Longrightarrow> get_arg_type ?r1 j = get_arg_type ?r j" for j
    using assms(4) remap_type [OF assms(5)] by auto
  have r1: "r_argval ?r1 = r_argval ?r" "same_head ?r ?r1"
    by (simp_all add: set_arg_type_def clear_arg_type_def same_head_def)
  obtain src b1 where s: "read_str get 2 (r_argval ?r) (unat off) ''cstr-arg'' p = Some (word_of_nat (Suc (length d)), b1, p\<lparr>rp_in := src\<rparr>)"
    "fine src" "avail src = rest" "poke (r_argval ?r) (unat off) (d @ [0]) = Some b1"
    by (rule read_str_ok [OF assms(1,2), of 2 d rest "unat off" "r_argval ?r" "''cstr-arg''"]) (use assms(3,6,8) in auto)
  obtain b' where b': "set_arg_data b1 i (word_of_nat (unat off)) (word_of_nat (length d)) = Some b'"
    "agree_outside (arg_region i (unat off) (length (d @ [0]))) (r_argval ?r) b'"
    "settled (arg_region i (unat off) (length (d @ [0]))) (\<lambda>b. arg_bytes b i) d b'"
    by (rule set_arg_data_stored [OF s(4), of i]) (use assms(5-9) in auto)
  have n: "ucast (word_of_nat (Suc (length d)) - 1 :: u64) = (word_of_nat (length d) :: u32)" "(ucast off :: u32) = word_of_nat (unat off)"
    by (simp_all add: of_nat_unat ucast_word_of_nat)
  have "get_arg_type (?r1\<lparr>r_argval := b'\<rparr>) j = get_arg_type ?r1 j" for j by (simp add: get_arg_type_def)
  with types have ty: "get_arg_type (?r1\<lparr>r_argval := b'\<rparr>) i = CSTR" "j \<noteq> i \<Longrightarrow> get_arg_type (?r1\<lparr>r_argval := b'\<rparr>) j = get_arg_type ?r j" for j
    by simp_all
  have ou: "unat (off + word_of_nat (Suc (length d)) :: u64) = unat off + Suc (length d)"
    using assms(6,8,9) by (simp add: unat_word_ariths unat_word_of_nat)
  have "read_arg get i ?t off p = Some (off + word_of_nat (Suc (length d)), p\<lparr>rp_in := src, rp_record := ?r1\<lparr>r_argval := b'\<rparr>\<rparr>)"
    using assms(4) by (simp only: read_arg_def Let_def if_True s(1) b'(1) n r1(1) bind.bind_lunit prod.case)
  then show ?thesis unfolding arg_read_def
    using s(2,3) ou ty b'(2) r1(2) fetch_settled [OF b'(3), of CSTR]
    by (intro exI [of _ src] exI [of _ "?r1\<lparr>r_argval := b'\<rparr>"] exI [of _ "off + word_of_nat (Suc (length d))"])
      (simp add: same_head_def)
qed

lemma read_arg_blob:
  assumes "fine (rp_in p)" and "\<not> rp_failed p" and "avail (rp_in p) = value_image (t, VBytes d) @ rest"
    and "t = get_arg_type (rp_record p) i" and "t = XDUMP \<or> t = RAW" and "i < 16" and "rp_ver p = V1_1"
    and "length d < 2 ^ 32" and "128 \<le> unat off" and "unat off + length d \<le> length (r_argval (rp_record p))"
    and "length (r_argval (rp_record p)) < 2 ^ 32"
  shows "arg_read i off p (t, VBytes d) rest (read_arg get i t off p)"
proof -
  let ?r = "rp_record p"
  have t: "t \<noteq> CSTR" "t \<noteq> GSTR" using assms(5) by auto
  obtain src b1 where s: "read_blob get 4 (r_argval ?r) (unat off) ''raw-arg'' p = Some (word_of_nat (length d), b1, p\<lparr>rp_in := src\<rparr>)"
    "fine src" "avail src = rest" "poke (r_argval ?r) (unat off) d = Some b1"
    by (rule read_blob_ok [OF assms(1,2), of 4 d rest "unat off" "r_argval ?r" "''raw-arg''"]) (use assms(3,8,10) t in auto)
  obtain b' where b': "set_arg_data b1 i (word_of_nat (unat off)) (word_of_nat (length d)) = Some b'"
    "agree_outside (arg_region i (unat off) (length d)) (r_argval ?r) b'"
    "settled (arg_region i (unat off) (length d)) (\<lambda>b. arg_bytes b i) d b'"
    by (rule set_arg_data_stored [of "r_argval ?r" "unat off" d "[]" b1 i]) (use s(4) assms(6-11) in simp_all)
  have n: "(ucast off :: u32) = word_of_nat (unat off)" by (simp add: of_nat_unat)
  have ou: "unat (off + word_of_nat (length d) :: u64) = unat off + length d"
    using assms(8,10,11) by (simp add: unat_word_ariths unat_word_of_nat)
  have "read_arg get i t off p = Some (off + word_of_nat (length d), p\<lparr>rp_in := src, rp_record := ?r\<lparr>r_argval := b'\<rparr>\<rparr>)"
    using assms(5,7) t
    by (simp only: read_arg_def Let_def if_True if_False s(1) b'(1) n bind.bind_lunit prod.case simp_thms raw_version.distinct ucast_word_of_nat)
  moreover have "get_arg_type (?r\<lparr>r_argval := b'\<rparr>) j = get_arg_type ?r j" for j by (simp add: get_arg_type_def)
  ultimately show ?thesis unfolding arg_read_def
    using s(2,3) ou b'(2) t assms(4) fetch_settled [OF b'(3), of t] assms(5)
    by (intro exI [of _ src] exI [of _ "?r\<lparr>r_argval := b'\<rparr>"] exI [of _ "off + word_of_nat (length d)"])
      (simp add: same_head_def)
qed

lemma read_arg_word:
  assumes "fine (rp_in p)" and "\<not> rp_failed p" and "avail (rp_in p) = value_image v @ rest"
    and "t = get_arg_type (rp_record p) i" and "t \<noteq> CSTR" "t \<noteq> GSTR" "t \<noteq> XDUMP" "t \<noteq> RAW"
    and "v = (t, if is_32bit t then V32 w else V64 x)" and "8 * i + 8 \<le> length (r_argval (rp_record p))"
  shows "arg_read i off p v rest (read_arg get i t off p)"
proof -
  let ?r = "rp_record p" and ?n = "if is_32bit t then 4 else 8 :: nat"
  let ?d = "if is_32bit t then le_bytes 4 w else le_bytes 8 x"
  have a: "avail (rp_in p) = ?d @ rest" "length ?d = ?n" using assms(3,9) by (simp_all split: if_splits)
  obtain src where s: "read_uint get ?n (if is_32bit t then ''uint32-arg'' else ''uint64-arg'') p = Some (of_le ?d, p\<lparr>rp_in := src\<rparr>)"
    "fine src" "avail src = rest" by (rule read_uint_ok [OF assms(1,2) a])
  have v: "fetch_val t i c = Some (snd v)" if "peek c (8 * i) (length ?d) = Some ?d" for c
    using that assms(5-9) by (auto simp: fetch_val_def get_arg_val32_def get_arg_val64_def of_le_le_bytes split: if_splits)
  obtain b' where b': "poke (r_argval ?r) (8 * i) ?d = Some b'" "agree_outside (arg_region i (unat off) 0) (r_argval ?r) b'"
    "settled (arg_region i (unat off) 0) (fetch_val t i) (snd v) b'"
    by (rule poke_value_settled [where bs = ?d and b = "r_argval ?r" and off = "unat off" and i = i, OF _ _ v]) (use a(2) assms(10) in \<open>auto split: if_splits\<close>)
  have w: "ucast (of_le (le_bytes 4 w) :: u64) = w" "of_le (le_bytes 8 x) = x"
    using unat_less [of w] unat_less [of x]
    by (simp_all add: of_le_le_bytes_ucast word_unat_eq_iff unsigned_ucast_eq unsigned_take_bit_eq take_bit_nat_eq_self)
  have "read_arg get i t off p = Some (off, p\<lparr>rp_in := src, rp_record := ?r\<lparr>r_argval := b'\<rparr>\<rparr>)"
    using assms(5-8) s(1) b'(1) w by (auto simp: read_arg_def Let_def is_32bit_def set_arg_val32_def set_arg_val64_def split: if_splits)
  moreover have "get_arg_type (?r\<lparr>r_argval := b'\<rparr>) j = get_arg_type ?r j" for j by (simp add: get_arg_type_def)
  moreover have "value_room v = 0" using assms(9) by simp
  ultimately show ?thesis unfolding arg_read_def
    using s(2,3) b'(2,3) assms(4,9)
    by (intro exI [of _ src] exI [of _ "?r\<lparr>r_argval := b'\<rparr>"] exI [of _ off]) (simp add: same_head_def)
qed

lemma read_arg_ok:
  assumes "fine (rp_in p)" and "\<not> rp_failed p" and "avail (rp_in p) = value_image v @ rest"
    and "arg_view mem r0 i = Some v" and "get_arg_type (rp_record p) i = get_arg_type r0 i" and "i < 16" and "rp_ver p = V1_1"
    and "value_fits v" and "128 \<le> unat off" and "unat off + value_room v \<le> length (r_argval (rp_record p))"
    and "length (r_argval (rp_record p)) < 2 ^ 32"
  shows "arg_read i off p v rest (read_arg get i (get_arg_type (rp_record p) i) off p)"
proof -
  let ?t = "get_arg_type r0 i"
  consider (str) "?t = GSTR \<or> ?t = CSTR" | (blob) "?t = XDUMP \<or> ?t = RAW"
    | (other) "?t \<noteq> XDUMP" "?t \<noteq> RAW" "?t \<noteq> CSTR" "?t \<noteq> GSTR" by blast
  then show ?thesis
  proof cases
    case str
    then obtain d where v: "v = (CSTR, VBytes d)"
      using assms(4) by (auto simp: arg_view_def fetch_val_def bind_eq_Some_conv)
    have "value_image v = value_image (CSTR, VBytes d)" "length d < 2 ^ 16" "unat off + length d < length (r_argval (rp_record p))"
      using v assms(8,10) by simp_all
    with str assms(5) show ?thesis
      unfolding v by (intro read_arg_str [OF assms(1,2) assms(3) [unfolded v] _ assms(6) _ assms(9) _ assms(11)]) simp_all
  next
    case blob
    then obtain d where v: "v = (?t, VBytes d)" using assms(4) by (auto simp: arg_view_def fetch_val_def)
    have t: "?t \<noteq> CSTR" using blob by auto
    have "length d < 2 ^ 32" "unat off + length d \<le> length (r_argval (rp_record p))"
      using v assms(8,10) t by simp_all
    then show ?thesis
      unfolding v assms(5)
      by (intro read_arg_blob [OF assms(1,2) assms(3) [unfolded v] assms(5) [symmetric] blob assms(6,7) _ assms(9) _ assms(11)])
  next
    case other
    then obtain w x where "v = (?t, if is_32bit ?t then V32 w else V64 x)"
      using assms(4) by (auto simp: arg_view_def fetch_val_def Let_def split: if_splits)
    then show ?thesis
      unfolding assms(5) using assms(6,9,10) other
      by (intro read_arg_word [OF assms(1-3) assms(5) [symmetric]]) simp_all
  qed
qed

lemma read_args_from_ok:
  assumes "fine (rp_in p)" and "\<not> rp_failed p" and "avail (rp_in p) = concat (map value_image vs) @ rest"
    and "args_view_from mem r0 [k..<16] = Some vs" and "\<forall>j \<ge> k. get_arg_type (rp_record p) j = get_arg_type r0 j" and "rp_ver p = V1_1"
    and "list_all value_fits vs" and "128 \<le> unat off" and "unat off + sum_list (map value_room vs) \<le> length (r_argval (rp_record p))"
    and "length (r_argval (rp_record p)) < 2 ^ 32"
  shows "\<exists>src r'. read_args_from get [k..<16] off p = Some (p\<lparr>rp_in := src, rp_record := r'\<rparr>) \<and> fine src \<and> avail src = rest
    \<and> same_head (rp_record p) r' \<and> args_view_from mem' r' [k..<16] = Some vs
    \<and> agree_outside ({8 * k..<128} \<union> {unat off..}) (r_argval (rp_record p)) (r_argval r')
    \<and> (\<forall>j < k. get_arg_type r' j = get_arg_type (rp_record p) j)"
  using assms
proof (induction "16 - k" arbitrary: k vs off p)
  case 0
  then have "[k..<16] = []" by simp
  with "0.prems" show ?case
    by (intro exI [of _ "rp_in p"] exI [of _ "rp_record p"]) (simp add: same_head_def agree_outside_refl)
next
  case (Suc n)
  let ?r = "rp_record p"
  have k: "k < 16" "[k..<16] = k # [Suc k..<16]" using Suc.hyps(2) by (simp_all add: upt_conv_Cons)
  have tk: "get_arg_type ?r k = get_arg_type r0 k" using Suc.prems(5) by simp
  show ?case
  proof (cases "get_arg_type r0 k = NONE")
    case True
    with Suc.prems k tk show ?thesis
      by (intro exI [of _ "rp_in p"] exI [of _ ?r]) (simp add: same_head_def agree_outside_refl)
  next
    case nz: False
    then obtain v ws where v: "arg_view mem r0 k = Some v" "args_view_from mem r0 [Suc k..<16] = Some ws" "vs = v # ws"
      using Suc.prems(4) k(2) by (auto simp: bind_eq_Some_conv)
    have av: "avail (rp_in p) = value_image v @ (concat (map value_image ws) @ rest)" using Suc.prems(3) v(3) by simp
    have fit: "value_fits v" "list_all value_fits ws" using Suc.prems(7) v(3) by simp_all
    have room: "unat off + value_room v \<le> length (r_argval ?r)" using Suc.prems(9) v(3) by simp
    obtain src r1 off1 where a: "read_arg get k (get_arg_type ?r k) off p = Some (off1, p\<lparr>rp_in := src, rp_record := r1\<rparr>)"
      "fine src" "avail src = concat (map value_image ws) @ rest"
      "unat off1 = unat off + value_room v" "same_head ?r r1"
      "agree_outside (arg_region k (unat off) (value_room v)) (r_argval ?r) (r_argval r1)"
      "get_arg_type r1 k = fst v" "\<forall>j. j \<noteq> k \<longrightarrow> get_arg_type r1 j = get_arg_type ?r j"
      "settled (arg_region k (unat off) (value_room v)) (fetch_val (fst v) k) (snd v) (r_argval r1)"
      using read_arg_ok [OF Suc.prems(1,2) av v(1) tk k(1) Suc.prems(6) fit(1) Suc.prems(8) room Suc.prems(10)]
      unfolding arg_read_def by blast
    let ?p1 = "p\<lparr>rp_in := src, rp_record := r1\<rparr>"
    have len: "length (r_argval r1) = length (r_argval ?r)" by (rule agree_outside_length [OF a(6)])
    have "\<exists>src' r'. read_args_from get [Suc k..<16] off1 ?p1 = Some (?p1\<lparr>rp_in := src', rp_record := r'\<rparr>) \<and> fine src' \<and> avail src' = rest
      \<and> same_head (rp_record ?p1) r' \<and> args_view_from mem' r' [Suc k..<16] = Some ws
      \<and> agree_outside ({8 * Suc k..<128} \<union> {unat off1..}) (r_argval (rp_record ?p1)) (r_argval r')
      \<and> (\<forall>j < Suc k. get_arg_type r' j = get_arg_type (rp_record ?p1) j)"
    proof (rule Suc.hyps(1))
      show "n = 16 - Suc k" using Suc.hyps(2) by simp
      show "fine (rp_in ?p1)" "\<not> rp_failed ?p1" "rp_ver ?p1 = V1_1" "list_all value_fits ws" "args_view_from mem r0 [Suc k..<16] = Some ws"
        "avail (rp_in ?p1) = concat (map value_image ws) @ rest" "128 \<le> unat off1" "length (r_argval (rp_record ?p1)) < 2 ^ 32"
        using a Suc.prems fit v(2) len by simp_all
      show "\<forall>j \<ge> Suc k. get_arg_type (rp_record ?p1) j = get_arg_type r0 j" using a(8) Suc.prems(5) by simp
      show "unat off1 + sum_list (map value_room ws) \<le> length (r_argval (rp_record ?p1))"
        using Suc.prems(9) v(3) a(4) len by simp
    qed
    then obtain src' r' where b: "read_args_from get [Suc k..<16] off1 ?p1 = Some (?p1\<lparr>rp_in := src', rp_record := r'\<rparr>)"
      "fine src'" "avail src' = rest" "same_head r1 r'" "args_view_from mem' r' [Suc k..<16] = Some ws"
      "agree_outside ({8 * Suc k..<128} \<union> {unat off1..}) (r_argval r1) (r_argval r')"
      "\<forall>j < Suc k. get_arg_type r' j = get_arg_type r1 j" by auto
    have "arg_region k (unat off) (value_room v) \<inter> ({8 * Suc k..<128} \<union> {unat off1..}) = {}"
      using a(4) Suc.prems(8) k(1) by auto
    then have fv: "fetch_val (fst v) k (r_argval r') = Some (snd v)"
      by (intro settled_value [OF settled_frame [OF a(9) b(6)]])
    have ng: "fst v \<noteq> GSTR" "fst v \<noteq> NONE"
      using v(1) nz by (auto simp: arg_view_def Let_def bind_eq_Some_conv split: if_splits)
    have "get_arg_type r' k = fst v" using b(7) a(7) by simp
    with ng fv have view: "args_view_from mem' r' [k..<16] = Some vs"
      using b(5) v(3) k(2) by (simp add: arg_view_def)
    have agree: "agree_outside ({8 * k..<128} \<union> {unat off..}) (r_argval ?r) (r_argval r')"
      by (rule agree_outside_trans [OF a(6) b(6)]) (use a(4) k(1) in auto)
    have "read_args_from get [k..<16] off p = Some (p\<lparr>rp_in := src', rp_record := r'\<rparr>)"
      using k(2) Suc.prems(2) nz tk a(1) b(1) by simp
    then show ?thesis
      using b(2-4) a(5,8) b(7) view agree
      by (intro exI [of _ src'] exI [of _ r']) (simp add: same_head_def)
  qed
qed

lemma read_name_ok:
  assumes "fine (rp_in p)" and "\<not> rp_failed p" and "avail (rp_in p) = blob_image 1 d @ rest"
    and "good_name d" and "length buf = 256"
  obtains src b where "read_name get buf stage p = Some (b, p\<lparr>rp_in := src\<rparr>)" "fine src" "avail src = rest"
    "cstr_of b = d" "length b = 256"
proof -
  obtain src b where s: "read_str get 1 buf 0 stage p = Some (word_of_nat (Suc (length d)), b, p\<lparr>rp_in := src\<rparr>)"
    "fine src" "avail src = rest" "poke buf 0 (d @ [0]) = Some b"
    by (rule read_str_ok [OF assms(1-3), of 0 buf stage]) (use assms(4,5) in \<open>auto simp: good_name_def\<close>)
  note c = cstr_of_poke [OF s(4) good_name_no_nul [OF assms(4)]]
  have "read_name get buf stage p = Some (b, p\<lparr>rp_in := src\<rparr>)" using s(1) c(3) assms(2,4) by (simp add: read_name_def)
  with s(2,3) c assms(5) show thesis by (intro that [of b src]) simp_all
qed

text \<open>The parts of a record: the two counters, the three names and the arguments.\<close>

lemma read_word_ok:
  assumes "fine (rp_in p)" and "\<not> rp_failed p" and "avail (rp_in p) = le_bytes 8 (w :: u64) @ rest"
  obtains src where "read_uint get 8 stage p = Some (w, p\<lparr>rp_in := src\<rparr>)" "fine src" "avail src = rest"
proof -
  obtain src where "read_uint get 8 stage p = Some (of_le (le_bytes 8 w), p\<lparr>rp_in := src\<rparr>)" "fine src" "avail src = rest"
    by (rule read_uint_ok [OF assms length_le_bytes])
  then show thesis by (intro that [of src]) (simp_all add: of_le_le_bytes)
qed

lemma read_args_ok:
  assumes "fine (rp_in p)" and "\<not> rp_failed p" and "rp_ver p = V1_1" and "length (r_argval (rp_record p)) = room" and "room < 2 ^ 32"
    and "avail (rp_in p) = le_bytes 8 (r_argtype r) @ concat (map value_image vs) @ rest" and "args_view mem r = Some vs"
    and "list_all value_fits vs" and "128 + sum_list (map value_room vs) \<le> room"
  obtains src r' where "read_args get p = Some (p\<lparr>rp_in := src, rp_record := r'\<rparr>)" "fine src" "avail src = rest"
    "same_head (rp_record p) r'" "args_view (\<lambda>_. 0) r' = Some vs" "length (r_argval r') = room"
proof -
  obtain s1 where s1: "read_uint get 8 ''argtype'' p = Some (r_argtype r, p\<lparr>rp_in := s1\<rparr>)" "fine s1" "avail s1 = concat (map value_image vs) @ rest"
    by (rule read_word_ok [OF assms(1,2,6)])
  let ?p = "p\<lparr>rp_in := s1, rp_record := (rp_record p)\<lparr>r_argtype := r_argtype r\<rparr>\<rparr>"
  have "\<exists>src r'. read_args_from get [0..<16] (16 * 8) ?p = Some (?p\<lparr>rp_in := src, rp_record := r'\<rparr>) \<and> fine src \<and> avail src = rest
    \<and> same_head (rp_record ?p) r' \<and> args_view_from (\<lambda>_. 0) r' [0..<16] = Some vs
    \<and> agree_outside ({8 * 0..<128} \<union> {unat (16 * 8 :: u64)..}) (r_argval (rp_record ?p)) (r_argval r')
    \<and> (\<forall>j < 0. get_arg_type r' j = get_arg_type (rp_record ?p) j)"
    using s1 assms by (intro read_args_from_ok [where mem = mem and ?r0.0 = r]) (simp_all add: args_view_def get_arg_type_def)
  then obtain src r' where a: "read_args_from get [0..<16] (16 * 8) ?p = Some (?p\<lparr>rp_in := src, rp_record := r'\<rparr>)" "fine src" "avail src = rest"
    "same_head (rp_record ?p) r'" "args_view (\<lambda>_. 0) r' = Some vs" "length (r_argval r') = length (r_argval (rp_record ?p))"
    unfolding args_view_def using agree_outside_length by blast
  have "read_args get p = Some (p\<lparr>rp_in := src, rp_record := r'\<rparr>)" using a(1) s1(1) assms(2) by (simp add: read_args_def rp_order)
  with a assms(4) show thesis by (intro that [of r' src]) (simp_all add: same_head_def)
qed

lemma read_names_ok:
  assumes "fine (rp_in p)" and "\<not> rp_failed p" and "avail (rp_in p) = blob_image 1 a @ blob_image 1 b @ blob_image 1 c @ rest"
    and "good_name a" "good_name b" "good_name c"
    and "length (rp_ring_name p) = 256" "length (rp_area_name p) = 256" "length (rp_section_name p) = 256"
  obtains s1 s2 s3 x y z where "read_name get (rp_ring_name p) ''ring-name'' p = Some (x, p\<lparr>rp_in := s1\<rparr>)"
    "read_name get (rp_area_name p) ''area-name'' (p\<lparr>rp_in := s1, rp_ring_name := x\<rparr>) = Some (y, p\<lparr>rp_in := s2, rp_ring_name := x\<rparr>)"
    "read_name get (rp_section_name p) ''section-name'' (p\<lparr>rp_in := s2, rp_ring_name := x, rp_area_name := y\<rparr>)
      = Some (z, p\<lparr>rp_in := s3, rp_ring_name := x, rp_area_name := y\<rparr>)"
    "fine s3" "avail s3 = rest" "cstr_of x = a" "cstr_of y = b" "cstr_of z = c" "length x = 256" "length y = 256" "length z = 256"
proof -
  obtain s1 x where s1: "read_name get (rp_ring_name p) ''ring-name'' p = Some (x, p\<lparr>rp_in := s1\<rparr>)" "fine s1"
    "avail s1 = blob_image 1 b @ blob_image 1 c @ rest" "cstr_of x = a" "length x = 256"
    by (rule read_name_ok [OF assms(1-4,7)])
  let ?p1 = "p\<lparr>rp_in := s1, rp_ring_name := x\<rparr>"
  have p1: "fine (rp_in ?p1)" "\<not> rp_failed ?p1" "avail (rp_in ?p1) = blob_image 1 b @ blob_image 1 c @ rest" using s1 assms(2) by simp_all
  obtain s2 y where s2: "read_name get (rp_area_name p) ''area-name'' ?p1 = Some (y, ?p1\<lparr>rp_in := s2\<rparr>)" "fine s2"
    "avail s2 = blob_image 1 c @ rest" "cstr_of y = b" "length y = 256"
    by (rule read_name_ok [OF p1 assms(5,8)])
  let ?p2 = "p\<lparr>rp_in := s2, rp_ring_name := x, rp_area_name := y\<rparr>"
  have p2: "fine (rp_in ?p2)" "\<not> rp_failed ?p2" "avail (rp_in ?p2) = blob_image 1 c @ rest" using s2 assms(2) by simp_all
  obtain s3 z where s3: "read_name get (rp_section_name p) ''section-name'' ?p2 = Some (z, ?p2\<lparr>rp_in := s3\<rparr>)"
    "fine s3" "avail s3 = rest" "cstr_of z = c" "length z = 256"
    by (rule read_name_ok [OF p2 assms(6,9)])
  show thesis
    using s1 s2 s3 by (intro that [of x s1 y s2 z s3]) (simp_all add: rp_order)
qed

text \<open>One record: \<^verbatim>\<open>next\<close> undoes \<^verbatim>\<open>process\<close>.\<close>

lemma next_ok:
  assumes "fine (rp_in p)" and "rp_wf room p" and "names_of areas (fd_record d) = Some nms" and "args_view mem (fd_record d) = Some vs"
    and "data_view mem areas d = Some lv" and "raw_ok room lv" and "avail (rp_in p) = raw_image d nms vs @ rest"
  obtains q where "rp_next get addr p = Some (True, q)" "parser_view q = Some lv" "rp_wf room q"
    "fine (rp_in q)" "avail (rp_in q) = rest"
proof -
  let ?r = "fd_record d"
  have nf: "\<not> rp_failed p" and wf: "length (rp_ring_name p) = 256" "length (rp_area_name p) = 256" "length (rp_section_name p) = 256"
    "length (r_argval (rp_record p)) = room" "room < 2 ^ 32" "rp_ver p = V1_1" using assms(2) by (simp_all add: rp_wf_def)
  have lv: "lv = \<lparr>lv_timestamp = to_nsec (r_timestamp ?r), lv_seqnum = r_seqnum ?r,
      lv_ring = str_bytes (fd_ring_name d), lv_area = str_bytes (fst nms), lv_section = str_bytes (snd nms), lv_args = vs\<rparr>"
    using assms(3-5) by (simp add: data_view_def)
  have ok: "good_name (str_bytes (fd_ring_name d))" "good_name (str_bytes (fst nms))" "good_name (str_bytes (snd nms))"
    "list_all value_fits vs" "128 + sum_list (map value_room vs) \<le> room" using assms(6) by (simp_all add: raw_ok_def lv)
  let ?c = "le_bytes 8 (r_argtype ?r) @ concat (map value_image vs) @ rest"
  let ?b = "blob_image 1 (str_bytes (fd_ring_name d)) @ blob_image 1 (str_bytes (fst nms)) @ blob_image 1 (str_bytes (snd nms)) @ ?c"
  let ?p0 = "p\<lparr>rp_record := (r_clear (rp_record p))\<lparr>r_area := addr\<rparr>\<rparr>"
  have "avail (rp_in ?p0) = le_bytes 8 (to_nsec (r_timestamp ?r)) @ (le_bytes 8 (ucast (r_seqnum ?r) :: u64) @ ?b)" "fine (rp_in ?p0)" "\<not> rp_failed ?p0"
    using assms(1,7) nf by (simp_all add: raw_image_def)
  then obtain s1 where s1: "read_uint get 8 ''timestamp'' ?p0 = Some (to_nsec (r_timestamp ?r), ?p0\<lparr>rp_in := s1\<rparr>)"
    "fine s1" "avail s1 = le_bytes 8 (ucast (r_seqnum ?r) :: u64) @ ?b" by (metis read_word_ok)
  define p1 where "p1 = ?p0\<lparr>rp_in := s1, rp_record := (rp_record ?p0)\<lparr>r_timestamp := r_timestamp ?r\<rparr>\<rparr>"
  have "fine (rp_in p1)" "\<not> rp_failed p1" "avail (rp_in p1) = le_bytes 8 (ucast (r_seqnum ?r) :: u64) @ ?b"
    using s1 nf by (simp_all add: p1_def)
  then obtain s2 where s2: "read_uint get 8 ''seqnum'' p1 = Some (ucast (r_seqnum ?r), p1\<lparr>rp_in := s2\<rparr>)" "fine s2" "avail s2 = ?b"
    by (metis read_word_ok)
  define p2 where "p2 = p1\<lparr>rp_in := s2, rp_record := (rp_record p1)\<lparr>r_seqnum := r_seqnum ?r\<rparr>\<rparr>"
  have "fine (rp_in p2)" "\<not> rp_failed p2" "avail (rp_in p2) = ?b" "length (rp_ring_name p2) = 256" "length (rp_area_name p2) = 256"
    "length (rp_section_name p2) = 256"
    using s2 nf wf by (simp_all add: p2_def p1_def)
  from read_names_ok [OF this(1-3) ok(1-3) this(4-6)]
  obtain s3 s4 s5 x y z where n: "read_name get (rp_ring_name p2) ''ring-name'' p2 = Some (x, p2\<lparr>rp_in := s3\<rparr>)"
    "read_name get (rp_area_name p2) ''area-name'' (p2\<lparr>rp_in := s3, rp_ring_name := x\<rparr>) = Some (y, p2\<lparr>rp_in := s4, rp_ring_name := x\<rparr>)"
    "read_name get (rp_section_name p2) ''section-name'' (p2\<lparr>rp_in := s4, rp_ring_name := x, rp_area_name := y\<rparr>)
      = Some (z, p2\<lparr>rp_in := s5, rp_ring_name := x, rp_area_name := y\<rparr>)"
    "fine s5" "avail s5 = ?c" "cstr_of x = str_bytes (fd_ring_name d)" "cstr_of y = str_bytes (fst nms)" "cstr_of z = str_bytes (snd nms)"
    "length x = 256" "length y = 256" "length z = 256" by metis
  define p5 where "p5 = p2\<lparr>rp_in := s5, rp_ring_name := x, rp_area_name := y, rp_section_name := z\<rparr>"
  have p5: "fine (rp_in p5)" "\<not> rp_failed p5" "rp_ver p5 = V1_1" "length (r_argval (rp_record p5)) = room" "avail (rp_in p5) = ?c"
    using n(4,5) nf wf by (simp_all add: p5_def p2_def p1_def r_clear_def)
  obtain src r' where a: "read_args get p5 = Some (p5\<lparr>rp_in := src, rp_record := r'\<rparr>)" "fine src" "avail src = rest"
    "same_head (rp_record p5) r'" "args_view (\<lambda>_. 0) r' = Some vs" "length (r_argval r') = room"
    by (rule read_args_ok [OF p5(1-4) wf(5) p5(5) assms(4) ok(4,5)])
  let ?q = "p5\<lparr>rp_in := src, rp_record := r'\<rparr>"
  have sq: "ucast (ucast (r_seqnum ?r) :: u64) = r_seqnum ?r"
    by (rule bit_word_eqI) (simp add: bit_simps)
  show thesis
  proof (rule that [of ?q])
    show "rp_next get addr p = Some (True, ?q)"
      using s1(1) s2(1) n(1-3) a(1) nf sq
      by (simp add: rp_next_def Let_def p5_def p2_def p1_def from_nsec_def to_nsec_def rp_order)
  qed (use a wf nf n in \<open>simp_all add: parser_view_def lv rp_wf_def same_head_def p5_def p2_def p1_def r_clear_def\<close>)
qed

lemma next_end:
  assumes "fine (rp_in p)" and "rp_wf room p" and "length (avail (rp_in p)) < 8"
  obtains q where "rp_next get addr p = Some (False, q)" "\<not> rp_failed q" "fine (rp_in q)" "avail (rp_in q) = []"
proof -
  have nf: "\<not> rp_failed p" using assms(2) by (simp add: rp_wf_def)
  obtain src where "get 8 (rp_in p) = Some (False, avail (rp_in p), src)" "fine src" "avail src = []"
    using get_short [OF assms(1,3)] by blast
  moreover from this nf obtain q where "rp_next get addr p = Some (False, q)" "\<not> rp_failed q" "rp_in q = src"
    by (simp add: rp_next_def read_uint_def rp_fail_def rp_reset_def Let_def)
  ultimately show thesis by (intro that [of q]) simp_all
qed

text \<open>A name the validator does not accept ends the parsing; what follows is not read.\<close>

lemma read_name_bad:
  assumes "fine (rp_in p)" and "\<not> rp_failed p" and "avail (rp_in p) = blob_image 1 d @ rest"
    and "0 \<notin> set d" and "length d < 256" and "\<not> good_name d" and "length buf = 256"
  obtains src b where "read_name get buf stage p = Some (b, rp_fail (''format: failed to validate name @'' @ stage) (p\<lparr>rp_in := src\<rparr>))"
proof -
  obtain src b where s: "read_str get 1 buf 0 stage p = Some (word_of_nat (Suc (length d)), b, p\<lparr>rp_in := src\<rparr>)"
    "poke buf 0 (d @ [0]) = Some b"
    by (rule read_str_ok [OF assms(1-3), of 0 buf stage]) (use assms(5,7) in auto)
  have "\<not> valid_name b" using cstr_of_poke(3) [OF s(2) assms(4)] assms(6) by simp
  with s(1) assms(2) show thesis by (intro that [of b src]) (simp add: read_name_def)
qed

lemma read_failed:
  "rp_failed p \<Longrightarrow> read_name get buf stage p = Some (buf, p)" "rp_failed p \<Longrightarrow> read_args get p = Some p"
  by (simp_all add: read_name_def read_str_def read_args_def)

lemma next_bad_name:
  assumes "fine (rp_in p)" and "rp_wf room p"
    and "avail (rp_in p) = le_bytes 8 (t :: u64) @ le_bytes 8 (sq :: u64) @ blob_image 1 d @ rest"
    and "0 \<notin> set d" and "length d < 256" and "\<not> good_name d"
  obtains q where "rp_next get addr p = Some (False, q)" "rp_failed q" "rp_error q = rp_error p @ ''format: failed to validate name @ring-name''"
proof -
  have nf: "\<not> rp_failed p" "length (rp_ring_name p) = 256" using assms(2) by (simp_all add: rp_wf_def)
  let ?p0 = "p\<lparr>rp_record := (r_clear (rp_record p))\<lparr>r_area := addr\<rparr>\<rparr>"
  have "fine (rp_in ?p0)" "\<not> rp_failed ?p0" "avail (rp_in ?p0) = le_bytes 8 t @ (le_bytes 8 sq @ blob_image 1 d @ rest)" using assms(1,3) nf by simp_all
  then obtain s1 where s1: "read_uint get 8 ''timestamp'' ?p0 = Some (t, ?p0\<lparr>rp_in := s1\<rparr>)" "fine s1" "avail s1 = le_bytes 8 sq @ blob_image 1 d @ rest"
    by (metis read_word_ok)
  define p1 where "p1 = ?p0\<lparr>rp_in := s1, rp_record := (rp_record ?p0)\<lparr>r_timestamp := from_nsec t\<rparr>\<rparr>"
  have "fine (rp_in p1)" "\<not> rp_failed p1" "avail (rp_in p1) = le_bytes 8 sq @ (blob_image 1 d @ rest)" using s1 nf by (simp_all add: p1_def)
  then obtain s2 where s2: "read_uint get 8 ''seqnum'' p1 = Some (sq, p1\<lparr>rp_in := s2\<rparr>)" "fine s2" "avail s2 = blob_image 1 d @ rest"
    by (metis read_word_ok)
  define p2 where "p2 = p1\<lparr>rp_in := s2, rp_record := (rp_record p1)\<lparr>r_seqnum := ucast sq\<rparr>\<rparr>"
  have p2: "fine (rp_in p2)" "\<not> rp_failed p2" "avail (rp_in p2) = blob_image 1 d @ rest" "length (rp_ring_name p2) = 256"
    using s2 nf by (simp_all add: p2_def p1_def)
  obtain s3 b where b: "read_name get (rp_ring_name p2) ''ring-name'' p2
      = Some (b, rp_fail (''format: failed to validate name @'' @ ''ring-name'') (p2\<lparr>rp_in := s3\<rparr>))"
    by (rule read_name_bad [OF p2(1-3) assms(4-6) p2(4)])
  define q where "q = (rp_fail (''format: failed to validate name @'' @ ''ring-name'') (p2\<lparr>rp_in := s3\<rparr>))\<lparr>rp_ring_name := b\<rparr>"
  have "rp_failed q" "rp_error q = rp_error p @ ''format: failed to validate name @ring-name''"
    by (simp_all add: q_def rp_fail_def p2_def p1_def)
  moreover have "rp_next get addr p = Some (False, q\<lparr>rp_area_name := rp_area_name q, rp_section_name := rp_section_name q\<rparr>)"
    using s1(1) s2(1) b nf \<open>rp_failed q\<close>
    by (simp add: rp_next_def Let_def p2_def p1_def q_def rp_fail_def rp_order read_failed)
  ultimately show thesis by (intro that [of q]) simp_all
qed

lemma read_blob_overflow:
  assumes "fine (rp_in p)" and "\<not> rp_failed p" and "avail (rp_in p) = blob_image 4 d @ rest" and "length d < 2 ^ 32" and "d \<noteq> []"
    and "length buf < off + length d"
  shows "read_blob get 4 buf off stage p = None"
proof -
  have a: "avail (rp_in p) = le_bytes 4 (word_of_nat (length d) :: u64) @ (d @ rest)"
    using assms(3) blob_image_short [of d 4] assms(4) by simp
  obtain s1 where s1: "read_uint get 4 stage p = Some (of_le (le_bytes 4 (word_of_nat (length d) :: u64)), p\<lparr>rp_in := s1\<rparr>)"
    "fine s1" "avail s1 = d @ rest" by (rule read_uint_ok [OF assms(1,2) a length_le_bytes])
  have l: "(of_le (le_bytes 4 (word_of_nat (length d) :: u64)) :: u64) = word_of_nat (length d)"
    using assms(4) by (intro of_le_length) simp_all
  have u: "unat (ucast (word_of_nat (length d) :: u64) :: u32) = length d" "unat (word_of_nat (length d) :: u64) = length d"
    using assms(4) by (simp_all add: unsigned_ucast_eq unat_word_of_nat take_bit_nat_eq_self)
  then have nz: "(word_of_nat (length d) :: u64) \<noteq> 0" using assms(5) by (metis length_0_conv unat_0)
  obtain s2 where "get (length d) s1 = Some (True, d, s2)" using get_append [OF s1(2,3)] by blast
  then show ?thesis using s1(1) l nz u(1) assms(2,6) by (simp add: read_blob_def poke_def)
qed

end

section \<open>Properties\<close>

text \<open>
  A ring name that the writer accepts, of one byte or of more than 128 or with bytes that are
  not printable, makes the parser fail with a format error, whatever follows.
\<close>

lemma raw_name_rejected:
  assumes "rd_fine (rp_in p)" and "rp_wf room p"
    and "rd_left (rp_in p) = le_bytes 8 (t :: u64) @ le_bytes 8 (sq :: u64) @ blob_image 1 d @ rest"
    and "0 \<notin> set d" and "length d < 256" and "\<not> good_name d"
  shows "\<exists>q. rp_next rd_read area p = Some (False, q) \<and> rp_failed q
    \<and> rp_error q = rp_error p @ ''format: failed to validate name @ring-name''"
  using frd.next_bad_name [OF assms] by blast

text \<open>
  C36: the length of a blob in the file is not compared with the size of the record buffer:
  reading an argument longer than the room left writes outside the buffer.
\<close>

theorem raw_blob_overflows_record:
  assumes "rd_fine (rp_in p)" and "\<not> rp_failed p" and "rp_ver p = V1_1"
    and "rd_left (rp_in p) = blob_image 4 d @ rest" and "length d < 2 ^ 32" and "d \<noteq> []"
    and "length (r_argval (rp_record p)) < unat offset + length d"
  shows "read_arg rd_read i RAW offset p = None"
  using frd.read_blob_overflow [OF assms(1,2,4-7)] assms(3) by (simp add: read_arg_def)

theorem raw_blob_overflows_record_witness:
  "read_arg rd_read 0 RAW 128 (rp_new (\<lambda>_. 0) True True \<lparr>rd_pend = [], rd_capacity = 4, rd_count = 0, rd_tailf = False, rd_errno = 0,
       rd_file = blob_image 4 [1, 2, 3], rd_reads = \<lambda>_. Inl 3, rd_notes = \<lambda>_. Inl [], rd_calls = 0, rd_waits = 0\<rparr> V1_1 162) = None"
  by (rule raw_blob_overflows_record [where d = "[1, 2, 3]" and rest = "[]"])
    (simp_all add: rp_new_def rp_reset_def rd_fine_def rd_left_def Let_def header_size_def)

end
