(* ===== verification/Cook.thy ===== *)
theory Cook
  imports Raw_Parser
begin

text \<open>
  The raw log processor (\<^verbatim>\<open>tools/cook.cc\<close>) on top of the parser: it formats the records
  of a raw log, and when a log does not start at a record boundary it tries again one byte
  further on. The format handler is an argument, the command line is in theory \<open>Tools\<close>. The
  messages on standard error are left out.
\<close>

section \<open>Definitions\<close>

record cook_opts =
  ck_min_valid_recs :: u32
  ck_max_record_size :: u32
  ck_version :: raw_version

definition cook_defaults :: cook_opts where
  "cook_defaults = \<lparr>ck_min_valid_recs = 4, ck_max_record_size = 10 * 1024 * 1024, ck_version = V1_1\<rparr>"

datatype cook_result = Complete_input | Retry | Exit_error

text \<open>
  The loop over the records; \<open>proc\<close> formats the parser's current record and flushes the
  output, \<open>count\<close> is the position of the reader.
\<close>

partial_function (option) cook_loop ::
  "'s getter \<Rightarrow> ('s \<Rightarrow> u64) \<Rightarrow> u64 \<Rightarrow> ('s raw_parser \<Rightarrow> 'o \<Rightarrow> 'o) \<Rightarrow> 's raw_parser \<Rightarrow> 'o \<Rightarrow> u64 \<Rightarrow> ('s raw_parser \<times> 'o \<times> u64 \<times> u64) option" where
  "cook_loop get count area proc p out nrecs = do {
     let offset = count (rp_in p);
     (got, p) \<leftarrow> rp_next get area p;
     if \<not> got then Some (p, out, nrecs, offset)
     else cook_loop get count area proc p (proc p out) (nrecs + 1)
   }"

text \<open>\<^verbatim>\<open>find_first_of\<close> looks for any of the characters, not for the string.\<close>

definition starts_with_any :: "string \<Rightarrow> string \<Rightarrow> bool" where
  "starts_with_any cs s \<longleftrightarrow> (case s of [] \<Rightarrow> False | c # _ \<Rightarrow> c \<in> set cs)"

definition cook_verdict :: "cook_opts \<Rightarrow> 's raw_parser \<Rightarrow> u64 \<Rightarrow> cook_result" where
  "cook_verdict opts p nrecs =
     (if rp_failed p
      then (if ck_min_valid_recs opts \<noteq> 0 \<and> nrecs \<ge> ucast (ck_min_valid_recs opts) then Complete_input
            else if starts_with_any ''format:'' (rp_error p) then Retry
            else Complete_input)
      else Complete_input)"

text \<open>
  \<open>opened\<close> is the outcome of opening the input, \<open>alloc\<close> that of the two allocations of
  the parser.
\<close>

definition reprocess ::
  "(nat \<Rightarrow> u8) \<Rightarrow> bool \<times> bool \<Rightarrow> u64 \<Rightarrow> cook_opts \<Rightarrow> bool \<times> file_rdbuf \<Rightarrow> u64 \<Rightarrow> (file_rdbuf raw_parser \<Rightarrow> 'o \<Rightarrow> 'o) \<Rightarrow> 'o
    \<Rightarrow> (cook_result \<times> 'o) option" where
  "reprocess junk alloc area opts opened offset proc out =
     (case opened of (valid, src) \<Rightarrow>
       if \<not> valid then Some (Exit_error, out)
       else
         let p = rp_new junk (fst alloc) (snd alloc) src (ck_version opts) (ck_max_record_size opts) in
         if rp_failed p then Some (Exit_error, out)
         else do {
           p \<leftarrow> (if offset \<noteq> 0
                then map_option (\<lambda>(_, _, src). p\<lparr>rp_in := src\<rparr>) (rd_read (unat (ucast offset :: u32)) (rp_in p))
                else Some p);
           (p, out, nrecs, _) \<leftarrow> cook_loop rd_read rd_count area proc p out 0;
           Some (cook_verdict opts p nrecs, out)
         })"

text \<open>\<open>open_at offset\<close> is the input as it is opened for the attempt at \<open>offset\<close>.\<close>

partial_function (option) cook_from ::
  "(nat \<Rightarrow> u8) \<Rightarrow> bool \<times> bool \<Rightarrow> u64 \<Rightarrow> cook_opts \<Rightarrow> (u64 \<Rightarrow> bool \<times> file_rdbuf) \<Rightarrow> (file_rdbuf raw_parser \<Rightarrow> 'o \<Rightarrow> 'o) \<Rightarrow> u64 \<Rightarrow> 'o
    \<Rightarrow> (cook_result \<times> 'o) option" where
  "cook_from junk alloc area opts open_at proc offset out = do {
     (res, out) \<leftarrow> reprocess junk alloc area opts (open_at offset) offset proc out;
     (case res of
        Retry \<Rightarrow>
          (let offset = offset + 1
           in if offset > ucast (ck_max_record_size opts) then Some (Exit_error, out)
              else cook_from junk alloc area opts open_at proc offset out)
      | _ \<Rightarrow> Some (res, out))
   }"

definition cook_process ::
  "(nat \<Rightarrow> u8) \<Rightarrow> bool \<times> bool \<Rightarrow> u64 \<Rightarrow> cook_opts \<Rightarrow> (u64 \<Rightarrow> bool \<times> file_rdbuf) \<Rightarrow> (file_rdbuf raw_parser \<Rightarrow> 'o \<Rightarrow> 'o) \<Rightarrow> 'o
    \<Rightarrow> (cook_result \<times> 'o) option" where
  "cook_process junk alloc area opts open_at proc out = cook_from junk alloc area opts open_at proc 0 out"

definition get_version :: "string \<Rightarrow> raw_version option" where
  "get_version s = map_of [(''1.0'', V1), (''1.1'', V1_1)] s"

text \<open>Writing a log with the raw format: one record after the other.\<close>

fun raw_write_all :: "'a flusher \<Rightarrow> memory \<Rightarrow> (u64 \<Rightarrow> area option) \<Rightarrow> fmt_data list \<Rightarrow> 'a ostrbuf_scheme \<Rightarrow> 'a ostrbuf_scheme option" where
  "raw_write_all f mem areas [] s = Some s"
| "raw_write_all f mem areas (d # ds) s = do {
     s \<leftarrow> raw_process f mem areas d s;
     raw_write_all f mem areas ds s
   }"

section \<open>A log and its records\<close>

definition data_image :: "memory \<Rightarrow> (u64 \<Rightarrow> area option) \<Rightarrow> fmt_data \<Rightarrow> bytes" where
  "data_image mem areas d = raw_image d (the (names_of areas (fd_record d))) (the (args_view mem (fd_record d)))"

lemma data_viewD:
  assumes "data_view mem areas d = Some lv"
  obtains nms vs where "names_of areas (fd_record d) = Some nms" "args_view mem (fd_record d) = Some vs"
    "data_image mem areas d = raw_image d nms vs"
  using assms by (auto simp: data_view_def data_image_def bind_eq_Some_conv)

lemma raw_write_pushes:
  assumes "list_all2 (\<lambda>d lv. data_view mem areas d = Some lv) ds lvs"
  shows "\<exists>g. (\<forall>s. raw_write_all f mem areas ds s = Some (g s)) \<and> pushes g (ob_push f) (concat (map (data_image mem areas) ds))"
  using assms
proof (induction ds lvs rule: list_all2_induct)
  case Nil
  then show ?case by (auto intro!: exI [of _ "\<lambda>s. s"] pushes_id)
next
  case (Cons d ds lv lvs)
  obtain nms vs where v: "names_of areas (fd_record d) = Some nms" "args_view mem (fd_record d) = Some vs"
    "data_image mem areas d = raw_image d nms vs" by (rule data_viewD [OF Cons.hyps(1)])
  obtain g where g: "\<And>s. raw_process f mem areas d s = Some (g s)" "pushes g (ob_push f) (raw_image d nms vs)"
    using raw_process_image [OF v(1,2), of f] by blast
  obtain h where h: "\<forall>s. raw_write_all f mem areas ds s = Some (h s)" "pushes h (ob_push f) (concat (map (data_image mem areas) ds))"
    using Cons.IH by blast
  have "\<forall>s. raw_write_all f mem areas (d # ds) s = Some (h (g s))" using g(1) h(1) by simp
  with pushes_comp [OF g(2) h(2)] v(3) show ?case by (intro exI [of _ "\<lambda>s. h (g s)"]) simp
qed

text \<open>A format handler that depends on what is in the record only.\<close>

definition of_view :: "(log_view \<Rightarrow> 'o \<Rightarrow> 'o) \<Rightarrow> 's raw_parser \<Rightarrow> 'o \<Rightarrow> 'o" where
  "of_view F p out = (case parser_view p of Some lv \<Rightarrow> F lv out | None \<Rightarrow> out)"

context byte_source begin

lemma cook_loop_ok:
  assumes "list_all2 (\<lambda>d lv. data_view mem areas d = Some lv) ds lvs" and "list_all (raw_ok room) lvs"
    and "fine (rp_in p)" and "rp_wf room p" and "avail (rp_in p) = concat (map (data_image mem areas) ds) @ tail" and "length tail < 8"
  shows "\<exists>q off. cook_loop get count addr (of_view F) p out n = Some (q, fold F lvs out, n + word_of_nat (length ds), off) \<and> \<not> rp_failed q"
  using assms
proof (induction ds lvs arbitrary: p out n rule: list_all2_induct)
  case Nil
  obtain q where "rp_next get addr p = Some (False, q)" "\<not> rp_failed q"
    using next_end [OF Nil(2,3)] Nil(4,5) by auto
  then show ?case by (subst cook_loop.simps) simp
next
  case (Cons d ds lv lvs)
  obtain nms vs where v: "names_of areas (fd_record d) = Some nms" "args_view mem (fd_record d) = Some vs"
    "data_image mem areas d = raw_image d nms vs" by (rule data_viewD [OF Cons.hyps(1)])
  have ok: "raw_ok room lv" "list_all (raw_ok room) lvs" using Cons.prems(1) by simp_all
  have av: "avail (rp_in p) = raw_image d nms vs @ (concat (map (data_image mem areas) ds) @ tail)"
    using Cons.prems(4) v(3) by simp
  obtain q where q: "rp_next get addr p = Some (True, q)" "parser_view q = Some lv" "rp_wf room q" "fine (rp_in q)"
    "avail (rp_in q) = concat (map (data_image mem areas) ds) @ tail"
    by (rule next_ok [OF Cons.prems(2,3) v(1,2) Cons.hyps(1) ok(1) av])
  obtain q' off where "cook_loop get count addr (of_view F) q (F lv out) (n + 1)
      = Some (q', fold F lvs (F lv out), n + 1 + word_of_nat (length ds), off)" "\<not> rp_failed q'"
    using Cons.IH [OF ok(2) q(4,3,5) Cons.prems(5), of "F lv out" "n + 1"] by blast
  with q(1,2) show ?case
    by (subst cook_loop.simps) (simp add: of_view_def add.assoc)
qed

end

lemma rp_new_wf:
  assumes "160 \<le> unat mx"
  shows "rp_wf (unat mx - 32) (rp_new junk True True src V1_1 mx)" and "rp_in (rp_new junk True True src V1_1 mx) = src"
  using assms unat_less [of mx] by (simp_all add: rp_new_def rp_wf_def rp_reset_def Let_def header_size_def MAX_NAME_LEN_def)

text \<open>A sample: a number, a string and a global string at address 100.\<close>

definition demo_mem :: memory where
  "demo_mem p = (if p = 100 then 104 else if p = 101 then 105 else 0)"

definition demo_data :: fmt_data where
  "demo_data = \<lparr>fd_ring_name = ''R0'',
     fd_record = \<lparr>r_area = 0, r_timestamp = 1700000000000000000, r_seqnum = 9, r_section = 0, r_argtype = 0x871,
       r_argval = [5, 0, 0, 0, 0, 0, 0, 0, 24, 0, 0, 0, 2, 0, 0, 0, 100, 0, 0, 0, 0, 0, 0, 0, 97, 98, 0]\<rparr>\<rparr>"

definition demo_view :: log_view where
  "demo_view = \<lparr>lv_timestamp = 1700000000000000000, lv_seqnum = 9, lv_ring = str_bytes ''R0'', lv_area = str_bytes ''INVALID'',
     lv_section = str_bytes ''INVALID'', lv_args = [(1, V32 5), (7, VBytes [97, 98]), (7, VBytes [104, 105])]\<rparr>"

definition demo_opts :: cook_opts where
  "demo_opts = \<lparr>ck_min_valid_recs = 4, ck_max_record_size = 300, ck_version = V1_1\<rparr>"

definition demo_stream :: "ostrbuf_fd" where
  "demo_stream = fd_new True 5 0 4096 (\<lambda>_. Complete)"

definition demo_written :: "ostrbuf_fd" where
  "demo_written = ob_flush fd_do_flush (the (raw_write_all fd_do_flush demo_mem (\<lambda>_. None) [demo_data, demo_data] demo_stream))"

definition demo_src :: file_rdbuf where
  "demo_src = \<lparr>rd_pend = [], rd_capacity = 7, rd_count = 0, rd_tailf = False, rd_errno = 0, rd_file = fd_sink demo_written,
     rd_reads = \<lambda>_. Inl 3, rd_notes = \<lambda>_. Inl [], rd_calls = 0, rd_waits = 0\<rparr>"

declare mem_strlen.simps [code]

lemma demo_args_view: "args_view demo_mem (fd_record demo_data) = Some [(1, V32 5), (7, VBytes [97, 98]), (7, VBytes [104, 105])]"
  by code_simp

lemma demo_data_view: "data_view demo_mem (\<lambda>_. None) demo_data = Some demo_view"
  using demo_args_view by (simp add: data_view_def names_of_def demo_data_def demo_view_def to_nsec_def)

lemma demo_raw_ok: "raw_ok 268 demo_view"
  by (simp add: raw_ok_def demo_view_def good_name_def is_print_def str_bytes_def of_char_def)

lemma demo_image_length: "length (data_image demo_mem (\<lambda>_. None) demo_data) \<le> 1000"
  unfolding data_image_def demo_args_view
  by (simp add: raw_image_def names_of_def demo_data_def blob_image_def str_bytes_def Let_def)

text \<open>What fits the buffer waits there for the flush.\<close>

lemma fold_push_buffered:
  "length (ob_buf s @ concat ps) \<le> unat (ob_capacity s) \<Longrightarrow> fold (ob_push f) ps s = s\<lparr>ob_buf := ob_buf s @ concat ps\<rparr>"
  by (induction ps arbitrary: s) (simp_all add: ob_push_def ob_room_def ob_do_copy_def)

lemma fd_flush_complete:
  "\<not> ob_failed s \<Longrightarrow> fd_io s (fd_calls s) = Complete \<Longrightarrow> length (ob_buf s) < 2 ^ 31 \<Longrightarrow> \<not> ob_failed (ob_flush fd_do_flush s)"
  by (simp add: ob_flush_def fd_do_flush_def Let_def ob_reset_def)

lemma demo_views: "list_all2 (\<lambda>d lv. data_view demo_mem (\<lambda>_. None) d = Some lv) [demo_data, demo_data] [demo_view, demo_view]"
  by (simp add: demo_data_view)

lemma demo_stream_ok: "fd_complete demo_stream" "ob_buf demo_stream = []" "fd_sink demo_stream = []"
  by (simp_all add: demo_stream_def fd_complete_def fd_new_def ob_new_def ostrbuf.defs ostrbuf_fd.defs Let_def)

lemma demo_src_fine: "rd_fine demo_src"
  by (simp add: rd_fine_def demo_src_def)

lemma demo_log_written:
  obtains t where "raw_write_all fd_do_flush demo_mem (\<lambda>_. None) [demo_data, demo_data] demo_stream = Some t"
    "\<not> ob_failed (ob_flush fd_do_flush t)" "rd_left demo_src = fd_sink (ob_flush fd_do_flush t)"
proof -
  let ?i = "data_image demo_mem (\<lambda>_. None) demo_data"
  obtain t ps where t: "raw_write_all fd_do_flush demo_mem (\<lambda>_. None) [demo_data, demo_data] demo_stream = Some t"
    and ps: "concat ps = ?i @ ?i" "t = fold (ob_push fd_do_flush) ps demo_stream"
    using raw_write_pushes [OF demo_views, of fd_do_flush] by (auto simp: pushes_def)
  have s: "ob_capacity demo_stream = 4096" "\<not> ob_failed demo_stream" "fd_io demo_stream = (\<lambda>_. Complete)"
    by (simp_all add: demo_stream_def fd_new_def ob_new_def ostrbuf.defs ostrbuf_fd.defs Let_def)
  then have "t = demo_stream\<lparr>ob_buf := ?i @ ?i\<rparr>"
    using ps demo_image_length demo_stream_ok(2) fold_push_buffered [of demo_stream ps fd_do_flush] by simp
  then have "\<not> ob_failed (ob_flush fd_do_flush t)" using s demo_image_length by (intro fd_flush_complete) simp_all
  moreover have "demo_written = ob_flush fd_do_flush t" by (simp only: demo_written_def t option.sel)
  then have "rd_left demo_src = fd_sink (ob_flush fd_do_flush t)" by (simp add: demo_src_def rd_left_def)
  ultimately show thesis using t that by blast
qed

text \<open>The tool on a log that the raw format wrote.\<close>

lemma cook_process_log:
  assumes views: "list_all2 (\<lambda>d lv. data_view mem areas d = Some lv) ds lvs"
    and fits: "list_all (raw_ok (unat (ck_max_record_size opts) - 32)) lvs"
    and opts: "ck_version opts = V1_1" "160 \<le> unat (ck_max_record_size opts)"
    and stream: "fd_complete s" "ob_buf s = []" "fd_sink s = []"
    and written: "raw_write_all fd_do_flush mem areas ds s = Some t" "\<not> ob_failed (ob_flush fd_do_flush t)"
    and input: "open_at 0 = (True, src)" "rd_fine src" "rd_left src = fd_sink (ob_flush fd_do_flush t)"
  shows "cook_process junk (True, True) area opts open_at (of_view F) out = Some (Complete_input, fold F lvs out)"
proof -
  obtain g where g: "\<forall>s. raw_write_all fd_do_flush mem areas ds s = Some (g s)"
    "pushes g (ob_push fd_do_flush) (concat (map (data_image mem areas) ds))"
    using raw_write_pushes [OF views, of fd_do_flush] by blast
  obtain ps where ps: "concat ps = concat (map (data_image mem areas) ds)" "t = fold (ob_push fd_do_flush) ps s"
    using g written(1) by (auto simp: pushes_def)
  have "fd_sink (ob_flush fd_do_flush t) = concat (map (data_image mem areas) ds)"
    using fdo.push_flush(1) [OF stream(1), of ps] written(2) stream(2,3) ps by simp
  then have av: "rd_left src = concat (map (data_image mem areas) ds) @ []" using input(3) by simp
  let ?p = "rp_new junk True True src V1_1 (ck_max_record_size opts)"
  note p = rp_new_wf [OF opts(2), of junk src]
  have "rd_left (rp_in ?p) = concat (map (data_image mem areas) ds) @ []" "rd_fine (rp_in ?p)" using av input(2) p(2) by simp_all
  from frd.cook_loop_ok [OF views fits this(2) p(1) this(1), of rd_count area F out 0]
  obtain q off where q: "cook_loop rd_read rd_count area (of_view F) ?p out 0 = Some (q, fold F lvs out, word_of_nat (length ds), off)"
    "\<not> rp_failed q" by auto
  have "\<not> rp_failed ?p" using p(1) by (simp add: rp_wf_def)
  then have "reprocess junk (True, True) area opts (open_at 0) 0 (of_view F) out = Some (Complete_input, fold F lvs out)"
    using q input(1) opts(1) by (simp add: reprocess_def Let_def cook_verdict_def)
  then show ?thesis unfolding cook_process_def by (subst cook_from.simps) simp
qed

end
