(* ===== verification/Ntos.thy ===== *)
theory Ntos
  imports Ostrbuf
begin

text \<open>
  Numbers as text. \<open>dec\<close>, \<open>hex\<close> and \<open>pad0\<close> are the reference: what \<^verbatim>\<open>printf\<close> and the
  stream inserters of the standard library produce. \<^verbatim>\<open>u64tod\<close> and \<^verbatim>\<open>u64tox\<close>
  (\<^verbatim>\<open>include/hogl/detail/ntos.hpp\<close>) are the hand-written converters, with their array of
  32 digits and the caller's buffer; a write outside either is \<open>None\<close>.
\<close>

section \<open>The reference\<close>

definition digit :: "nat \<Rightarrow> char" where
  "digit n = char_of (if n < 10 then 48 + n else 87 + n)"

fun num_of :: "nat \<Rightarrow> nat \<Rightarrow> string" where
  "num_of b n = (if b < 2 \<or> n < b then [digit n] else num_of b (n div b) @ [digit (n mod b)])"

declare num_of.simps [simp del]

abbreviation dec :: "nat \<Rightarrow> string" where
  "dec \<equiv> num_of 10"

abbreviation hex :: "nat \<Rightarrow> string" where
  "hex \<equiv> num_of 16"

definition pad_left :: "char \<Rightarrow> nat \<Rightarrow> string \<Rightarrow> string" where
  "pad_left c w s = replicate (w - length s) c @ s"

abbreviation pad0 :: "nat \<Rightarrow> nat \<Rightarrow> string" where
  "pad0 w n \<equiv> pad_left CHR ''0'' w (dec n)"

definition is_digit :: "char \<Rightarrow> bool" where
  "is_digit c \<longleftrightarrow> 48 \<le> (of_char c :: nat) \<and> (of_char c :: nat) \<le> 57"

definition undec :: "string \<Rightarrow> nat" where
  "undec s = fold (\<lambda>c a. 10 * a + (of_char c - 48)) s 0"

lemma length_num_of:
  assumes "2 \<le> b" and "0 < k"
  shows "length (num_of b n) \<le> k \<longleftrightarrow> n < b ^ k"
  using assms
proof (induction b n arbitrary: k rule: num_of.induct)
  case (1 b n)
  show ?case
  proof (cases "n < b")
    case True
    have "b \<le> b ^ k" using "1.prems" by (simp add: self_le_power)
    with True "1.prems" show ?thesis by (simp add: num_of.simps [of b n])
  next
    case False
    have "length (num_of b n) \<le> k \<longleftrightarrow> length (num_of b (n div b)) \<le> k - 1"
      using False "1.prems" by (auto simp: num_of.simps [of b n])
    also have "\<dots> \<longleftrightarrow> n div b < b ^ (k - 1)"
    proof (cases "k = 1")
      case True
      have "num_of b (n div b) \<noteq> []" by (simp add: num_of.simps [of b "n div b"])
      moreover have "n div b \<noteq> 0" using False "1.prems" by (simp add: div_eq_0_iff)
      ultimately show ?thesis using True by simp
    next
      case k: False
      with "1.IH" [of "k - 1"] False "1.prems" show ?thesis by simp
    qed
    also have "\<dots> \<longleftrightarrow> n < b ^ k"
      using "1.prems" by (cases k) (simp_all add: less_mult_imp_div_less div_less_iff_less_mult mult.commute)
    finally show ?thesis .
  qed
qed

lemma num_of_nonempty [simp]: "num_of b n \<noteq> []"
  by (subst num_of.simps) simp

lemma is_digit_digit: "n < 10 \<Longrightarrow> is_digit (digit n)"
  by (simp add: is_digit_def digit_def)

lemma dec_digits: "list_all is_digit (dec n)"
proof (induction n rule: less_induct)
  case (less n)
  then show ?case by (subst num_of.simps) (simp add: is_digit_digit)
qed

lemma undec_snoc: "undec (s @ [c]) = 10 * undec s + (of_char c - 48)"
  by (simp add: undec_def)

lemma undec_dec: "undec (dec n) = n"
proof (induction n rule: less_induct)
  case (less n)
  show ?case
  proof (cases "n < 10")
    case True
    then show ?thesis by (simp add: num_of.simps undec_def digit_def)
  next
    case False
    then have "undec (dec n) = 10 * undec (dec (n div 10)) + n mod 10"
      by (subst num_of.simps) (simp add: undec_snoc digit_def)
    with less.IH [of "n div 10"] False show ?thesis by simp
  qed
qed

lemma undec_zeros: "undec (replicate k CHR ''0'' @ s) = undec s"
proof -
  have "fold (\<lambda>c a. 10 * a + (of_char c - 48 :: nat)) (replicate k CHR ''0'') 0 = 0"
    by (induction k) simp_all
  then show ?thesis by (simp add: undec_def)
qed

lemma undec_pad0: "undec (pad0 w n) = n"
  by (simp add: pad_left_def undec_zeros undec_dec)

lemma length_pad0: "0 < w \<Longrightarrow> n < 10 ^ w \<Longrightarrow> length (pad0 w n) = w"
  using length_num_of [of 10 w n] by (simp add: pad_left_def)

lemma pad0_digits: "list_all is_digit (pad0 w n)"
  using dec_digits [of n] by (auto simp: pad_left_def list_all_iff is_digit_def)

section \<open>The converters\<close>

text \<open>The digits come in reverse order.\<close>

lemma unat_div_less: "v div b \<noteq> 0 \<Longrightarrow> 2 \<le> unat b \<Longrightarrow> unat (v div b :: u64) < unat v"
proof -
  assume a: "v div b \<noteq> 0" "2 \<le> unat b"
  then have "0 < unat v div unat b" by (simp add: unat_gt_0 flip: unat_div)
  then have "0 < unat v" using div_le_dividend [of "unat v" "unat b"] by linarith
  then show ?thesis using a(2) by (simp add: unat_div)
qed

function dec_digits_rev :: "u64 \<Rightarrow> bytes" where
  "dec_digits_rev v = (ucast (v mod 10) + 0x30) # (if v div 10 \<noteq> 0 then dec_digits_rev (v div 10) else [])"
  by pat_completeness auto
termination by (relation "measure unat") (auto intro: unat_div_less)

lemma drop_bit_4_div: "drop_bit 4 (v :: u64) = v div 16"
  by (simp add: drop_bit_eq_div)

function hex_digits_rev :: "u64 \<Rightarrow> bytes" where
  "hex_digits_rev v = (str_bytes ''0123456789abcdef'' ! unat (v AND 0xf)) # (if drop_bit 4 v \<noteq> 0 then hex_digits_rev (drop_bit 4 v) else [])"
  by pat_completeness auto
termination by (relation "measure unat") (auto simp: drop_bit_4_div intro: unat_div_less)

declare dec_digits_rev.simps [simp del] hex_digits_rev.simps [simp del]

definition copy_digits :: "bytes \<Rightarrow> nat \<Rightarrow> u8 \<Rightarrow> bytes \<times> nat \<Rightarrow> (bytes \<times> nat) option" where
  "copy_digits ds width padc s =
     (case s of (str, i) \<Rightarrow>
        let ds = ds @ replicate (width - length ds) padc
        in if length ds > 32 then None else map_option (\<lambda>str. (str, i + length ds)) (poke str i (rev ds)))"

definition u64tox :: "u64 \<Rightarrow> nat \<Rightarrow> u8 \<Rightarrow> bytes \<times> nat \<Rightarrow> (bytes \<times> nat) option" where
  "u64tox v width padc s = copy_digits (hex_digits_rev v) width padc s"

definition u64tod :: "u64 \<Rightarrow> nat \<Rightarrow> u8 \<Rightarrow> bytes \<times> nat \<Rightarrow> (bytes \<times> nat) option" where
  "u64tod v width padc s =
     (let width = (if width > 32 then 32 else width)
      in copy_digits (dec_digits_rev v) width padc s)"

lemma str_bytes_simps [simp]:
  "str_bytes [] = []" "str_bytes (c # s) = of_char c # str_bytes s" "str_bytes (s @ t) = str_bytes s @ str_bytes t"
  "length (str_bytes s) = length s" "str_bytes (replicate n c) = replicate n (of_char c)"
  by (simp_all add: str_bytes_def)

lemma rev_dec_digits: "rev (dec_digits_rev v) = str_bytes (dec (unat v))"
proof (induction v rule: dec_digits_rev.induct)
  case (1 v)
  have m: "unat (v mod 10) = unat v mod 10" "unat (v div 10) = unat v div 10" by (simp_all add: unat_mod unat_div)
  have tab: "\<forall>k < 10. of_char (digit k) = (word_of_nat k + 0x30 :: u8)" by code_simp
  have "(ucast (v mod 10) :: u8) = word_of_nat (unat v mod 10)"
    by (simp add: word_unat_eq_iff unsigned_ucast_eq unsigned_of_nat m)
  then have d: "(ucast (v mod 10) + 0x30 :: u8) = of_char (digit (unat v mod 10))" using tab by simp
  show ?case
  proof (cases "v div 10 = 0")
    case True
    then have "unat v div 10 = 0" using m(2) by simp
    then have "unat v < 10" by (simp add: div_eq_0_iff)
    then show ?thesis using True d by (simp add: dec_digits_rev.simps [of v] num_of.simps [of 10 "unat v"])
  next
    case False
    then have "unat v div 10 \<noteq> 0" using m(2) by (metis unat_eq_zero)
    then have "\<not> unat v < 10" by (simp add: div_eq_0_iff)
    then show ?thesis using "1.IH" [OF False] False d m(2) by (simp add: dec_digits_rev.simps [of v] num_of.simps [of 10 "unat v"])
  qed
qed

lemma rev_hex_digits: "rev (hex_digits_rev v) = str_bytes (hex (unat v))"
proof (induction v rule: hex_digits_rev.induct)
  case (1 v)
  have f: "(0xf :: u64) = mask 4" by (simp add: mask_eq_exp_minus_1)
  have m: "unat (v AND 0xf) = unat v mod 16" "unat (drop_bit 4 v) = unat v div 16"
    unfolding f unat_and_mask by (simp_all add: unat_div drop_bit_4_div)
  have tab: "\<forall>k < 16. str_bytes ''0123456789abcdef'' ! k = of_char (digit k)" by code_simp
  have d: "str_bytes ''0123456789abcdef'' ! unat (v AND 0xf) = of_char (digit (unat v mod 16))" using tab m(1) by simp
  show ?case
  proof (cases "drop_bit 4 v = 0")
    case True
    then have "unat v div 16 = 0" using m(2) by simp
    then have "unat v < 16" by (simp add: div_eq_0_iff)
    then show ?thesis using True d by (simp add: hex_digits_rev.simps [of v] num_of.simps [of 16 "unat v"])
  next
    case False
    then have "unat v div 16 \<noteq> 0" using m(2) by (metis unat_eq_zero)
    then have "\<not> unat v < 16" by (simp add: div_eq_0_iff)
    then show ?thesis using "1.IH" [OF False] False d m(2) by (simp add: hex_digits_rev.simps [of v] num_of.simps [of 16 "unat v"])
  qed
qed


section \<open>Properties\<close>

lemma copy_digits_ok:
  assumes "length ds \<le> 32" and "width \<le> 32" and "i + max width (length ds) \<le> length str"
  shows "copy_digits ds width padc (str, i)
    = map_option (\<lambda>str. (str, i + max width (length ds))) (poke str i (replicate (width - length ds) padc @ rev ds))"
  using assms by (simp add: copy_digits_def Let_def max_def)

lemma u64tod_ok:
  assumes "width \<le> 32" and "i + max width (length (dec (unat v))) \<le> length str"
  shows "u64tod v width (of_char c) (str, i) = map_option (\<lambda>str. (str, i + max width (length (dec (unat v)))))
    (poke str i (str_bytes (pad_left c width (dec (unat v)))))"
proof -
  have r: "rev (dec_digits_rev v) = str_bytes (dec (unat v))" by (rule rev_dec_digits)
  then have l: "length (dec_digits_rev v) = length (dec (unat v))" by (metis length_rev str_bytes_simps(4))
  have "unat v < 2 ^ 64" using unat_less [of v] by simp
  then have "unat v < 10 ^ 32" by (rule less_le_trans) simp
  then have "length (dec (unat v)) \<le> 32" using length_num_of [of 10 32 "unat v"] by simp
  then show ?thesis
    using assms l r copy_digits_ok [of "dec_digits_rev v" width i str "of_char c"]
    by (simp add: u64tod_def Let_def pad_left_def)
qed

lemma u64tox_ok:
  assumes "width \<le> 32" and "i + max width (length (hex (unat v))) \<le> length str"
  shows "u64tox v width (of_char c) (str, i) = map_option (\<lambda>str. (str, i + max width (length (hex (unat v)))))
    (poke str i (str_bytes (pad_left c width (hex (unat v)))))"
proof -
  have r: "rev (hex_digits_rev v) = str_bytes (hex (unat v))" by (rule rev_hex_digits)
  then have l: "length (hex_digits_rev v) = length (hex (unat v))" by (metis length_rev str_bytes_simps(4))
  have "unat v < 2 ^ 64" using unat_less [of v] by simp
  then have "unat v < 16 ^ 32" by (rule less_le_trans) simp
  then have "length (hex (unat v)) \<le> 32" using length_num_of [of 16 32 "unat v"] by simp
  then show ?thesis
    using assms l r copy_digits_ok [of "hex_digits_rev v" width i str "of_char c"]
    by (simp add: u64tox_def pad_left_def)
qed

end
