(* ===== verification/Schedparam.thy ===== *)
theory Schedparam
  imports Ntos
begin

text \<open>
  Scheduling parameters (\<^verbatim>\<open>include/hogl/detail/schedparam.hpp\<close>, \<^verbatim>\<open>src/schedparam.cc\<close>,
  the Linux variant): CPU sets from a list or a mask in text form, and applying the
  parameters to a thread. A CPU set is the list of its bits. Strings are read up to their
  NUL, as \<^verbatim>\<open>c_str\<close> gives them. Shifting an \<^verbatim>\<open>int\<close> by 32 or more is undefined and is
  \<open>None\<close>.
\<close>

section \<open>Definitions\<close>

definition EINVAL :: int where "EINVAL = 22"

definition ERANGE :: int where "ERANGE = 34"

type_synonym cpumask = "bool list"

definition cpumask_new :: "nat \<Rightarrow> cpumask" where
  "cpumask_new capacity = replicate capacity False"

definition cpumask_set :: "nat \<Rightarrow> cpumask \<Rightarrow> cpumask" where
  [simp]: "cpumask_set i m = m[i := True]"

text \<open>\<^verbatim>\<open>strtoul\<close> at a digit: the value, saturated, and the rest of the string.\<close>

definition strtoul_at :: "string \<Rightarrow> u64 \<times> string" where
  "strtoul_at s =
     (let v = undec (takeWhile is_digit s)
      in (if v \<ge> 2 ^ 64 then - 1 else word_of_nat v, dropWhile is_digit s))"

definition at_digit :: "string \<Rightarrow> bool" where
  "at_digit s \<longleftrightarrow> s \<noteq> [] \<and> is_digit (hd s)"

text \<open>One entry: a number or a range, or nothing when the text is not valid.\<close>

definition cpu_entry :: "string \<Rightarrow> (u32 \<times> u32 \<times> string) option" where
  "cpu_entry s =
     (if \<not> at_digit s then None
      else let (v, s) = strtoul_at s; a = ucast v in
        (case s of
           c # t \<Rightarrow>
             (if c = CHR ''-''
              then (if \<not> at_digit t then None else let (v, t) = strtoul_at t in Some (a, ucast v, t))
              else Some (a, a, s))
         | [] \<Rightarrow> Some (a, a, [])))"

definition skip_comma :: "string \<Rightarrow> string" where
  "skip_comma s = (if s \<noteq> [] \<and> hd s = CHR '','' then tl s else s)"

lemma strtoul_at_shorter: "at_digit s \<Longrightarrow> length (snd (strtoul_at s)) < length s"
  using length_dropWhile_le [of is_digit "tl s"]
  by (cases s) (auto simp: at_digit_def strtoul_at_def Let_def less_Suc_eq_le)

lemma cpu_entry_shorter:
  assumes "cpu_entry s = Some (a, b, t)"
  shows "length (skip_comma t) < length s"
proof -
  have d: "at_digit s"
    using assms by (auto simp: cpu_entry_def split: if_splits)
  then have l: "length (snd (strtoul_at s)) < length s" by (rule strtoul_at_shorter)
  have "length t < length s"
  proof (cases "snd (strtoul_at s)")
    case Nil
    then show ?thesis using assms d l by (auto simp: cpu_entry_def split_beta Let_def)
  next
    case (Cons c u)
    show ?thesis
    proof (cases "c = CHR ''-''")
      case True
      then have "at_digit u" and "t = snd (strtoul_at u)"
        using assms d Cons by (auto simp: cpu_entry_def split_beta Let_def split: if_splits)
      then show ?thesis using strtoul_at_shorter [of u] l Cons by simp
    next
      case False
      then have "t = snd (strtoul_at s)"
        using assms d Cons by (auto simp: cpu_entry_def split_beta Let_def split: if_splits)
      then show ?thesis using l by simp
    qed
  qed
  then show ?thesis by (auto simp: skip_comma_def)
qed

definition set_range :: "u32 \<Rightarrow> u32 \<Rightarrow> cpumask \<Rightarrow> cpumask" where
  "set_range a b m = fold cpumask_set [unat a..<Suc (unat b)] m"

function parse_cpulist_from :: "string \<Rightarrow> cpumask \<Rightarrow> int \<times> cpumask" where
  "parse_cpulist_from s m =
     (case cpu_entry s of
        None \<Rightarrow> (EINVAL, m)
      | Some (a, b, t) \<Rightarrow>
          (if \<not> a \<le> b then (EINVAL, m)
           else if unat b \<ge> length m then (ERANGE, m)
           else let m = set_range a b m; t = skip_comma t
             in if t \<noteq> [] then parse_cpulist_from t m else (0, m)))"
  by pat_completeness auto
termination by (relation "measure (length \<circ> fst)") (auto simp: cpu_entry_shorter)

declare parse_cpulist_from.simps [simp del]

definition c_text :: "string \<Rightarrow> string" where
  "c_text s = takeWhile (\<lambda>c. c \<noteq> CHR 0x00) s"

definition parse_cpulist :: "string \<Rightarrow> cpumask \<Rightarrow> int \<times> cpumask" where
  "parse_cpulist str m = parse_cpulist_from (c_text str) m"

text \<open>\<^verbatim>\<open>strtoull\<close> with base 0: value, saturated and range error, and the number of characters used.\<close>

definition digit_value :: "char \<Rightarrow> nat" where
  "digit_value c =
     (let k = of_char c :: nat
      in if 48 \<le> k \<and> k \<le> 57 then k - 48 else if 97 \<le> k \<and> k \<le> 122 then k - 87 else if 65 \<le> k \<and> k \<le> 90 then k - 55 else 36)"

definition strtoull0 :: "string \<Rightarrow> u64 \<times> nat \<times> bool" where
  "strtoull0 s =
     (let ws = takeWhile (\<lambda>c. c = CHR '' '' \<or> 9 \<le> (of_char c :: nat) \<and> (of_char c :: nat) \<le> 13) s;
          s = drop (length ws) s;
          sgn = (if s \<noteq> [] \<and> (hd s = CHR ''-'' \<or> hd s = CHR ''+'') then 1 else 0 :: nat);
          neg = (s \<noteq> [] \<and> hd s = CHR ''-'');
          s = drop sgn s;
          hx = (length s > 2 \<and> hd s = CHR ''0'' \<and> (s ! 1 = CHR ''x'' \<or> s ! 1 = CHR ''X'') \<and> digit_value (s ! 2) < 16);
          base = (if hx then 16 else if s \<noteq> [] \<and> hd s = CHR ''0'' then 8 else 10 :: nat);
          s = (if hx then drop 2 s else s);
          ds = takeWhile (\<lambda>c. digit_value c < base) s;
          v = fold (\<lambda>c a. base * a + digit_value c) ds 0;
          used = (if ds = [] then 0 else length ws + sgn + (if hx then 2 else 0) + length ds)
      in if v \<ge> 2 ^ 64 then (- 1, used, True) else (if neg then - word_of_nat v else word_of_nat v, used, False))"

text \<open>The bits of the mask; \<^verbatim>\<open>1<<i\<close> is an \<^verbatim>\<open>int\<close> that is sign-extended.\<close>

fun mask_bits :: "u64 \<Rightarrow> nat list \<Rightarrow> cpumask \<Rightarrow> cpumask option" where
  "mask_bits v [] m = Some m"
| "mask_bits v (i # is) m =
     (if i \<ge> 32 then None
      else mask_bits v is (if v AND scast (push_bit i 1 :: u32) \<noteq> 0 then cpumask_set i m else m))"

definition parse_cpumask :: "string \<Rightarrow> cpumask \<Rightarrow> (int \<times> cpumask) option" where
  "parse_cpumask str m =
     (let (v, used, range) = strtoull0 (c_text str)
      in if range then Some (ERANGE, m)
         else if used \<noteq> length str then Some (EINVAL, m)
         else map_option (Pair 0) (mask_bits v [0..<length m] m))"

definition parse_cpu_affinity :: "string \<Rightarrow> cpumask \<Rightarrow> (int \<times> cpumask) option" where
  "parse_cpu_affinity s m =
     (if take 5 s = ''list:'' then Some (parse_cpulist (drop 5 s) m)
      else if take 5 s = ''mask:'' then parse_cpumask (drop 5 s) m
      else parse_cpumask s m)"

text \<open>\<open>apply_mask\<close> stands for \<^verbatim>\<open>pthread_setaffinity_np\<close>, \<open>alloc_ok\<close> for the allocation of the set.\<close>

definition set_cpu_affinity :: "bool \<Rightarrow> (cpumask \<Rightarrow> int) \<Rightarrow> string \<Rightarrow> bool \<Rightarrow> int option" where
  "set_cpu_affinity alloc_ok apply_mask s dryrun =
     (if \<not> alloc_ok then Some EINVAL
      else map_option (\<lambda>(err, m). if err = 0 \<and> \<not> dryrun then apply_mask m else err) (parse_cpu_affinity s (cpumask_new 256)))"

record schedparam =
  sp_policy :: int
  sp_priority :: int
  sp_flags :: u32
  sp_cpu_affinity :: string

definition DELETE_ON_EXIT :: u32 where
  "DELETE_ON_EXIT = 1"

definition schedparam_new :: "int \<Rightarrow> int \<Rightarrow> u32 \<Rightarrow> string \<Rightarrow> schedparam" where
  "schedparam_new policy priority flags affinity =
     \<lparr>sp_policy = policy, sp_priority = priority, sp_flags = flags, sp_cpu_affinity = affinity\<rparr>"

definition thread_enter :: "bool \<Rightarrow> (cpumask \<Rightarrow> int) \<Rightarrow> (int \<Rightarrow> int \<Rightarrow> int) \<Rightarrow> schedparam \<Rightarrow> bool option" where
  "thread_enter alloc_ok apply_mask setsched p = do {
     failed \<leftarrow> (if sp_cpu_affinity p \<noteq> []
               then map_option (\<lambda>err. err \<noteq> 0) (set_cpu_affinity alloc_ok apply_mask (sp_cpu_affinity p) False)
               else Some False);
     Some (\<not> (failed \<or> setsched (sp_policy p) (sp_priority p) \<noteq> 0))
   }"

text \<open>Whether the object deletes itself.\<close>

definition thread_exit :: "schedparam \<Rightarrow> bool" where
  "thread_exit p \<longleftrightarrow> sp_flags p AND DELETE_ON_EXIT \<noteq> 0"

definition schedparam_validate :: "bool \<Rightarrow> schedparam \<Rightarrow> bool option" where
  "schedparam_validate alloc_ok p =
     (if sp_cpu_affinity p \<noteq> []
      then map_option (\<lambda>err. err = 0) (set_cpu_affinity alloc_ok (\<lambda>_. 0) (sp_cpu_affinity p) True)
      else Some True)"

definition show_int :: "int \<Rightarrow> string" where
  "show_int i = (if i < 0 then CHR ''-'' # dec (nat (- i)) else dec (nat i))"

definition schedparam_dump :: "schedparam \<Rightarrow> string" where
  "schedparam_dump p = ''{ policy:'' @ show_int (sp_policy p) @ '', priority:'' @ show_int (sp_priority p)
     @ '', cpu-affinity:'' @ sp_cpu_affinity p @ '' }''"

section \<open>Reading numbers back\<close>

text \<open>The texts the parser reads: decimal numbers and ranges, separated by commas.\<close>

fun range_text :: "nat \<times> nat \<Rightarrow> string" where
  "range_text (a, b) = (if a = b then dec a else dec a @ CHR ''-'' # dec b)"

fun cpulist_text :: "(nat \<times> nat) list \<Rightarrow> string" where
  "cpulist_text [] = []"
| "cpulist_text [r] = range_text r"
| "cpulist_text (r # rs) = range_text r @ CHR '','' # cpulist_text rs"

text \<open>The set of CPUs that a list of ranges names.\<close>

definition cpus_of :: "nat \<Rightarrow> (nat \<times> nat) list \<Rightarrow> cpumask" where
  "cpus_of n rs = map (\<lambda>i. \<exists>(a, b) \<in> set rs. a \<le> i \<and> i \<le> b) [0..<n]"

definition no_digit :: "string \<Rightarrow> bool" where
  "no_digit s \<longleftrightarrow> s = [] \<or> \<not> is_digit (hd s)"

lemma dec_all_digits: "\<forall>c \<in> set (dec n). is_digit c"
  using dec_digits [of n] by (simp add: list_all_iff)

lemma at_digit_dec [simp]: "at_digit (dec n @ s)"
  using dec_all_digits [of n] by (cases "dec n") (auto simp: at_digit_def)

lemma strtoul_at_dec:
  assumes "n < 2 ^ 64" and "no_digit s"
  shows "strtoul_at (dec n @ s) = (word_of_nat n, s)"
proof -
  have "takeWhile is_digit (dec n @ s) = dec n" and "dropWhile is_digit (dec n @ s) = s"
    using dec_all_digits [of n] assms(2)
    by (cases s; simp add: no_digit_def takeWhile_append2 dropWhile_append2)+
  then show ?thesis using assms(1) by (simp add: strtoul_at_def undec_dec)
qed

lemma u64_to_u32: "(ucast (word_of_nat n :: u64) :: u32) = word_of_nat n"
  by (rule bit_word_eqI) (simp add: bit_simps)

lemma cpu_entry_range:
  assumes "a \<le> b" and "b < 2 ^ 32" and "s = [] \<or> hd s = CHR '',''"
  shows "cpu_entry (range_text (a, b) @ s) = Some (word_of_nat a, word_of_nat b, s)"
proof -
  have nd: "no_digit s" "no_digit (CHR ''-'' # t)" for t
    using assms(3) by (auto simp: no_digit_def is_digit_def)
  have lim: "a < 2 ^ 64" "b < 2 ^ 64" using assms by auto
  show ?thesis
  proof (cases "a = b")
    case True
    then show ?thesis using assms(3) strtoul_at_dec [OF lim(1) nd(1)]
        at_digit_dec [of b s]
      by (cases s) (simp_all add: cpu_entry_def u64_to_u32 Let_def)
  next
    case False
    then show ?thesis using strtoul_at_dec [OF lim(1) nd(2)] strtoul_at_dec [OF lim(2) nd(1)]
      by (simp add: cpu_entry_def u64_to_u32 Let_def)
  qed
qed

lemma nth_set_range:
  "length (set_range a b m) = length m"
  "i < length m \<Longrightarrow> set_range a b m ! i \<longleftrightarrow> m ! i \<or> unat a \<le> i \<and> i \<le> unat b"
proof -
  have "length (fold cpumask_set is m) = length m" for "is" and m :: cpumask
    by (induction "is" arbitrary: m) simp_all
  moreover have "fold cpumask_set is m ! i \<longleftrightarrow> m ! i \<or> i \<in> set is"
    if "i < length m" for "is" and m :: cpumask
    using that
  proof (induction "is" arbitrary: m)
    case (Cons j "is")
    then show ?case by (cases "j < length m") (auto simp: nth_list_update)
  qed simp
  ultimately show "length (set_range a b m) = length m"
    "i < length m \<Longrightarrow> set_range a b m ! i \<longleftrightarrow> m ! i \<or> unat a \<le> i \<and> i \<le> unat b"
    by (auto simp: set_range_def)
qed

definition merge_cpus :: "cpumask \<Rightarrow> (nat \<times> nat) list \<Rightarrow> cpumask" where
  "merge_cpus m rs = map2 (\<or>) m (cpus_of (length m) rs)"

lemma length_merge_cpus [simp]: "length (merge_cpus m rs) = length m"
  by (simp add: merge_cpus_def cpus_of_def)

lemma nth_merge_cpus:
  "i < length m \<Longrightarrow> merge_cpus m rs ! i \<longleftrightarrow> m ! i \<or> (\<exists>(a, b) \<in> set rs. a \<le> i \<and> i \<le> b)"
  by (simp add: merge_cpus_def cpus_of_def)

lemma merge_set_range:
  assumes "a \<le> b" and "b < length m" and "length m < 2 ^ 32"
  shows "merge_cpus (set_range (word_of_nat a) (word_of_nat b) m) rs = merge_cpus m ((a, b) # rs)"
  using assms by (intro nth_equalityI) (auto simp: nth_merge_cpus nth_set_range unat_word_of_nat)

lemma cpulist_text_nonempty: "rs \<noteq> [] \<Longrightarrow> cpulist_text rs \<noteq> []"
  by (cases rs rule: cpulist_text.cases) (auto split: if_splits)

lemma word_of_nat_mono_u32: "a \<le> b \<Longrightarrow> b < 2 ^ 32 \<Longrightarrow> (word_of_nat a :: u32) \<le> word_of_nat b"
  by (simp add: word_le_nat_alt unat_word_of_nat)

lemma parse_one_range:
  assumes "a \<le> b" and "b < length m" and "length m < 2 ^ 32" and "s = [] \<or> hd s = CHR '',''"
  shows "parse_cpulist_from (range_text (a, b) @ s) m =
    (let m' = set_range (word_of_nat a) (word_of_nat b) m
     in if skip_comma s \<noteq> [] then parse_cpulist_from (skip_comma s) m' else (0, m'))"
  using assms cpu_entry_range [of a b s] word_of_nat_mono_u32 [of a b]
  by (subst parse_cpulist_from.simps) (simp add: unat_word_of_nat Let_def)

lemma parse_cpulist_text:
  assumes "rs \<noteq> []" and "\<forall>(a, b) \<in> set rs. a \<le> b \<and> b < length m" and "length m < 2 ^ 32"
  shows "parse_cpulist_from (cpulist_text rs) m = (0, merge_cpus m rs)"
  using assms
proof (induction rs arbitrary: m rule: cpulist_text.induct)
  case 1
  then show ?case by simp
next
  case (2 r)
  obtain a b where r: "r = (a, b)" by (cases r)
  have "parse_cpulist_from (cpulist_text [r]) m = (0, set_range (word_of_nat a) (word_of_nat b) m)"
    using "2.prems" parse_one_range [of a b m "[]"] by (simp add: r skip_comma_def del: range_text.simps)
  moreover have "merge_cpus m' [] = m'" for m'
    by (intro nth_equalityI) (simp_all add: nth_merge_cpus)
  ultimately show ?case using "2.prems" merge_set_range [of a b m "[]"] by (simp add: r)
next
  case (3 r r' rs)
  obtain a b where r: "r = (a, b)" by (cases r)
  let ?m = "set_range (word_of_nat a) (word_of_nat b) m"
  let ?t = "cpulist_text (r' # rs)"
  have "parse_cpulist_from (cpulist_text (r # r' # rs)) m = parse_cpulist_from ?t ?m"
    using "3.prems" parse_one_range [of a b m "CHR '','' # ?t"] cpulist_text_nonempty [of "r' # rs"]
    by (simp add: r skip_comma_def del: range_text.simps)
  also have "\<dots> = (0, merge_cpus ?m (r' # rs))"
    using "3.prems" by (intro "3.IH") (auto simp: nth_set_range)
  also have "merge_cpus ?m (r' # rs) = merge_cpus m (r # r' # rs)"
    using "3.prems" merge_set_range [of a b m "r' # rs"] by (simp add: r)
  finally show ?case .
qed

lemma c_text_id: "\<forall>c \<in> set s. c \<noteq> CHR 0x00 \<Longrightarrow> c_text s = s"
  by (simp add: c_text_def takeWhile_eq_all_conv)

lemma digit_not_nul: "is_digit c \<Longrightarrow> c \<noteq> CHR 0x00"
  by (auto simp: is_digit_def)

lemma c_text_dec [simp]: "c_text (dec n) = dec n"
  using dec_all_digits digit_not_nul by (blast intro: c_text_id)

lemma c_text_cpulist: "c_text (cpulist_text rs) = cpulist_text rs"
proof (rule c_text_id)
  have r: "\<forall>c \<in> set (range_text r). c \<noteq> CHR 0x00" for r
  proof (cases r)
    case (Pair a b)
    then show ?thesis using dec_all_digits [of a] dec_all_digits [of b] by (auto dest: digit_not_nul)
  qed
  show "\<forall>c \<in> set (cpulist_text rs). c \<noteq> CHR 0x00"
    by (induction rs rule: cpulist_text.induct) (use r in auto)
qed

section \<open>Properties\<close>

text \<open>C40: A CPU list of any number of decimal CPUs and ranges below the capacity of the set is
  read completely: the affinity text \<^verbatim>\<open>list:\<close> followed by the list is accepted and the set holds
  exactly the CPUs that the list names.\<close>

theorem cpulist_roundtrip:
  assumes "rs \<noteq> []" and "\<forall>(a, b) \<in> set rs. a \<le> b \<and> b < n" and "n < 2 ^ 32"
  shows "parse_cpu_affinity (''list:'' @ cpulist_text rs) (cpumask_new n) = Some (0, cpus_of n rs)"
proof -
  have "merge_cpus (cpumask_new n) rs = cpus_of n rs"
    by (intro nth_equalityI) (simp_all add: nth_merge_cpus cpumask_new_def cpus_of_def)
  moreover have "parse_cpulist_from (cpulist_text rs) (cpumask_new n) = (0, merge_cpus (cpumask_new n) rs)"
    using assms by (intro parse_cpulist_text) (simp_all add: cpumask_new_def)
  ultimately show ?thesis by (simp add: parse_cpu_affinity_def parse_cpulist_def c_text_cpulist)
qed

theorem cpulist_roundtrip_witness:
  "parse_cpu_affinity ''list:0-1,3'' (cpumask_new 5) = Some (0, [True, True, False, True, False])"
  using cpulist_roundtrip [of "[(0, 1), (3, 3)]" 5]
  by (simp add: cpus_of_def num_of.simps digit_def upt_rec char_of_def bit_simps)

text \<open>CPU numbers are read as 64-bit numbers and cut to 32 bits before they are compared with
  the capacity of the set: a list with the number \<open>2 ^ 32 + a\<close> is accepted and selects CPU \<open>a\<close>.\<close>

lemma cpulist_number_wraps:
  assumes "a < n" and "n < 2 ^ 32"
  shows "parse_cpulist (dec (2 ^ 32 + a)) (cpumask_new n) = (0, cpus_of n [(a, a)])"
proof -
  have "(word_of_nat (2 ^ 32 + a) :: u32) = word_of_nat a"
    using unat_less [of "word_of_nat a :: u32"] unfolding of_nat_add
    by (intro word_unat_eq_iff [THEN iffD2]) (simp add: unat_word_ariths)
  then have "cpu_entry (dec (2 ^ 32 + a)) = Some (word_of_nat a, word_of_nat a, [])"
    using strtoul_at_dec [of "2 ^ 32 + a" "[]"] at_digit_dec [of "2 ^ 32 + a" "[]"] assms
      u64_to_u32 [of "2 ^ 32 + a"]
    by (simp add: cpu_entry_def no_digit_def Let_def)
  then have "cpu_entry (dec (2 ^ 32 + a)) = cpu_entry (cpulist_text [(a, a)])"
    using cpu_entry_range [of a a "[]"] assms by simp
  then have "parse_cpulist_from (dec (2 ^ 32 + a)) m = parse_cpulist_from (cpulist_text [(a, a)]) m" for m
    by (simp add: parse_cpulist_from.simps)
  moreover have "merge_cpus (cpumask_new n) [(a, a)] = cpus_of n [(a, a)]"
    by (intro nth_equalityI) (simp_all add: nth_merge_cpus cpumask_new_def cpus_of_def)
  ultimately show ?thesis
    using parse_cpulist_text [of "[(a, a)]" "cpumask_new n"] assms
    by (simp add: parse_cpulist_def cpumask_new_def)
qed

section \<open>Masks\<close>

lemma mask_bits_undefined: "\<exists>i \<in> set is. 32 \<le> i \<Longrightarrow> mask_bits v is m = None"
  by (induction "is" arbitrary: m) auto

lemma parse_cpumask_undefined:
  assumes "strtoull0 (c_text s) = (v, length s, False)" and "32 < length m"
  shows "parse_cpumask s m = None"
proof -
  have "mask_bits v [0..<length m] m = None"
    using assms(2) by (intro mask_bits_undefined bexI [of _ 32]) simp_all
  then show ?thesis using assms(1) by (simp add: parse_cpumask_def)
qed

lemma digit_value_dec: "is_digit c \<Longrightarrow> digit_value c = of_char c - 48"
  by (simp add: digit_value_def is_digit_def Let_def)

lemma digit_value_less: "is_digit c \<Longrightarrow> digit_value c < 10"
  by (auto simp: digit_value_dec is_digit_def)

lemma fold_digit_value:
  assumes "\<forall>c \<in> set s. is_digit c"
  shows "fold (\<lambda>c a. 10 * a + digit_value c) s x = fold (\<lambda>c a. 10 * a + (of_char c - 48)) s x"
  using assms by (induction s arbitrary: x) (simp_all add: digit_value_dec)

lemma hd_dec: "is_digit (hd (dec n))"
  using dec_all_digits [of n] num_of_nonempty [of 10 n] hd_in_set by blast

lemma dec_no_leading_zero: "0 < n \<Longrightarrow> hd (dec n) \<noteq> CHR ''0''"
proof (induction n rule: less_induct)
  case (less n)
  show ?case
  proof (cases "n < 10")
    case True
    then have "(of_char (digit n) :: nat) \<noteq> of_char CHR ''0''"
      using less.prems by (simp add: digit_def)
    with True show ?thesis by (subst num_of.simps) auto
  next
    case False
    then have "hd (dec n) = hd (dec (n div 10))" by (subst num_of.simps) (simp add: hd_append)
    with False less.IH [of "n div 10"] show ?thesis by simp
  qed
qed

lemma strtoull0_dec:
  assumes "0 < n" and "n < 2 ^ 64"
  shows "strtoull0 (dec n) = (word_of_nat n, length (dec n), False)"
proof -
  have h: "hd (dec n) \<noteq> CHR '' ''" "hd (dec n) \<noteq> CHR ''-''" "hd (dec n) \<noteq> CHR ''+''"
    "\<not> (9 \<le> (of_char (hd (dec n)) :: nat) \<and> of_char (hd (dec n)) \<le> (13 :: nat))"
    using hd_dec [of n] by (auto simp: is_digit_def)
  have ws: "takeWhile (\<lambda>c. c = CHR '' '' \<or> 9 \<le> (of_char c :: nat) \<and> (of_char c :: nat) \<le> 13) (dec n) = []"
    using h by (cases "dec n") auto
  have ds: "takeWhile (\<lambda>c. digit_value c < 10) (dec n) = dec n"
    using dec_all_digits [of n] digit_value_less by (auto simp: takeWhile_eq_all_conv)
  have "fold (\<lambda>c a. 10 * a + digit_value c) (dec n) 0 = n"
    using fold_digit_value [OF dec_all_digits, of n 0] undec_dec [of n] by (simp add: undec_def)
  then show ?thesis
    using h assms dec_no_leading_zero [of n] by (simp add: strtoull0_def ws ds)
qed

text \<open>The loop over the bits of a CPU mask shifts an \<^verbatim>\<open>int\<close> by up to the capacity of the set,
  256: checking parameters with any decimal CPU mask that the parser accepts is undefined.\<close>

lemma cpumask_check_undefined:
  assumes "0 < n" and "n < 2 ^ 64"
  shows "schedparam_validate True (schedparam_new policy priority flags (dec n)) = None
    \<and> schedparam_validate True (schedparam_new policy priority flags (''mask:'' @ dec n)) = None"
proof -
  have u: "parse_cpumask (dec n) (cpumask_new 256) = None"
    using parse_cpumask_undefined [of "dec n"] strtoull0_dec [OF assms] by (simp add: cpumask_new_def)
  have "is_digit (hd (take 5 (dec n)))" using hd_dec [of n] by (cases "dec n") simp_all
  moreover have "\<not> is_digit (hd ''list:'')" and "\<not> is_digit (hd ''mask:'')" by (simp_all add: is_digit_def)
  ultimately have "take 5 (dec n) \<noteq> ''list:''" and "take 5 (dec n) \<noteq> ''mask:''" by metis+
  then show ?thesis
    using u by (simp add: schedparam_validate_def schedparam_new_def set_cpu_affinity_def parse_cpu_affinity_def)
qed

end
