(* ===== verification/Coredump.thy ===== *)
theory Coredump
  imports Hogl_Prelude
begin

text \<open>
  Core files (\<^verbatim>\<open>tools/coredump.hpp\<close>, \<^verbatim>\<open>tools/coredump.cc\<close>): the sections of the core file and of the
  executable are collected in a set ordered by address, merged into contiguous chunks and loaded,
  and addresses of the dead process are translated to addresses of the tool. What the BFD library
  says of a file is an argument: a list of its sections with the outcome of reading them. \<open>alloc\<close>
  gives the address of a block for a chunk, or \<open>None\<close>. A load that never returns is \<open>None\<close>.
\<close>

section \<open>Definitions\<close>

record asection =
  as_vma :: u64
  as_size :: u64
  as_contents :: "bytes option"

type_synonym files = "nat \<Rightarrow> asection list"

record csection =
  s_vma :: u64
  s_addr :: u64
  s_size :: u64
  s_abfd :: nat
  s_data :: bytes

record coredump =
  cd_sections :: "csection list"
  cd_failed :: bool

definition section_new :: "u64 \<Rightarrow> u64 \<Rightarrow> nat \<Rightarrow> csection" where
  "section_new vma sz b = \<lparr>s_vma = vma, s_addr = 0, s_size = sz, s_abfd = b, s_data = []\<rparr>"

definition section_inside :: "csection \<Rightarrow> u64 \<Rightarrow> u64 \<Rightarrow> bool" where
  "section_inside s ptr n \<longleftrightarrow> ptr \<ge> s_addr s \<and> ptr + n \<le> s_addr s + s_size s"

definition bfd_get_section_by_vma :: "asection list \<Rightarrow> u64 \<Rightarrow> asection option" where
  "bfd_get_section_by_vma secs vma = find (\<lambda>a. as_vma a = vma) secs"

text \<open>The loop that fills a chunk: whether it succeeded and the bytes it stored.\<close>

partial_function (option) load_loop :: "asection list \<Rightarrow> u64 \<Rightarrow> u64 \<Rightarrow> bytes \<Rightarrow> (bool \<times> bytes) option" where
  [code]: "load_loop secs vma sz acc =
     (if sz = 0 then Some (True, acc)
      else case bfd_get_section_by_vma secs vma of
        None \<Rightarrow> Some (False, acc)
      | Some a \<Rightarrow>
          if as_size a > sz then Some (False, acc)
          else (case as_contents a of
              None \<Rightarrow> Some (False, acc)
            | Some d \<Rightarrow> load_loop secs (vma + as_size a) (sz - as_size a) (acc @ d)))"

definition load_section :: "(u64 \<Rightarrow> u64 \<Rightarrow> u64 option) \<Rightarrow> files \<Rightarrow> csection \<Rightarrow> (csection \<times> bool) option" where
  "load_section alloc files s =
     (case alloc (s_vma s) (s_size s) of
        None \<Rightarrow> Some (s\<lparr>s_addr := 0\<rparr>, True)
      | Some p \<Rightarrow> do {
          (ok, d) \<leftarrow> load_loop (files (s_abfd s)) (s_vma s) (s_size s) [];
          Some (s\<lparr>s_addr := p, s_data := d\<rparr>, \<not> ok)
        })"

text \<open>Insertion into the set ordered by address; an element with the same address stays.\<close>

fun sec_insert :: "csection \<Rightarrow> csection list \<Rightarrow> csection list" where
  "sec_insert s [] = [s]"
| "sec_insert s (x # xs) =
     (if s_vma s < s_vma x then s # x # xs
      else if s_vma x < s_vma s then x # sec_insert s xs
      else x # xs)"

text \<open>\<open>cur\<close> is the chunk being collected: its start, end and file; \<open>start = 0\<close> stands for none.\<close>

definition flush_chunk ::
  "(u64 \<Rightarrow> u64 \<Rightarrow> u64 option) \<Rightarrow> files \<Rightarrow> u64 \<times> u64 \<times> nat \<Rightarrow> coredump \<Rightarrow> coredump option" where
  "flush_chunk alloc files cur c =
     (case cur of (start, stop, b) \<Rightarrow> do {
        (ns, failed) \<leftarrow> load_section alloc files (section_new start (stop - start) b);
        Some \<lparr>cd_sections = sec_insert ns (cd_sections c), cd_failed = failed\<rparr>
      })"

fun coalesce_from ::
  "(u64 \<Rightarrow> u64 \<Rightarrow> u64 option) \<Rightarrow> files \<Rightarrow> u64 \<times> u64 \<times> nat \<Rightarrow> coredump \<Rightarrow> csection list \<Rightarrow> coredump option" where
  "coalesce_from alloc files (start, stop, b) c [] =
     (if start \<noteq> 0 then flush_chunk alloc files (start, stop, b) c else Some c)"
| "coalesce_from alloc files (start, stop, b) c (s # ss) =
     (if start = 0 then coalesce_from alloc files (s_vma s, s_vma s + s_size s, s_abfd s) c ss
      else if s_abfd s = b \<and> s_vma s = stop then coalesce_from alloc files (start, stop + s_size s, b) c ss
      else do {
        c \<leftarrow> flush_chunk alloc files (start, stop, b) c;
        coalesce_from alloc files (s_vma s, s_vma s + s_size s, s_abfd s) c ss
      })"

definition coalesce_and_load_sections ::
  "(u64 \<Rightarrow> u64 \<Rightarrow> u64 option) \<Rightarrow> files \<Rightarrow> coredump \<Rightarrow> coredump option" where
  "coalesce_and_load_sections alloc files c =
     coalesce_from alloc files (0, 0, 0) (c\<lparr>cd_sections := []\<rparr>) (cd_sections c)"

definition add_section :: "nat \<Rightarrow> asection \<Rightarrow> csection list \<Rightarrow> csection list" where
  "add_section b a ss =
     (if as_vma a = 0 \<or> as_size a = 0 then ss else sec_insert (section_new (as_vma a) (as_size a) b) ss)"

definition load_bfd :: "nat \<Rightarrow> asection list \<Rightarrow> csection list \<Rightarrow> csection list" where
  "load_bfd b secs ss = fold (add_section b) secs ss"

text \<open>
  The constructor. A file is \<open>None\<close> when it cannot be opened, and comes with the outcome of the
  test of its format; the executable is optional. File 0 is the core file, file 1 the executable.
\<close>

definition coredump_new ::
  "(u64 \<Rightarrow> u64 \<Rightarrow> u64 option) \<Rightarrow> (bool \<times> asection list) option \<Rightarrow> (bool \<times> asection list) option option \<Rightarrow> coredump option" where
  "coredump_new alloc corefile execfile =
     (case corefile of
        None \<Rightarrow> Some \<lparr>cd_sections = [], cd_failed = True\<rparr>
      | Some (False, _) \<Rightarrow> Some \<lparr>cd_sections = [], cd_failed = True\<rparr>
      | Some (True, core) \<Rightarrow>
          let ss = load_bfd 0 core [] in
          (case execfile of
             None \<Rightarrow> coalesce_and_load_sections alloc (\<lambda>_. core) \<lparr>cd_sections = ss, cd_failed = False\<rparr>
           | Some None \<Rightarrow> Some \<lparr>cd_sections = ss, cd_failed = True\<rparr>
           | Some (Some (False, _)) \<Rightarrow> Some \<lparr>cd_sections = ss, cd_failed = True\<rparr>
           | Some (Some (True, exec)) \<Rightarrow>
               coalesce_and_load_sections alloc (\<lambda>b. if b = 0 then core else exec)
                 \<lparr>cd_sections = load_bfd 1 exec ss, cd_failed = False\<rparr>))"

text \<open>Translation of an address for \<open>n\<close> bytes; zero is the null pointer.\<close>

fun remap_from :: "csection list \<Rightarrow> u64 \<Rightarrow> u64 \<Rightarrow> u64" where
  "remap_from [] ptr n = 0"
| "remap_from (s # ss) ptr n =
     (if ptr \<ge> s_vma s \<and> ptr + n \<le> s_vma s + s_size s then s_addr s + (ptr - s_vma s)
      else remap_from ss ptr n)"

definition remap :: "coredump \<Rightarrow> u64 \<Rightarrow> u64 \<Rightarrow> u64" where
  "remap c ptr n = remap_from (cd_sections c) ptr n"

section \<open>Runs of adjacent sections\<close>

definition sec_end :: "csection \<Rightarrow> nat" where
  "sec_end s = unat (s_vma s) + unat (s_size s)"

text \<open>The section was made from a section of its file that can be read.\<close>

definition sec_bytes :: "files \<Rightarrow> csection \<Rightarrow> bytes" where
  "sec_bytes files s = (case bfd_get_section_by_vma (files (s_abfd s)) (s_vma s) of
     Some a \<Rightarrow> (case as_contents a of Some d \<Rightarrow> d | None \<Rightarrow> []) | None \<Rightarrow> [])"

definition sec_ok :: "files \<Rightarrow> csection \<Rightarrow> bool" where
  "sec_ok files s \<longleftrightarrow> s_vma s \<noteq> 0 \<and> s_size s \<noteq> 0 \<and> sec_end s < 2 ^ 64
     \<and> (\<exists>a d. bfd_get_section_by_vma (files (s_abfd s)) (s_vma s) = Some a \<and> as_size a = s_size s
          \<and> as_contents a = Some d \<and> length d = unat (s_size s))"

definition touching :: "csection \<Rightarrow> csection \<Rightarrow> bool" where
  "touching s s' \<longleftrightarrow> s_abfd s' = s_abfd s \<and> unat (s_vma s') = sec_end s"

text \<open>The chunk of a run of touching sections.\<close>

definition chunk_of :: "(u64 \<Rightarrow> u64 \<Rightarrow> u64) \<Rightarrow> files \<Rightarrow> csection list \<Rightarrow> csection" where
  "chunk_of A files run =
     (let v = s_vma (hd run); n = sum_list (map s_size run) in
      \<lparr>s_vma = v, s_addr = A v n, s_size = n, s_abfd = s_abfd (hd run), s_data = concat (map (sec_bytes files) run)\<rparr>)"

lemma sec_ok_bytes: "sec_ok files s \<Longrightarrow> length (sec_bytes files s) = unat (s_size s)"
  by (auto simp: sec_ok_def sec_bytes_def)

lemma run_size:
  assumes "successively touching (s # run)" and "\<forall>x \<in> set (s # run). sec_ok files x"
  shows "unat (s_vma s) + unat (sum_list (map s_size (s # run))) = sec_end (last (s # run))"
    and "unat (s_vma s) + unat (sum_list (map s_size (s # run))) < 2 ^ 64"
proof -
  have "unat (s_vma s) + unat (sum_list (map s_size (s # run))) = sec_end (last (s # run))
      \<and> unat (s_vma s) + unat (sum_list (map s_size (s # run))) < 2 ^ 64"
    using assms
  proof (induction run arbitrary: s)
    case Nil
    then show ?case by (simp add: sec_end_def sec_ok_def)
  next
    case (Cons s' run)
    then have "successively touching (s' # run)" "\<forall>x \<in> set (s' # run). sec_ok files x" by auto
    note IH = Cons.IH [OF this]
    have v: "unat (s_vma s') = unat (s_vma s) + unat (s_size s)"
      using Cons.prems(1) by (simp add: touching_def sec_end_def)
    have "unat (s_size s + sum_list (map s_size (s' # run))) = unat (s_size s) + unat (sum_list (map s_size (s' # run)))"
      using IH v by (simp add: unat_word_ariths)
    with IH v show ?case by simp
  qed
  then show "unat (s_vma s) + unat (sum_list (map s_size (s # run))) = sec_end (last (s # run))"
    "unat (s_vma s) + unat (sum_list (map s_size (s # run))) < 2 ^ 64" by auto
qed


lemma word_add_le_self: "b \<le> (a + b :: u64)" if "unat a + unat b < 2 ^ 64"
  using that by (simp add: word_le_nat_alt unat_word_ariths)

text \<open>Loading a run gives the bytes of its sections in order.\<close>

lemma load_run:
  assumes "successively touching run" and "\<forall>x \<in> set run. sec_ok files x \<and> s_abfd x = b"
  shows "load_loop (files b) (if run = [] then v else s_vma (hd run)) (sum_list (map s_size run)) acc
    = Some (True, acc @ concat (map (sec_bytes files) run))"
  using assms
proof (induction run arbitrary: acc v)
  case Nil
  then show ?case by (subst load_loop.simps) simp
next
  case (Cons s run)
  have ok: "sec_ok files s" "s_abfd s = b" using Cons.prems(2) by auto
  from ok obtain a d where a: "bfd_get_section_by_vma (files b) (s_vma s) = Some a" "as_size a = s_size s"
    "as_contents a = Some d" by (auto simp: sec_ok_def)
  then have d: "sec_bytes files s = d" using ok(2) by (simp add: sec_bytes_def)
  let ?n = "sum_list (map s_size run)"
  have sz: "unat (s_size s) + unat ?n < 2 ^ 64 \<and> s_size s + ?n \<noteq> 0 \<and> (run \<noteq> [] \<longrightarrow> s_vma (hd run) = s_vma s + s_size s)"
  proof (cases run)
    case Nil
    with ok show ?thesis by (auto simp: sec_ok_def sec_end_def)
  next
    case (Cons s' run')
    with Cons.prems have r: "successively touching (s' # run')" "\<forall>x \<in> set (s' # run'). sec_ok files x" and t: "touching s s'"
      by auto
    have "unat (s_size s) + unat ?n < 2 ^ 64" using run_size(2) [OF r] t Cons by (simp add: touching_def sec_end_def)
    moreover have "unat (s_size s) \<noteq> 0" using ok(1) by (simp add: sec_ok_def unat_eq_zero)
    ultimately have "unat (s_size s + ?n) \<noteq> 0" by (simp add: unat_word_ariths)
    moreover have "s_vma s' = s_vma s + s_size s"
      using t ok(1) by (simp add: touching_def sec_ok_def word_unat_eq_iff unat_word_ariths sec_end_def)
    ultimately show ?thesis using \<open>unat (s_size s) + unat ?n < 2 ^ 64\<close> Cons by (auto simp: unat_eq_zero)
  qed
  have "\<not> s_size s > s_size s + ?n"
    using sz word_add_le_self [of ?n "s_size s"] by (simp add: add.commute not_less)
  moreover have "load_loop (files b) (s_vma s + s_size s) ?n (acc @ d)
      = Some (True, (acc @ d) @ concat (map (sec_bytes files) run))"
    using Cons.IH [of "s_vma s + s_size s" "acc @ d"] Cons.prems sz
    by (cases run) (auto split: if_splits)
  ultimately show ?case
    using a d sz by (subst load_loop.simps) simp
qed

lemma run_abfd: "successively touching (s # run) \<Longrightarrow> x \<in> set run \<Longrightarrow> s_abfd x = s_abfd s"
proof (induction run arbitrary: s)
  case (Cons s' run)
  then have "s_abfd s' = s_abfd s" "successively touching (s' # run)" by (simp_all add: touching_def)
  with Cons.IH [of s'] Cons.prems(2) show ?case by auto
qed simp

lemma load_chunk:
  assumes "successively touching run" and "run \<noteq> []" and "\<forall>x \<in> set run. sec_ok files x"
  shows "load_section (\<lambda>v n. Some (A v n)) files (section_new (s_vma (hd run)) (sum_list (map s_size run)) (s_abfd (hd run)))
    = Some (chunk_of A files run, False)"
proof -
  have "s_abfd x = s_abfd (hd run)" if "x \<in> set run" for x
    using that assms(1,2) by (cases run) (auto dest: run_abfd)
  then have "\<forall>x \<in> set run. sec_ok files x \<and> s_abfd x = s_abfd (hd run)" using assms(3) by blast
  from load_run [OF assms(1) this, of "s_vma (hd run)" "[]"]
  have "load_loop (files (s_abfd (hd run))) (s_vma (hd run)) (sum_list (map s_size run)) []
      = Some (True, concat (map (sec_bytes files) run))"
    using assms(2) by simp
  then show ?thesis
    by (simp add: load_section_def section_new_def chunk_of_def Let_def)
qed


section \<open>Merging\<close>

lemma sec_insert_last: "\<forall>c \<in> set cs. s_vma c < s_vma s \<Longrightarrow> sec_insert s cs = cs @ [s]"
  by (induction cs) (auto dest: less_not_sym)

definition apart :: "csection \<Rightarrow> csection \<Rightarrow> bool" where
  "apart s t \<longleftrightarrow> sec_end s \<le> unat (s_vma t)"

definition sec_set :: "files \<Rightarrow> csection list \<Rightarrow> bool" where
  "sec_set files ss \<longleftrightarrow> (\<forall>s \<in> set ss. sec_ok files s) \<and> sorted_wrt apart ss"

lemma apart_less: "sec_ok files s \<Longrightarrow> apart s t \<Longrightarrow> s_vma s < s_vma t"
  using unat_gt_0 [of "s_size s"] by (simp add: apart_def sec_end_def sec_ok_def word_less_nat_alt)

lemma flush_run:
  assumes "successively touching run" and "run \<noteq> []" and "\<forall>x \<in> set run. sec_ok files x"
    and "\<forall>c \<in> set cs. s_vma c < s_vma (hd run)"
  shows "flush_chunk (\<lambda>v n. Some (A v n)) files (s_vma (hd run), word_of_nat (sec_end (last run)), s_abfd (hd run))
      \<lparr>cd_sections = cs, cd_failed = f\<rparr> = Some \<lparr>cd_sections = cs @ [chunk_of A files run], cd_failed = False\<rparr>"
proof -
  obtain s run' where run: "run = s # run'" using assms(2) by (cases run) auto
  let ?n = "sum_list (map s_size run)"
  note sz = run_size [of s run', OF assms(1,3) [unfolded run]]
  have "word_of_nat (sec_end (last run)) = s_vma (hd run) + ?n"
    unfolding run sz(1) [symmetric] by (simp add: run)
  then have "word_of_nat (sec_end (last run)) - s_vma (hd run) = ?n" by simp
  moreover have "sec_insert (chunk_of A files run) cs = cs @ [chunk_of A files run]"
    using assms(4) by (intro sec_insert_last) (simp add: chunk_of_def Let_def)
  ultimately show ?thesis
    using load_chunk [OF assms(1-3), of A] by (simp add: flush_chunk_def)
qed

lemma touching_word:
  assumes "sec_ok files s" and "s_abfd s = b"
  shows "s_abfd t = b \<and> s_vma t = word_of_nat (sec_end s) \<longleftrightarrow> touching s t"
  using assms by (auto simp: touching_def sec_ok_def word_unat_eq_iff unat_of_nat)

lemma coalesce_run:
  assumes "successively touching run" and "run \<noteq> []" and "sec_set files (run @ ss)"
    and "\<forall>c \<in> set cs. s_vma c < s_vma (hd run)"
  shows "\<exists>rs. coalesce_from (\<lambda>v n. Some (A v n)) files (s_vma (hd run), word_of_nat (sec_end (last run)), s_abfd (hd run))
        \<lparr>cd_sections = cs, cd_failed = f\<rparr> ss = Some \<lparr>cd_sections = cs @ map (chunk_of A files) rs, cd_failed = False\<rparr>
      \<and> concat rs = run @ ss \<and> rs \<noteq> [] \<and> hd (hd rs) = hd run \<and> (\<forall>r \<in> set rs. r \<noteq> [] \<and> successively touching r)
      \<and> successively (\<lambda>r r'. \<not> touching (last r) (hd r')) rs"
  using assms
proof (induction ss arbitrary: run cs f)
  case Nil
  then have "s_vma (hd run) \<noteq> 0" by (auto simp: sec_set_def sec_ok_def)
  with Nil flush_run [of run files cs A f] show ?case
    by (intro exI [of _ "[run]"]) (auto simp: sec_set_def)
next
  case (Cons s ss)
  have ok: "\<forall>x \<in> set run. sec_ok files x" and oks: "sec_ok files s" and lst: "last run \<in> set run"
    using Cons.prems by (auto simp: sec_set_def)
  have nz: "s_vma (hd run) \<noteq> 0" using ok Cons.prems(2) by (auto simp: sec_ok_def)
  have b: "s_abfd (last run) = s_abfd (hd run)"
    using Cons.prems(1,2) run_abfd [of "hd run" "tl run"] by (cases run) (auto split: if_splits)
  note tw = touching_word [of files "last run" "s_abfd (hd run)" s, OF ok [rule_format, OF lst] b]
  have e: "s_vma s + s_size s = word_of_nat (sec_end s)" by (simp add: sec_end_def)
  show ?case
  proof (cases "touching (last run) s")
    case True
    have "word_of_nat (sec_end (last run)) + s_size s = (word_of_nat (sec_end s) :: u64)"
      using True tw e by simp
    moreover have "successively touching (run @ [s])"
      using Cons.prems(1,2) True by (simp add: successively_append_iff)
    ultimately show ?thesis
      using Cons.IH [of "run @ [s]" cs f] Cons.prems tw True nz by simp
  next
    case False
    let ?cs = "cs @ [chunk_of A files run]"
    have ap: "apart x s" if "x \<in> set run" for x using Cons.prems(3) that by (auto simp: sec_set_def sorted_wrt_append)
    have lt: "s_vma (hd run) < s_vma s"
      using ap [of "hd run"] ok Cons.prems(2) by (auto intro: apart_less)
    then have "\<forall>c \<in> set ?cs. s_vma c < s_vma (hd [s])"
      using Cons.prems(4) by (auto simp: chunk_of_def Let_def)
    moreover have "sec_set files ([s] @ ss)" using Cons.prems(3) by (simp add: sec_set_def sorted_wrt_append)
    ultimately obtain rs where rs: "coalesce_from (\<lambda>v n. Some (A v n)) files (s_vma s, word_of_nat (sec_end s), s_abfd s)
        \<lparr>cd_sections = ?cs, cd_failed = False\<rparr> ss = Some \<lparr>cd_sections = ?cs @ map (chunk_of A files) rs, cd_failed = False\<rparr>"
      "concat rs = s # ss" "rs \<noteq> []" "hd (hd rs) = s" "\<forall>r \<in> set rs. r \<noteq> [] \<and> successively touching r"
      "successively (\<lambda>r r'. \<not> touching (last r) (hd r')) rs"
      using Cons.IH [of "[s]" ?cs False] by auto
    have "successively (\<lambda>r r'. \<not> touching (last r) (hd r')) (run # rs)"
      using rs(3,4,6) False by (cases rs) auto
    with rs Cons.prems(1,2) tw False nz e flush_run [OF Cons.prems(1,2) ok Cons.prems(4), of A f] show ?thesis
      by (intro exI [of _ "run # rs"]) auto
  qed
qed


section \<open>The memory image\<close>

text \<open>The byte that a list of sections with their data has at an address.\<close>

definition holds_byte :: "csection \<Rightarrow> nat \<Rightarrow> u8 \<Rightarrow> bool" where
  "holds_byte s a x \<longleftrightarrow> unat (s_vma s) \<le> a \<and> a < sec_end s \<and> a - unat (s_vma s) < length (s_data s) \<and> s_data s ! (a - unat (s_vma s)) = x"

text \<open>A chunk holds exactly the bytes of its sections.\<close>

lemma chunk_fields:
  fixes A :: "u64 \<Rightarrow> u64 \<Rightarrow> u64"
  assumes "successively touching (s # run)" and "\<forall>x \<in> set (s # run). sec_ok files x"
  defines "c \<equiv> chunk_of A files (s # run)"
  shows "s_vma c = s_vma s" and "sec_end c = sec_end (last (s # run))" and "sec_end c < 2 ^ 64"
    and "length (s_data c) = unat (s_size c)"
proof -
  show "s_vma c = s_vma s" by (simp add: c_def chunk_of_def Let_def)
  note sz = run_size [OF assms(1,2)]
  show "sec_end c = sec_end (last (s # run))" "sec_end c < 2 ^ 64"
    using sz by (simp_all add: c_def chunk_of_def Let_def sec_end_def [of "_\<lparr>s_vma := _\<rparr>"] sec_end_def)
  have "length (concat (map (sec_bytes files) (s # run))) = unat (sum_list (map s_size (s # run)))"
    using assms(1,2)
  proof (induction run arbitrary: s)
    case Nil
    then show ?case by (simp add: sec_ok_bytes)
  next
    case (Cons s' run)
    have r: "successively touching (s' # run)" "\<forall>x \<in> set (s' # run). sec_ok files x" and t: "touching s s'"
      using Cons.prems by auto
    have "unat (s_size s + sum_list (map s_size (s' # run))) = unat (s_size s) + unat (sum_list (map s_size (s' # run)))"
      using run_size(2) [OF r] t by (simp add: touching_def sec_end_def unat_word_ariths)
    with Cons.IH [OF r] Cons.prems(2) show ?case by (simp add: sec_ok_bytes)
  qed
  then show "length (s_data c) = unat (s_size c)" by (simp add: c_def chunk_of_def Let_def)
qed

lemma chunk_byte:
  assumes "successively touching (s # run)" and "\<forall>x \<in> set (s # run). sec_ok files x"
    and "x \<in> set (s # run)" and "i < length (sec_bytes files x)"
  shows "\<exists>j. concat (map (sec_bytes files) (s # run)) ! j = sec_bytes files x ! i
    \<and> j < length (concat (map (sec_bytes files) (s # run))) \<and> unat (s_vma s) + j = unat (s_vma x) + i"
  using assms
proof (induction run arbitrary: s)
  case Nil
  then show ?case by (intro exI [of _ i]) auto
next
  case (Cons s' run)
  show ?case
  proof (cases "x = s")
    case True
    with Cons.prems(4) show ?thesis by (intro exI [of _ i]) (auto simp: nth_append)
  next
    case False
    have r: "successively touching (s' # run)" "\<forall>x \<in> set (s' # run). sec_ok files x" and t: "touching s s'"
      using Cons.prems by auto
    from Cons.IH [OF r _ Cons.prems(4)] Cons.prems(3) False obtain j
      where j: "concat (map (sec_bytes files) (s' # run)) ! j = sec_bytes files x ! i"
        "j < length (concat (map (sec_bytes files) (s' # run)))" "unat (s_vma s') + j = unat (s_vma x) + i" by auto
    have "length (sec_bytes files s) = unat (s_size s)" using Cons.prems(2) by (simp add: sec_ok_bytes)
    with j t show ?thesis
      by (intro exI [of _ "unat (s_size s) + j"]) (simp add: nth_append touching_def sec_end_def)
  qed
qed


lemma run_cover:
  assumes "successively touching (s # run)" and "unat (s_vma s) \<le> a" and "a < sec_end (last (s # run))"
  shows "\<exists>x \<in> set (s # run). unat (s_vma x) \<le> a \<and> a < sec_end x"
  using assms
proof (induction run arbitrary: s)
  case (Cons s' run)
  show ?case
  proof (cases "a < sec_end s")
    case True
    with Cons.prems(2) show ?thesis by auto
  next
    case False
    with Cons.prems have "\<exists>x \<in> set (s' # run). unat (s_vma x) \<le> a \<and> a < sec_end x"
      by (intro Cons.IH) (auto simp: touching_def)
    then show ?thesis by auto
  qed
qed auto

text \<open>What a file must be like: readable sections that do not overlap.\<close>

definition loadable :: "asection \<Rightarrow> bool" where
  "loadable a \<longleftrightarrow> as_vma a \<noteq> 0 \<and> as_size a \<noteq> 0"

definition core_ok :: "asection list \<Rightarrow> bool" where
  "core_ok secs \<longleftrightarrow> distinct (map as_vma (filter (\<lambda>a. as_vma a \<noteq> 0) secs))
     \<and> (\<forall>a \<in> set secs. loadable a \<longrightarrow> unat (as_vma a) + unat (as_size a) < 2 ^ 64
          \<and> (case as_contents a of Some d \<Rightarrow> length d = unat (as_size a) | None \<Rightarrow> False))
     \<and> (\<forall>a \<in> set secs. \<forall>b \<in> set secs. loadable a \<longrightarrow> loadable b \<longrightarrow> as_vma a < as_vma b
          \<longrightarrow> unat (as_vma a) + unat (as_size a) \<le> unat (as_vma b))"

definition file_byte :: "asection list \<Rightarrow> nat \<Rightarrow> u8 option" where
  "file_byte secs p =
     (case find (\<lambda>a. loadable a \<and> unat (as_vma a) \<le> p \<and> p < unat (as_vma a) + unat (as_size a)) secs of
        Some a \<Rightarrow> map_option (\<lambda>d. d ! (p - unat (as_vma a))) (as_contents a)
      | None \<Rightarrow> None)"

abbreviation by_vma :: "csection list \<Rightarrow> bool" where
  "by_vma \<equiv> sorted_wrt (\<lambda>s t. s_vma s < s_vma t)"

lemma sec_insert_props:
  assumes "by_vma ss" and "s_vma s \<notin> s_vma ` set ss"
  shows "by_vma (sec_insert s ss) \<and> set (sec_insert s ss) = insert s (set ss)"
  using assms
proof (induction ss)
  case (Cons x ss)
  then have IH: "by_vma (sec_insert s ss)" "set (sec_insert s ss) = insert s (set ss)" by auto
  show ?case
  proof (cases "s_vma s < s_vma x")
    case True
    with Cons.prems(1) show ?thesis by fastforce
  next
    case False
    with Cons.prems(2) have "s_vma x < s_vma s" by auto
    with IH Cons.prems(1) show ?thesis by auto
  qed
qed simp

definition sec_of :: "nat \<Rightarrow> asection \<Rightarrow> csection" where
  "sec_of b a = section_new (as_vma a) (as_size a) b"

lemma load_bfd_props:
  assumes "by_vma ss" and "distinct (map as_vma (filter (\<lambda>a. as_vma a \<noteq> 0) secs))"
    and "\<forall>a \<in> set secs. as_vma a \<noteq> 0 \<longrightarrow> as_vma a \<notin> s_vma ` set ss"
  shows "by_vma (load_bfd b secs ss) \<and> set (load_bfd b secs ss) = set ss \<union> sec_of b ` {a \<in> set secs. loadable a}"
  using assms
proof (induction secs arbitrary: ss)
  case (Cons a secs)
  let ?ss = "add_section b a ss"
  have s: "by_vma ?ss \<and> set ?ss = set ss \<union> (if loadable a then {sec_of b a} else {})"
    using sec_insert_props [OF Cons.prems(1), of "sec_of b a"] Cons.prems
    by (auto simp: add_section_def loadable_def sec_of_def section_new_def)
  moreover have "\<forall>x \<in> set secs. as_vma x \<noteq> 0 \<longrightarrow> as_vma x \<notin> s_vma ` set ?ss"
    using s Cons.prems(2,3) by (auto simp: sec_of_def section_new_def loadable_def image_iff split: if_splits)
  ultimately show ?case
    using Cons.IH [of ?ss] Cons.prems(2) by (auto simp: load_bfd_def split: if_splits)
qed (simp add: load_bfd_def)


lemma find_by_vma:
  assumes "distinct (map as_vma (filter (\<lambda>a. as_vma a \<noteq> 0) secs))" and "a \<in> set secs" and "as_vma a \<noteq> 0"
  shows "bfd_get_section_by_vma secs (as_vma a) = Some a"
  using assms by (induction secs) (auto simp: bfd_get_section_by_vma_def split: if_splits)

lemma sec_of_ok:
  assumes "core_ok secs" and "a \<in> set secs" and "loadable a"
  shows "sec_ok (\<lambda>_. secs) (sec_of b a)" and "as_contents a = Some (sec_bytes (\<lambda>_. secs) (sec_of b a))"
proof -
  have f: "bfd_get_section_by_vma secs (as_vma a) = Some a"
    using assms by (intro find_by_vma) (auto simp: core_ok_def loadable_def)
  have "unat (as_vma a) + unat (as_size a) < 2 ^ 64" "\<exists>d. as_contents a = Some d \<and> length d = unat (as_size a)"
    using assms by (auto simp: core_ok_def split: option.splits)
  with f assms(3) show "sec_ok (\<lambda>_. secs) (sec_of b a)" "as_contents a = Some (sec_bytes (\<lambda>_. secs) (sec_of b a))"
    by (auto simp: sec_ok_def sec_of_def section_new_def loadable_def sec_end_def sec_bytes_def)
qed

lemma load_core:
  assumes "core_ok secs"
  shows "sec_set (\<lambda>_. secs) (load_bfd b secs [])" and "set (load_bfd b secs []) = sec_of b ` {a \<in> set secs. loadable a}"
proof -
  have l: "by_vma (load_bfd b secs [])" "set (load_bfd b secs []) = sec_of b ` {a \<in> set secs. loadable a}"
    using load_bfd_props [of "[]" secs b] assms by (auto simp: core_ok_def)
  have "apart s t" if s: "s \<in> set (load_bfd b secs [])" and t: "t \<in> set (load_bfd b secs [])" and lt: "s_vma s < s_vma t" for s t
  proof -
    from s l(2) obtain x where x: "s = sec_of b x" "x \<in> set secs" "loadable x" by auto
    from t l(2) obtain y where y: "t = sec_of b y" "y \<in> set secs" "loadable y" by auto
    have "as_vma x < as_vma y" using lt x(1) y(1) by (simp add: sec_of_def section_new_def)
    with assms x y show ?thesis
      by (auto simp: core_ok_def apart_def sec_end_def sec_of_def section_new_def)
  qed
  with l(1) have "sorted_wrt apart (load_bfd b secs [])" by (auto elim: sorted_wrt_mono_rel [rotated])
  with l(2) assms show "sec_set (\<lambda>_. secs) (load_bfd b secs [])"
    by (auto simp: sec_set_def intro: sec_of_ok)
  show "set (load_bfd b secs []) = sec_of b ` {a \<in> set secs. loadable a}" by (rule l)
qed

lemma file_byte_iff:
  assumes "core_ok secs"
  shows "file_byte secs p = Some x \<longleftrightarrow> (\<exists>s \<in> sec_of b ` {a \<in> set secs. loadable a}. unat (s_vma s) \<le> p \<and> p < sec_end s
    \<and> sec_bytes (\<lambda>_. secs) s ! (p - unat (s_vma s)) = x)"
proof -
  let ?in = "\<lambda>a. loadable a \<and> unat (as_vma a) \<le> p \<and> p < unat (as_vma a) + unat (as_size a)"
  have uniq: "a = a'" if "a \<in> set secs" "a' \<in> set secs" "?in a" "?in a'" for a a'
  proof -
    have "\<not> as_vma a < as_vma a'" "\<not> as_vma a' < as_vma a" using that assms unfolding core_ok_def by force+
    then have "as_vma a = as_vma a'" by simp
    with find_by_vma [of secs a] find_by_vma [of secs a'] that assms show ?thesis
      by (simp add: core_ok_def loadable_def)
  qed
  have fnd: "find ?in secs = Some a" if "a \<in> set secs" "?in a" for a
  proof (cases "find ?in secs")
    case None
    with that show ?thesis by (auto simp: find_None_iff)
  next
    case (Some a')
    then have "a' \<in> set secs" "?in a'" by (auto simp: find_Some_iff)
    with uniq that Some show ?thesis by blast
  qed
  have "file_byte secs p = Some x \<longleftrightarrow> (\<exists>a \<in> set secs. ?in a \<and> sec_bytes (\<lambda>_. secs) (sec_of b a) ! (p - unat (as_vma a)) = x)"
  proof
    assume "file_byte secs p = Some x"
    then obtain a where a: "find ?in secs = Some a" "map_option (\<lambda>d. d ! (p - unat (as_vma a))) (as_contents a) = Some x"
      by (auto simp: file_byte_def split: option.splits)
    then have "a \<in> set secs" "?in a" by (auto simp: find_Some_iff)
    with a(2) sec_of_ok(2) [OF assms, of a b] show "\<exists>a \<in> set secs. ?in a \<and> sec_bytes (\<lambda>_. secs) (sec_of b a) ! (p - unat (as_vma a)) = x"
      by auto
  next
    assume "\<exists>a \<in> set secs. ?in a \<and> sec_bytes (\<lambda>_. secs) (sec_of b a) ! (p - unat (as_vma a)) = x"
    then obtain a where a: "a \<in> set secs" "?in a" "sec_bytes (\<lambda>_. secs) (sec_of b a) ! (p - unat (as_vma a)) = x" by blast
    with fnd [OF a(1,2)] sec_of_ok(2) [OF assms a(1), of b] show "file_byte secs p = Some x"
      by (simp add: file_byte_def)
  qed
  then show ?thesis by (auto simp: sec_of_def section_new_def sec_end_def)
qed


section \<open>Translating addresses\<close>

text \<open>Chunks of one file: in order, with a gap between any two.\<close>

definition gap :: "csection \<Rightarrow> csection \<Rightarrow> bool" where
  "gap c d \<longleftrightarrow> sec_end c < unat (s_vma d)"

definition chunk_list :: "csection list \<Rightarrow> bool" where
  "chunk_list cs \<longleftrightarrow> sorted_wrt gap cs \<and> (\<forall>c \<in> set cs. sec_end c < 2 ^ 64 \<and> length (s_data c) = unat (s_size c))"

lemma gap_trans: "gap c d \<Longrightarrow> gap d e \<Longrightarrow> gap c e"
  by (simp add: gap_def sec_end_def)

lemma chunk_list_runs:
  assumes "sec_set files (concat rs)" and "\<forall>r \<in> set rs. r \<noteq> [] \<and> successively touching r"
    and "successively (\<lambda>r r'. \<not> touching (last r) (hd r')) rs" and "\<forall>s \<in> set (concat rs). s_abfd s = b"
  shows "chunk_list (map (chunk_of A files) rs)"
proof -
  have r: "\<exists>s run. r = s # run \<and> successively touching (s # run) \<and> (\<forall>x \<in> set (s # run). sec_ok files x)" if "r \<in> set rs" for r
    using assms(1,2) that by (cases r) (auto simp: sec_set_def)
  have "successively gap (map (chunk_of A files) rs)"
    using assms
  proof (induction rs rule: induct_list012)
    case (3 r r' rs)
    have ne: "r \<noteq> []" "r' \<noteq> []" "successively touching r" "successively touching r'" using "3.prems"(2) by auto
    then obtain s run s' run' where e: "r = s # run" "r' = s' # run'" by (meson neq_Nil_conv)
    have ok: "\<forall>x \<in> set r \<union> set r'. sec_ok files x" using "3.prems"(1) by (auto simp: sec_set_def)
    have "apart (last r) (hd r')" using "3.prems"(1) ne by (auto simp: sec_set_def sorted_wrt_append)
    moreover have "\<not> touching (last r) (hd r')" using "3.prems"(3) by simp
    moreover have "s_abfd (last r) = b" "s_abfd (hd r') = b" using "3.prems"(4) ne by auto
    ultimately have "sec_end (last r) < unat (s_vma (hd r'))" by (auto simp: apart_def touching_def)
    then have "gap (chunk_of A files r) (chunk_of A files r')"
      using chunk_fields [of s run files A] chunk_fields [of s' run' files A] ne ok e by (simp add: gap_def)
    moreover have "successively gap (map (chunk_of A files) (r' # rs))"
      using "3.prems" by (intro "3.IH"(2)) (auto simp: sec_set_def sorted_wrt_append)
    ultimately show ?case by simp
  qed auto
  then have "sorted_wrt gap (map (chunk_of A files) rs)"
    by (subst (asm) successively_conv_sorted_wrt) (auto intro!: transpI elim: gap_trans)
  moreover have "sec_end (chunk_of A files x) < 2 ^ 64 \<and> length (s_data (chunk_of A files x)) = unat (s_size (chunk_of A files x))"
    if "x \<in> set rs" for x using r [OF that] chunk_fields(3,4) by blast
  ultimately show ?thesis by (auto simp: chunk_list_def)
qed

lemma remap_in:
  assumes "chunk_list cs" and "c \<in> set cs" and "unat (s_vma c) \<le> unat p" and "unat p + unat n \<le> sec_end c" and "n \<noteq> 0"
  shows "remap_from cs p n = s_addr c + (p - s_vma c)"
  using assms
proof (induction cs)
  case (Cons d cs)
  have pn: "unat (p + n) = unat p + unat n" using Cons.prems by (auto simp: chunk_list_def unat_word_ariths)
  have e: "unat (s_vma x + s_size x) = sec_end x" if "x \<in> set (d # cs)" for x
    using Cons.prems(1) that by (auto simp: chunk_list_def sec_end_def unat_word_ariths)
  show ?case
  proof (cases "c = d")
    case True
    with Cons.prems e [of d] pn show ?thesis by (simp add: word_le_nat_alt)
  next
    case False
    with Cons.prems have "gap d c" by (auto simp: chunk_list_def)
    then have "\<not> p + n \<le> s_vma d + s_size d"
      using Cons.prems(3) e [of d] pn by (simp add: gap_def word_le_nat_alt)
    with Cons False show ?thesis by (simp add: chunk_list_def)
  qed
qed simp

lemma remap_out:
  assumes "chunk_list cs" and "unat p + unat n < 2 ^ 64"
    and "\<forall>c \<in> set cs. \<not> (unat (s_vma c) \<le> unat p \<and> unat p + unat n \<le> sec_end c)"
  shows "remap_from cs p n = 0"
  using assms
proof (induction cs)
  case (Cons d cs)
  have "unat (p + n) = unat p + unat n" using Cons.prems(2) by (simp add: unat_word_ariths)
  moreover have "unat (s_vma d + s_size d) = sec_end d"
    using Cons.prems(1) by (auto simp: chunk_list_def sec_end_def unat_word_ariths)
  ultimately have "\<not> (p \<ge> s_vma d \<and> p + n \<le> s_vma d + s_size d)"
    using Cons.prems(3) by (auto simp: word_le_nat_alt)
  with Cons show ?case by (auto simp: chunk_list_def)
qed simp

lemma gap_cases: "chunk_list cs \<Longrightarrow> c \<in> set cs \<Longrightarrow> d \<in> set cs \<Longrightarrow> c = d \<or> gap c d \<or> gap d c"
  unfolding chunk_list_def sorted_wrt_iff_nth_less in_set_conv_nth by (metis nat_neq_iff)

text \<open>A range of addresses that are all in chunks is in one chunk.\<close>

lemma range_in_chunk:
  assumes "chunk_list cs" and "\<forall>i < Suc n. \<exists>c \<in> set cs. unat (s_vma c) \<le> p + i \<and> p + i < sec_end c"
  shows "\<exists>c \<in> set cs. unat (s_vma c) \<le> p \<and> p + Suc n \<le> sec_end c"
  using assms(2)
proof (induction n)
  case (Suc n)
  then obtain c where c: "c \<in> set cs" "unat (s_vma c) \<le> p" "p + Suc n \<le> sec_end c" by auto
  obtain d where d: "d \<in> set cs" "unat (s_vma d) \<le> p + Suc n" "p + Suc n < sec_end d" using Suc.prems by blast
  from gap_cases [OF assms(1) c(1) d(1)] c d show ?case by (auto simp: gap_def)
qed auto


lemma coalesce_core:
  assumes "sec_set files ss"
  shows "\<exists>rs. coalesce_and_load_sections (\<lambda>v n. Some (A v n)) files \<lparr>cd_sections = ss, cd_failed = False\<rparr>
      = Some \<lparr>cd_sections = map (chunk_of A files) rs, cd_failed = False\<rparr>
    \<and> concat rs = ss \<and> (\<forall>r \<in> set rs. r \<noteq> [] \<and> successively touching r)
    \<and> successively (\<lambda>r r'. \<not> touching (last r) (hd r')) rs"
proof (cases ss)
  case Nil
  then show ?thesis by (intro exI [of _ "[]"]) (simp add: coalesce_and_load_sections_def)
next
  case (Cons s ss')
  from coalesce_run [of "[s]" files ss' "[]" A False] assms Cons obtain rs where
    "coalesce_from (\<lambda>v n. Some (A v n)) files (s_vma s, word_of_nat (sec_end s), s_abfd s)
        \<lparr>cd_sections = [], cd_failed = False\<rparr> ss' = Some \<lparr>cd_sections = map (chunk_of A files) rs, cd_failed = False\<rparr>"
    "concat rs = ss" "\<forall>r \<in> set rs. r \<noteq> [] \<and> successively touching r"
    "successively (\<lambda>r r'. \<not> touching (last r) (hd r')) rs" by auto
  moreover have "s_vma s + s_size s = word_of_nat (sec_end s)" by (simp add: sec_end_def)
  ultimately show ?thesis using Cons by (auto simp: coalesce_and_load_sections_def)
qed

text \<open>The chunks hold the bytes of the sections they were made of, and no others.\<close>

lemma chunks_hold:
  assumes "sec_set files (concat rs)" and "\<forall>r \<in> set rs. r \<noteq> [] \<and> successively touching r"
  shows "s \<in> set (concat rs) \<Longrightarrow> unat (s_vma s) \<le> a \<Longrightarrow> a < sec_end s
      \<Longrightarrow> \<exists>c \<in> set (map (chunk_of A files) rs). holds_byte c a (sec_bytes files s ! (a - unat (s_vma s)))"
    and "c \<in> set (map (chunk_of A files) rs) \<Longrightarrow> unat (s_vma c) \<le> a \<Longrightarrow> a < sec_end c
      \<Longrightarrow> \<exists>s \<in> set (concat rs). unat (s_vma s) \<le> a \<and> a < sec_end s"
proof -
  have runE: "\<exists>x run. r = x # run \<and> successively touching (x # run) \<and> (\<forall>y \<in> set (x # run). sec_ok files y)" if "r \<in> set rs" for r
    using assms that by (cases r) (auto simp: sec_set_def)
  {
    assume s: "s \<in> set (concat rs)" "unat (s_vma s) \<le> a" "a < sec_end s"
    then obtain r where r: "r \<in> set rs" "s \<in> set r" by auto
    from runE [OF r(1)] obtain x run where x: "r = x # run" "successively touching (x # run)" "\<forall>y \<in> set (x # run). sec_ok files y" by blast
    have "a - unat (s_vma s) < length (sec_bytes files s)"
      using s x r(2) sec_ok_bytes [of files s] by (auto simp: sec_end_def)
    from chunk_byte [OF x(2,3) r(2) [unfolded x(1)] this] s(2) obtain j where
      j: "concat (map (sec_bytes files) (x # run)) ! j = sec_bytes files s ! (a - unat (s_vma s))"
        "j < length (concat (map (sec_bytes files) (x # run)))" "unat (s_vma x) + j = a" by auto
    have "s_data (chunk_of A files (x # run)) = concat (map (sec_bytes files) (x # run))"
      "s_vma (chunk_of A files (x # run)) = s_vma x" by (simp_all add: chunk_of_def Let_def)
    with j chunk_fields(4) [OF x(2,3), of A]
    have "holds_byte (chunk_of A files r) a (sec_bytes files s ! (a - unat (s_vma s)))"
      unfolding x(1) holds_byte_def sec_end_def [of "chunk_of A files (x # run)"] by auto
    with r(1) show "\<exists>c \<in> set (map (chunk_of A files) rs). holds_byte c a (sec_bytes files s ! (a - unat (s_vma s)))" by auto
  next
    assume c: "c \<in> set (map (chunk_of A files) rs)" "unat (s_vma c) \<le> a" "a < sec_end c"
    then obtain r where r: "r \<in> set rs" "c = chunk_of A files r" by auto
    from runE [OF r(1)] obtain x run where x: "r = x # run" "successively touching (x # run)" "\<forall>y \<in> set (x # run). sec_ok files y" by blast
    from run_cover [OF x(2), of a] chunk_fields(1,2) [OF x(2,3), of A] c r x(1)
    obtain y where "y \<in> set r" "unat (s_vma y) \<le> a" "a < sec_end y" by auto
    with r(1) show "\<exists>s \<in> set (concat rs). unat (s_vma s) \<le> a \<and> a < sec_end s" by auto
  }
qed

lemma gap_uniq:
  assumes "chunk_list cs" and "c \<in> set cs" and "d \<in> set cs" and "unat (s_vma c) \<le> a" and "a < sec_end c"
    and "unat (s_vma d) \<le> a" and "a < sec_end d"
  shows "c = d"
  using gap_cases [OF assms(1-3)] assms(4-7) by (auto simp: gap_def)


section \<open>Properties\<close>

text \<open>What the translation of a range must give on a loaded image.\<close>

definition image_exact :: "asection list \<Rightarrow> coredump \<Rightarrow> u64 \<Rightarrow> u64 \<Rightarrow> bool" where
  "image_exact core c p n \<longleftrightarrow>
     (if \<forall>i < unat n. file_byte core (unat p + i) \<noteq> None
      then \<exists>s \<in> set (cd_sections c). remap c p n = s_addr s + (p - s_vma s)
        \<and> unat (p - s_vma s) + unat n \<le> length (s_data s)
        \<and> (\<forall>i < unat n. file_byte core (unat p + i) = Some (s_data s ! (unat (p - s_vma s) + i)))
      else remap c p n = 0)"

lemma image_exact_chunks:
  assumes cs: "chunk_list (cd_sections c)" and n: "0 < n" "unat p + unat n < 2 ^ 64"
    and h1: "\<And>a x. file_byte core a = Some x \<Longrightarrow> \<exists>s \<in> set (cd_sections c). holds_byte s a x"
    and h2: "\<And>a s. s \<in> set (cd_sections c) \<Longrightarrow> unat (s_vma s) \<le> a \<Longrightarrow> a < sec_end s \<Longrightarrow> file_byte core a \<noteq> None"
  shows "image_exact core c p n"
proof (cases "\<forall>i < unat n. file_byte core (unat p + i) \<noteq> None")
  case True
  obtain m where m: "unat n = Suc m" using n(1) by (cases "unat n") (auto simp: unat_eq_zero)
  have "\<exists>s \<in> set (cd_sections c). unat (s_vma s) \<le> unat p + i \<and> unat p + i < sec_end s" if i: "i < Suc m" for i
  proof -
    obtain x where "file_byte core (unat p + i) = Some x" using True i m by auto
    from h1 [OF this] show ?thesis by (auto simp: holds_byte_def)
  qed
  from range_in_chunk [OF cs, of m "unat p"] this obtain s
    where s: "s \<in> set (cd_sections c)" "unat (s_vma s) \<le> unat p" "unat p + unat n \<le> sec_end s" unfolding m by blast
  have d: "unat (p - s_vma s) = unat p - unat (s_vma s)" using s(2) by (simp add: unat_sub word_le_nat_alt)
  have l: "length (s_data s) = unat (s_size s)" using cs s(1) by (simp add: chunk_list_def)
  have "file_byte core (unat p + i) = Some (s_data s ! (unat (p - s_vma s) + i))" if i: "i < unat n" for i
  proof -
    obtain x where x: "file_byte core (unat p + i) = Some x" using True i by blast
    with h1 obtain t where "t \<in> set (cd_sections c)" "holds_byte t (unat p + i) x" by blast
    with gap_uniq [OF cs s(1), of t "unat p + i"] s i x d show ?thesis by (auto simp: holds_byte_def)
  qed
  moreover have "unat (p - s_vma s) + unat n \<le> length (s_data s)" using s d l by (simp add: sec_end_def)
  moreover have "remap c p n = s_addr s + (p - s_vma s)"
    using remap_in [OF cs s] n(1) by (simp add: remap_def word_neq_0_conv)
  ultimately show ?thesis using True s(1) unfolding image_exact_def by auto
next
  case False
  then obtain i where "i < unat n" "file_byte core (unat p + i) = None" by auto
  then have "\<forall>s \<in> set (cd_sections c). \<not> (unat (s_vma s) \<le> unat p \<and> unat p + unat n \<le> sec_end s)"
    using h2 [of _ "unat p + i"] by fastforce
  with remap_out [OF cs n(2)] False show ?thesis by (auto simp: image_exact_def remap_def)
qed

text \<open>
  C11: loading a core file whose sections can be read and do not overlap succeeds, and the
  translation of addresses is exact for ranges that are not empty and do not wrap around the
  address space: a range of addresses of the dead process that the file covers, be it by several adjacent sections, is translated to a block of the tool's memory that
  holds the same bytes, and every other range to the null pointer.
\<close>

theorem core_image_exact:
  assumes "core_ok core"
  shows "\<exists>c. coredump_new (\<lambda>v n. Some (A v n)) (Some (True, core)) None = Some c \<and> \<not> cd_failed c
    \<and> (\<forall>p n. 0 < n \<longrightarrow> unat p + unat n < 2 ^ 64 \<longrightarrow> image_exact core c p n)"
proof -
  let ?F = "\<lambda>_ :: nat. core"
  note l = load_core [OF assms, of 0]
  from coalesce_core [OF l(1), of A] obtain rs where rs:
    "coalesce_and_load_sections (\<lambda>v n. Some (A v n)) ?F \<lparr>cd_sections = load_bfd 0 core [], cd_failed = False\<rparr>
      = Some \<lparr>cd_sections = map (chunk_of A ?F) rs, cd_failed = False\<rparr>"
    "concat rs = load_bfd 0 core []" "\<forall>r \<in> set rs. r \<noteq> [] \<and> successively touching r"
    "successively (\<lambda>r r'. \<not> touching (last r) (hd r')) rs" by blast
  have set: "set (concat rs) = sec_of 0 ` {a \<in> set core. loadable a}" using l(2) rs(2) by simp
  have ss: "sec_set ?F (concat rs)" using l(1) rs(2) by simp
  define c where "c = \<lparr>cd_sections = map (chunk_of A ?F) rs, cd_failed = False\<rparr>"
  have "\<forall>s \<in> set (concat rs). s_abfd s = 0" unfolding set by (auto simp: sec_of_def section_new_def)
  then have cs: "chunk_list (cd_sections c)"
    unfolding c_def using chunk_list_runs [OF ss rs(3,4), of 0 A] by simp
  have "\<exists>s \<in> set (cd_sections c). holds_byte s a x" if fb: "file_byte core a = Some x" for a x
  proof -
    obtain s where "s \<in> set (concat rs)" "unat (s_vma s) \<le> a" "a < sec_end s" "sec_bytes ?F s ! (a - unat (s_vma s)) = x"
      using fb unfolding file_byte_iff [OF assms, of _ _ 0] set by blast
    with chunks_hold(1) [OF ss rs(3), of s a A] show ?thesis by (simp add: c_def)
  qed
  moreover have "file_byte core a \<noteq> None" if "s \<in> set (cd_sections c)" "unat (s_vma s) \<le> a" "a < sec_end s" for a s
  proof -
    from chunks_hold(2) [OF ss rs(3), of s A a] that obtain t
      where "t \<in> set (concat rs)" "unat (s_vma t) \<le> a" "a < sec_end t" by (auto simp: c_def)
    then show ?thesis using file_byte_iff [OF assms, of a _ 0] unfolding set by blast
  qed
  ultimately have "\<forall>p n. 0 < n \<longrightarrow> unat p + unat n < 2 ^ 64 \<longrightarrow> image_exact core c p n"
    using image_exact_chunks [OF cs] by blast
  then show ?thesis using rs(1) by (auto simp: coredump_new_def c_def)
qed


text \<open>Three sections, two of them adjacent, and an empty one.\<close>

definition demo_core :: "asection list" where
  "demo_core = [\<lparr>as_vma = 0, as_size = 4, as_contents = None\<rparr>,
     \<lparr>as_vma = 0x2000, as_size = 2, as_contents = Some [5, 6]\<rparr>,
     \<lparr>as_vma = 0x1000, as_size = 3, as_contents = Some [1, 2, 3]\<rparr>,
     \<lparr>as_vma = 0x1003, as_size = 1, as_contents = Some [4]\<rparr>]"

lemma demo_core_ok: "core_ok demo_core"
  by (simp add: core_ok_def demo_core_def loadable_def)

theorem core_image_exact_witness:
  "\<exists>c. coredump_new (\<lambda>v n. Some (v + 0x100000)) (Some (True, demo_core)) None = Some c \<and> \<not> cd_failed c
    \<and> (\<exists>s \<in> set (cd_sections c). remap c 0x1002 2 = s_addr s + (0x1002 - s_vma s)
         \<and> unat (0x1002 - s_vma s) + 2 \<le> length (s_data s)
         \<and> s_data s ! (unat (0x1002 - s_vma s) + 0) = 3 \<and> s_data s ! (unat (0x1002 - s_vma s) + 1) = 4)"
proof -
  obtain c where c: "coredump_new (\<lambda>v n. Some (v + 0x100000)) (Some (True, demo_core)) None = Some c" "\<not> cd_failed c"
    "image_exact demo_core c 0x1002 2"
    using core_image_exact [OF demo_core_ok, of "\<lambda>v n. v + 0x100000"] by auto
  have b: "file_byte demo_core 4098 = Some 3" "file_byte demo_core 4099 = Some 4"
    by (simp_all add: file_byte_def demo_core_def loadable_def)
  have "\<forall>i < unat (2 :: u64). file_byte demo_core (unat (0x1002 :: u64) + i) \<noteq> None"
    using b by (auto simp: less_2_cases_iff)
  with c(3) obtain s where s: "s \<in> set (cd_sections c)" "remap c 0x1002 2 = s_addr s + (0x1002 - s_vma s)"
    "unat (0x1002 - s_vma s) + unat (2 :: u64) \<le> length (s_data s)"
    and f: "\<forall>i < unat (2 :: u64). file_byte demo_core (unat (0x1002 :: u64) + i) = Some (s_data s ! (unat (0x1002 - s_vma s) + i))"
    unfolding image_exact_def by auto
  from f [rule_format, of 0] f [rule_format, of 1] b
  have "s_data s ! (unat (0x1002 - s_vma s) + 0) = 3" "s_data s ! (unat (0x1002 - s_vma s) + 1) = 4" by simp_all
  with c(1,2) s show ?thesis by auto
qed

text \<open>
  The failure to load one chunk is forgotten when a later chunk loads: with two separate
  sections of which the first cannot be read, the constructor reports success, and addresses of
  the first section are translated to a block in which nothing was stored.
\<close>

definition broken_core :: "asection list" where
  "broken_core = [\<lparr>as_vma = 0x1000, as_size = 3, as_contents = None\<rparr>, \<lparr>as_vma = 0x2000, as_size = 2, as_contents = Some [5, 6]\<rparr>]"

lemma load_failure_forgotten:
  "\<exists>c s. coredump_new (\<lambda>v n. Some (v + 0x100000)) (Some (True, broken_core)) None = Some c \<and> \<not> cd_failed c
    \<and> s \<in> set (cd_sections c) \<and> remap c 0x1000 3 = s_addr s \<and> s_addr s \<noteq> 0 \<and> s_data s = []"
  by (simp add: coredump_new_def broken_core_def load_bfd_def add_section_def section_new_def coalesce_and_load_sections_def
      flush_chunk_def load_section_def load_loop.simps bfd_get_section_by_vma_def remap_def conj_disj_distribR ex_disj_distrib)

text \<open>An empty section in front of another one at the same address makes the load run for ever.\<close>

lemma load_loop_empty_section:
  assumes "bfd_get_section_by_vma secs v = Some a" and "as_size a = 0" and "as_contents a = Some []" and "n \<noteq> 0"
  shows "load_loop secs v n acc = None"
proof (rule ccontr)
  assume "load_loop secs v n acc \<noteq> None"
  then obtain r where r: "load_loop secs v n acc = Some r" by auto
  have "secs = secs' \<longrightarrow> bfd_get_section_by_vma secs' v = Some a \<longrightarrow> n = 0" for secs'
    by (rule load_loop.raw_induct [OF _ r]) (use assms(2,3) in \<open>auto split: option.splits if_splits\<close>)
  with assms(1,4) show False by blast
qed

text \<open>The end of the range is computed modulo \<open>2 ^ 64\<close>: a range that wraps around passes the test.\<close>

lemma remap_wraps:
  assumes "cd_sections c = s # ss" and "s_vma s \<le> p" and "p + n \<le> s_vma s + s_size s"
  shows "remap c p n = s_addr s + (p - s_vma s)"
  using assms by (simp add: remap_def)

end
