(* ===== verification/Recovery.thy ===== *)
theory Recovery
  imports Coredump Bitmap Ringbuf
begin

text \<open>
  Recovery of rings and output buffers from a core file (\<^verbatim>\<open>tools/recovery-engine.hpp\<close>,
  \<^verbatim>\<open>tools/recovery-engine.cc\<close>). The loaded chunks are searched for the magic numbers of rings and
  outputs; the objects found are checked and their pointers replaced in place by pointers into the
  loaded chunks. Objects are kept in one heap per type, indexed by their address in the tool; the
  bytes that are searched are those of the chunks, and replacing pointers is taken not to
  change where magic numbers are. Sizes of objects and addresses of the tool's own static data are arguments. A
  shift that is too far and a loop that never ends are \<open>None\<close>.
\<close>

section \<open>Definitions\<close>

type_synonym magic = "u32 list"

definition ring_magic :: magic where
  "ring_magic = [0xe1272734, 0xba8a7dc8, 0xdd223344, 0x51691388]"

definition area_magic :: magic where
  "area_magic = [0xe129000f, 0xba8a7dc8, 0xdd223344, 0x51691388]"

definition output_magic :: magic where
  "output_magic = [0xe121200f, 0xba8a7dc8, 0xdd223344, 0x51691388]"

definition magic_bytes :: "magic \<Rightarrow> bytes" where
  "magic_bytes m = concat (map (le_bytes 4) m)"

text \<open>Objects of the dead process. The ring's name is a pointer; its records are in the heap of records.\<close>

record core_ring =
  cr_name :: u64
  cr_ring :: "unit ringbuf"

record core_area =
  ca_magic :: magic
  ca_name :: u64
  ca_section :: u64
  ca_bm_data :: u64
  ca_bm_size :: u32

record core_buf =
  cb_data :: u64
  cb_capacity :: u32
  cb_size :: u32
  cb_failed :: bool
  cb_error :: string

record heap =
  h_rings :: "u64 \<Rightarrow> core_ring"
  h_areas :: "u64 \<Rightarrow> core_area"
  h_timesources :: "u64 \<Rightarrow> u64"
  h_records :: "u64 \<Rightarrow> log_record"
  h_names :: "u64 \<Rightarrow> u64"
  h_outputs :: "u64 \<Rightarrow> u64"
  h_bufs :: "u64 \<Rightarrow> core_buf"

text \<open>Addresses of static data of the tool, and sizes of the classes.\<close>

record statics =
  st_default_names :: u64
  st_na :: u64
  st_special_area :: u64
  sz_ring :: nat
  sz_output :: nat
  sz_area :: u64
  sz_timesource :: u64
  sz_ostrbuf :: u64

record recovery =
  rv_areas :: "u64 \<rightharpoonup> u64"
  rv_timesources :: "u64 \<rightharpoonup> u64"
  rv_rings :: "u64 list"
  rv_outbufs :: "u64 \<rightharpoonup> u64"
  rv_heap :: heap

abbreviation set_heap :: "(heap \<Rightarrow> heap) \<Rightarrow> recovery \<Rightarrow> recovery" where
  "set_heap f rv \<equiv> rv\<lparr>rv_heap := f (rv_heap rv)\<rparr>"

text \<open>Areas: the checks, and the loop over the names of the sections.\<close>

definition max_sections :: u32 where
  "max_sections = 256 * 1024"

definition bitmap_fixup :: "coredump \<Rightarrow> core_area \<Rightarrow> bool \<times> core_area" where
  "bitmap_fixup core a =
     (if ca_bm_size a = 0 \<or> ca_bm_size a > max_sections then (False, a)
      else let p = remap core (ca_bm_data a) (ucast (bm_nbytes (ca_bm_size a))) in
        (p \<noteq> 0, a\<lparr>ca_bm_data := p\<rparr>))"

function fixup_names :: "statics \<Rightarrow> coredump \<Rightarrow> nat \<Rightarrow> core_area \<Rightarrow> (u64 \<Rightarrow> u64) \<Rightarrow> core_area \<times> (u64 \<Rightarrow> u64)" where
  "fixup_names st core i a names =
     (if i \<ge> unat (ca_bm_size a) then (a, names)
      else
        let cell = ca_section a + 8 * word_of_nat i;
            p = remap core (names cell) 0;
            names = names(cell := p)
        in if p \<noteq> 0 then fixup_names st core (Suc i) a names
           else if i = 0 \<and> ca_bm_size a = 6 then (a\<lparr>ca_section := st_default_names st\<rparr>, names)
           else fixup_names st core (Suc i) a (names(cell := st_na st)))"
  by pat_completeness auto

termination by (relation "measure (\<lambda>(_, _, i, a, _). unat (ca_bm_size a) - i)") auto

declare fixup_names.simps [simp del]

definition area_fixup :: "statics \<Rightarrow> coredump \<Rightarrow> u64 \<Rightarrow> heap \<Rightarrow> u64 \<times> heap" where
  "area_fixup st core ptr h =
     (if ptr = 0 then (0, h)
      else let a = h_areas h ptr in
        if ca_magic a \<noteq> area_magic then (0, h)
        else let (ok, a) = bitmap_fixup core a; h = h\<lparr>h_areas := (h_areas h)(ptr := a)\<rparr> in
          if \<not> ok then (0, h)
          else if ca_bm_size a = 0 \<or> ca_bm_size a > max_sections then (0, h)
          else let a = a\<lparr>ca_name := remap core (ca_name a) 0\<rparr>; h = h\<lparr>h_areas := (h_areas h)(ptr := a)\<rparr> in
            if ca_name a = 0 then (0, h)
            else let a = a\<lparr>ca_section := remap core (ca_section a) (8 * ucast (ca_bm_size a))\<rparr>;
                     h = h\<lparr>h_areas := (h_areas h)(ptr := a)\<rparr> in
              if ca_section a = 0 then (0, h)
              else let (a, names) = fixup_names st core 0 a (h_names h) in
                (ptr, h\<lparr>h_areas := (h_areas h)(ptr := a), h_names := names\<rparr>))"

definition timesource_fixup :: "coredump \<Rightarrow> u64 \<Rightarrow> heap \<Rightarrow> u64 \<times> heap" where
  "timesource_fixup core ptr h =
     (if ptr = 0 then (0, h)
      else let p = remap core (h_timesources h ptr) 0; h = h\<lparr>h_timesources := (h_timesources h)(ptr := p)\<rparr> in
        if p = 0 then (0, h) else (ptr, h))"

text \<open>Rings. The checks come before any pointer is replaced.\<close>

definition ring_sane :: "unit ringbuf \<Rightarrow> bool" where
  "ring_sane r \<longleftrightarrow> \<not> (rb_dropcnt r > rb_seqnum r) \<and> \<not> (PRIORITY_CEILING <s rb_prio r)
     \<and> \<not> (record_size r = 0 \<or> record_size r > 1024 * 1024) \<and> \<not> (rb_rec_tailroom r > record_size r)
     \<and> \<not> (rb_head r > rb_capacity r \<or> rb_tail r > rb_capacity r)"

definition ring_fixup :: "coredump \<Rightarrow> bool \<Rightarrow> core_ring \<Rightarrow> (bool \<times> core_ring) option" where
  "ring_fixup core reset cr =
     (let r = cr_ring cr in
      if unat (rb_rec_shift r) \<ge> 32 \<and> \<not> (rb_dropcnt r > rb_seqnum r) \<and> \<not> (PRIORITY_CEILING <s rb_prio r) then None
      else if \<not> ring_sane r then Some (False, cr)
      else let name = remap core (cr_name cr) 0;
               r = r\<lparr>rb_rec_top := remap core (rb_rec_top r) (ucast (record_size r * ring_capacity r))\<rparr>
        in if name = 0 \<or> rb_rec_top r = 0 then Some (False, \<lparr>cr_name = name, cr_ring = r\<rparr>)
           else Some (True, \<lparr>cr_name = name,
             cr_ring = (if reset then r\<lparr>rb_head := 0, rb_tail := rb_capacity r\<rparr> else r)\<rparr>))"

definition ostrbuf_fixup :: "coredump \<Rightarrow> u64 \<Rightarrow> heap \<Rightarrow> u64 \<times> heap" where
  "ostrbuf_fixup core ptr h =
     (if ptr = 0 then (0, h)
      else let s = h_bufs h ptr in
        if cb_capacity s = 0 \<or> cb_capacity s > 256 * 1024 * 1024 then (0, h)
        else if cb_size s > cb_capacity s then (0, h)
        else let s = s\<lparr>cb_error := take 63 (cb_error s), cb_data := remap core (cb_data s) (ucast (cb_capacity s))\<rparr>;
                 h = h\<lparr>h_bufs := (h_bufs h)(ptr := s)\<rparr> in
          if cb_data s = 0 then (0, h) else (ptr, h))"

text \<open>Objects that are shared are looked up first; also a failed one is remembered.\<close>

definition fixup_timesource :: "statics \<Rightarrow> coredump \<Rightarrow> u64 \<Rightarrow> recovery \<Rightarrow> u64 \<times> recovery" where
  "fixup_timesource st core ptr rv =
     (case rv_timesources rv ptr of
        Some ts \<Rightarrow> (ts, rv)
      | None \<Rightarrow> let (ts, h) = timesource_fixup core (remap core ptr (sz_timesource st)) (rv_heap rv) in
          (ts, rv\<lparr>rv_timesources := (rv_timesources rv)(ptr \<mapsto> ts), rv_heap := h\<rparr>))"

definition fixup_ostrbuf :: "statics \<Rightarrow> coredump \<Rightarrow> u64 \<Rightarrow> recovery \<Rightarrow> u64 \<times> recovery" where
  "fixup_ostrbuf st core ptr rv =
     (if ptr = 0 then (0, rv)
      else case rv_outbufs rv ptr of
        Some sb \<Rightarrow> (sb, rv)
      | None \<Rightarrow> let (sb, h) = ostrbuf_fixup core (remap core ptr (sz_ostrbuf st)) (rv_heap rv) in
          (sb, rv\<lparr>rv_outbufs := (rv_outbufs rv)(ptr \<mapsto> sb), rv_heap := h\<rparr>))"

definition fixup_area :: "statics \<Rightarrow> coredump \<Rightarrow> u64 \<Rightarrow> recovery \<Rightarrow> u64 \<times> recovery" where
  "fixup_area st core ptr rv =
     (case rv_areas rv ptr of
        Some a \<Rightarrow> (a, rv)
      | None \<Rightarrow> let (a, h) = area_fixup st core (remap core ptr (sz_area st)) (rv_heap rv) in
          (a, rv\<lparr>rv_areas := (rv_areas rv)(ptr \<mapsto> a), rv_heap := h\<rparr>))"

text \<open>
  The slots an iterator visits. The fields of the ring do not change while its records are walked
  over, so the loops below first take the list of slots and then work on the records in order.
\<close>

partial_function (option) ring_walk :: "unit ringbuf \<Rightarrow> pop_iterator \<Rightarrow> u32 list option" where
  [code]: "ring_walk r it = (case it_next r it of
     None \<Rightarrow> Some []
   | Some (h, it') \<Rightarrow> do { hs \<leftarrow> ring_walk r it'; Some (h # hs) })"

definition ring_record_addrs :: "unit ringbuf \<Rightarrow> u64 list option" where
  "ring_record_addrs r = map_option (map (get_record_addr r)) (ring_walk r (it_reset r))"

fun foldM_opt :: "('x \<Rightarrow> 's \<Rightarrow> 's option) \<Rightarrow> 'x list \<Rightarrow> 's \<Rightarrow> 's option" where
  "foldM_opt f [] s = Some s"
| "foldM_opt f (x # xs) s = do { s \<leftarrow> f x s; foldM_opt f xs s }"

text \<open>
  One record: the sections of the special area are \<open>FLUSH\<close>, \<open>TIMESOURCE_CHANGE\<close> and \<open>INVALID\<close>;
  of the arguments the global strings among the first eight are translated.
\<close>

definition fixup_arg :: "coredump \<Rightarrow> nat \<Rightarrow> log_record \<Rightarrow> log_record option" where
  "fixup_arg core i r =
     (if get_arg_type r i = GSTR then
        (if is_32bit GSTR then do {
           v \<leftarrow> get_arg_val32 (r_argval r) i;
           buf \<leftarrow> set_arg_val32 (r_argval r) i (ucast (remap core (ucast v) 0));
           Some (r\<lparr>r_argval := buf\<rparr>) }
         else do {
           v \<leftarrow> get_arg_val64 (r_argval r) i;
           buf \<leftarrow> set_arg_val64 (r_argval r) i (remap core v 0);
           Some (r\<lparr>r_argval := buf\<rparr>) })
      else Some r)"

definition fixup_record :: "statics \<Rightarrow> coredump \<Rightarrow> u64 \<Rightarrow> recovery \<Rightarrow> recovery option" where
  "fixup_record st core p rv =
     (let r = h_records (rv_heap rv) p in
      if is_special r then
        Some (set_heap (\<lambda>h. h\<lparr>h_records := (h_records h)(p :=
          r\<lparr>r_area := st_special_area st, r_section := ucast (min (r_argtype r) (3 - 1)), r_argtype := 0\<rparr>)\<rparr>) rv)
      else let (a, rv) = fixup_area st core (r_area r) rv in do {
        r \<leftarrow> foldM_opt (fixup_arg core) [0..<8] (r\<lparr>r_area := a\<rparr>);
        Some (set_heap (\<lambda>h. h\<lparr>h_records := (h_records h)(p := r)\<rparr>) rv)
      })"

definition fixup_records :: "statics \<Rightarrow> coredump \<Rightarrow> unit ringbuf \<Rightarrow> recovery \<Rightarrow> recovery option" where
  "fixup_records st core r rv = do {
     ps \<leftarrow> ring_record_addrs r;
     foldM_opt (fixup_record st core) ps rv
   }"

text \<open>\<^verbatim>\<open>memmem\<close> from an offset: where the needle occurs next in the bytes.\<close>

definition memmem :: "bytes \<Rightarrow> bytes \<Rightarrow> nat \<Rightarrow> nat option" where
  "memmem needle d off =
     find (\<lambda>k. take (length needle) (drop k d) = needle) [off..<length d + 1 - length needle]"

text \<open>
  The loop that searches a chunk for objects of \<open>sz\<close> bytes; \<open>visit\<close> checks the object at an offset,
  changes the state and tells whether the object is good. Both searches of the tool are this loop.
\<close>

lemma memmem_Some: "memmem needle d off = Some k \<Longrightarrow> off \<le> k \<and> k + length needle \<le> length d \<and> take (length needle) (drop k d) = needle
    \<and> (\<forall>k' < k. off \<le> k' \<longrightarrow> take (length needle) (drop k' d) \<noteq> needle)"
proof -
  assume "memmem needle d off = Some k"
  then obtain i where i: "i < length [off..<length d + 1 - length needle]" "k = [off..<length d + 1 - length needle] ! i"
    "take (length needle) (drop k d) = needle"
    "\<forall>j < i. take (length needle) (drop ([off..<length d + 1 - length needle] ! j) d) \<noteq> needle"
    by (auto simp: memmem_def find_Some_iff)
  then have "k = off + i" by simp
  moreover have "take (length needle) (drop k' d) \<noteq> needle" if "k' < k" "off \<le> k'" for k'
    using i(4) [rule_format, of "k' - off"] i(1) that \<open>k = off + i\<close> by simp
  ultimately show ?thesis using i by auto
qed

function scan :: "bytes \<Rightarrow> csection \<Rightarrow> nat \<Rightarrow> (nat \<Rightarrow> 's \<Rightarrow> (bool \<times> 's) option) \<Rightarrow> nat \<Rightarrow> 's \<Rightarrow> 's option" where
  "scan needle s sz visit off rv =
     (if sz = 0 \<or> length (s_data s) < off \<or> length (s_data s) - off < sz then Some rv
      else case memmem needle (s_data s) off of
        None \<Rightarrow> Some rv
      | Some k \<Rightarrow>
          if \<not> section_inside s (s_addr s + word_of_nat k) (word_of_nat sz) then Some rv
          else do {
            (ok, rv) \<leftarrow> visit k rv;
            scan needle s sz visit (if ok then k + sz else k + 1) rv
          })"
  by pat_completeness auto

termination
  by (relation "measure (\<lambda>(_, s, _, _, off, _). length (s_data s) + 1 - off)") (auto dest!: memmem_Some)

declare scan.simps [simp del]

definition visit_ring :: "statics \<Rightarrow> coredump \<Rightarrow> bool \<Rightarrow> csection \<Rightarrow> nat \<Rightarrow> recovery \<Rightarrow> (bool \<times> recovery) option" where
  "visit_ring st core all s off rv = do {
     let p = s_addr s + word_of_nat off;
     (ok, cr) \<leftarrow> ring_fixup core all (h_rings (rv_heap rv) p);
     let rv = set_heap (\<lambda>h. h\<lparr>h_rings := (h_rings h)(p := cr)\<rparr>) rv;
     (if \<not> ok then Some (False, rv)
      else do {
        let (ts, rv) = fixup_timesource st core (rb_timesource (cr_ring cr)) rv;
        let cr = cr\<lparr>cr_ring := set_timesource ts (cr_ring cr)\<rparr>;
        let rv = set_heap (\<lambda>h. h\<lparr>h_rings := (h_rings h)(p := cr)\<rparr>) rv;
        rv \<leftarrow> fixup_records st core (cr_ring cr) rv;
        Some (True, rv\<lparr>rv_rings := rv_rings rv @ [p]\<rparr>)
      })
   }"

definition find_and_fixup_rings :: "statics \<Rightarrow> coredump \<Rightarrow> bool \<Rightarrow> recovery \<Rightarrow> recovery option" where
  "find_and_fixup_rings st core all rv =
     foldM_opt (\<lambda>s. scan (magic_bytes ring_magic) s (sz_ring st) (visit_ring st core all s) 0) (cd_sections core) rv"

text \<open>The magic number of an output comes after the pointer to its virtual functions.\<close>

definition visit_output :: "statics \<Rightarrow> coredump \<Rightarrow> csection \<Rightarrow> nat \<Rightarrow> recovery \<Rightarrow> (bool \<times> recovery) option" where
  "visit_output st core s off rv =
     (let p = s_addr s + word_of_nat off - 8; sb = h_outputs (rv_heap rv) p in
      if sb = 0 then Some (False, rv)
      else let (b, rv) = fixup_ostrbuf st core sb rv in Some (b \<noteq> 0, rv))"

definition find_and_fixup_outbufs :: "statics \<Rightarrow> coredump \<Rightarrow> recovery \<Rightarrow> recovery option" where
  "find_and_fixup_outbufs st core rv =
     foldM_opt (\<lambda>s. scan (magic_bytes output_magic) s (sz_output st) (visit_output st core s) 0) (cd_sections core) rv"

definition recovery_engine_new :: "statics \<Rightarrow> coredump \<Rightarrow> bool \<Rightarrow> heap \<Rightarrow> recovery option" where
  "recovery_engine_new st core all h = do {
     rv \<leftarrow> find_and_fixup_rings st core all
       \<lparr>rv_areas = Map.empty, rv_timesources = Map.empty, rv_rings = [], rv_outbufs = Map.empty, rv_heap = h\<rparr>;
     find_and_fixup_outbufs st core rv
   }"

text \<open>
  The dump of the records: a set ordered by timestamp, and what is handed to the format, the name
  of the ring and the record.
\<close>

fun set_insert :: "('x \<Rightarrow> timestamp) \<Rightarrow> 'x \<Rightarrow> 'x list \<Rightarrow> 'x list" where
  "set_insert key x [] = [x]"
| "set_insert key x (y # ys) =
     (if key x < key y then x # y # ys
      else if key y < key x then y # set_insert key x ys
      else y # ys)"

definition ring_entries :: "heap \<Rightarrow> u64 \<Rightarrow> (u64 \<times> log_record) list option" where
  "ring_entries h p = map_option (map (\<lambda>q. (cr_name (h_rings h p), h_records h q))) (ring_record_addrs (cr_ring (h_rings h p)))"

definition dump_records :: "recovery \<Rightarrow> (u64 \<times> log_record) list option" where
  "dump_records rv = foldM_opt (\<lambda>p out. do {
       es \<leftarrow> ring_entries (rv_heap rv) p;
       Some (fold (set_insert (\<lambda>e. r_timestamp (snd e))) es out)
     }) (rv_rings rv) []"

text \<open>What the dump of an output buffer writes of its data.\<close>

fun trim_zeros :: "bytes \<Rightarrow> nat \<Rightarrow> nat" where
  "trim_zeros d 0 = 0"
| "trim_zeros d (Suc n) = (if d ! n = 0 then trim_zeros d n else Suc n)"

definition dump_outbuf :: "(u64 \<Rightarrow> nat \<Rightarrow> bytes) \<Rightarrow> bool \<Rightarrow> core_buf \<Rightarrow> bytes" where
  "dump_outbuf mem all b =
     (let d = mem (cb_data b) (unat (cb_capacity b));
          n = (if all then unat (cb_capacity b) else unat (cb_size b))
      in take (trim_zeros d n) d)"


section \<open>Walking over a ring\<close>

lemma ring_walk_span:
  assumes k: "k < 32" "rb_capacity r = mask k" and b: "unat h < 2 ^ k" "unat t < 2 ^ k"
  shows "ring_walk r \<lparr>it_head = h, it_tail = t\<rparr> = Some (map word_of_nat (span (2 ^ k) (unat h) (unat t)))"
  using b(1)
proof (induction "length (span (2 ^ k) (unat h) (unat t))" arbitrary: h rule: less_induct)
  case less
  let ?N = "2 ^ k :: nat" and ?h = "(h + 1) AND mask k"
  have h: "unat ?h = Suc (unat h) mod ?N" using k(1) by (simp add: unat_Suc_mask)
  show ?case
  proof (cases "?h = t")
    case True
    then have "span ?N (unat h) (unat t) = []" using span_Nil [OF less.prems] h by simp
    with True k(2) show ?thesis by (subst ring_walk.simps) (simp add: it_next_def)
  next
    case False
    then have ne: "Suc (unat h) mod ?N \<noteq> unat t" using h by (simp add: word_unat_eq_iff)
    note c = span_Cons [OF less.prems b(2) ne]
    have "ring_walk r \<lparr>it_head = ?h, it_tail = t\<rparr> = Some (map word_of_nat (span ?N (unat ?h) (unat t)))"
      by (rule less.hyps) (use c h in simp_all)
    moreover have "?h = word_of_nat (Suc (unat h) mod ?N)" by (simp flip: h)
    ultimately show ?thesis
      using False k(2) c h by (subst ring_walk.simps) (simp add: it_next_def Let_def)
  qed
qed

text \<open>A capacity that is not a mask of ones is not rejected, and the walk then may never end.\<close>

lemma ring_walk_diverges:
  assumes "((h + 1) AND rb_capacity r) = h" and "h \<noteq> t"
  shows "ring_walk r \<lparr>it_head = h, it_tail = t\<rparr> = None"
proof (rule ccontr)
  assume "ring_walk r \<lparr>it_head = h, it_tail = t\<rparr> \<noteq> None"
  then obtain hs where w: "ring_walk r \<lparr>it_head = h, it_tail = t\<rparr> = Some hs" by auto
  have "r' = r \<longrightarrow> it = \<lparr>it_head = h, it_tail = t\<rparr> \<longrightarrow> False" if "ring_walk r' it = Some hs" for r' it
    by (rule ring_walk.raw_induct [OF _ that])
      (use assms in \<open>auto simp: it_next_def bind_eq_Some_conv split: option.splits if_splits; blast\<close>)
  with w show False by blast
qed

lemma remap_fits:
  assumes "remap_from ss p n \<noteq> 0" and "unat p + unat n < 2 ^ 64" and "\<forall>s \<in> set ss. sec_end s < 2 ^ 64"
  shows "\<exists>s \<in> set ss. remap_from ss p n = s_addr s + (p - s_vma s) \<and> unat (p - s_vma s) + unat n \<le> unat (s_size s)"
  using assms
proof (induction ss)
  case (Cons s ss)
  show ?case
  proof (cases "p \<ge> s_vma s \<and> p + n \<le> s_vma s + s_size s")
    case True
    have "unat (p + n) = unat p + unat n" "unat (s_vma s + s_size s) = unat (s_vma s) + unat (s_size s)"
      using Cons.prems(2,3) by (simp_all add: unat_word_ariths sec_end_def)
    moreover have "unat (p - s_vma s) = unat p - unat (s_vma s)" using True by (simp add: unat_sub)
    ultimately have "unat (p - s_vma s) + unat n \<le> unat (s_size s)" using True unfolding word_le_nat_alt by linarith
    with True show ?thesis by auto
  next
    case False
    with Cons show ?thesis by auto
  qed
qed simp


lemma ring_fixup_True:
  assumes "ring_fixup core all cr = Some (True, cr')"
  defines "r \<equiv> cr_ring cr" and "r' \<equiv> cr_ring cr'"
  shows "unat (rb_rec_shift r) < 32" and "ring_sane r"
    and "rb_rec_top r' = remap core (rb_rec_top r) (ucast (record_size r * ring_capacity r))" and "rb_rec_top r' \<noteq> 0"
    and "rb_capacity r' = rb_capacity r" and "rb_rec_shift r' = rb_rec_shift r"
    and "rb_head r' = (if all then 0 else rb_head r)" and "rb_tail r' = (if all then rb_capacity r else rb_tail r)"
proof -
  let ?name = "remap core (cr_name cr) 0" and ?rr = "r\<lparr>rb_rec_top := remap core (rb_rec_top r) (ucast (record_size r * ring_capacity r))\<rparr>"
  have nn: "\<not> (unat (rb_rec_shift r) \<ge> 32 \<and> \<not> (rb_dropcnt r > rb_seqnum r) \<and> \<not> (PRIORITY_CEILING <s rb_prio r))"
    using assms(1) by (auto simp: ring_fixup_def Let_def r_def split: if_splits)
  show sane: "ring_sane r"
    using assms(1) nn by (auto simp: ring_fixup_def Let_def r_def split: if_splits)
  with nn show "unat (rb_rec_shift r) < 32" by (auto simp: ring_sane_def)
  have "\<not> (?name = 0 \<or> rb_rec_top ?rr = 0)"
    using assms(1) nn sane unfolding ring_fixup_def Let_def r_def by (auto split: if_splits)
  with assms(1) nn sane have e: "r' = (if all then ?rr\<lparr>rb_head := 0, rb_tail := rb_capacity ?rr\<rparr> else ?rr)" "rb_rec_top ?rr \<noteq> 0"
    unfolding ring_fixup_def Let_def r_def r'_def by (auto split: if_splits)
  show "rb_rec_top r' = remap core (rb_rec_top r) (ucast (record_size r * ring_capacity r))" "rb_rec_top r' \<noteq> 0"
    "rb_capacity r' = rb_capacity r" "rb_rec_shift r' = rb_rec_shift r"
    "rb_head r' = (if all then 0 else rb_head r)" "rb_tail r' = (if all then rb_capacity r else rb_tail r)"
    using e by simp_all
qed

lemma unat_ucast_u64: "unat (ucast (w :: u32) :: u64) = unat w"
  using unat_less [of w] by (simp add: unsigned_ucast_eq take_bit_nat_eq_self)

lemma of_nat_unat_u64: "unat w = n \<Longrightarrow> w = (word_of_nat n :: u64)"
  by auto

lemma span_all: "0 < N \<Longrightarrow> span N 0 (N - 1) = [1..<N - 1]"
  using span_len [of 0 N "N - 1"] span_nth_cases [of 0 N "N - 1"] by (intro nth_equalityI) (auto split: if_splits)

lemma shifted_index:
  assumes "sh < 32" and "i * 2 ^ sh < 2 ^ 32"
  shows "push_bit sh (word_of_nat i :: u32) = word_of_nat (i * 2 ^ sh)" and "unat (push_bit sh (word_of_nat i :: u32)) = i * 2 ^ sh"
proof -
  show e: "push_bit sh (word_of_nat i :: u32) = word_of_nat (i * 2 ^ sh)"
    by (simp add: push_bit_eq_mult)
  show "unat (push_bit sh (word_of_nat i :: u32)) = i * 2 ^ sh"
    using assms(2) by (simp only: e unat_of_nat) simp
qed


section \<open>Properties\<close>

text \<open>
  C12: a ring that passes the checks and whose capacity is a mask of ones, as every ring of a
  process has it, is walked over completely in a finite number of steps, and every record that the
  tool reads or changes lies inside one loaded chunk. The walk covers the records that were in the
  ring; with the option to dump everything it covers all slots but the first and the last.
\<close>

theorem recovered_ring_inside:
  assumes f: "ring_fixup core all cr = Some (True, cr')"
    and k: "k < 32" "rb_capacity (cr_ring cr) = mask k"
    and n: "unat (record_size (cr_ring cr)) * 2 ^ k < 2 ^ 32"
    and m: "unat (rb_rec_top (cr_ring cr)) + unat (record_size (cr_ring cr)) * 2 ^ k < 2 ^ 64"
    and c: "\<forall>s \<in> set (cd_sections core). sec_end s < 2 ^ 64"
  shows "\<exists>s \<in> set (cd_sections core). \<exists>off slots.
    ring_record_addrs (cr_ring cr') = Some (map (\<lambda>i. s_addr s + word_of_nat (off + i * unat (record_size (cr_ring cr)))) slots)
    \<and> (\<forall>i \<in> set slots. off + (i + 1) * unat (record_size (cr_ring cr)) \<le> unat (s_size s))
    \<and> off = unat (rb_rec_top (cr_ring cr) - s_vma s)
    \<and> slots = (if all then [1..<2 ^ k - 1] else span (2 ^ k) (unat (rb_head (cr_ring cr))) (unat (rb_tail (cr_ring cr))))"
proof -
  let ?r = "cr_ring cr" and ?r' = "cr_ring cr'" and ?N = "2 ^ k :: nat"
  note F = ring_fixup_True [OF f]
  define sh where "sh = unat (rb_rec_shift ?r)"
  have sh: "sh < 32" using F(1) by (simp add: sh_def)
  have rs: "record_size ?r = push_bit sh 1" by (simp add: record_size_def sh_def)
  then have urs: "unat (record_size ?r) = 2 ^ sh" using sh unat_push_1 [of sh] by simp
  have um: "unat (mask k :: u32) = ?N - 1" using unat_mask32 [of k] k(1) by simp
  have "?N < 2 ^ 32" using k(1) by (intro power_strict_increasing) auto
  then have ucap: "unat (ring_capacity ?r) = ?N"
    using um k(2) by (simp add: ring_capacity_def unat_word_ariths)
  have bytes: "unat (ucast (record_size ?r * ring_capacity ?r) :: u64) = 2 ^ sh * ?N"
    using n ucap by (simp add: unat_ucast_u64 unat_word_ariths urs)
  obtain s where s: "s \<in> set (cd_sections core)" "rb_rec_top ?r' = s_addr s + (rb_rec_top ?r - s_vma s)"
    "unat (rb_rec_top ?r - s_vma s) + 2 ^ sh * ?N \<le> unat (s_size s)"
    using remap_fits [of "cd_sections core" "rb_rec_top ?r" "ucast (record_size ?r * ring_capacity ?r)"] F(3,4) m c bytes urs
    by (auto simp: remap_def)
  define off where "off = unat (rb_rec_top ?r - s_vma s)"
  define slots where "slots = (if all then [1..<?N - 1] else span ?N (unat (rb_head ?r)) (unat (rb_tail ?r)))"
  have le: "x < ?N" if "x \<le> ?N - Suc 0" for x :: nat
    using that zero_less_power [of "2 :: nat" k] by linarith
  have ht: "unat (rb_head ?r') < ?N" "unat (rb_tail ?r') < ?N"
    using F(2,7,8) um k(2) by (auto simp: ring_sane_def word_less_nat_alt not_less intro: le split: if_splits)
  have walk: "ring_walk ?r' (it_reset ?r') = Some (map word_of_nat slots)"
    using ring_walk_span [OF k(1) _ ht, of ?r'] F(5,7,8) k(2) um span_all [of ?N]
    by (simp add: it_reset_def slots_def)
  have lt: "i < ?N" if "i \<in> set slots" for i
    using that span_less [of ?N i] by (auto simp: slots_def split: if_splits)
  have addr: "get_record_addr ?r' (word_of_nat i) = s_addr s + word_of_nat (off + i * 2 ^ sh)" if "i \<in> set slots" for i
  proof -
    have "i * 2 ^ sh < ?N * 2 ^ sh" using lt [OF that] by simp
    also have "?N * 2 ^ sh < 2 ^ 32" using n by (simp add: urs mult.commute)
    finally have "i * 2 ^ sh < 2 ^ 32" .
    from shifted_index(2) [OF sh this] have "(ucast (push_bit sh (word_of_nat i :: u32)) :: u64) = word_of_nat (i * 2 ^ sh)"
      using unat_ucast_u64 [of "push_bit sh (word_of_nat i)"] by (metis of_nat_unat_u64)
    then show ?thesis using s(2) F(6) by (simp add: get_record_addr_def sh_def off_def)
  qed
  have "off + (i + 1) * 2 ^ sh \<le> unat (s_size s)" if "i \<in> set slots" for i
  proof -
    have "(i + 1) * 2 ^ sh \<le> ?N * 2 ^ sh" using lt [OF that] by (intro mult_right_mono) auto
    with s(3) show ?thesis by (simp add: off_def mult.commute)
  qed
  moreover have "ring_record_addrs ?r' = Some (map (\<lambda>i. s_addr s + word_of_nat (off + i * 2 ^ sh)) slots)"
    using walk addr by (simp add: ring_record_addrs_def)
  ultimately show ?thesis
    using s(1) unfolding urs by (intro bexI [of _ s] exI [of _ off] exI [of _ slots]) (auto simp: off_def slots_def)
qed


definition demo_chunk :: csection where
  "demo_chunk = \<lparr>s_vma = 0x1000, s_addr = 0x100000, s_size = 0x1000, s_abfd = 0, s_data = replicate 0x1000 0\<rparr>"

definition demo_core_ring :: core_ring where
  "demo_core_ring = \<lparr>cr_name = 0x1000, cr_ring = \<lparr>rb_name = [], rb_flags = 0, rb_prio = 0, rb_rec_top = 0x1100, rb_rec_shift = 8,
     rb_rec_tailroom = 224, rb_capacity = 3, rb_refcnt = 1, rb_block_active = False, rb_timesource = 0, rb_tail = 2, rb_seqnum = 9,
     rb_dropcnt = 0, rb_head = 3, rb_slots = []\<rparr>\<rparr>"

theorem recovered_ring_inside_witness:
  "\<exists>cr'. ring_fixup \<lparr>cd_sections = [demo_chunk], cd_failed = False\<rparr> True demo_core_ring = Some (True, cr')
    \<and> ring_record_addrs (cr_ring cr') = Some [0x100200, 0x100300]"
proof -
  let ?core = "\<lparr>cd_sections = [demo_chunk], cd_failed = False\<rparr>"
  have rs: "record_size (cr_ring demo_core_ring) = 256" by (simp add: demo_core_ring_def record_size_def)
  obtain cr' where f: "ring_fixup ?core True demo_core_ring = Some (True, cr')"
    by (simp add: ring_fixup_def demo_core_ring_def demo_chunk_def ring_sane_def record_size_def PRIORITY_CEILING_def
        remap_def ring_capacity_def Let_def word_sless_alt)
  have m: "rb_capacity (cr_ring demo_core_ring) = mask 2" by (simp add: demo_core_ring_def mask_eq_exp_minus_1)
  from recovered_ring_inside [OF f, of 2] m rs obtain s where "s \<in> set (cd_sections ?core)"
    "ring_record_addrs (cr_ring cr') = Some (map (\<lambda>i. s_addr s + word_of_nat (unat (0x1100 - s_vma s) + i * 256)) [1..<3])"
    by (auto simp: demo_core_ring_def demo_chunk_def sec_end_def)
  then have "ring_record_addrs (cr_ring cr') = Some [0x100200, 0x100300]"
    by (simp add: demo_chunk_def upt_conv_Cons)
  with f show ?thesis by blast
qed

lemma inside_iff:
  assumes "length (s_data s) = unat (s_size s)" and "unat (s_addr s) + 2 * unat (s_size s) < 2 ^ 64"
    and "k \<le> length (s_data s)" and "sz \<le> length (s_data s)"
  shows "section_inside s (s_addr s + word_of_nat k) (word_of_nat sz) \<longleftrightarrow> k + sz \<le> length (s_data s)"
proof -
  have k: "unat (word_of_nat k :: u64) = k" "unat (word_of_nat sz :: u64) = sz"
    using assms unat_less [of "s_size s"] by (simp_all add: unat_of_nat)
  have "unat (s_addr s + word_of_nat k) = unat (s_addr s) + k"
    "unat (s_addr s + word_of_nat k + word_of_nat sz) = unat (s_addr s) + k + sz"
    "unat (s_addr s + s_size s) = unat (s_addr s) + unat (s_size s)"
    using k assms by (simp_all add: unat_word_ariths)
  then show ?thesis using assms(1) by (simp add: section_inside_def word_le_nat_alt)
qed

definition object_at :: "bytes \<Rightarrow> csection \<Rightarrow> nat \<Rightarrow> nat \<Rightarrow> bool" where
  "object_at needle s sz k \<longleftrightarrow> k + sz \<le> length (s_data s) \<and> take (length needle) (drop k (s_data s)) = needle"

lemma memmem_first:
  assumes "length needle \<le> sz" and "object_at needle s sz k" and "off \<le> k"
  shows "\<exists>j. memmem needle (s_data s) off = Some j \<and> off \<le> j \<and> j \<le> k"
proof (cases "memmem needle (s_data s) off")
  case None
  with assms show ?thesis by (auto simp: memmem_def find_None_iff object_at_def)
next
  case (Some j)
  with memmem_Some [OF this] assms(2,3) show ?thesis by (metis object_at_def not_less)
qed

text \<open>
  What the search asks of the check of an object: as long as the objects from \<open>off\<close> on are
  untouched, a candidate is accepted exactly if it is good, accepted ones are recorded, and
  the candidates behind it stay untouched.
\<close>

locale scan_visitor =
  fixes visit :: "nat \<Rightarrow> 's \<Rightarrow> (bool \<times> 's) option" and cand :: "nat \<Rightarrow> bool" and good :: "nat \<Rightarrow> bool"
    and found :: "'s \<Rightarrow> 'x list" and at :: "nat \<Rightarrow> 'x" and untouched :: "nat \<Rightarrow> 's \<Rightarrow> bool"
  assumes visit_step: "untouched off rv \<Longrightarrow> off \<le> k \<Longrightarrow> cand k \<Longrightarrow>
      \<exists>rv'. visit k rv = Some (good k, rv') \<and> untouched (Suc k) rv' \<and> found rv' = found rv @ (if good k then [at k] else [])"
    and untouched_later: "untouched off rv \<Longrightarrow> off \<le> off' \<Longrightarrow> untouched off' rv"
begin

lemma scan_none:
  assumes s: "length (s_data s) = unat (s_size s)" "unat (s_addr s) + 2 * unat (s_size s) < 2 ^ 64"
    and none: "\<not> (\<exists>k \<ge> off. object_at needle s sz k)"
  shows "scan needle s sz visit off rv = Some rv"
proof (cases "sz = 0 \<or> length (s_data s) < off \<or> length (s_data s) - off < sz \<or> memmem needle (s_data s) off = None")
  case True
  then show ?thesis by (subst scan.simps) auto
next
  case go: False
  then obtain j where j: "memmem needle (s_data s) off = Some j" by auto
  note m = memmem_Some [OF j]
  have szl: "sz \<le> length (s_data s)" using go by linarith
  have "\<not> j + sz \<le> length (s_data s)" using none m by (auto simp: object_at_def)
  then have "\<not> section_inside s (s_addr s + word_of_nat j) (word_of_nat sz)"
    using inside_iff [OF s, of j sz] m szl by simp
  with go j show ?thesis by (subst scan.simps) simp
qed

lemma scan_next:
  assumes s: "length (s_data s) = unat (s_size s)" "unat (s_addr s) + 2 * unat (s_size s) < 2 ^ 64"
    and sz: "length needle \<le> sz" "0 < length needle" and cand: "\<forall>k. object_at needle s sz k \<longrightarrow> cand k"
    and k: "off \<le> k" "object_at needle s sz k" and u: "untouched off rv"
  obtains j rv' where "off \<le> j" "object_at needle s sz j" "\<forall>i. off \<le> i \<longrightarrow> object_at needle s sz i \<longrightarrow> j \<le> i"
    "scan needle s sz visit off rv = scan needle s sz visit (if good j then j + sz else j + 1) rv'"
    "untouched (Suc j) rv'" "found rv' = found rv @ (if good j then [at j] else [])"
proof -
  from memmem_first [OF sz(1) k(2,1)] obtain j where j: "memmem needle (s_data s) off = Some j" "off \<le> j" "j \<le> k" by blast
  note m = memmem_Some [OF j(1)]
  have jo: "object_at needle s sz j" using m j(3) k(2) by (simp add: object_at_def)
  have ins: "section_inside s (s_addr s + word_of_nat j) (word_of_nat sz)"
    using inside_iff [OF s, of j sz] jo by (simp add: object_at_def)
  obtain rv' where v: "visit j rv = Some (good j, rv')" "untouched (Suc j) rv'" "found rv' = found rv @ (if good j then [at j] else [])"
    using visit_step [OF u j(2)] cand jo by blast
  have "scan needle s sz visit off rv = scan needle s sz visit (if good j then j + sz else j + 1) rv'"
    using j jo ins sz v(1) by (subst scan.simps) (auto simp: object_at_def)
  moreover have "\<forall>i. off \<le> i \<longrightarrow> object_at needle s sz i \<longrightarrow> j \<le> i"
    using m by (auto simp: object_at_def not_less [symmetric])
  ultimately show thesis using that j(2) jo v(2,3) by blast
qed

lemma scan_from:
  assumes s: "length (s_data s) = unat (s_size s)" "unat (s_addr s) + 2 * unat (s_size s) < 2 ^ 64"
    and sz: "length needle \<le> sz" "0 < length needle" and cand: "\<forall>k. object_at needle s sz k \<longrightarrow> cand k"
  shows "untouched off rv \<Longrightarrow> \<exists>ks rv' off'. scan needle s sz visit off rv = Some rv' \<and> untouched off' rv'
    \<and> found rv' = found rv @ map at ks
    \<and> (\<forall>k \<in> set ks. off \<le> k \<and> good k \<and> object_at needle s sz k) \<and> sorted_wrt (\<lambda>k k'. k + sz \<le> k') ks
    \<and> (\<forall>k. off \<le> k \<longrightarrow> good k \<longrightarrow> object_at needle s sz k \<longrightarrow> (\<exists>k' \<in> set ks. k' \<le> k \<and> k < k' + sz))"
proof (induction "length (s_data s) + 1 - off" arbitrary: off rv rule: less_induct)
  case less
  let ?obj = "object_at needle s sz"
  show ?case
  proof (cases "\<exists>k \<ge> off. ?obj k")
    case False
    with scan_none [OF s this] less.prems show ?thesis by (intro exI [of _ "[]"] exI [of _ rv] exI [of _ off]) auto
  next
    case True
    then obtain k where k: "off \<le> k" "?obj k" by auto
    obtain j rv1 where j: "off \<le> j" "?obj j" "\<forall>i. off \<le> i \<longrightarrow> ?obj i \<longrightarrow> j \<le> i"
      "scan needle s sz visit off rv = scan needle s sz visit (if good j then j + sz else j + 1) rv1"
      "untouched (Suc j) rv1" "found rv1 = found rv @ (if good j then [at j] else [])"
      by (rule scan_next [OF s sz cand k less.prems])
    let ?off = "if good j then j + sz else j + 1"
    have "0 < sz" using sz by linarith
    then have nxt: "off < ?off" "Suc j \<le> ?off" using j(1) by auto
    then have "length (s_data s) + 1 - ?off < length (s_data s) + 1 - off"
      using j(1,2) by (auto simp: object_at_def)
    from less.hyps [OF this untouched_later [OF j(5) nxt(2)]] obtain ks rv' off'
      where ks: "scan needle s sz visit ?off rv1 = Some rv'" "untouched off' rv'" "found rv' = found rv1 @ map at ks"
      "\<forall>k \<in> set ks. ?off \<le> k \<and> good k \<and> ?obj k" "sorted_wrt (\<lambda>k k'. k + sz \<le> k') ks"
      "\<forall>k. ?off \<le> k \<longrightarrow> good k \<longrightarrow> ?obj k \<longrightarrow> (\<exists>k' \<in> set ks. k' \<le> k \<and> k < k' + sz)" by blast
    let ?ks = "if good j then j # ks else ks"
    have "\<exists>k' \<in> set ?ks. k' \<le> i \<and> i < k' + sz" if i: "off \<le> i" "good i" "?obj i" for i
    proof (cases "?off \<le> i")
      case True
      with ks(6) i show ?thesis by (auto split: if_splits)
    next
      case False
      have "j \<le> i" using j(3) i by blast
      moreover have "good j" using False calculation i(2) by (auto split: if_splits simp: le_less not_less)
      ultimately show ?thesis using False by auto
    qed
    moreover have "\<forall>k \<in> set ?ks. off \<le> k \<and> good k \<and> ?obj k" using ks(4) j(1,2) nxt by (auto split: if_splits)
    moreover have "sorted_wrt (\<lambda>k k'. k + sz \<le> k') ?ks" using ks(4,5) by auto
    moreover have "found rv' = found rv @ map at ?ks" using ks(3) j(6) by simp
    moreover have "scan needle s sz visit off rv = Some rv'" using ks(1) j(4) by (simp only:)
    ultimately show ?thesis using ks(2) by blast
  qed
qed

end

section \<open>The search for rings\<close>

text \<open>
  A ring as every process has it, and records with room for the arguments that are looked
  at. What the checks of rings change: the ring itself, and nothing of the other rings.
\<close>

definition proper_ring :: "unit ringbuf \<Rightarrow> bool" where
  "proper_ring r \<longleftrightarrow> unat (rb_rec_shift r) < 32 \<and> (\<exists>m < 32. rb_capacity r = mask m)"

definition records_ok :: "recovery \<Rightarrow> bool" where
  "records_ok rv \<longleftrightarrow> (\<forall>q. 64 \<le> length (r_argval (h_records (rv_heap rv) q)))"

definition same_rings :: "recovery \<Rightarrow> recovery \<Rightarrow> bool" where
  "same_rings rv rv' \<longleftrightarrow> h_rings (rv_heap rv') = h_rings (rv_heap rv) \<and> rv_rings rv' = rv_rings rv \<and> (records_ok rv \<longrightarrow> records_ok rv')"

lemma fixup_arg_total:
  assumes "i < 8" and "64 \<le> length (r_argval r)"
  shows "\<exists>r'. fixup_arg core i r = Some r' \<and> length (r_argval r') = length (r_argval r)"
  using assms by (auto simp: fixup_arg_def get_arg_val32_def get_arg_val64_def set_arg_val32_def set_arg_val64_def peek_def poke_def)

lemma fixup_args_total:
  assumes "\<forall>i \<in> set is. i < 8" and "64 \<le> length (r_argval r)"
  shows "\<exists>r'. foldM_opt (fixup_arg core) is r = Some r' \<and> length (r_argval r') = length (r_argval r)"
  using assms
proof (induction "is" arbitrary: r)
  case (Cons i "is")
  then obtain r1 where r1: "fixup_arg core i r = Some r1" "length (r_argval r1) = length (r_argval r)"
    using fixup_arg_total [of i r core] by auto
  with Cons show ?case by (metis foldM_opt.simps(2) bind.bind_lunit list.set_intros(2))
qed simp

lemma fixup_area_same: "same_rings rv (snd (fixup_area st core p rv))"
  by (auto simp: same_rings_def records_ok_def fixup_area_def area_fixup_def Let_def split: option.splits prod.splits if_splits)

lemma fixup_timesource_same: "same_rings rv (snd (fixup_timesource st core p rv))"
  by (auto simp: same_rings_def records_ok_def fixup_timesource_def timesource_fixup_def Let_def split: option.splits prod.splits if_splits)

lemma fixup_record_total:
  assumes "records_ok rv"
  shows "\<exists>rv'. fixup_record st core p rv = Some rv' \<and> same_rings rv rv'"
proof -
  let ?r = "h_records (rv_heap rv) p"
  have len: "64 \<le> length (r_argval ?r)" using assms by (simp add: records_ok_def)
  obtain a rv1 where a: "fixup_area st core (r_area ?r) rv = (a, rv1)" by fastforce
  then have s: "same_rings rv rv1" using fixup_area_same [of rv st core "r_area ?r"] by simp
  obtain r' where "foldM_opt (fixup_arg core) [0..<8] (?r\<lparr>r_area := a\<rparr>) = Some r'" "length (r_argval r') = length (r_argval ?r)"
    using fixup_args_total [of "[0..<8]" "?r\<lparr>r_area := a\<rparr>" core] len by auto
  then show ?thesis
    using a s len assms by (auto simp: fixup_record_def same_rings_def records_ok_def Let_def)
qed

lemma fixup_records_total:
  assumes "records_ok rv" and "ring_record_addrs r = Some ps"
  shows "\<exists>rv'. fixup_records st core r rv = Some rv' \<and> same_rings rv rv'"
proof -
  have "\<exists>rv'. foldM_opt (fixup_record st core) ps rv = Some rv' \<and> same_rings rv rv'" if "records_ok rv" for ps rv
    using that
  proof (induction ps arbitrary: rv)
    case (Cons p ps)
    obtain rv1 where rv1: "fixup_record st core p rv = Some rv1" "same_rings rv rv1" using fixup_record_total [OF Cons.prems] by blast
    then have "records_ok rv1" using Cons.prems by (simp add: same_rings_def)
    from Cons.IH [OF this] rv1 show ?case by (auto simp: same_rings_def)
  qed (simp add: same_rings_def)
  with assms show ?thesis by (simp add: fixup_records_def)
qed

lemma proper_walk:
  assumes "ring_fixup core all cr = Some (True, cr')" and "proper_ring (cr_ring cr)"
  shows "\<exists>ps. ring_record_addrs (set_timesource ts (cr_ring cr')) = Some ps"
proof -
  obtain m where m: "m < 32" "rb_capacity (cr_ring cr) = mask m" using assms(2) by (auto simp: proper_ring_def)
  let ?r = "set_timesource ts (cr_ring cr')"
  note F = ring_fixup_True [OF assms(1)]
  have "unat (mask m :: u32) = 2 ^ m - 1" using unat_mask32 [of m] m(1) by simp
  then have le: "unat (mask m :: u32) < 2 ^ m" by simp
  have "unat (rb_head ?r) < 2 ^ m" "unat (rb_tail ?r) < 2 ^ m"
    using F(2,7,8) m(2) le by (auto simp: set_timesource_def ring_sane_def word_less_nat_alt not_less split: if_splits intro: le_less_trans)
  from ring_walk_span [OF m(1) _ this, of ?r] F(5) m(2) show ?thesis
    by (simp add: ring_record_addrs_def it_reset_def set_timesource_def)
qed

lemma ring_fixup_total: "proper_ring (cr_ring cr) \<Longrightarrow> \<exists>ok cr'. ring_fixup core all cr = Some (ok, cr')"
  by (auto simp: ring_fixup_def proper_ring_def Let_def)

abbreviation obj_addr :: "csection \<Rightarrow> nat \<Rightarrow> u64" where
  "obj_addr s k \<equiv> s_addr s + word_of_nat k"

definition ring_at :: "statics \<Rightarrow> csection \<Rightarrow> nat \<Rightarrow> bool" where
  "ring_at st s k \<longleftrightarrow> object_at (magic_bytes ring_magic) s (sz_ring st) k"

definition ring_good :: "coredump \<Rightarrow> bool \<Rightarrow> (u64 \<Rightarrow> core_ring) \<Rightarrow> csection \<Rightarrow> nat \<Rightarrow> bool" where
  "ring_good core all H s k \<longleftrightarrow> (\<exists>cr. ring_fixup core all (H (obj_addr s k)) = Some (True, cr))"

text \<open>Only rings at offsets below \<open>off\<close> of the chunk differ from \<open>H\<close>.\<close>

definition chunk_small :: "csection \<Rightarrow> bool" where
  "chunk_small s \<longleftrightarrow> length (s_data s) = unat (s_size s) \<and> unat (s_addr s) + 2 * unat (s_size s) < 2 ^ 64"

definition rings_from :: "statics \<Rightarrow> (u64 \<Rightarrow> core_ring) \<Rightarrow> csection \<Rightarrow> nat \<Rightarrow> recovery \<Rightarrow> bool" where
  "rings_from st H s off rv \<longleftrightarrow> records_ok rv \<and> chunk_small s \<and> (\<forall>k. ring_at st s k \<longrightarrow> proper_ring (cr_ring (H (obj_addr s k))))
     \<and> 0 < sz_ring st \<and> (\<forall>p. h_rings (rv_heap rv) p = H p \<or> p \<in> obj_addr s ` {k. k < off \<and> k < length (s_data s)})"

lemma obj_addr_inj:
  assumes "chunk_small s" and "obj_addr s j = obj_addr s k" and "j < length (s_data s)" and "k < length (s_data s)"
  shows "j = k"
proof -
  have "length (s_data s) < 2 ^ 64" using assms(1) unat_less [of "s_size s"] by (simp add: chunk_small_def)
  then have "unat (word_of_nat j :: u64) = j" "unat (word_of_nat k :: u64) = k" using assms(3,4) by (simp_all add: unat_of_nat)
  with assms(2) show ?thesis by (metis add_left_cancel)
qed

interpretation ringv: scan_visitor "visit_ring st core all sec" "ring_at st sec" "ring_good core all H sec" rv_rings "obj_addr sec" "rings_from st H sec"
proof
  fix off off' rv
  show "rings_from st H sec off' rv" if "rings_from st H sec off rv" "off \<le> off'"
    using that unfolding rings_from_def by fastforce
next
  fix off rv k assume u: "rings_from st H sec off rv" and k: "off \<le> k" "ring_at st sec k"
  let ?p = "obj_addr sec k"
  have len: "k < length (s_data sec)" using k(2) u by (auto simp: ring_at_def object_at_def rings_from_def)
  have H: "h_rings (rv_heap rv) ?p = H ?p"
    using u k(1) len obj_addr_inj [of sec k] unfolding rings_from_def by fastforce
  have pr: "proper_ring (cr_ring (H ?p))" using u k(2) by (simp add: rings_from_def)
  obtain ok cr where f: "ring_fixup core all (H ?p) = Some (ok, cr)" using ring_fixup_total [OF pr] by blast
  then have g: "ring_good core all H sec k = ok" by (auto simp: ring_good_def)
  let ?put = "\<lambda>cr. set_heap (\<lambda>h. h\<lparr>h_rings := (h_rings h)(?p := cr)\<rparr>)"
  have frame: "rings_from st H sec (Suc k) rv'" if "records_ok rv'" "\<And>p. p \<noteq> ?p \<Longrightarrow> h_rings (rv_heap rv') p = h_rings (rv_heap rv) p" for rv'
    using u that k(1) len unfolding rings_from_def by (auto simp: image_iff less_Suc_eq) (metis less_le_trans)
  show "\<exists>rv'. visit_ring st core all sec k rv = Some (ring_good core all H sec k, rv') \<and> rings_from st H sec (Suc k) rv'
      \<and> rv_rings rv' = rv_rings rv @ (if ring_good core all H sec k then [?p] else [])"
  proof (cases ok)
    case False
    then have "visit_ring st core all sec k rv = Some (False, ?put cr rv)" by (simp add: visit_ring_def H f)
    moreover have "rings_from st H sec (Suc k) (?put cr rv)" using u by (intro frame) (simp_all add: rings_from_def records_ok_def)
    ultimately show ?thesis using False g by simp
  next
    case True
    obtain ts rv1 where ts: "fixup_timesource st core (rb_timesource (cr_ring cr)) (?put cr rv) = (ts, rv1)" by fastforce
    define rv2 where "rv2 = ?put (cr\<lparr>cr_ring := set_timesource ts (cr_ring cr)\<rparr>) rv1"
    have s1: "same_rings (?put cr rv) rv1" using fixup_timesource_same [of "?put cr rv" st core "rb_timesource (cr_ring cr)"] ts by simp
    have r2: "records_ok rv2" using s1 u by (simp add: rv2_def same_rings_def rings_from_def records_ok_def)
    obtain ps where "ring_record_addrs (set_timesource ts (cr_ring cr)) = Some ps" using proper_walk [of core all "H ?p" cr ts] pr f True by auto
    from fixup_records_total [OF r2 this] obtain rv3
      where rv3: "fixup_records st core (set_timesource ts (cr_ring cr)) rv2 = Some rv3" "same_rings rv2 rv3" by blast
    have "visit_ring st core all sec k rv = Some (True, rv3\<lparr>rv_rings := rv_rings rv3 @ [?p]\<rparr>)"
      using True rv3(1) ts by (simp add: visit_ring_def H f rv2_def)
    moreover have "rings_from st H sec (Suc k) (rv3\<lparr>rv_rings := rv_rings rv3 @ [?p]\<rparr>)"
      using rv3(2) s1 r2 by (intro frame) (simp_all add: same_rings_def records_ok_def rv2_def)
    moreover have "rv_rings rv3 = rv_rings rv" using rv3(2) s1 by (simp add: same_rings_def rv2_def)
    ultimately show ?thesis using True g by simp
  qed
qed

lemma length_ring_magic: "length (magic_bytes ring_magic) = 16"
  by (simp add: magic_bytes_def ring_magic_def)

text \<open>What the search of a chunk gives, for the rings as they were before.\<close>

definition found_rings :: "statics \<Rightarrow> coredump \<Rightarrow> bool \<Rightarrow> (u64 \<Rightarrow> core_ring) \<Rightarrow> csection \<Rightarrow> nat list \<Rightarrow> bool" where
  "found_rings st core all H s ks \<longleftrightarrow> sorted_wrt (\<lambda>k k'. k + sz_ring st \<le> k') ks
     \<and> (\<forall>k \<in> set ks. ring_at st s k \<and> ring_good core all H s k)
     \<and> (\<forall>k. ring_at st s k \<longrightarrow> ring_good core all H s k \<longrightarrow> (\<exists>k' \<in> set ks. k' \<le> k \<and> k < k' + sz_ring st))"

definition apart :: "csection \<Rightarrow> csection \<Rightarrow> bool" where
  "apart s s' \<longleftrightarrow> (\<forall>j < length (s_data s). \<forall>k < length (s_data s'). obj_addr s j \<noteq> obj_addr s' k)"

definition chunks_fit :: "statics \<Rightarrow> (u64 \<Rightarrow> core_ring) \<Rightarrow> csection list \<Rightarrow> bool" where
  "chunks_fit st H ss \<longleftrightarrow> distinct ss \<and> sorted_wrt apart ss \<and> list_all chunk_small ss
     \<and> (\<forall>s \<in> set ss. \<forall>k. ring_at st s k \<longrightarrow> proper_ring (cr_ring (H (obj_addr s k))))"

lemma search_chunk:
  assumes sz: "16 \<le> sz_ring st" and "chunk_small s" and "records_ok rv"
    and "\<forall>k. ring_at st s k \<longrightarrow> proper_ring (cr_ring (H (obj_addr s k)))"
    and H: "\<forall>k < length (s_data s). h_rings (rv_heap rv) (obj_addr s k) = H (obj_addr s k)"
  shows "\<exists>ks rv'. scan (magic_bytes ring_magic) s (sz_ring st) (visit_ring st core all s) 0 rv = Some rv' \<and> records_ok rv'
    \<and> rv_rings rv' = rv_rings rv @ map (obj_addr s) ks \<and> found_rings st core all H s ks
    \<and> (\<forall>p. (\<forall>k < length (s_data s). p \<noteq> obj_addr s k) \<longrightarrow> h_rings (rv_heap rv') p = h_rings (rv_heap rv) p)"
proof -
  let ?H = "h_rings (rv_heap rv)"
  have same: "?H (obj_addr s k) = H (obj_addr s k)" if "ring_at st s k" for k
    using that H sz by (auto simp: ring_at_def object_at_def)
  have "rings_from st ?H s 0 rv" using assms(2-4) same sz by (auto simp: rings_from_def)
  moreover have "length (s_data s) = unat (s_size s)" "unat (s_addr s) + 2 * unat (s_size s) < 2 ^ 64"
    using assms(2) by (simp_all add: chunk_small_def)
  ultimately obtain ks rv' off' where r: "scan (magic_bytes ring_magic) s (sz_ring st) (visit_ring st core all s) 0 rv = Some rv'"
    "rings_from st ?H s off' rv'" "rv_rings rv' = rv_rings rv @ map (obj_addr s) ks"
    "\<forall>k \<in> set ks. ring_good core all ?H s k \<and> ring_at st s k" "sorted_wrt (\<lambda>k k'. k + sz_ring st \<le> k') ks"
    "\<forall>k. ring_good core all ?H s k \<longrightarrow> ring_at st s k \<longrightarrow> (\<exists>k' \<in> set ks. k' \<le> k \<and> k < k' + sz_ring st)"
    using ringv.scan_from [where needle = "magic_bytes ring_magic" and sz = "sz_ring st" and st = st and s = s and sec = s and H = ?H and off = 0
        and rv = rv and core = core and all = all] sz length_ring_magic
    unfolding ring_at_def [symmetric] by auto
  have "ring_good core all ?H s k = ring_good core all H s k" if "ring_at st s k" for k using same [OF that] by (simp add: ring_good_def)
  then have "found_rings st core all H s ks" using r(4-6) by (auto simp: found_rings_def)
  moreover have "records_ok rv'" "\<forall>p. (\<forall>k < length (s_data s). p \<noteq> obj_addr s k) \<longrightarrow> h_rings (rv_heap rv') p = ?H p"
    using r(2) by (auto simp: rings_from_def)
  ultimately show ?thesis using r(1,3) by blast
qed

lemma search_chunks:
  assumes sz: "16 \<le> sz_ring st"
  shows "chunks_fit st H ss \<Longrightarrow> records_ok rv
    \<Longrightarrow> \<forall>s \<in> set ss. \<forall>k < length (s_data s). h_rings (rv_heap rv) (obj_addr s k) = H (obj_addr s k)
    \<Longrightarrow> \<exists>rv' K. foldM_opt (\<lambda>s. scan (magic_bytes ring_magic) s (sz_ring st) (visit_ring st core all s) 0) ss rv = Some rv'
      \<and> rv_rings rv' = rv_rings rv @ concat (map (\<lambda>s. map (obj_addr s) (K s)) ss) \<and> (\<forall>s \<in> set ss. found_rings st core all H s (K s))"
proof (induction ss arbitrary: rv)
  case (Cons s ss)
  have f: "chunk_small s" "\<forall>k. ring_at st s k \<longrightarrow> proper_ring (cr_ring (H (obj_addr s k)))" "chunks_fit st H ss" "s \<notin> set ss" "\<forall>s' \<in> set ss. apart s s'"
    using Cons.prems(1) by (simp_all add: chunks_fit_def)
  have "\<forall>k < length (s_data s). h_rings (rv_heap rv) (obj_addr s k) = H (obj_addr s k)" using Cons.prems(3) by simp
  from search_chunk [OF sz f(1) Cons.prems(2) f(2) this] obtain ks rv1
    where r1: "scan (magic_bytes ring_magic) s (sz_ring st) (visit_ring st core all s) 0 rv = Some rv1" "records_ok rv1"
    "rv_rings rv1 = rv_rings rv @ map (obj_addr s) ks" "found_rings st core all H s ks"
    "\<forall>p. (\<forall>k < length (s_data s). p \<noteq> obj_addr s k) \<longrightarrow> h_rings (rv_heap rv1) p = h_rings (rv_heap rv) p" by blast
  have "h_rings (rv_heap rv1) (obj_addr s' k) = H (obj_addr s' k)" if s': "s' \<in> set ss" "k < length (s_data s')" for s' k
  proof -
    have "\<forall>j < length (s_data s). obj_addr s' k \<noteq> obj_addr s j" using f(5) s' unfolding apart_def by metis
    then show ?thesis using r1(5) Cons.prems(3) s' by simp
  qed
  from Cons.IH [OF f(3) r1(2)] this obtain rv' K
    where r2: "foldM_opt (\<lambda>s. scan (magic_bytes ring_magic) s (sz_ring st) (visit_ring st core all s) 0) ss rv1 = Some rv'"
    "rv_rings rv' = rv_rings rv1 @ concat (map (\<lambda>s. map (obj_addr s) (K s)) ss)" "\<forall>s \<in> set ss. found_rings st core all H s (K s)" by blast
  let ?K = "K(s := ks)"
  have "map (\<lambda>x. map (obj_addr x) (?K x)) ss = map (\<lambda>x. map (obj_addr x) (K x)) ss" using f(4) by (intro map_cong) auto
  then have "rv_rings rv' = rv_rings rv @ concat (map (\<lambda>x. map (obj_addr x) (?K x)) (s # ss))"
    using r1(3) r2(2) by (simp only: list.map concat.simps fun_upd_same append_assoc)
  moreover have "\<forall>x \<in> set (s # ss). found_rings st core all H x (?K x)" using r1(4) r2(3) f(4) by auto
  ultimately show ?case using r1(1) r2(1) by (intro exI [of _ rv'] exI [of _ ?K] conjI) simp_all
qed simp

text \<open>The search for outputs has no such loop in its check and always ends.\<close>

lemma scan_total:
  assumes "\<And>k rv. visit k rv \<noteq> None"
  shows "\<exists>rv'. scan needle s sz visit off rv = Some rv'"
proof (induction "length (s_data s) + 1 - off" arbitrary: off rv rule: less_induct)
  case less
  show ?case
  proof (cases "sz = 0 \<or> length (s_data s) < off \<or> length (s_data s) - off < sz \<or> memmem needle (s_data s) off = None")
    case False
    then obtain k where k: "memmem needle (s_data s) off = Some k" by auto
    obtain ok rv' where v: "visit k rv = Some (ok, rv')" using assms [of k rv] by auto
    have "length (s_data s) + 1 - (if ok then k + sz else k + 1) < length (s_data s) + 1 - off"
      using memmem_Some [OF k] False by auto
    from less [OF this, of rv'] show ?thesis using False k v by (subst scan.simps) auto
  qed (subst scan.simps, auto)
qed

lemma outbufs_search_ends: "\<exists>rv'. find_and_fixup_outbufs st core rv = Some rv'"
proof -
  have "visit_output st core s k rv \<noteq> None" for s k rv
    by (cases "h_outputs (rv_heap rv) (s_addr s + word_of_nat k - 8) = 0") (simp_all add: visit_output_def Let_def split: prod.split)
  then have sc: "\<exists>rv'. scan needle s sz (visit_output st core s) off rv = Some rv'" for needle s sz off rv by (rule scan_total)
  have "\<exists>rv'. foldM_opt (\<lambda>s. scan (magic_bytes output_magic) s (sz_output st) (visit_output st core s) 0) ss rv = Some rv'" for ss
  proof (induction ss arbitrary: rv)
    case (Cons s ss)
    then show ?case using sc [of "magic_bytes output_magic" s "sz_output st" 0 rv] by auto
  qed simp
  then show ?thesis by (simp add: find_and_fixup_outbufs_def)
qed

text \<open>
  C14: the search for rings. The chunks are loaded at separate addresses and do not wrap around, the size of
  a ring covers the magic number, every ring with the magic number has a proper shift and a capacity that
  is a mask of ones, and records have room for eight arguments. Then the search ends. What it has put on the
  list, chunk by chunk, are addresses of objects that have the magic number, lie inside the chunk, passed
  the checks as they were in the core file, and do not overlap; and every such object that passes
  the checks is on the list or begins inside one that is.
\<close>

theorem ring_search_complete:
  assumes "16 \<le> sz_ring st" and "records_ok rv" and "distinct (cd_sections core)" and "sorted_wrt apart (cd_sections core)"
    and "\<forall>s \<in> set (cd_sections core). length (s_data s) = unat (s_size s) \<and> unat (s_addr s) + 2 * unat (s_size s) < 2 ^ 64"
    and "\<forall>s \<in> set (cd_sections core). \<forall>k. object_at (magic_bytes ring_magic) s (sz_ring st) k \<longrightarrow>
      proper_ring (cr_ring (h_rings (rv_heap rv) (s_addr s + word_of_nat k)))"
  shows "\<exists>rv' K. find_and_fixup_rings st core all rv = Some rv'
    \<and> rv_rings rv' = rv_rings rv @ concat (map (\<lambda>s. map (\<lambda>k. s_addr s + word_of_nat k) (K s)) (cd_sections core))
    \<and> (\<forall>s \<in> set (cd_sections core). sorted_wrt (\<lambda>k k'. k + sz_ring st \<le> k') (K s)
       \<and> (\<forall>k \<in> set (K s). object_at (magic_bytes ring_magic) s (sz_ring st) k
            \<and> (\<exists>cr. ring_fixup core all (h_rings (rv_heap rv) (s_addr s + word_of_nat k)) = Some (True, cr)))
       \<and> (\<forall>k. object_at (magic_bytes ring_magic) s (sz_ring st) k
            \<longrightarrow> (\<exists>cr. ring_fixup core all (h_rings (rv_heap rv) (s_addr s + word_of_nat k)) = Some (True, cr))
            \<longrightarrow> (\<exists>k' \<in> set (K s). k' \<le> k \<and> k < k' + sz_ring st)))"
proof -
  have "chunks_fit st (h_rings (rv_heap rv)) (cd_sections core)"
    using assms(3-6) by (simp add: chunks_fit_def chunk_small_def ring_at_def list_all_iff)
  from search_chunks [OF assms(1) this assms(2), of core all] show ?thesis
    unfolding find_and_fixup_rings_def found_rings_def ring_at_def ring_good_def by blast
qed

text \<open>One chunk that begins with a ring.\<close>

definition search_demo_chunk :: csection where
  "search_demo_chunk = demo_chunk\<lparr>s_data := magic_bytes ring_magic @ replicate (0x1000 - 16) 0\<rparr>"

definition search_demo_statics :: statics where
  "search_demo_statics = \<lparr>st_default_names = 0, st_na = 0, st_special_area = 0, sz_ring = 200, sz_output = 100, sz_area = 100,
     sz_timesource = 100, sz_ostrbuf = 100\<rparr>"

definition search_demo :: recovery where
  "search_demo = \<lparr>rv_areas = Map.empty, rv_timesources = Map.empty, rv_rings = [], rv_outbufs = Map.empty,
     rv_heap = \<lparr>h_rings = \<lambda>_. demo_core_ring, h_areas = undefined, h_timesources = undefined,
       h_records = (\<lambda>_. zero_record 224), h_names = undefined, h_outputs = undefined, h_bufs = undefined\<rparr>\<rparr>"

theorem ring_search_complete_witness:
  "\<exists>rv'. find_and_fixup_rings search_demo_statics \<lparr>cd_sections = [search_demo_chunk], cd_failed = False\<rparr> True search_demo = Some rv'
    \<and> 0x100000 \<in> set (rv_rings rv')"
proof -
  let ?core = "\<lparr>cd_sections = [search_demo_chunk], cd_failed = False\<rparr>" and ?st = search_demo_statics
  have c: "length (s_data search_demo_chunk) = 0x1000" "s_size search_demo_chunk = 0x1000" "s_addr search_demo_chunk = 0x100000"
    by (simp_all add: search_demo_chunk_def demo_chunk_def length_ring_magic)
  have m: "rb_capacity (cr_ring demo_core_ring) = mask 2" by (simp add: demo_core_ring_def mask_eq_exp_minus_1)
  have p: "proper_ring (cr_ring demo_core_ring)" using m by (auto simp: proper_ring_def intro!: exI [of _ 2]) (simp add: demo_core_ring_def)
  have g: "\<exists>cr. ring_fixup ?core True demo_core_ring = Some (True, cr)"
    by (simp add: ring_fixup_def demo_core_ring_def search_demo_chunk_def demo_chunk_def ring_sane_def record_size_def PRIORITY_CEILING_def
        remap_def ring_capacity_def Let_def word_sless_alt)
  have o: "object_at (magic_bytes ring_magic) search_demo_chunk (sz_ring ?st) 0"
    by (simp add: object_at_def search_demo_chunk_def search_demo_statics_def length_ring_magic)
  have H: "h_rings (rv_heap search_demo) = (\<lambda>_. demo_core_ring)" "records_ok search_demo" "rv_rings search_demo = []"
    by (simp_all add: search_demo_def records_ok_def zero_record_def)
  from ring_search_complete [of ?st search_demo ?core True] c p H obtain rv' K
    where r: "find_and_fixup_rings ?st ?core True search_demo = Some rv'" "rv_rings rv' = map (\<lambda>k. 0x100000 + word_of_nat k) (K search_demo_chunk)"
    and d: "\<forall>k. object_at (magic_bytes ring_magic) search_demo_chunk (sz_ring ?st) k
            \<longrightarrow> (\<exists>cr. ring_fixup ?core True demo_core_ring = Some (True, cr)) \<longrightarrow> (\<exists>k' \<in> set (K search_demo_chunk). k' \<le> k \<and> k < k' + sz_ring ?st)"
    by (auto simp: search_demo_statics_def)
  from d [rule_format, OF o g] have "0 \<in> set (K search_demo_chunk)" by auto
  with r show ?thesis by force
qed

text \<open>The ordered set of the dump keeps, of the entries with one timestamp, the one inserted first.\<close>

lemma set_insert_props:
  assumes "sorted_wrt (\<lambda>x y. key x < key y) out"
  shows "sorted_wrt (\<lambda>x y. key x < key y) (set_insert key e out)
    \<and> set (set_insert key e out) = (if key e \<in> key ` set out then set out else insert e (set out))"
  using assms
proof (induction out)
  case (Cons y out)
  then have IH: "sorted_wrt (\<lambda>x y. key x < key y) (set_insert key e out)"
    "set (set_insert key e out) = (if key e \<in> key ` set out then set out else insert e (set out))" by auto
  consider "key e < key y" | "key y < key e" | "key e = key y" by (rule linorder_cases)
  then show ?case
  proof cases
    case 1
    have "\<forall>x \<in> set (y # out). key e < key x" using 1 Cons.prems by (auto intro: less_trans)
    then have "key e \<notin> key ` set (y # out)" "sorted_wrt (\<lambda>x y. key x < key y) (e # y # out)" using Cons.prems by force+
    with 1 show ?thesis by simp
  next
    case 2
    then have e: "set_insert key e (y # out) = y # set_insert key e out" "key e \<noteq> key y" by auto
    have "\<forall>x \<in> set (set_insert key e out). key y < key x" using IH(2) 2 Cons.prems by (simp split: if_splits)
    with e IH show ?thesis by (simp add: insert_commute)
  next
    case 3
    with Cons.prems show ?thesis by auto
  qed
qed simp

lemma fold_insert_props:
  assumes "sorted_wrt (\<lambda>x y. key x < key y) out"
  shows "sorted_wrt (\<lambda>x y. key x < key y) (fold (set_insert key) es out)
    \<and> set (fold (set_insert key) es out) = {e. e \<in> set out \<or> key e \<notin> key ` set out \<and> find (\<lambda>x. key x = key e) es = Some e}"
  using assms
proof (induction es arbitrary: out)
  case (Cons x es)
  note p = set_insert_props [OF Cons.prems, of x]
  from Cons.IH [of "set_insert key x out"] p
  have "sorted_wrt (\<lambda>x y. key x < key y) (fold (set_insert key) (x # es) out)"
    and s: "set (fold (set_insert key) (x # es) out) = {e. e \<in> set (set_insert key x out)
      \<or> key e \<notin> key ` set (set_insert key x out) \<and> find (\<lambda>x. key x = key e) es = Some e}" by auto
  moreover have "set (fold (set_insert key) (x # es) out)
      = {e. e \<in> set out \<or> key e \<notin> key ` set out \<and> find (\<lambda>x. key x = key e) (x # es) = Some e}"
    unfolding s using p by auto
  ultimately show ?case by blast
qed simp

text \<open>
  C31: the dump writes the records of all rings in the order of their timestamps, and of all records
  with one timestamp exactly one: the first in the order of the rings and of the slots. Records of
  different threads that carry the same timestamp are lost, but for one of them.
\<close>

theorem dump_records_by_timestamp:
  assumes "\<forall>p \<in> set (rv_rings rv). ring_entries (rv_heap rv) p = Some (E p)"
  shows "\<exists>out. dump_records rv = Some out
    \<and> sorted_wrt (\<lambda>e e'. r_timestamp (snd e) < r_timestamp (snd e')) out
    \<and> (\<forall>e. e \<in> set out \<longleftrightarrow> find (\<lambda>x. r_timestamp (snd x) = r_timestamp (snd e)) (concat (map E (rv_rings rv))) = Some e)"
proof -
  let ?key = "\<lambda>e :: u64 \<times> log_record. r_timestamp (snd e)"
  have "foldM_opt (\<lambda>p out. do { es \<leftarrow> ring_entries (rv_heap rv) p; Some (fold (set_insert ?key) es out) }) ps out
      = Some (fold (set_insert ?key) (concat (map E ps)) out)" if "set ps \<subseteq> set (rv_rings rv)" for ps out
    using that assms by (induction ps arbitrary: out) auto
  then have "dump_records rv = Some (fold (set_insert ?key) (concat (map E (rv_rings rv))) [])"
    by (simp add: dump_records_def)
  with fold_insert_props [of ?key "[]" "concat (map E (rv_rings rv))"] show ?thesis by auto
qed


text \<open>Two rings with one record each, both with timestamp 5.\<close>

definition twin_ring :: "u64 \<Rightarrow> core_ring" where
  "twin_ring p = \<lparr>cr_name = p, cr_ring = (cr_ring demo_core_ring)\<lparr>rb_rec_top := p, rb_head := 0, rb_tail := 2\<rparr>\<rparr>"

definition twins :: recovery where
  "twins = \<lparr>rv_areas = Map.empty, rv_timesources = Map.empty, rv_rings = [0x1000, 0x2000], rv_outbufs = Map.empty,
     rv_heap = \<lparr>h_rings = twin_ring, h_areas = undefined, h_timesources = undefined,
       h_records = (\<lambda>q. (zero_record 224)\<lparr>r_timestamp := 5, r_section := if q < 0x2000 then 1 else 2\<rparr>),
       h_names = undefined, h_outputs = undefined, h_bufs = undefined\<rparr>\<rparr>"

lemma twin_entries:
  "ring_entries (rv_heap twins) p = Some [(p, h_records (rv_heap twins) (p + 256))]"
proof -
  have "ring_walk (cr_ring (twin_ring p)) \<lparr>it_head = 0, it_tail = 2\<rparr> = Some [1]"
    using ring_walk_span [of 2 "cr_ring (twin_ring p)" 0 2]
    by (simp add: twin_ring_def demo_core_ring_def mask_eq_exp_minus_1 span_def)
  then show ?thesis
    by (simp add: ring_entries_def ring_record_addrs_def twins_def it_reset_def get_record_addr_def twin_ring_def demo_core_ring_def)
qed

theorem dump_records_by_timestamp_witness:
  "\<exists>out. dump_records twins = Some out \<and> (0x1000, h_records (rv_heap twins) 0x1100) \<in> set out
    \<and> (0x2000, h_records (rv_heap twins) 0x2100) \<notin> set out"
proof -
  let ?E = "\<lambda>p. [(p, h_records (rv_heap twins) (p + 256))]"
  obtain out where "dump_records twins = Some out" and m: "\<forall>e. e \<in> set out \<longleftrightarrow>
      find (\<lambda>x. r_timestamp (snd x) = r_timestamp (snd e)) (concat (map ?E (rv_rings twins))) = Some e"
    using dump_records_by_timestamp [of twins ?E] twin_entries by auto
  then show ?thesis
    using m [rule_format, of "(0x1000, h_records (rv_heap twins) 0x1100)"] m [rule_format, of "(0x2000, h_records (rv_heap twins) 0x2100)"]
    by (simp add: twins_def)
qed

section \<open>Names of sections\<close>

abbreviation name_cell :: "core_area \<Rightarrow> nat \<Rightarrow> u64" where
  "name_cell a i \<equiv> ca_section a + 8 * word_of_nat i"

lemma fixup_names_found:
  assumes "inj_on (name_cell a) {..<unat (ca_bm_size a)}" and "i \<le> unat (ca_bm_size a)"
    and "\<forall>j < unat (ca_bm_size a). i \<le> j \<longrightarrow> remap core (names (name_cell a j)) 0 \<noteq> 0"
  shows "\<exists>names'. fixup_names st core i a names = (a, names')
    \<and> (\<forall>j < unat (ca_bm_size a). names' (name_cell a j) = (if i \<le> j then remap core (names (name_cell a j)) 0 else names (name_cell a j)))"
  using assms(2,3)
proof (induction i arbitrary: names rule: inc_induct)
  case base
  then show ?case by (subst fixup_names.simps) simp
next
  case (step i)
  let ?names = "names(name_cell a i := remap core (names (name_cell a i)) 0)"
  have ne: "name_cell a j \<noteq> name_cell a i" if "j < unat (ca_bm_size a)" "j \<noteq> i" for j
    using inj_onD [OF assms(1), of j i] that step.hyps by auto
  have "\<forall>j < unat (ca_bm_size a). Suc i \<le> j \<longrightarrow> remap core (?names (name_cell a j)) 0 \<noteq> 0"
    using step.prems ne by auto
  from step.IH [OF this] obtain names' where n: "fixup_names st core (Suc i) a ?names = (a, names')"
    "\<forall>j < unat (ca_bm_size a). names' (name_cell a j) = (if Suc i \<le> j then remap core (?names (name_cell a j)) 0 else ?names (name_cell a j))"
    by blast
  have "remap core (names (name_cell a i)) 0 \<noteq> 0" using step.prems step.hyps by auto
  then have "fixup_names st core i a names = (a, names')"
    using n(1) step.hyps by (subst fixup_names.simps) (simp add: Let_def)
  moreover have "names' (name_cell a j) = (if i \<le> j then remap core (names (name_cell a j)) 0 else names (name_cell a j))"
    if j: "j < unat (ca_bm_size a)" for j
    using n(2) [rule_format, OF j] ne [OF j] by (cases "j = i") auto
  ultimately show ?case by blast
qed

text \<open>An area with the default sections that passes the checks.\<close>

definition default_area_ok :: "coredump \<Rightarrow> core_area \<Rightarrow> bool" where
  "default_area_ok core a \<longleftrightarrow> ca_magic a = area_magic \<and> ca_bm_size a = 6 \<and> remap core (ca_bm_data a) 1 \<noteq> 0
     \<and> remap core (ca_name a) 0 \<noteq> 0 \<and> remap core (ca_section a) 48 \<noteq> 0"

lemma area_fixup_default:
  assumes "default_area_ok core (h_areas h p)" and "p \<noteq> 0"
  defines "a \<equiv> (h_areas h p)\<lparr>ca_bm_data := remap core (ca_bm_data (h_areas h p)) 1, ca_name := remap core (ca_name (h_areas h p)) 0,
    ca_section := remap core (ca_section (h_areas h p)) 48\<rparr>"
  shows "area_fixup st core p h = (let (a', names) = fixup_names st core 0 a (h_names h) in
    (p, h\<lparr>h_areas := (h_areas h)(p := a'), h_names := names\<rparr>))"
  using assms(1,2) unfolding a_def
  by (simp add: area_fixup_def default_area_ok_def bitmap_fixup_def max_sections_def bm_nbytes_def Let_def split: prod.split)

text \<open>
  All areas with the default sections share one array of names. When the names are in the core
  file, translating the second such area treats the translated name of the first section as an
  address of the dead process again, does not find it, and stores the null pointer in the
  shared array: the first area, which was translated completely before, loses the name of its
  first section.
\<close>

lemma shared_section_names_lost:
  assumes p: "p \<noteq> 0" "q \<noteq> 0" "p \<noteq> q"
    and ok: "default_area_ok core (h_areas h p)" "default_area_ok core (h_areas h q)"
    and shared: "ca_section (h_areas h q) = ca_section (h_areas h p)"
    and names: "\<forall>i < 6. remap core (h_names h (remap core (ca_section (h_areas h p)) 48 + 8 * word_of_nat i)) 0 \<noteq> 0"
    and again: "remap core (remap core (h_names h (remap core (ca_section (h_areas h p)) 48)) 0) 0 = 0"
  shows "\<exists>h1 h2. area_fixup st core p h = (p, h1) \<and> area_fixup st core q h1 = (q, h2)
    \<and> h_names h1 (ca_section (h_areas h1 p)) \<noteq> 0 \<and> h_names h2 (ca_section (h_areas h2 p)) = 0"
proof -
  let ?S = "remap core (ca_section (h_areas h p)) 48"
  define a where "a = (h_areas h p)\<lparr>ca_bm_data := remap core (ca_bm_data (h_areas h p)) 1,
    ca_name := remap core (ca_name (h_areas h p)) 0, ca_section := ?S\<rparr>"
  have a: "ca_section a = ?S" "unat (ca_bm_size a) = 6" using ok(1) by (auto simp: a_def default_area_ok_def)
  have "inj_on (name_cell a) {..<6}"
  proof (rule inj_onI)
    fix x y :: nat assume xy: "x \<in> {..<6}" "y \<in> {..<6}" "name_cell a x = name_cell a y"
    then have "unat (8 * word_of_nat x :: u64) = unat (8 * word_of_nat y :: u64)" by simp
    with xy(1,2) show "x = y" by (simp add: unat_word_ariths unat_of_nat)
  qed
  with fixup_names_found [of a 0 core "h_names h" st] names a obtain names1
    where n1: "fixup_names st core 0 a (h_names h) = (a, names1)"
      "\<forall>j < 6. names1 (name_cell a j) = remap core (h_names h (name_cell a j)) 0" by auto
  define h1 where "h1 = h\<lparr>h_areas := (h_areas h)(p := a), h_names := names1\<rparr>"
  have h1: "area_fixup st core p h = (p, h1)"
    using area_fixup_default [OF ok(1) p(1), of st] n1(1) by (simp add: h1_def a_def)
  have n0: "names1 ?S = remap core (h_names h ?S) 0" "names1 ?S \<noteq> 0"
    using n1(2) [rule_format, of 0] names [rule_format, of 0] a(1) by simp_all
  have q: "h_areas h1 q = h_areas h q" "h_names h1 = names1" using p(3) by (simp_all add: h1_def)
  define b where "b = (h_areas h q)\<lparr>ca_bm_data := remap core (ca_bm_data (h_areas h q)) 1,
    ca_name := remap core (ca_name (h_areas h q)) 0, ca_section := ?S\<rparr>"
  have b: "ca_section b = ?S" "ca_bm_size b = 6" using ok(2) by (auto simp: b_def default_area_ok_def)
  have "fixup_names st core 0 b names1 = (b\<lparr>ca_section := st_default_names st\<rparr>, names1(?S := 0))"
    using b n0(1) again by (subst fixup_names.simps) (simp add: Let_def)
  then have h2: "area_fixup st core q h1 = (q, h1\<lparr>h_areas := (h_areas h1)(q := b\<lparr>ca_section := st_default_names st\<rparr>), h_names := names1(?S := 0)\<rparr>)"
    using area_fixup_default [of core h1 q st] ok(2) p(2) shared q by (simp add: b_def)
  have "h_areas h1 p = a" by (simp add: h1_def)
  with h1 h2 n0(2) a(1) p(3) q(2) show ?thesis by auto
qed


text \<open>Two areas at \<open>0x2000\<close> and \<open>0x2100\<close>, names at \<open>0x1000\<close>, the array at \<open>0x1100\<close>; the tool's copy is at \<open>0x100000\<close>.\<close>

definition area_core :: coredump where
  "area_core = \<lparr>cd_sections = [\<lparr>s_vma = 0x1000, s_addr = 0x100000, s_size = 0x2000, s_abfd = 0, s_data = replicate 0x2000 0\<rparr>], cd_failed = False\<rparr>"

definition area_heap :: heap where
  "area_heap = \<lparr>h_rings = undefined,
     h_areas = (\<lambda>_. \<lparr>ca_magic = area_magic, ca_name = 0x1000, ca_section = 0x1100, ca_bm_data = 0x1200, ca_bm_size = 6\<rparr>),
     h_timesources = undefined, h_records = undefined, h_names = (\<lambda>_. 0x1010), h_outputs = undefined, h_bufs = undefined\<rparr>"

section \<open>Arguments\<close>

text \<open>Only the first eight of the sixteen arguments are translated.\<close>

lemma fixup_arg_other:
  assumes "fixup_arg core i r = Some r'" and "i < j"
  shows "get_arg_val64 (r_argval r') j = get_arg_val64 (r_argval r) j \<and> r_argtype r' = r_argtype r"
  using assms
  by (auto simp: fixup_arg_def set_arg_val64_def set_arg_val32_def get_arg_val64_def bind_eq_Some_conv peek_poke_disjoint split: if_splits)

lemma foldM_args_other:
  assumes "foldM_opt (fixup_arg core) is r = Some r'" and "\<forall>i \<in> set is. i < j"
  shows "get_arg_val64 (r_argval r') j = get_arg_val64 (r_argval r) j \<and> r_argtype r' = r_argtype r"
  using assms
proof (induction "is" arbitrary: r)
  case (Cons i "is")
  then obtain r1 where r1: "fixup_arg core i r = Some r1" "foldM_opt (fixup_arg core) is r1 = Some r'"
    by (auto simp: bind_eq_Some_conv)
  from Cons.IH [OF r1(2)] Cons.prems(2) fixup_arg_other [OF r1(1), of j] show ?case by simp
qed simp

lemma later_args_untranslated:
  assumes "fixup_record st core p rv = Some rv'" and "\<not> is_special (h_records (rv_heap rv) p)" and "8 \<le> j"
  shows "get_arg_val64 (r_argval (h_records (rv_heap rv') p)) j = get_arg_val64 (r_argval (h_records (rv_heap rv) p)) j"
proof -
  obtain a rv1 where "fixup_area st core (r_area (h_records (rv_heap rv) p)) rv = (a, rv1)" by (cases "fixup_area st core (r_area (h_records (rv_heap rv) p)) rv")
  with assms(1,2) obtain r where "foldM_opt (fixup_arg core) [0..<8] ((h_records (rv_heap rv) p)\<lparr>r_area := a\<rparr>) = Some r"
    and "rv' = set_heap (\<lambda>h. h\<lparr>h_records := (h_records h)(p := r)\<rparr>) rv1"
    by (auto simp: fixup_record_def Let_def bind_eq_Some_conv)
  with foldM_args_other [of core "[0..<8]" _ r j] assms(3) show ?thesis by simp
qed

section \<open>Output buffers\<close>

text \<open>The dump of a buffer leaves out exactly the zeros at its end.\<close>

lemma trim_zeros_spec:
  "n \<le> length d \<Longrightarrow> trim_zeros d n \<le> n \<and> take n d = take (trim_zeros d n) d @ replicate (n - trim_zeros d n) 0
    \<and> (trim_zeros d n = 0 \<or> d ! (trim_zeros d n - 1) \<noteq> 0)"
  by (induction n) (auto simp: take_Suc_conv_app_nth Suc_diff_le replicate_append_same)

end
