(* ===== verification/Tsobuf.thy ===== *)
theory Tsobuf
  imports Ringbuf "HOL-Library.Multiset"
begin

text \<open>
  The timestamp ordering buffer (\<^verbatim>\<open>include/hogl/detail/tsobuf.hpp\<close>): an array of
  entries with a head and a tail that do not wrap. \<^verbatim>\<open>push\<close> does not check for room, so
  a push into a full buffer is \<open>None\<close>. \<^verbatim>\<open>std::sort\<close> is a parameter: the contract
  \<open>std_sort\<close> says that it permutes its input into an order sorted by timestamp, and
  nothing about entries with equal timestamps.
\<close>

section \<open>Definitions\<close>

record tso_entry =
  te_timestamp :: timestamp
  te_rec :: u32
  te_tag :: u32

record tsobuf =
  tso_head :: u32
  tso_tail :: u32
  tso_capacity :: u32
  tso_entry_arr :: "tso_entry list"

definition tso_less :: "tso_entry \<Rightarrow> tso_entry \<Rightarrow> bool" where
  "tso_less i j \<longleftrightarrow> ts_less (te_timestamp i) (te_timestamp j)"

definition tso_resize :: "(nat \<Rightarrow> tso_entry) \<Rightarrow> u32 \<Rightarrow> tsobuf" where
  "tso_resize junk n =
     \<lparr>tso_head = 0, tso_tail = 0, tso_capacity = n, tso_entry_arr = map junk [0..<unat n]\<rparr>"

definition tso_reset :: "tsobuf \<Rightarrow> tsobuf" where
  "tso_reset b = b\<lparr>tso_head := 0, tso_tail := 0\<rparr>"

definition tso_size :: "tsobuf \<Rightarrow> u32" where
  "tso_size b = tso_tail b - tso_head b"

definition tso_full :: "tsobuf \<Rightarrow> bool" where
  "tso_full b \<longleftrightarrow> tso_tail b = tso_capacity b"

definition tso_empty :: "tsobuf \<Rightarrow> bool" where
  "tso_empty b \<longleftrightarrow> tso_head b \<ge> tso_tail b"

definition tso_push :: "tso_entry \<Rightarrow> tsobuf \<Rightarrow> tsobuf option" where
  "tso_push e b =
     (if unat (tso_tail b) < length (tso_entry_arr b)
      then Some (b\<lparr>tso_entry_arr := (tso_entry_arr b)[unat (tso_tail b) := e], tso_tail := tso_tail b + 1\<rparr>)
      else None)"

definition tso_pop :: "tsobuf \<Rightarrow> (tso_entry \<times> tsobuf) option" where
  "tso_pop b =
     (if tso_empty b then None
      else Some (tso_entry_arr b ! unat (tso_head b), b\<lparr>tso_head := tso_head b + 1\<rparr>))"

definition tso_top :: "tsobuf \<Rightarrow> tso_entry option" where
  "tso_top b = (if tso_empty b then None else Some (tso_entry_arr b ! unat (tso_head b)))"

text \<open>The part of the array between head and tail, and the array with that part replaced.\<close>

definition tso_live :: "tsobuf \<Rightarrow> tso_entry list" where
  "tso_live b = take (unat (tso_tail b) - unat (tso_head b)) (drop (unat (tso_head b)) (tso_entry_arr b))"

definition tso_flip :: "tsobuf \<Rightarrow> tsobuf" where
  "tso_flip b =
     b\<lparr>tso_entry_arr := tso_live b @ drop (unat (tso_size b)) (tso_entry_arr b), tso_head := 0, tso_tail := tso_size b\<rparr>"

type_synonym sorter = "tso_entry list \<Rightarrow> tso_entry list"

definition tso_sort :: "sorter \<Rightarrow> tsobuf \<Rightarrow> tsobuf" where
  "tso_sort std_sort b =
     b\<lparr>tso_entry_arr := take (unat (tso_head b)) (tso_entry_arr b) @ std_sort (tso_live b)
         @ drop (unat (tso_tail b)) (tso_entry_arr b)\<rparr>"

definition tso_wf :: "tsobuf \<Rightarrow> bool" where
  "tso_wf b \<longleftrightarrow> length (tso_entry_arr b) = unat (tso_capacity b)
     \<and> tso_head b \<le> tso_tail b \<and> tso_tail b \<le> tso_capacity b"

section \<open>The live entries\<close>

lemma tso_resize_live: "tso_wf (tso_resize junk n)" "tso_live (tso_resize junk n) = []"
  by (simp_all add: tso_wf_def tso_resize_def tso_live_def)

lemma tso_reset_live: "tso_wf b \<Longrightarrow> tso_wf (tso_reset b)" "tso_live (tso_reset b) = []"
  by (simp_all add: tso_wf_def tso_reset_def tso_live_def)

lemma tso_size_live: "tso_wf b \<Longrightarrow> unat (tso_size b) = length (tso_live b)"
  by (auto simp: tso_wf_def tso_size_def tso_live_def unat_sub word_le_nat_alt)

lemma tso_push_live:
  assumes "tso_wf b" and "\<not> tso_full b"
  shows "\<exists>b'. tso_push e b = Some b' \<and> tso_wf b' \<and> tso_live b' = tso_live b @ [e]
    \<and> tso_capacity b' = tso_capacity b \<and> tso_head b' = tso_head b"
proof -
  have le: "unat (tso_head b) \<le> unat (tso_tail b)" "unat (tso_tail b) < unat (tso_capacity b)"
    "length (tso_entry_arr b) = unat (tso_capacity b)"
    using assms by (auto simp: tso_wf_def tso_full_def word_le_nat_alt word_unat_eq_iff)
  then have t: "unat (tso_tail b + 1) = Suc (unat (tso_tail b))"
    using unat_less [of "tso_capacity b"] by (simp add: unat_word_ariths)
  let ?b = "b\<lparr>tso_entry_arr := (tso_entry_arr b)[unat (tso_tail b) := e], tso_tail := tso_tail b + 1\<rparr>"
  have "tso_live ?b = tso_live b @ [e]"
    using le t by (simp add: tso_live_def drop_update_swap Suc_diff_le take_Suc_conv_app_nth)
  moreover have "tso_wf ?b"
    using le t by (simp add: tso_wf_def word_le_nat_alt)
  ultimately show ?thesis using le by (simp add: tso_push_def)
qed

lemma tso_empty_live: "tso_wf b \<Longrightarrow> tso_empty b \<longleftrightarrow> tso_live b = []"
  by (auto simp: tso_wf_def tso_empty_def tso_live_def word_le_nat_alt)

lemma tso_pop_live:
  assumes "tso_wf b"
  shows "tso_live b = [] \<Longrightarrow> tso_pop b = None"
    and "tso_live b = e # es \<Longrightarrow> \<exists>b'. tso_pop b = Some (e, b') \<and> tso_wf b' \<and> tso_live b' = es
      \<and> tso_capacity b' = tso_capacity b"
proof -
  show "tso_pop b = None" if "tso_live b = []"
    using that tso_empty_live [OF assms] by (simp add: tso_pop_def)
  assume l: "tso_live b = e # es"
  have le: "unat (tso_head b) < unat (tso_tail b)" "unat (tso_tail b) \<le> unat (tso_capacity b)"
    "length (tso_entry_arr b) = unat (tso_capacity b)"
    using assms l tso_empty_live [OF assms] by (auto simp: tso_wf_def word_le_nat_alt tso_empty_def)
  then have h: "unat (tso_head b + 1) = Suc (unat (tso_head b))"
    using unat_less [of "tso_capacity b"] by (simp add: unat_word_ariths)
  let ?b = "b\<lparr>tso_head := tso_head b + 1\<rparr>"
  have d: "drop (unat (tso_head b)) (tso_entry_arr b) =
      tso_entry_arr b ! unat (tso_head b) # drop (Suc (unat (tso_head b))) (tso_entry_arr b)"
    using le by (simp add: Cons_nth_drop_Suc)
  have "tso_live b = tso_entry_arr b ! unat (tso_head b) # tso_live ?b"
    using le h by (simp add: tso_live_def d take_Cons' Suc_diff_Suc [symmetric])
  moreover have "tso_wf ?b" using le h by (simp add: tso_wf_def word_le_nat_alt)
  ultimately show "\<exists>b'. tso_pop b = Some (e, b') \<and> tso_wf b' \<and> tso_live b' = es
      \<and> tso_capacity b' = tso_capacity b"
    using l tso_empty_live [OF assms] by (simp add: tso_pop_def)
qed

lemma tso_flip_live:
  assumes "tso_wf b"
  shows "tso_wf (tso_flip b)" and "tso_live (tso_flip b) = tso_live b" and "tso_head (tso_flip b) = 0"
    and "tso_capacity (tso_flip b) = tso_capacity b" and "unat (tso_tail (tso_flip b)) = length (tso_live b)"
proof -
  have le: "unat (tso_head b) \<le> unat (tso_tail b)" "unat (tso_tail b) \<le> unat (tso_capacity b)"
    "length (tso_entry_arr b) = unat (tso_capacity b)"
    using assms by (auto simp: tso_wf_def word_le_nat_alt)
  note s = tso_size_live [OF assms]
  have l: "length (tso_live b) \<le> unat (tso_capacity b)" using le by (simp add: tso_live_def)
  show "tso_wf (tso_flip b)" "tso_live (tso_flip b) = tso_live b"
    using s l le unfolding tso_wf_def tso_flip_def by (simp_all add: word_le_nat_alt) (simp add: tso_live_def)
  show "tso_head (tso_flip b) = 0" "tso_capacity (tso_flip b) = tso_capacity b"
    "unat (tso_tail (tso_flip b)) = length (tso_live b)"
    using s by (simp_all add: tso_flip_def)
qed

section \<open>Sorting\<close>

locale std_sort =
  fixes std_sort :: sorter
  assumes perm: "mset (std_sort es) = mset es"
    and sorted: "sorted_wrt (\<lambda>x y. te_timestamp x \<le> te_timestamp y) (std_sort es)"

context std_sort begin

lemma set_sort: "set (std_sort es) = set es"
  using perm mset_eq_setD by blast

lemma length_sort: "length (std_sort es) = length es"
  using perm mset_eq_length by blast

lemma tso_sort_live:
  assumes "tso_wf b"
  shows "tso_wf (tso_sort std_sort b)" and "tso_live (tso_sort std_sort b) = std_sort (tso_live b)"
    and "tso_capacity (tso_sort std_sort b) = tso_capacity b"
proof -
  have le: "unat (tso_head b) \<le> unat (tso_tail b)" "unat (tso_tail b) \<le> unat (tso_capacity b)"
    "length (tso_entry_arr b) = unat (tso_capacity b)"
    using assms by (auto simp: tso_wf_def word_le_nat_alt)
  have l: "length (std_sort (tso_live b)) = unat (tso_tail b) - unat (tso_head b)"
    using le by (simp add: length_sort tso_live_def)
  show "tso_wf (tso_sort std_sort b)" "tso_capacity (tso_sort std_sort b) = tso_capacity b"
    using assms l le by (simp_all add: tso_wf_def tso_sort_def)
  show "tso_live (tso_sort std_sort b) = std_sort (tso_live b)"
    unfolding tso_live_def [of "tso_sort std_sort b"] using l le by (simp add: tso_sort_def)
qed

text \<open>
  Entries of one source whose timestamps strictly increase keep their order: the sorted
  buffer restricted to them is the original sequence.
\<close>

lemma sort_keeps_source_order:
  assumes "sorted_wrt (\<lambda>x y. te_timestamp x < te_timestamp y) xs"
    and "set (filter P es) = set xs" and "distinct es"
  shows "filter P (std_sort es) = xs"
proof (rule strict_sorted_same_set_eq [where f = te_timestamp])
  let ?ys = "filter P (std_sort es)"
  have "distinct (std_sort es)" using assms(3) perm by (metis mset_eq_imp_distinct_iff)
  then have d: "distinct ?ys" by simp
  have s: "sorted_wrt (\<lambda>x y. te_timestamp x \<le> te_timestamp y) ?ys"
    using sorted by (simp add: sorted_wrt_filter)
  have set: "set ?ys = set xs" using assms(2) set_sort by simp
  have inj: "te_timestamp x \<noteq> te_timestamp y" if "x \<in> set ?ys" "y \<in> set ?ys" "x \<noteq> y" for x y
    using assms(1) that unfolding set
    by (metis (no_types, lifting) in_set_conv_nth less_irrefl linorder_neqE_nat sorted_wrt_nth_less)
  show "sorted_wrt (\<lambda>x y. te_timestamp x < te_timestamp y) ?ys"
    unfolding sorted_wrt_iff_nth_less
  proof (intro allI impI)
    fix i j assume ij: "i < j" "j < length ?ys"
    then have "?ys ! i \<noteq> ?ys ! j" using d by (simp add: nth_eq_iff_index_eq)
    moreover have "te_timestamp (?ys ! i) \<le> te_timestamp (?ys ! j)"
      by (rule sorted_wrt_nth_less [OF s ij])
    moreover have "?ys ! i \<in> set ?ys" "?ys ! j \<in> set ?ys"
      using ij nth_mem [of i ?ys] nth_mem [of j ?ys] by simp_all
    ultimately show "te_timestamp (?ys ! i) < te_timestamp (?ys ! j)"
      using inj by (simp only: order_less_le) blast
  qed
  show "set ?ys = set xs" by (rule set)
qed (rule assms(1))

end

text \<open>An insertion sort satisfies the contract.\<close>

interpretation isort: std_sort "sort_key te_timestamp"
proof
  fix es
  show "mset (sort_key te_timestamp es) = mset es" by simp
  have "sorted (map te_timestamp (sort_key te_timestamp es))" by simp
  then show "sorted_wrt (\<lambda>x y. te_timestamp x \<le> te_timestamp y) (sort_key te_timestamp es)"
    by (simp add: sorted_wrt_map)
qed

end
