(* ===== verification/Post.thy ===== *)
theory Post
  imports Ringbuf Area
begin

text \<open>
  Posting of records (\<^verbatim>\<open>include/hogl/post.hpp\<close>, \<^verbatim>\<open>src/post.cc\<close>), flushing a ring
  (\<^verbatim>\<open>src/flush.cc\<close>) and changing the timesource (\<^verbatim>\<open>src/timesource.cc\<close>). The
  value returned by the ring's timesource is an argument \<open>now\<close>. The lock of a shared
  ring makes a post one step of the model. The waiting loops poll a ring the engine
  changes meanwhile: \<open>env n\<close> is the engine's effect during the \<open>n\<close>-th sleep.
\<close>

section \<open>Definitions\<close>

type_synonym ring = "log_record ringbuf"

definition begin_unlocked :: "u64 \<Rightarrow> u32 \<Rightarrow> timestamp \<Rightarrow> ring \<Rightarrow> (u32 \<times> ring) option" where
  "begin_unlocked a s now rb = do {
     let i = push_begin rb;
     r \<leftarrow> read_slot rb i;
     let (seq, rb) = inc_seqnum rb;
     rb \<leftarrow> write_slot rb i (r\<lparr>r_seqnum := ucast seq, r_timestamp := now, r_area := a, r_section := ucast s\<rparr>);
     Some (i, rb)
   }"

definition finish_unlocked :: "ring \<Rightarrow> ring option" where
  "finish_unlocked rb = push_commit rb"

definition begin_locked :: "u64 \<Rightarrow> u32 \<Rightarrow> timestamp \<Rightarrow> ring \<Rightarrow> (u32 \<times> ring) option" where
  "begin_locked a s now rb = begin_unlocked a s now rb"

definition finish_locked :: "ring \<Rightarrow> ring option" where
  "finish_locked rb = finish_unlocked rb"

definition update_slot :: "u32 \<Rightarrow> (log_record \<Rightarrow> log_record option) \<Rightarrow> ring \<Rightarrow> ring option" where
  "update_slot i f rb = do { r \<leftarrow> read_slot rb i; r \<leftarrow> f r; write_slot rb i r }"

definition post_unlocked_ap :: "memory \<Rightarrow> u64 \<Rightarrow> u32 \<Rightarrow> argpack \<Rightarrow> timestamp \<Rightarrow> ring \<Rightarrow> ring option" where
  "post_unlocked_ap mem a s ap now rb = do {
     (i, rb) \<leftarrow> begin_unlocked a s now rb;
     rb \<leftarrow> update_slot i (set_args_packed mem (rb_rec_tailroom rb) ap) rb;
     finish_unlocked rb
   }"

definition post_locked_ap :: "memory \<Rightarrow> u64 \<Rightarrow> u32 \<Rightarrow> argpack \<Rightarrow> timestamp \<Rightarrow> ring \<Rightarrow> ring option" where
  "post_locked_ap mem a s ap now rb = do {
     (i, rb) \<leftarrow> begin_locked a s now rb;
     rb \<leftarrow> update_slot i (set_args_packed mem (rb_rec_tailroom rb) ap) rb;
     finish_locked rb
   }"

text \<open>\<open>junk\<close> is the uninitialised argument pack on the stack.\<close>

definition push_rec_unlocked :: "argpack \<Rightarrow> memory \<Rightarrow> u64 \<Rightarrow> u32 \<Rightarrow> arg list \<Rightarrow> timestamp \<Rightarrow> ring \<Rightarrow> ring option" where
  "push_rec_unlocked junk mem a sect as now rb =
     (let (ap, n) = ap_populate (ap_clear junk) as in
      if n = 0 then do {
        (i, rb) \<leftarrow> begin_unlocked a sect now rb;
        rb \<leftarrow> update_slot i (set_args mem (rb_rec_tailroom rb) as) rb;
        finish_unlocked rb
      } else post_unlocked_ap mem a sect ap now rb)"

definition push_rec :: "argpack \<Rightarrow> memory \<Rightarrow> u64 \<Rightarrow> u32 \<Rightarrow> arg list \<Rightarrow> timestamp \<Rightarrow> ring \<Rightarrow> ring option" where
  "push_rec junk mem a sect as now rb =
     (let (ap, n) = ap_populate (ap_clear junk) as in
      if n = 0 then do {
        (i, rb) \<leftarrow> begin_locked a sect now rb;
        rb \<leftarrow> update_slot i (set_args mem (rb_rec_tailroom rb) as) rb;
        finish_locked rb
      } else post_locked_ap mem a sect ap now rb)"

text \<open>The area is given with its address; testing a section outside its bitmap is \<open>None\<close>.\<close>

definition post :: "argpack \<Rightarrow> memory \<Rightarrow> u64 \<times> area \<Rightarrow> u32 \<Rightarrow> arg list \<Rightarrow> timestamp \<Rightarrow> ring \<Rightarrow> ring option" where
  "post junk mem a sect as now rb = do {
     en \<leftarrow> area_test (snd a) sect;
     if en then push_rec junk mem (fst a) sect as now rb else Some rb
   }"

definition post_unlocked :: "argpack \<Rightarrow> memory \<Rightarrow> u64 \<times> area \<Rightarrow> u32 \<Rightarrow> arg list \<Rightarrow> timestamp \<Rightarrow> ring \<Rightarrow> ring option" where
  "post_unlocked junk mem a sect as now rb = do {
     en \<leftarrow> area_test (snd a) sect;
     if en then push_rec_unlocked junk mem (fst a) sect as now rb else Some rb
   }"

text \<open>
  Waiting with a timeout. \<open>wait_until\<close> is the loop of \<^verbatim>\<open>do_flush\<close> around
  \<^verbatim>\<open>timeout\<close>: it returns whether the condition became true, with the number of sleeps
  and the time accounted so far.
\<close>

function wait_until :: "(ring \<Rightarrow> bool) \<Rightarrow> (nat \<Rightarrow> ring \<Rightarrow> ring) \<Rightarrow> u32 \<Rightarrow> nat \<Rightarrow> nat \<Rightarrow> ring \<Rightarrow> bool \<times> nat \<times> nat \<times> ring" where
  "wait_until P env usec n spent rb =
     (if P rb then (True, n, spent, rb)
      else if spent \<ge> unat usec then (False, n, spent, rb)
      else wait_until P env usec (Suc n) (spent + 1000) (env n rb))"
  by pat_completeness auto

termination by (relation "measure (\<lambda>(_, _, usec, _, spent, _). unat usec - spent)") auto

declare wait_until.simps [simp del]

definition SPR_FLUSH :: u32 where "SPR_FLUSH = 0"
definition SPR_TIMESOURCE_CHANGE :: u32 where "SPR_TIMESOURCE_CHANGE = 1"

definition push_special :: "u32 \<Rightarrow> u64 \<Rightarrow> u64 \<Rightarrow> timestamp \<Rightarrow> ring \<Rightarrow> (u32 \<times> ring) option" where
  "push_special t arg1 seq now rb = do {
     let i = push_begin rb;
     rb \<leftarrow> update_slot i (\<lambda>r. set_special t arg1 0 (r\<lparr>r_timestamp := now, r_seqnum := ucast seq\<rparr>)) rb;
     rb \<leftarrow> push_commit rb;
     Some (i, rb)
   }"

definition slot_acked :: "u32 \<Rightarrow> ring \<Rightarrow> bool" where
  "slot_acked i rb \<longleftrightarrow> Option.bind (read_slot rb i) r_acked = Some True"

definition do_flush :: "(nat \<Rightarrow> ring \<Rightarrow> ring) \<Rightarrow> u32 \<Rightarrow> timestamp \<Rightarrow> ring \<Rightarrow> (bool \<times> nat \<times> ring) option" where
  "do_flush env tmo now rb =
     (let (seq, rb) = inc_seqnum rb;
          (ok, n, spent, rb) = wait_until (\<lambda>rb. ring_room rb \<noteq> 0) env tmo 0 0 rb
      in if \<not> ok then Some (False, n, rb)
         else do {
           (i, rb) \<leftarrow> push_special SPR_FLUSH 0 seq now rb;
           let (ok, n, spent, rb) = wait_until (slot_acked i) env tmo n spent rb;
           Some (ok, n, rb)
         })"

definition do_change_timesource :: "(nat \<Rightarrow> ring \<Rightarrow> ring) \<Rightarrow> u64 \<Rightarrow> u32 \<Rightarrow> timestamp \<Rightarrow> ring \<Rightarrow> (bool \<times> nat \<times> ring) option" where
  "do_change_timesource env ts tmo now rb =
     (let (seq, rb) = inc_seqnum rb;
          (ok, n, spent, rb) = wait_until (\<lambda>rb. ring_room rb \<noteq> 0) env tmo 0 0 rb
      in if \<not> ok then Some (False, n, rb)
         else do {
           (i, rb) \<leftarrow> push_special SPR_TIMESOURCE_CHANGE ts seq now rb;
           if tmo = 0 then Some (True, n, rb)
           else do {
             let (ok, n, spent, rb) = wait_until (slot_acked i) env tmo n spent rb;
             Some (ok, n, rb)
           }
         })"

text \<open>The public entry points hold the lock of the ring meanwhile; a null timesource means the default one.\<close>

definition flush_ring :: "(nat \<Rightarrow> ring \<Rightarrow> ring) \<Rightarrow> u32 \<Rightarrow> timestamp \<Rightarrow> ring \<Rightarrow> (bool \<times> nat \<times> ring) option" where
  "flush_ring env tmo now rb = do_flush env tmo now rb"

definition change_timesource :: "(nat \<Rightarrow> ring \<Rightarrow> ring) \<Rightarrow> u64 \<Rightarrow> u64 \<Rightarrow> u32 \<Rightarrow> timestamp \<Rightarrow> ring \<Rightarrow> (bool \<times> nat \<times> ring) option" where
  "change_timesource env dflt ts tmo now rb = do_change_timesource env (if ts = 0 then dflt else ts) tmo now rb"

section \<open>Posting\<close>

text \<open>
  What posting relies on: the ring invariant, and storage of \<^verbatim>\<open>record_tailroom()\<close> bytes,
  at least 128, in every record. Theorem \<open>ring_new_sound\<close> establishes it.
\<close>

definition ring_ok :: "ring \<Rightarrow> bool" where
  "ring_ok rb \<longleftrightarrow> ring_wf rb \<and> 128 \<le> unat (rb_rec_tailroom rb)
     \<and> (\<forall>r \<in> set (rb_slots rb). length (r_argval r) = unat (rb_rec_tailroom rb))"

lemma ring_ok_wf: "ring_ok rb \<Longrightarrow> ring_wf rb"
  by (simp add: ring_ok_def)

lemma tail_slot:
  assumes "ring_wf rb"
  shows "unat (rb_tail rb) < nslots rb"
  using assms by (auto elim: ring_wfE)

text \<open>The record a post stores, as far as its header and arguments are concerned.\<close>

definition posted :: "memory \<Rightarrow> u64 \<Rightarrow> u32 \<Rightarrow> arg list \<Rightarrow> timestamp \<Rightarrow> ring \<Rightarrow> log_record \<Rightarrow> bool" where
  "posted mem a sect as now rb r \<longleftrightarrow>
     r_area r = a \<and> r_section r = ucast sect \<and> r_timestamp r = now \<and> r_seqnum r = ucast (rb_seqnum rb)
     \<and> (\<forall>i < length as. get_arg_type r i = a_type (as ! i)
          \<and> fetch_val (get_arg_type r i) i (r_argval r)
            = Some (expected mem (room_at mem (unat (rb_rec_tailroom rb) - 8 * length as) as i) (as ! i)))"

abbreviation with_defaults :: "arg list \<Rightarrow> arg list" where
  "with_defaults as \<equiv> as @ replicate (16 - length as) arg_none"

lemma ap_clear_wf: "ap_wf (ap_clear ap) = ap_wf ap"
  by (simp add: ap_wf_def ap_clear_def)

lemma locked_eq: "finish_locked = finish_unlocked" "begin_locked = begin_unlocked"
  by ((intro ext, simp add: finish_locked_def begin_locked_def)+)

text \<open>Both branches of \<^verbatim>\<open>push\<close> fill the tail slot and commit.\<close>

lemma push_rec_slot:
  assumes "ring_ok rb" and "valid_args as" and "ap_wf junk"
  shows "\<exists>r. posted mem a sect as now rb r \<and> length (r_argval r) = unat (rb_rec_tailroom rb)
    \<and> push_rec junk mem a sect (with_defaults as) now rb
        = push_commit (rb\<lparr>rb_seqnum := rb_seqnum rb + 1, rb_slots := (rb_slots rb)[unat (rb_tail rb) := r]\<rparr>)"
proof -
  let ?t = "unat (rb_tail rb)" and ?room = "rb_rec_tailroom rb"
  let ?h = "(rb_slots rb ! ?t)\<lparr>r_seqnum := ucast (rb_seqnum rb), r_timestamp := now, r_area := a, r_section := ucast sect\<rparr>"
  have t: "?t < nslots rb" by (rule tail_slot [OF ring_ok_wf [OF assms(1)]])
  then have len: "length (r_argval ?h) = unat ?room" "128 \<le> unat ?room"
    using assms(1) by (simp_all add: ring_ok_def)
  have bg: "begin_unlocked a sect now rb = Some (rb_tail rb,
      rb\<lparr>rb_seqnum := rb_seqnum rb + 1, rb_slots := (rb_slots rb)[?t := ?h]\<rparr>)"
    using t by (simp add: begin_unlocked_def push_begin_def read_slot_def inc_seqnum_def write_slot_def Let_def)
  have fill: "(do { (i, rb) \<leftarrow> begin_unlocked a sect now rb; rb \<leftarrow> update_slot i (f (rb_rec_tailroom rb)) rb; finish_unlocked rb })
      = push_commit (rb\<lparr>rb_seqnum := rb_seqnum rb + 1, rb_slots := (rb_slots rb)[?t := r]\<rparr>)"
    if "f ?room ?h = Some r" for f r
    using t that by (simp add: bg update_slot_def read_slot_def write_slot_def finish_unlocked_def)
  have post: "posted mem a sect as now rb r \<and> length (r_argval r) = unat ?room"
    if "args_stored mem ?room as ?h r" for r
    using that len unfolding args_stored_def posted_def by simp metis
  obtain r1 where r1: "set_args mem ?room (with_defaults as) ?h = Some r1" "args_stored mem ?room as ?h r1"
    using set_args_stored [OF assms(2) len(2), of ?h mem] len(1) by auto
  obtain r2 where r2: "set_args_packed mem ?room (fst (ap_populate (ap_clear junk) (with_defaults as))) ?h = Some r2"
    "args_stored mem ?room as ?h r2"
    using set_args_packed_stored [OF assms(2) len(2), of ?h "ap_clear junk" mem] len(1) assms(3)
    by (auto simp: ap_clear_wf)
  obtain ap n where p: "ap_populate (ap_clear junk) (with_defaults as) = (ap, n)" by (cases "ap_populate (ap_clear junk) (with_defaults as)")
  show ?thesis
  proof (cases "n = 0")
    case True
    then show ?thesis
      using p fill [of "\<lambda>t. set_args mem t (with_defaults as)", OF r1(1)] post [OF r1(2)]
      by (auto simp: push_rec_def locked_eq)
  next
    case False
    then show ?thesis
      using p fill [of "\<lambda>t. set_args_packed mem t ap" r2] r2(1) post [OF r2(2)]
      by (auto simp: push_rec_def post_locked_ap_def locked_eq)
  qed
qed

lemma ring_ok_set_slot:
  assumes "ring_ok rb" and "length (r_argval r) = unat (rb_rec_tailroom rb)"
  shows "ring_ok (rb\<lparr>rb_seqnum := q, rb_slots := (rb_slots rb)[i := r]\<rparr>)"
  using assms set_update_subset_insert [of "rb_slots rb" i r]
  by (auto simp: ring_ok_def ring_wf_def)

lemma push_rec_spec:
  assumes "ring_ok rb" and "valid_args as" and "ap_wf junk" and "\<not> ring_blocking rb"
  shows "\<exists>rb' r. push_rec junk mem a sect (with_defaults as) now rb = Some rb' \<and> ring_ok rb'
    \<and> posted mem a sect as now rb r \<and> rb_seqnum rb' = rb_seqnum rb + 1
    \<and> (if unat (ring_room rb) = 0 then contents rb' = contents rb \<and> rb_dropcnt rb' = rb_dropcnt rb + 1
       else contents rb' = contents rb @ [r] \<and> rb_dropcnt rb' = rb_dropcnt rb)"
proof -
  obtain r where r: "posted mem a sect as now rb r" "length (r_argval r) = unat (rb_rec_tailroom rb)"
    "push_rec junk mem a sect (with_defaults as) now rb
      = push_commit (rb\<lparr>rb_seqnum := rb_seqnum rb + 1, rb_slots := (rb_slots rb)[unat (rb_tail rb) := r]\<rparr>)"
    using push_rec_slot [OF assms(1-3)] by blast
  let ?rb = "rb\<lparr>rb_seqnum := rb_seqnum rb + 1, rb_slots := (rb_slots rb)[unat (rb_tail rb) := r]\<rparr>"
  have ok: "ring_ok ?rb" by (rule ring_ok_set_slot [OF assms(1) r(2)])
  have same: "contents ?rb = contents rb" "ring_room ?rb = ring_room rb"
    using write_slot_tail [OF ring_ok_wf [OF assms(1)], of r] tail_slot [OF ring_ok_wf [OF assms(1)]]
    by (auto simp: contents_def ring_room_def write_slot_def)
  have tl: "rb_slots ?rb ! unat (rb_tail rb) = r" using tail_slot [OF ring_ok_wf [OF assms(1)]] by simp
  show ?thesis
  proof (cases "unat (ring_room rb) = 0")
    case True
    then have "push_commit ?rb = Some (inc_dropcnt ?rb)"
      using push_commit_spec(2) [OF ring_ok_wf [OF ok]] same assms(4) by (simp add: ring_blocking_def)
    moreover have "contents (inc_dropcnt ?rb) = contents ?rb" "ring_ok (inc_dropcnt ?rb)"
      using ok by (auto simp: inc_dropcnt_def contents_def ring_ok_def ring_wf_def)
    ultimately show ?thesis
      using True r same by (auto simp: inc_dropcnt_def)
  next
    case False
    then obtain rb' where rb': "push_commit ?rb = Some rb'" "ring_wf rb'" "contents rb' = contents rb @ [r]"
      "rb_dropcnt rb' = rb_dropcnt rb" "rb' = ?rb\<lparr>rb_tail := (rb_tail rb + 1) AND rb_capacity rb\<rparr>"
      using push_commit_spec(1) [OF ring_ok_wf [OF ok]] same tl by auto
    moreover have "ring_ok rb'" using ok rb'(2) unfolding rb'(5) by (simp add: ring_ok_def)
    moreover have "rb_seqnum rb' = rb_seqnum rb + 1" unfolding rb'(5) by simp
    ultimately show ?thesis using False r by auto
  qed
qed

lemma post_spec:
  assumes "ring_ok rb" and "\<not> ring_blocking rb" and "valid_args as" and "ap_wf junk"
    and "area_wf ar" and "sect < area_size ar"
  shows "\<exists>rb' en. post junk mem (a, ar) sect (with_defaults as) now rb = Some rb' \<and> ring_ok rb'
    \<and> area_test ar sect = Some en
    \<and> (\<not> en \<longrightarrow> rb' = rb)
    \<and> (en \<longrightarrow> rb_seqnum rb' = rb_seqnum rb + 1)
    \<and> (en \<and> unat (ring_room rb) = 0 \<longrightarrow> contents rb' = contents rb \<and> rb_dropcnt rb' = rb_dropcnt rb + 1)
    \<and> (en \<and> 0 < unat (ring_room rb) \<longrightarrow> rb_dropcnt rb' = rb_dropcnt rb
         \<and> (\<exists>r. contents rb' = contents rb @ [r] \<and> posted mem a sect as now rb r))"
proof -
  obtain en where en: "area_test ar sect = Some en" using ar.test_defined [OF assms(5,6)] by blast
  show ?thesis
  proof (cases en)
    case True
    obtain rb' r where r: "push_rec junk mem a sect (with_defaults as) now rb = Some rb'" "ring_ok rb'"
      "posted mem a sect as now rb r" "rb_seqnum rb' = rb_seqnum rb + 1"
      "if unat (ring_room rb) = 0 then contents rb' = contents rb \<and> rb_dropcnt rb' = rb_dropcnt rb + 1
       else contents rb' = contents rb @ [r] \<and> rb_dropcnt rb' = rb_dropcnt rb"
      using push_rec_spec [OF assms(1,3,4,2), of mem a sect now] by metis
    have "post junk mem (a, ar) sect (with_defaults as) now rb = Some rb'"
      using en True r(1) by (simp add: post_def)
    moreover have "unat (ring_room rb) = 0 \<Longrightarrow> contents rb' = contents rb \<and> rb_dropcnt rb' = rb_dropcnt rb + 1"
      "0 < unat (ring_room rb) \<Longrightarrow> contents rb' = contents rb @ [r] \<and> rb_dropcnt rb' = rb_dropcnt rb"
      using r(5) by simp_all
    ultimately show ?thesis
      using en True r(2-4) by (intro exI [of _ rb'] exI [of _ en]) blast
  next
    case False
    with en assms(1) show ?thesis by (intro exI [of _ rb] exI [of _ False]) (simp add: post_def)
  qed
qed

text \<open>
  C15: posting to a non-blocking ring. A disabled section leaves the ring untouched. An enabled
  one takes the next sequence number and, when the ring has room, appends exactly one
  record that carries the area, the section, the timestamp, that sequence number and
  every argument; on a full ring the contents stay and the drop count grows by one. The
  ring invariant holds afterwards.
\<close>

theorem post_appends_or_counts:
  assumes "ring_ok rb" and "\<not> ring_blocking rb" and "valid_args as" and "ap_wf junk"
    and "area_wf ar" and "sect < area_size ar"
  shows "\<exists>rb' en. post junk mem (a, ar) sect (with_defaults as) now rb = Some rb' \<and> ring_ok rb'
    \<and> area_test ar sect = Some en
    \<and> (\<not> en \<longrightarrow> rb' = rb)
    \<and> (en \<longrightarrow> rb_seqnum rb' = rb_seqnum rb + 1)
    \<and> (en \<and> unat (ring_room rb) = 0 \<longrightarrow> contents rb' = contents rb \<and> rb_dropcnt rb' = rb_dropcnt rb + 1)
    \<and> (en \<and> 0 < unat (ring_room rb) \<longrightarrow> rb_dropcnt rb' = rb_dropcnt rb
         \<and> (\<exists>r. contents rb' = contents rb @ [r] \<and> posted mem a sect as now rb r))"
  using assms by (rule post_spec)

theorem post_appends_or_counts_witness:
  "\<exists>rb' r. post \<lparr>ap_argtype = 0, ap_argval = replicate 16 0, ap_arglen = replicate 16 0\<rparr> (\<lambda>_. 65)
      (0x5000, \<lparr>ar_name = ''NET'', ar_section = [''RX''], ar_bitmap = \<lparr>bm_data = [1], bm_size = 1\<rparr>\<rparr>) 0
      (with_defaults [arg_u32 7]) 99
      \<lparr>rb_name = ''r'', rb_flags = 0, rb_prio = 0, rb_rec_top = 0, rb_rec_shift = 8, rb_rec_tailroom = 224,
        rb_capacity = 1, rb_refcnt = 1, rb_block_active = False, rb_timesource = 0, rb_tail = 0, rb_seqnum = 41,
        rb_dropcnt = 0, rb_head = 1, rb_slots = replicate 2 (zero_record 224)\<rparr> = Some rb'
    \<and> contents rb' = [r] \<and> r_seqnum r = 41 \<and> r_timestamp r = 99 \<and> rb_seqnum rb' = 42"
proof -
  let ?ap = "\<lparr>ap_argtype = 0, ap_argval = replicate 16 0, ap_arglen = replicate 16 0\<rparr>"
  let ?ar = "\<lparr>ar_name = ''NET'', ar_section = [''RX''], ar_bitmap = \<lparr>bm_data = [1], bm_size = 1\<rparr>\<rparr>"
  let ?rb = "\<lparr>rb_name = ''r'', rb_flags = 0, rb_prio = 0, rb_rec_top = 0, rb_rec_shift = 8, rb_rec_tailroom = 224,
        rb_capacity = 1, rb_refcnt = 1, rb_block_active = False, rb_timesource = 0, rb_tail = 0, rb_seqnum = 41,
        rb_dropcnt = 0, rb_head = 1, rb_slots = replicate 2 (zero_record 224)\<rparr> :: ring"
  have "ring_ok ?rb" "\<not> ring_blocking ?rb"
    by (auto simp: ring_ok_def ring_wf_def ring_blocking_def zero_record_def mask_eq_exp_minus_1 intro!: exI [of _ 1])
  moreover have "valid_args [arg_u32 7]" "ap_wf ?ap" by (simp_all add: valid_args_def arg_u32_def ap_wf_def)
  moreover have "area_wf ?ar" "0 < area_size ?ar" "area_test ?ar 0 = Some True"
    by (simp_all add: area_wf_def area_size_def bm_wf_def bm_nwords_def area_test_def bm_test_def bm_which_word_def bm_which_bit_def)
  moreover have "0 < unat (ring_room ?rb)" "contents ?rb = []"
    by (simp_all add: ring_room_def contents_def span_def)
  ultimately show ?thesis
    using post_appends_or_counts [where rb = ?rb and as = "[arg_u32 7]" and junk = ?ap and ar = ?ar and sect = 0
        and mem = "\<lambda>_. 65" and a = "0x5000" and now = 99]
    by (auto simp: posted_def)
qed

section \<open>Flushing\<close>

lemma wait_until_bound:
  "wait_until P env usec n spent rb = (ok, n', spent', rb') \<Longrightarrow>
    n \<le> n' \<and> spent' = spent + 1000 * (n' - n) \<and> (spent' < unat usec + 1000 \<or> n' = n) \<and> (ok \<longrightarrow> P rb')
    \<and> (\<not> ok \<longrightarrow> unat usec \<le> spent')"
proof (induction P env usec n spent rb rule: wait_until.induct)
  case (1 P env usec n spent rb)
  show ?case
  proof (cases "P rb \<or> spent \<ge> unat usec")
    case True
    with "1.prems" show ?thesis by (subst (asm) wait_until.simps) (auto split: if_splits)
  next
    case False
    then have w: "wait_until P env usec (Suc n) (spent + 1000) (env n rb) = (ok, n', spent', rb')"
      using "1.prems" by (subst (asm) wait_until.simps) auto
    with "1.IH" False show ?thesis by fastforce
  qed
qed

lemma wait_until_ok:
  assumes "\<And>n rb. ring_ok rb \<Longrightarrow> ring_ok (env n rb)" and "ring_ok rb"
    and "wait_until P env usec n spent rb = (ok, n', spent', rb')"
  shows "ring_ok rb'"
  using assms
proof (induction P env usec n spent rb rule: wait_until.induct)
  case (1 P env usec n spent rb)
  then show ?case
    using wait_until.simps [of P env usec n spent rb] by (metis prod.inject)
qed

lemma set_special_defined:
  assumes "24 \<le> length (r_argval r)"
  shows "\<exists>r'. set_special t x y r = Some r' \<and> length (r_argval r') = length (r_argval r) \<and> is_special r'"
proof -
  obtain b1 where b1: "set_arg_val64 (r_argval r) 0 0 = Some b1" "length b1 = length (r_argval r)"
    using assms by (auto simp: set_arg_val64_def poke_def)
  obtain b2 where b2: "set_arg_val64 b1 1 x = Some b2" "length b2 = length b1"
    using assms b1 by (auto simp: set_arg_val64_def poke_def)
  obtain b3 where b3: "set_arg_val64 b2 2 y = Some b3" "length b3 = length b2"
    using assms b1 b2 by (auto simp: set_arg_val64_def poke_def)
  show ?thesis using b1 b2 b3 by (simp add: set_special_def is_special_def)
qed

lemma push_special_defined:
  assumes "ring_ok rb" and "ring_room rb \<noteq> 0"
  shows "\<exists>i rb'. push_special t x seq now rb = Some (i, rb') \<and> ring_ok rb'"
proof -
  let ?t = "unat (rb_tail rb)"
  have t: "?t < nslots rb" by (rule tail_slot [OF ring_ok_wf [OF assms(1)]])
  have l: "length (r_argval (rb_slots rb ! ?t)) = unat (rb_rec_tailroom rb)" "128 \<le> unat (rb_rec_tailroom rb)"
    using assms(1) t by (simp_all add: ring_ok_def)
  obtain r where r: "set_special t x 0 ((rb_slots rb ! ?t)\<lparr>r_timestamp := now, r_seqnum := ucast seq\<rparr>) = Some r"
    "length (r_argval r) = unat (rb_rec_tailroom rb)"
    using set_special_defined [of "(rb_slots rb ! ?t)\<lparr>r_timestamp := now, r_seqnum := ucast seq\<rparr>" t x 0] l by auto
  let ?rb = "rb\<lparr>rb_slots := (rb_slots rb)[?t := r]\<rparr>"
  have ok: "ring_ok ?rb" using ring_ok_set_slot [OF assms(1) r(2), where q = "rb_seqnum rb" and i = ?t] by simp
  have "unat (ring_room ?rb) > 0" using assms(2) by (simp add: ring_room_def unat_gt_0)
  from push_commit_spec(1) [OF ring_ok_wf [OF ok] this] obtain rb' where rb': "push_commit ?rb = Some rb'" "ring_wf rb'"
    "rb' = ?rb\<lparr>rb_tail := (rb_tail rb + 1) AND rb_capacity rb\<rparr>" by auto
  have "ring_ok rb'" using ok rb'(2) unfolding rb'(3) by (simp add: ring_ok_def)
  then show ?thesis
    using t r(1) rb'(1) by (simp add: push_special_def push_begin_def update_slot_def read_slot_def write_slot_def)
qed

text \<open>
  C27: \<^verbatim>\<open>flush\<close> always returns, whatever the engine does to the ring meanwhile: its waiting
  loops together sleep at most $\lceil \mathit{usec} / 1000 \rceil$ times, it never accesses memory
  outside its record, and it reports success only when it saw the acknowledgement of the
  record it pushed.
\<close>

theorem flush_returns_within_timeout:
  assumes "ring_ok rb" and "\<And>n rb. ring_ok rb \<Longrightarrow> ring_ok (env n rb)"
  shows "\<exists>ok n rb'. do_flush env usec now rb = Some (ok, n, rb') \<and> 1000 * n < unat usec + 1000
    \<and> (ok \<longrightarrow> (\<exists>i. slot_acked i rb'))"
proof -
  let ?rb = "rb\<lparr>rb_seqnum := rb_seqnum rb + 1\<rparr>"
  have ok0: "ring_ok ?rb" using assms(1) by (simp add: ring_ok_def ring_wf_def)
  obtain ok1 n1 s1 rb1 where w1: "wait_until (\<lambda>rb. ring_room rb \<noteq> 0) env usec 0 0 ?rb = (ok1, n1, s1, rb1)"
    by (metis prod_cases4)
  note b1 = wait_until_bound [OF w1] and okr1 = wait_until_ok [OF assms(2) ok0 w1]
  show ?thesis
  proof (cases ok1)
    case False
    then have "do_flush env usec now rb = Some (False, n1, rb1)"
      using w1 by (simp add: do_flush_def inc_seqnum_def)
    moreover have "1000 * n1 < unat usec + 1000" using b1 by auto
    ultimately show ?thesis by blast
  next
    case True
    obtain i rb2 where p: "push_special SPR_FLUSH 0 (rb_seqnum rb) now rb1 = Some (i, rb2)"
      using push_special_defined [OF okr1, of SPR_FLUSH 0 "rb_seqnum rb" now] True b1 by metis
    obtain ok2 n2 s2 rb3 where w2: "wait_until (slot_acked i) env usec n1 s1 rb2 = (ok2, n2, s2, rb3)"
      by (metis prod_cases4)
    have "do_flush env usec now rb = Some (ok2, n2, rb3)"
      using True w1 p w2 by (simp add: do_flush_def inc_seqnum_def)
    moreover have "1000 * n2 < unat usec + 1000"
      using b1 wait_until_bound [OF w2] by auto
    ultimately show ?thesis using wait_until_bound [OF w2] by blast
  qed
qed

theorem flush_returns_within_timeout_witness:
  "\<exists>ok n rb'. do_flush (\<lambda>_ rb. rb) 2500 7
      \<lparr>rb_name = ''r'', rb_flags = 0, rb_prio = 0, rb_rec_top = 0, rb_rec_shift = 8, rb_rec_tailroom = 224,
        rb_capacity = 1, rb_refcnt = 1, rb_block_active = False, rb_timesource = 0, rb_tail = 0, rb_seqnum = 41,
        rb_dropcnt = 0, rb_head = 1, rb_slots = replicate 2 (zero_record 224)\<rparr> = Some (ok, n, rb')
    \<and> 1000 * n < 3500"
proof -
  let ?rb = "\<lparr>rb_name = ''r'', rb_flags = 0, rb_prio = 0, rb_rec_top = 0, rb_rec_shift = 8, rb_rec_tailroom = 224,
        rb_capacity = 1, rb_refcnt = 1, rb_block_active = False, rb_timesource = 0, rb_tail = 0, rb_seqnum = 41,
        rb_dropcnt = 0, rb_head = 1, rb_slots = replicate 2 (zero_record 224)\<rparr> :: ring"
  have "ring_ok ?rb"
    by (auto simp: ring_ok_def ring_wf_def zero_record_def mask_eq_exp_minus_1 intro!: exI [of _ 1])
  from flush_returns_within_timeout [OF this, of "\<lambda>_ rb. rb" 2500 7] show ?thesis by auto
qed

end
