(* ===== verification/Engine.thy ===== *)
theory Engine
  imports Tsobuf Post Mask
begin

text \<open>
  The logging engine (\<^verbatim>\<open>src/engine.cc\<close>, \<^verbatim>\<open>include/hogl/detail/engine.hpp\<close>): its
  registries of areas and rings, the ring index, one poll with and without timestamp
  ordering, special records, drop detection and the removal of orphaned rings.

  Ring objects live in a heap from identities (their addresses) to rings; the maps of the
  engine are association lists sorted by name, as \<^verbatim>\<open>std::map\<close> iterates them. Calls of
  the output become a list of events: \<open>OutRec\<close> and \<open>OutInject\<close> are \<^verbatim>\<open>process\<close>
  on a record of a ring and on a record made up by the engine, \<open>OutFlush\<close> is
  \<^verbatim>\<open>flush\<close>. \<open>None\<close> stands for undefined behaviour: a null ring, an access outside a
  buffer. Whether \<^verbatim>\<open>pthread_mutex_trylock\<close> succeeds, how \<^verbatim>\<open>std::sort\<close> orders equal
  keys and the names of timesources are arguments. A poll is one step: what writers do
  meanwhile is covered by theory \<open>Ring_Conc\<close>, because the iterators read head and tail of
  a ring once.
\<close>

section \<open>State\<close>

datatype inject_arg = InjU64 u64 | InjStr string

datatype out_event =
    OutRec string log_record
  | OutInject string timestamp u64 u32 string "inject_arg list"
  | OutFlush

record engine_stats =
  st_tso_full :: u64
  st_recs_out :: u64
  st_recs_dropped :: u64
  st_loops :: u64
  st_rings_indexed :: u64
  st_areas_added :: u64
  st_mask_changed :: u64
  st_timesource_changed :: u64

record index_entry =
  ie_ring :: "nat option"
  ie_pit :: pop_iterator
  ie_lastrec :: "u32 option"
  ie_seqnum :: u64

record 're engine_options =
  eo_default_mask :: "'re mask"
  eo_polling_interval_usec :: u32
  eo_tso_buffer_capacity :: u32
  eo_features :: u32
  eo_timesource :: u64

record 're engine =
  e_area_map :: "(string \<times> area) list"
  e_mask :: "'re mask"
  e_ring_map :: "(string \<times> nat) list"
  e_rings :: "nat \<Rightarrow> ring option"
  e_entries :: "index_entry list"
  e_dirty :: bool
  e_tso :: tsobuf
  e_tso_leftover :: u32
  e_stats :: engine_stats
  e_out :: "out_event list"
  e_opts :: "'re engine_options"
  e_timesource :: u64

definition DISABLE_TSO :: u32 where
  "DISABLE_TSO = push_bit 0 1"

section \<open>Sorted maps\<close>

fun str_less :: "string \<Rightarrow> string \<Rightarrow> bool" where
  "str_less s [] = False"
| "str_less [] (c # t) = True"
| "str_less (a # s) (c # t) =
     (if (of_char a :: nat) < of_char c then True else if a = c then str_less s t else False)"

fun smap_insert :: "string \<Rightarrow> 'v \<Rightarrow> (string \<times> 'v) list \<Rightarrow> (string \<times> 'v) list" where
  "smap_insert k v [] = [(k, v)]"
| "smap_insert k v ((k', v') # m) =
     (if k = k' then (k', v') # m
      else if str_less k k' then (k, v) # (k', v') # m
      else (k', v') # smap_insert k v m)"

definition smap_erase :: "string \<Rightarrow> (string \<times> 'v) list \<Rightarrow> (string \<times> 'v) list" where
  "smap_erase k m = filter (\<lambda>(k', _). k' \<noteq> k) m"

fun smap_update :: "string \<Rightarrow> 'v \<Rightarrow> (string \<times> 'v) list \<Rightarrow> (string \<times> 'v) list" where
  "smap_update k v [] = []"
| "smap_update k v ((k', v') # m) = (if k = k' then (k', v) # m else (k', v') # smap_update k v m)"

section \<open>Helpers\<close>

definition internal_area :: "'re engine \<Rightarrow> area option" where
  "internal_area e = map_of (e_area_map e) ''HOGL''"

definition isect :: "internal_section_ids \<Rightarrow> u32" where
  "isect s = word_of_nat (internal_id s)"

definition emit :: "out_event \<Rightarrow> 're engine \<Rightarrow> 're engine" where
  "emit ev e = e\<lparr>e_out := e_out e @ [ev]\<rparr>"

definition inject_record :: "string \<Rightarrow> timestamp \<Rightarrow> u64 \<Rightarrow> internal_section_ids \<Rightarrow> string \<Rightarrow> inject_arg list \<Rightarrow> 're engine \<Rightarrow> 're engine" where
  "inject_record ring_name ts seqnum sect fmt args e = emit (OutInject ring_name ts seqnum (isect sect) fmt args) e"

definition ring_of_entry :: "'re engine \<Rightarrow> nat \<Rightarrow> (nat \<times> ring) option" where
  "ring_of_entry e i =
     (if i < length (e_entries e)
      then do { rid \<leftarrow> ie_ring (e_entries e ! i); rb \<leftarrow> e_rings e rid; Some (rid, rb) } else None)"

definition put_ring :: "nat \<Rightarrow> ring \<Rightarrow> 're engine \<Rightarrow> 're engine" where
  "put_ring rid rb e = e\<lparr>e_rings := (e_rings e)(rid := Some rb)\<rparr>"

definition put_entry :: "nat \<Rightarrow> (index_entry \<Rightarrow> index_entry) \<Rightarrow> 're engine \<Rightarrow> 're engine" where
  "put_entry i f e = e\<lparr>e_entries := (e_entries e)[i := f (e_entries e ! i)]\<rparr>"

definition bump :: "(engine_stats \<Rightarrow> engine_stats) \<Rightarrow> 're engine \<Rightarrow> 're engine" where
  "bump f e = e\<lparr>e_stats := f (e_stats e)\<rparr>"

section \<open>Flushing records to the output\<close>

fun retime :: "u64 \<Rightarrow> (string \<times> nat) list \<Rightarrow> (nat \<Rightarrow> ring option) \<Rightarrow> (nat \<Rightarrow> ring option)" where
  "retime ts [] h = h"
| "retime ts ((_, rid) # m) h = retime ts m (h(rid := map_option (set_timesource ts) (h rid)))"

definition switch_timesource :: "(u64 \<Rightarrow> string) \<Rightarrow> string \<Rightarrow> log_record \<Rightarrow> 're engine \<Rightarrow> 're engine option" where
  "switch_timesource ts_name ring_name r e = do {
     ts \<leftarrow> get_arg_val64 (r_argval r) 1;
     let e = bump (\<lambda>s. s\<lparr>st_timesource_changed := st_timesource_changed s + 1\<rparr>) e;
     let e = inject_record ring_name (r_timestamp r) (ucast (r_seqnum r)) I_INFO
               ''switching timesource from %s to %s'' [InjStr (ts_name (e_timesource e)), InjStr (ts_name ts)] e;
     let e = e\<lparr>e_timesource := ts\<rparr>;
     Some (e\<lparr>e_rings := retime ts (e_ring_map e) (e_rings e)\<rparr>)
   }"

definition flush_record :: "(u64 \<Rightarrow> string) \<Rightarrow> nat \<Rightarrow> u32 \<Rightarrow> 're engine \<Rightarrow> 're engine option" where
  "flush_record ts_name i slot e = do {
     (rid, rb) \<leftarrow> ring_of_entry e i;
     r \<leftarrow> read_slot rb slot;
     e \<leftarrow> (if is_special r then do {
              e \<leftarrow> (if r_argtype r = ucast SPR_TIMESOURCE_CHANGE
                    then switch_timesource ts_name (rb_name rb) r e else Some e);
              (rid, rb) \<leftarrow> ring_of_entry e i;
              rb \<leftarrow> update_slot slot r_ack rb;
              Some (put_ring rid rb e)
            } else Some (emit (OutRec (rb_name rb) r) e));
     Some (bump (\<lambda>s. s\<lparr>st_recs_out := st_recs_out s + 1\<rparr>) e)
   }"

text \<open>The body of the loop of \<^verbatim>\<open>do_flush_tso\<close>.\<close>

definition flush_entry :: "(u64 \<Rightarrow> string) \<Rightarrow> tso_entry \<Rightarrow> 're engine \<Rightarrow> 're engine option" where
  "flush_entry ts_name te e = do {
     let i = unat (te_tag te);
     (rid, rb) \<leftarrow> ring_of_entry e i;
     r \<leftarrow> read_slot rb (te_rec te);
     let seq = ucast (r_seqnum r);
     e \<leftarrow> (if seq \<noteq> ie_seqnum (e_entries e ! i) then do {
              let n = seq - ie_seqnum (e_entries e ! i);
              ia \<leftarrow> internal_area e;
              dm \<leftarrow> area_test ia (isect DROPMARK);
              let e = (if dm then inject_record (rb_name rb) (ts_minus_int (r_timestamp r) 1) 0 DROPMARK
                                    ''dropped %llu record(s)'' [InjU64 n, InjU64 0] e else e);
              Some (bump (\<lambda>s. s\<lparr>st_recs_dropped := st_recs_dropped s + n\<rparr>) e)
            } else Some e);
     let e = put_entry i (\<lambda>x. x\<lparr>ie_lastrec := Some (te_rec te), ie_seqnum := seq + 1\<rparr>) e;
     flush_record ts_name i (te_rec te) e
   }"

fun flush_entries :: "(u64 \<Rightarrow> string) \<Rightarrow> nat \<Rightarrow> 're engine \<Rightarrow> 're engine option" where
  "flush_entries ts_name 0 e = Some e"
| "flush_entries ts_name (Suc n) e =
     (case tso_pop (e_tso e) of
        None \<Rightarrow> Some e
      | Some (te, b) \<Rightarrow> do { e \<leftarrow> flush_entry ts_name te (e\<lparr>e_tso := b\<rparr>); flush_entries ts_name n e })"

definition do_flush_tso :: "sorter \<Rightarrow> (u64 \<Rightarrow> string) \<Rightarrow> u32 \<Rightarrow> 're engine \<Rightarrow> 're engine option" where
  "do_flush_tso srt ts_name n e =
     flush_entries ts_name (unat n) (e\<lparr>e_tso := tso_sort srt (e_tso e)\<rparr>)"

definition flush_full_tso :: "sorter \<Rightarrow> (u64 \<Rightarrow> string) \<Rightarrow> 're engine \<Rightarrow> 're engine option" where
  "flush_full_tso srt ts_name e = do {
     let n = tso_size (e_tso e) div 2;
     ia \<leftarrow> internal_area e;
     fm \<leftarrow> area_test ia (isect TSOFULLMARK);
     e \<leftarrow> (if fm then do {
              te \<leftarrow> tso_top (e_tso e);
              (rid, rb) \<leftarrow> ring_of_entry e (unat (te_tag te));
              r \<leftarrow> read_slot rb (te_rec te);
              Some (inject_record ''ENGINE'' (ts_minus_int (r_timestamp r) 1) 0 TSOFULLMARK
                      ''following records may be out of order'' [InjU64 0, InjU64 0] e)
            } else Some e);
     e \<leftarrow> do_flush_tso srt ts_name n e;
     let e = e\<lparr>e_tso_leftover := 0, e_tso := tso_flip (e_tso e)\<rparr>;
     Some (bump (\<lambda>s. s\<lparr>st_tso_full := st_tso_full s + 1\<rparr>) e)
   }"

definition flush_tso :: "sorter \<Rightarrow> (u64 \<Rightarrow> string) \<Rightarrow> 're engine \<Rightarrow> 're engine option" where
  "flush_tso srt ts_name e = do {
     let size = tso_size (e_tso e);
     let keep = tso_capacity (e_tso e) div 8;
     let size = (if size > keep then size - keep else 0);
     let size = (if size < e_tso_leftover e then e_tso_leftover e else size);
     e \<leftarrow> (if size \<noteq> 0 then do_flush_tso srt ts_name size e else Some e);
     Some (e\<lparr>e_tso_leftover := tso_size (e_tso e), e_tso := tso_reset (e_tso e)\<rparr>)
   }"

section \<open>Polling\<close>

definition kill_orphan :: "nat \<Rightarrow> nat \<Rightarrow> ring \<Rightarrow> 're engine \<Rightarrow> 're engine option" where
  "kill_orphan i rid rb e = do {
     let e = e\<lparr>e_ring_map := smap_erase (rb_name rb) (e_ring_map e)\<rparr>;
     let e = put_entry i (\<lambda>x. x\<lparr>ie_ring := None, ie_pit := it_invalid\<rparr>) e;
     let e = e\<lparr>e_dirty := True\<rparr>;
     (case ring_release rb of
        Kept rb' \<Rightarrow> Some (put_ring rid rb' e)
      | Deleted \<Rightarrow> Some (e\<lparr>e_rings := (e_rings e)(rid := None)\<rparr>)
      | Abort \<Rightarrow> None)
   }"

text \<open>
  Reading one ring into the ordering buffer. \<open>lim\<close> bounds the number of iterations; the
  number of slots of the ring is always enough.
\<close>

fun read_ring :: "nat \<Rightarrow> sorter \<Rightarrow> (u64 \<Rightarrow> string) \<Rightarrow> nat \<Rightarrow> timestamp \<Rightarrow> pop_iterator \<Rightarrow> 're engine \<Rightarrow> ('re engine \<times> pop_iterator) option" where
  "read_ring lim srt ts_name i tso_ts it e = do {
     (rid, rb) \<leftarrow> ring_of_entry e i;
     (case it_next rb it of
        None \<Rightarrow> Some (e, it)
      | Some (slot, it) \<Rightarrow>
          (case lim of
             0 \<Rightarrow> None
           | Suc lim \<Rightarrow> do {
               r \<leftarrow> read_slot rb slot;
               let ts = (if r_timestamp r \<le> tso_ts then ts_plus_int tso_ts 1 else r_timestamp r);
               b \<leftarrow> tso_push \<lparr>te_timestamp = ts, te_rec = slot, te_tag = word_of_nat i\<rparr> (e_tso e);
               let e = e\<lparr>e_tso := b\<rparr>;
               e \<leftarrow> (if tso_full b then flush_full_tso srt ts_name e else Some e);
               read_ring lim srt ts_name i ts it e
             }))
   }"

declare read_ring.simps [simp del]

definition read_ring_entry :: "(nat \<Rightarrow> bool) \<Rightarrow> sorter \<Rightarrow> (u64 \<Rightarrow> string) \<Rightarrow> nat \<Rightarrow> 're engine \<Rightarrow> 're engine option" where
  "read_ring_entry trylock srt ts_name i e =
     (case ie_ring (e_entries e ! i) of
        None \<Rightarrow> Some e
      | Some _ \<Rightarrow> do {
          (rid, rb) \<leftarrow> ring_of_entry e i;
          (e, it) \<leftarrow> read_ring (nslots rb) srt ts_name i (from_nsec 0) (it_reset rb) e;
          let e = put_entry i (\<lambda>x. x\<lparr>ie_pit := it\<rparr>) e;
          (rid, rb) \<leftarrow> ring_of_entry e i;
          if ring_orphan rb \<and> ring_empty rb
          then (if trylock i then kill_orphan i rid rb e else Some e)
          else Some e
        })"

fun read_rings :: "(nat \<Rightarrow> bool) \<Rightarrow> sorter \<Rightarrow> (u64 \<Rightarrow> string) \<Rightarrow> nat list \<Rightarrow> 're engine \<Rightarrow> 're engine option" where
  "read_rings trylock srt ts_name [] e = Some e"
| "read_rings trylock srt ts_name (i # is) e = do {
     e \<leftarrow> read_ring_entry trylock srt ts_name i e;
     read_rings trylock srt ts_name is e
   }"

definition commit_entry :: "nat \<Rightarrow> 're engine \<Rightarrow> 're engine option" where
  "commit_entry i e =
     (case ie_lastrec (e_entries e ! i) of
        None \<Rightarrow> Some e
      | Some slot \<Rightarrow>
          (case ie_ring (e_entries e ! i) of
             None \<Rightarrow> Some e
           | Some _ \<Rightarrow> do {
               (rid, rb) \<leftarrow> ring_of_entry e i;
               let it = it_rewind slot (ie_pit (e_entries e ! i));
               let rb = ring_unblock (it_commit it rb);
               Some (put_entry i (\<lambda>x. x\<lparr>ie_pit := it, ie_lastrec := None\<rparr>) (put_ring rid rb e))
             }))"

fun commit_entries :: "nat list \<Rightarrow> 're engine \<Rightarrow> 're engine option" where
  "commit_entries [] e = Some e"
| "commit_entries (i # is) e = do { e \<leftarrow> commit_entry i e; commit_entries is e }"

definition process_rings_tso :: "(nat \<Rightarrow> bool) \<Rightarrow> sorter \<Rightarrow> (u64 \<Rightarrow> string) \<Rightarrow> 're engine \<Rightarrow> 're engine option" where
  "process_rings_tso trylock srt ts_name e = do {
     let is = [0..<length (e_entries e)];
     e \<leftarrow> read_rings trylock srt ts_name is e;
     e \<leftarrow> flush_tso srt ts_name e;
     commit_entries is e
   }"

text \<open>Without timestamp ordering each ring is written out and committed in turn.\<close>

fun drain_ring :: "nat \<Rightarrow> (u64 \<Rightarrow> string) \<Rightarrow> nat \<Rightarrow> pop_iterator \<Rightarrow> 're engine \<Rightarrow> ('re engine \<times> pop_iterator) option" where
  "drain_ring lim ts_name i it e = do {
     (rid, rb) \<leftarrow> ring_of_entry e i;
     (case it_next rb it of
        None \<Rightarrow> Some (e, it)
      | Some (slot, it) \<Rightarrow>
          (case lim of
             0 \<Rightarrow> None
           | Suc lim \<Rightarrow> do { e \<leftarrow> flush_record ts_name i slot e; drain_ring lim ts_name i it e }))
   }"

declare drain_ring.simps [simp del]

definition process_entry_notso :: "(nat \<Rightarrow> bool) \<Rightarrow> (u64 \<Rightarrow> string) \<Rightarrow> nat \<Rightarrow> 're engine \<Rightarrow> 're engine option" where
  "process_entry_notso trylock ts_name i e =
     (case ie_ring (e_entries e ! i) of
        None \<Rightarrow> Some e
      | Some _ \<Rightarrow> do {
          (rid, rb) \<leftarrow> ring_of_entry e i;
          (e, it) \<leftarrow> drain_ring (nslots rb) ts_name i (it_reset rb) e;
          let e = put_entry i (\<lambda>x. x\<lparr>ie_pit := it\<rparr>) e;
          (rid, rb) \<leftarrow> ring_of_entry e i;
          let rb = ring_unblock (it_commit it rb);
          let e = put_ring rid rb e;
          if ring_orphan rb \<and> ring_empty rb
          then (if trylock i then kill_orphan i rid rb e else Some e)
          else Some e
        })"

fun process_entries_notso :: "(nat \<Rightarrow> bool) \<Rightarrow> (u64 \<Rightarrow> string) \<Rightarrow> nat list \<Rightarrow> 're engine \<Rightarrow> 're engine option" where
  "process_entries_notso trylock ts_name [] e = Some e"
| "process_entries_notso trylock ts_name (i # is) e = do {
     e \<leftarrow> process_entry_notso trylock ts_name i e;
     process_entries_notso trylock ts_name is e
   }"

definition process_rings_notso :: "(nat \<Rightarrow> bool) \<Rightarrow> (u64 \<Rightarrow> string) \<Rightarrow> 're engine \<Rightarrow> 're engine option" where
  "process_rings_notso trylock ts_name e = process_entries_notso trylock ts_name [0..<length (e_entries e)] e"

text \<open>
  Rebuilding the index: one entry per registered ring, the expected sequence number taken
  over from the old entry of the same ring, sorted by descending priority; \<open>rsort\<close> is
  \<^verbatim>\<open>std::sort\<close> with that order.
\<close>

definition find_entry :: "index_entry list \<Rightarrow> nat \<Rightarrow> index_entry option" where
  "find_entry es rid = find (\<lambda>x. ie_ring x = Some rid) es"

definition rebuild_ring_index :: "((nat \<Rightarrow> ring option) \<Rightarrow> index_entry list \<Rightarrow> index_entry list) \<Rightarrow> 're engine \<Rightarrow> 're engine" where
  "rebuild_ring_index rsort e =
     (let e = bump (\<lambda>s. s\<lparr>st_rings_indexed := st_rings_indexed s + 1\<rparr>) e;
          mk = (\<lambda>(_, rid). \<lparr>ie_ring = Some rid,
                  ie_pit = (case e_rings e rid of Some rb \<Rightarrow> it_reset rb | None \<Rightarrow> it_invalid),
                  ie_lastrec = None,
                  ie_seqnum = (case find_entry (e_entries e) rid of Some x \<Rightarrow> ie_seqnum x | None \<Rightarrow> 0)\<rparr>)
      in e\<lparr>e_entries := rsort (e_rings e) (map mk (e_ring_map e)), e_dirty := False\<rparr>)"

definition process_rings :: "((nat \<Rightarrow> ring option) \<Rightarrow> index_entry list \<Rightarrow> index_entry list) \<Rightarrow> bool \<Rightarrow> (nat \<Rightarrow> bool) \<Rightarrow> sorter \<Rightarrow> (u64 \<Rightarrow> string) \<Rightarrow> 're engine \<Rightarrow> 're engine option" where
  "process_rings rsort locked trylock srt ts_name e = do {
     let e = bump (\<lambda>s. s\<lparr>st_loops := st_loops s + 1\<rparr>) e;
     let e = (if e_dirty e \<and> locked then rebuild_ring_index rsort e else e);
     e \<leftarrow> (if eo_features (e_opts e) AND DISABLE_TSO \<noteq> 0 then process_rings_notso trylock ts_name e
           else process_rings_tso trylock srt ts_name e);
     Some (emit OutFlush e)
   }"

text \<open>The engine's internal area has the sections the engine tests.\<close>

definition internal_ok :: "'re engine \<Rightarrow> bool" where
  "internal_ok e \<longleftrightarrow> (\<exists>ia. internal_area e = Some ia \<and> area_wf ia \<and> area_size ia = 9)"

lemma internal_ok_test:
  assumes "internal_ok e"
  shows "\<exists>ia v. internal_area e = Some ia \<and> area_test ia (isect s) = Some v"
proof -
  obtain ia where ia: "internal_area e = Some ia" "area_wf ia" "area_size ia = 9"
    using assms by (auto simp: internal_ok_def)
  have "isect s < 9" by (cases s) (simp_all add: isect_def)
  with ar.test_defined [OF ia(2)] ia show ?thesis by metis
qed

text \<open>A concrete engine: two rings with two and one records, timestamps interleaved.\<close>

definition demo_rec :: "u64 \<Rightarrow> log_record" where
  "demo_rec t = (zero_record 128)\<lparr>r_area := 0x5000, r_timestamp := t\<rparr>"

definition demo_log :: "string \<Rightarrow> u32 \<Rightarrow> u64 list \<Rightarrow> ring" where
  "demo_log nm t ts = \<lparr>rb_name = nm, rb_flags = 0, rb_prio = 0, rb_rec_top = 0, rb_rec_shift = 8, rb_rec_tailroom = 128,
     rb_capacity = 3, rb_refcnt = 2, rb_block_active = False, rb_timesource = 0, rb_tail = t, rb_seqnum = 0,
     rb_dropcnt = 0, rb_head = 3, rb_slots = map demo_rec ts\<rparr>"

definition demo_engine :: "unit engine" where
  "demo_engine = \<lparr>
     e_area_map = [(''HOGL'', \<lparr>ar_name = ''HOGL'', ar_section = internal_section_names, ar_bitmap = \<lparr>bm_data = [0], bm_size = 9\<rparr>\<rparr>)],
     e_mask = [], e_ring_map = [(''A'', 10), (''B'', 20)],
     e_rings = [10 \<mapsto> demo_log ''A'' 2 [5, 9, 0, 0], 20 \<mapsto> demo_log ''B'' 1 [7, 0, 0, 0]],
     e_entries = [\<lparr>ie_ring = Some 10, ie_pit = it_invalid, ie_lastrec = None, ie_seqnum = 0\<rparr>,
                  \<lparr>ie_ring = Some 20, ie_pit = it_invalid, ie_lastrec = None, ie_seqnum = 0\<rparr>],
     e_dirty = False, e_tso = tso_resize (\<lambda>_. \<lparr>te_timestamp = 0, te_rec = 0, te_tag = 0\<rparr>) 8, e_tso_leftover = 0,
     e_stats = \<lparr>st_tso_full = 0, st_recs_out = 0, st_recs_dropped = 0, st_loops = 0, st_rings_indexed = 0,
                st_areas_added = 0, st_mask_changed = 0, st_timesource_changed = 0\<rparr>,
     e_out = [],
     e_opts = \<lparr>eo_default_mask = [], eo_polling_interval_usec = 10000, eo_tso_buffer_capacity = 8, eo_features = 0, eo_timesource = 0\<rparr>,
     e_timesource = 0\<rparr>"

lemma demo_log_ok: "t < 4 \<Longrightarrow> length ts = 4 \<Longrightarrow> ring_ok (demo_log nm t ts)"
  by (auto simp: ring_ok_def ring_wf_def demo_log_def demo_rec_def zero_record_def mask_eq_exp_minus_1 word_less_nat_alt
      intro!: exI [of _ 2])

lemma demo_internal: "internal_ok demo_engine"
  by (simp add: internal_ok_def internal_area_def demo_engine_def area_wf_def area_size_def bm_wf_def unat_bm_nwords
      internal_section_names_def)

end
