(* ===== verification/Registry.thy ===== *)
theory Registry
  imports Engine
begin

text \<open>
  The engine's registries (\<^verbatim>\<open>src/engine.cc\<close>): construction and destruction, adding and
  finding areas and rings, listing them, and applying a mask.

  A caller is a thread with a ring of its own, to which the engine posts messages about
  the registries. \<open>c_str\<close> gives the address of a string, \<open>nid\<close> is the identity of a ring
  allocated by the operation. An operation returns \<open>None\<close> where posting would wait for a
  blocking ring or leave a buffer.
\<close>

section \<open>Operations\<close>

record caller =
  c_ring :: nat
  c_junk :: argpack
  c_mem :: memory
  c_now :: timestamp
  c_str :: "string \<Rightarrow> u64"
  c_area :: u64

definition str_arg :: "caller \<Rightarrow> string \<Rightarrow> arg" where
  "str_arg c s = arg_cstr (c_str c s) (word_of_nat (length s))"

definition post_tls :: "caller \<Rightarrow> internal_section_ids \<Rightarrow> arg list \<Rightarrow> 're engine \<Rightarrow> 're engine option" where
  "post_tls c sect as e = do {
     ia \<leftarrow> internal_area e;
     rb \<leftarrow> e_rings e (c_ring c);
     rb \<leftarrow> post (c_junk c) (c_mem c) (c_area c, ia) (isect sect) (with_defaults as) (c_now c) rb;
     Some (put_ring (c_ring c) rb e)
   }"

definition add_internal_area :: "'re matcher \<Rightarrow> (nat \<Rightarrow> u64) \<Rightarrow> 're engine \<Rightarrow> 're engine option" where
  "add_internal_area rem junk e = do {
     a \<leftarrow> area_new junk ''HOGL'' (Some internal_section_names);
     a \<leftarrow> area_set a (isect I_INFO) True;
     a \<leftarrow> area_set a (isect I_WARN) True;
     a \<leftarrow> area_set a (isect I_ERROR) True;
     a \<leftarrow> area_set a (isect DROPMARK) True;
     a \<leftarrow> area_set a (isect TSOFULLMARK) True;
     let m = smap_insert ''HOGL'' a (e_area_map e);
     a \<leftarrow> mask_apply rem (e_mask e) a;
     Some (e\<lparr>e_area_map := smap_update ''HOGL'' a m\<rparr>)
   }"

definition zero_stats :: engine_stats where
  "zero_stats = \<lparr>st_tso_full = 0, st_recs_out = 0, st_recs_dropped = 0, st_loops = 0, st_rings_indexed = 0,
     st_areas_added = 0, st_mask_changed = 0, st_timesource_changed = 0\<rparr>"

text \<open>The constructor; \<open>h\<close> holds the rings that exist before, \<open>tj\<close> and \<open>old\<close> the uninitialised members.\<close>

definition engine_new :: "'re matcher \<Rightarrow> (nat \<Rightarrow> u64) \<Rightarrow> (nat \<Rightarrow> tso_entry) \<Rightarrow> tsobuf \<Rightarrow> u32 \<Rightarrow> u64 \<Rightarrow> (nat \<Rightarrow> ring option)
    \<Rightarrow> 're engine_options \<Rightarrow> 're engine option" where
  "engine_new rem junk tj old old_leftover default_timesource h opts =
     (let s = (if eo_tso_buffer_capacity opts \<noteq> 0 then eo_tso_buffer_capacity opts else 2048);
          tso_on = (eo_features opts AND DISABLE_TSO = 0)
      in add_internal_area rem junk
           \<lparr>e_area_map = [], e_mask = eo_default_mask opts, e_ring_map = [], e_rings = h, e_entries = [], e_dirty = True,
            e_tso = (if tso_on then tso_reset (tso_resize tj s) else old),
            e_tso_leftover = (if tso_on then 0 else old_leftover),
            e_stats = zero_stats, e_out = [], e_opts = opts,
            e_timesource = (if eo_timesource opts = 0 then default_timesource else eo_timesource opts)\<rparr>)"

text \<open>The rings the destructor releases; \<open>None\<close> when a count becomes negative.\<close>

definition release_ring :: "nat \<Rightarrow> (nat \<Rightarrow> ring option) \<Rightarrow> (nat \<Rightarrow> ring option) option" where
  "release_ring rid h = do {
     rb \<leftarrow> h rid;
     (case ring_release rb of
        Kept rb' \<Rightarrow> Some (h(rid := Some rb'))
      | Deleted \<Rightarrow> Some (h(rid := None))
      | Abort \<Rightarrow> None)
   }"

fun release_rings :: "(string \<times> nat) list \<Rightarrow> (nat \<Rightarrow> ring option) \<Rightarrow> (nat \<Rightarrow> ring option) option" where
  "release_rings [] h = Some h"
| "release_rings ((_, rid) # m) h = Option.bind (release_ring rid h) (release_rings m)"

definition engine_delete :: "'re engine \<Rightarrow> (nat \<Rightarrow> ring option) option" where
  "engine_delete e = release_rings (e_ring_map e) (e_rings e)"

definition find_area :: "string \<Rightarrow> 're engine \<Rightarrow> area option" where
  "find_area nm e = map_of (e_area_map e) nm"

definition add_area :: "caller \<Rightarrow> 're matcher \<Rightarrow> (nat \<Rightarrow> u64) \<Rightarrow> u64 \<Rightarrow> string \<Rightarrow> string list option \<Rightarrow> 're engine
    \<Rightarrow> (area option \<times> 're engine) option" where
  "add_area c rem junk addr nm sections e = do {
     na \<leftarrow> area_new junk nm sections;
     let isnew = (map_of (e_area_map e) nm = None);
     let e = e\<lparr>e_area_map := smap_insert nm na (e_area_map e)\<rparr>;
     a \<leftarrow> map_of (e_area_map e) nm;
     let e = bump (\<lambda>s. s\<lparr>st_areas_added := st_areas_added s + 1\<rparr>) e;
     if isnew then do {
       a \<leftarrow> mask_apply rem (e_mask e) a;
       let e = e\<lparr>e_area_map := smap_update nm a (e_area_map e)\<rparr>;
       e \<leftarrow> post_tls c AREA_DEBUG [str_arg c ''new area %s(%p): number-of-sections %u'', str_arg c (ar_name a),
              arg_ptr addr, arg_u32 (area_size a)] e;
       Some (Some a, e)
     } else if area_eq na a then Some (Some a, e)
     else do {
       e \<leftarrow> post_tls c I_ERROR [str_arg c ''failed to add area %s. already exists and is not reusable.'', str_arg c nm] e;
       Some (None, e)
     }
   }"

definition hold_in :: "nat \<Rightarrow> 're engine \<Rightarrow> 're engine option" where
  "hold_in rid e = do { rb \<leftarrow> e_rings e rid; Some (put_ring rid (ring_hold rb) e) }"

definition release_in :: "nat \<Rightarrow> 're engine \<Rightarrow> 're engine option" where
  "release_in rid e = do { h \<leftarrow> release_ring rid (e_rings e); Some (e\<lparr>e_rings := h\<rparr>) }"

definition add_ring :: "caller \<Rightarrow> (u32 \<Rightarrow> u64 option) \<Rightarrow> u64 \<Rightarrow> u64 \<Rightarrow> nat \<Rightarrow> string \<Rightarrow> ring_options \<Rightarrow> 're engine
    \<Rightarrow> (nat option \<times> 're engine) option" where
  "add_ring c alloc dflt_ts addr nid nm opts e = do {
     nr \<leftarrow> ringbuf_new alloc dflt_ts nm opts;
     let nr = set_timesource (e_timesource e) (ring_hold nr);
     let e = put_ring nid nr e;
     let isnew = (map_of (e_ring_map e) nm = None);
     let e = e\<lparr>e_ring_map := smap_insert nm nid (e_ring_map e)\<rparr>;
     rid \<leftarrow> map_of (e_ring_map e) nm;
     e \<leftarrow> hold_in rid e;
     if isnew then do {
       let e = e\<lparr>e_dirty := True\<rparr>;
       e \<leftarrow> post_tls c RING_DEBUG [str_arg c ''new ring %s(%p): prio %u capacity %u record-size %u'', str_arg c nm,
              arg_ptr addr, arg_u32 (rb_prio nr), arg_u32 (ring_capacity nr), arg_u32 (record_size nr)] e;
       Some (Some nid, e)
     } else do {
       e \<leftarrow> release_in nid e;
       r \<leftarrow> e_rings e rid;
       if ring_shared r then Some (Some rid, e)
       else if ring_reusable r \<and> rb_refcnt r = 2 then Some (Some rid, e)
       else do {
         e \<leftarrow> post_tls c I_ERROR [str_arg c ''failed to add ring %s. already exists and is not reusable.'',
                str_arg c (rb_name r)] e;
         e \<leftarrow> release_in rid e;
         Some (None, e)
       }
     }
   }"

definition add_existing_ring :: "caller \<Rightarrow> nat \<Rightarrow> 're engine \<Rightarrow> (bool \<times> 're engine) option" where
  "add_existing_ring c rid e = do {
     r \<leftarrow> e_rings e rid;
     if map_of (e_ring_map e) (rb_name r) = None then do {
       let e = e\<lparr>e_ring_map := smap_insert (rb_name r) rid (e_ring_map e), e_dirty := True\<rparr>;
       e \<leftarrow> hold_in rid e;
       r \<leftarrow> e_rings e rid;
       Some (True, put_ring rid (set_timesource (e_timesource e) r) e)
     } else do {
       e \<leftarrow> post_tls c I_ERROR [str_arg c ''failed to add ring %s. already exists.'', str_arg c (rb_name r)] e;
       Some (False, e)
     }
   }"

definition find_ring :: "string \<Rightarrow> 're engine \<Rightarrow> (nat option \<times> 're engine) option" where
  "find_ring nm e =
     (case map_of (e_ring_map e) nm of
        None \<Rightarrow> Some (None, e)
      | Some rid \<Rightarrow> do { e \<leftarrow> hold_in rid e; Some (Some rid, e) })"

definition list_rings :: "'re engine \<Rightarrow> string list \<Rightarrow> string list option" where
  "list_rings e l = map_option ((@) l) (those (map (\<lambda>(_, rid). map_option rb_name (e_rings e rid)) (e_ring_map e)))"

definition list_areas :: "'re engine \<Rightarrow> string list \<Rightarrow> string list" where
  "list_areas e l = l @ map (\<lambda>(_, a). ar_name a) (e_area_map e)"

fun apply_to_areas :: "'re matcher \<Rightarrow> 're mask \<Rightarrow> (string \<times> area) list \<Rightarrow> (string \<times> area) list option" where
  "apply_to_areas rem m [] = Some []"
| "apply_to_areas rem m ((k, a) # am) = do {
     a \<leftarrow> mask_apply rem m a;
     am \<leftarrow> apply_to_areas rem m am;
     Some ((k, a) # am)
   }"

definition engine_apply_mask :: "'re matcher \<Rightarrow> 're mask \<Rightarrow> 're engine \<Rightarrow> 're engine option" where
  "engine_apply_mask rem m e = do {
     am \<leftarrow> apply_to_areas rem m (e_area_map e);
     Some (bump (\<lambda>s. s\<lparr>st_mask_changed := st_mask_changed s + 1\<rparr>) (e\<lparr>e_mask := m, e_area_map := am\<rparr>))
   }"

section \<open>Sorted maps\<close>

lemma str_less_irrefl [simp]: "\<not> str_less s s"
  by (induction s) simp_all

lemma str_less_trans: "str_less a b \<Longrightarrow> str_less b c \<Longrightarrow> str_less a c"
proof (induction a b arbitrary: c rule: str_less.induct)
  case (2 x t)
  then show ?case by (cases c) simp_all
next
  case (3 x s y t)
  then show ?case
    by (cases c) (auto split: if_splits)
qed simp

lemma str_less_linear: "str_less a b \<or> a = b \<or> str_less b a"
proof (induction a b rule: str_less.induct)
  case (1 s)
  then show ?case by (cases s) simp_all
next
  case (3 x s y t)
  show ?case
  proof (cases "x = y")
    case True
    then show ?thesis using 3 by simp
  next
    case False
    then have "(of_char x :: nat) \<noteq> of_char y" by simp
    then show ?thesis using linorder_less_linear [of "of_char x :: nat" "of_char y"] by auto
  qed
qed simp

lemma smap_insert_present:
  "sorted_wrt str_less (map fst m) \<Longrightarrow> k \<in> fst ` set m \<Longrightarrow> smap_insert k v m = m"
proof (induction k v m rule: smap_insert.induct)
  case (2 k v k' w m)
  show ?case
  proof (cases "k = k'")
    case False
    then have k: "k \<in> fst ` set m" using 2(3) by auto
    then have "str_less k' k" using 2(2) by auto
    then have "\<not> str_less k k'" using str_less_trans [of k k' k] by auto
    with False 2 k show ?thesis by simp
  qed simp
qed simp

lemma smap_insert_new:
  assumes "k \<notin> fst ` set m"
  shows "set (smap_insert k v m) = insert (k, v) (set m)" and "map_of (smap_insert k v m) = (map_of m)(k \<mapsto> v)"
    and "mset (map snd (smap_insert k v m)) = add_mset v (mset (map snd m))"
  using assms by (induction k v m rule: smap_insert.induct) (auto simp: fun_eq_iff)

lemma sorted_smap_insert:
  "sorted_wrt str_less (map fst m) \<Longrightarrow> sorted_wrt str_less (map fst (smap_insert k v m))"
proof (cases "k \<in> fst ` set m")
  case False
  assume "sorted_wrt str_less (map fst m)"
  then show ?thesis using False
  proof (induction k v m rule: smap_insert.induct)
    case (2 k v k' v' m)
    have "str_less k' x" if "x \<in> fst ` set (smap_insert k v m)" "\<not> str_less k k'" "k \<noteq> k'" for x
      using that 2(2,3) str_less_linear [of k k'] smap_insert_new(1) [of k m v] by auto
    with 2 show ?case by (auto intro: str_less_trans)
  qed simp
qed (simp add: smap_insert_present)

lemma sorted_distinct_keys: "sorted_wrt str_less (map fst m) \<Longrightarrow> distinct (map fst m)"
  by (induction m) auto

section \<open>The ring registry\<close>

text \<open>Every registered ring exists, has the name it is registered under, and is held by the engine.\<close>

definition reg_ok :: "(nat \<Rightarrow> ring option) \<Rightarrow> string \<times> nat \<Rightarrow> bool" where
  "reg_ok h p \<longleftrightarrow> (\<exists>rb. h (snd p) = Some rb \<and> rb_name rb = fst p \<and> 1 \<le> rb_refcnt rb)"

definition reg_wf :: "'re engine \<Rightarrow> bool" where
  "reg_wf e \<longleftrightarrow> sorted_wrt str_less (map fst (e_ring_map e)) \<and> distinct (map snd (e_ring_map e))
     \<and> (\<forall>p \<in> set (e_ring_map e). reg_ok (e_rings e) p)"

definition caller_ok :: "caller \<Rightarrow> 're engine \<Rightarrow> bool" where
  "caller_ok c e \<longleftrightarrow> (\<exists>rb. e_rings e (c_ring c) = Some rb \<and> ring_ok rb \<and> \<not> ring_blocking rb)
     \<and> ap_wf (c_junk c) \<and> internal_ok e"

text \<open>What posting does not change in a ring.\<close>

definition ring_tag :: "ring \<Rightarrow> string \<times> int \<times> u32 \<times> u64" where
  "ring_tag rb = (rb_name rb, rb_refcnt rb, rb_flags rb, rb_timesource rb)"

lemma push_rec_ok:
  assumes "ring_ok rb" and "\<not> ring_blocking rb" and "valid_args as" and "ap_wf junk"
  shows "\<exists>rb'. push_rec junk mem a sect (with_defaults as) now rb = Some rb' \<and> ring_ok rb' \<and> ring_tag rb' = ring_tag rb"
proof -
  obtain rb' where rb': "push_rec junk mem a sect (with_defaults as) now rb = Some rb'" "ring_ok rb'"
    using push_rec_spec [OF assms(1,3,4,2)] by blast
  obtain r where "push_rec junk mem a sect (with_defaults as) now rb
      = push_commit (rb\<lparr>rb_seqnum := rb_seqnum rb + 1, rb_slots := (rb_slots rb)[unat (rb_tail rb) := r]\<rparr>)"
    using push_rec_slot [OF assms(1,3,4)] by blast
  with rb'(1) have "push_commit (rb\<lparr>rb_seqnum := rb_seqnum rb + 1, rb_slots := (rb_slots rb)[unat (rb_tail rb) := r]\<rparr>) = Some rb'"
    by simp
  then have "ring_tag rb' = ring_tag rb"
    by (auto simp: push_commit_def Let_def ring_tag_def inc_dropcnt_def commit_tail_def split: if_splits)
  with rb' show ?thesis by blast
qed

lemma post_tls_ok:
  assumes "caller_ok c e" and "valid_args as"
  shows "\<exists>rb rb'. post_tls c sect as e = Some (put_ring (c_ring c) rb' e) \<and> e_rings e (c_ring c) = Some rb
    \<and> ring_ok rb' \<and> ring_tag rb' = ring_tag rb"
proof -
  obtain rb where rb: "e_rings e (c_ring c) = Some rb" "ring_ok rb" "\<not> ring_blocking rb" "ap_wf (c_junk c)" "internal_ok e"
    using assms(1) by (auto simp: caller_ok_def)
  obtain ia en where ia: "internal_area e = Some ia" "area_test ia (isect sect) = Some en"
    using internal_ok_test [OF rb(5), of sect] by blast
  obtain rb' where "push_rec (c_junk c) (c_mem c) (c_area c) (isect sect) (with_defaults as) (c_now c) rb = Some rb'"
    "ring_ok rb'" "ring_tag rb' = ring_tag rb"
    using push_rec_ok [OF rb(2,3) assms(2) rb(4)] by blast
  with rb ia show ?thesis by (cases en) (auto simp: post_tls_def post_def)
qed

lemma reg_ok_tag:
  "map_option ring_tag (h' (snd p)) = map_option ring_tag (h (snd p)) \<Longrightarrow> reg_ok h' p = reg_ok h p"
  by (cases "h' (snd p)"; cases "h (snd p)") (auto simp: reg_ok_def ring_tag_def)

lemma str_arg_type [simp]: "a_type (str_arg c s) = CSTR"
  by (simp add: str_arg_def arg_cstr_def)

lemma ringbuf_new_fields:
  "ringbuf_new alloc ts nm opts = Some nr \<Longrightarrow> rb_name nr = nm \<and> rb_refcnt nr = 0 \<and> rb_flags nr = ro_flags opts"
  by (auto simp: ringbuf_new_def Let_def bind_eq_Some_conv split: option.splits)

lemma reg_wf_tags:
  assumes "reg_wf e" and "\<And>x. map_option ring_tag (e_rings e' x) = map_option ring_tag (e_rings e x)"
    and "e_ring_map e' = e_ring_map e"
  shows "reg_wf e'"
  using assms reg_ok_tag [of "e_rings e'" _ "e_rings e"] by (simp add: reg_wf_def)

lemma map_of_not_key: "map_of m k = None \<longleftrightarrow> k \<notin> fst ` set m"
  by (rule map_of_eq_None_iff)

lemma caller_ok_cong:
  "caller_ok c e \<Longrightarrow> e_rings e' (c_ring c) = e_rings e (c_ring c) \<Longrightarrow> e_area_map e' = e_area_map e \<Longrightarrow> caller_ok c e'"
  by (simp add: caller_ok_def internal_ok_def internal_area_def)

lemma post_tls_keeps:
  assumes "caller_ok c e" and "valid_args as"
  shows "\<exists>e'. post_tls c sect as e = Some e' \<and> caller_ok c e' \<and> (\<forall>x. map_option ring_tag (e_rings e' x) = map_option ring_tag (e_rings e x))
    \<and> e_ring_map e' = e_ring_map e \<and> e_area_map e' = e_area_map e \<and> e_dirty e' = e_dirty e \<and> e_timesource e' = e_timesource e"
proof -
  obtain rb rb' where p: "post_tls c sect as e = Some (put_ring (c_ring c) rb' e)" "e_rings e (c_ring c) = Some rb"
    "ring_ok rb'" "ring_tag rb' = ring_tag rb" using post_tls_ok [OF assms] by blast
  then have "caller_ok c (put_ring (c_ring c) rb' e)"
    using assms(1) by (auto simp: caller_ok_def put_ring_def ring_tag_def ring_blocking_def internal_ok_def internal_area_def)
  with p show ?thesis by (intro exI [of _ "put_ring (c_ring c) rb' e"]) (simp add: put_ring_def)
qed

lemma add_ring_new:
  assumes "reg_wf e" and "e_rings e nid = None" and "ringbuf_new alloc dflt nm opts = Some nr" and "caller_ok c e"
    and "map_of (e_ring_map e) nm = None"
  shows "\<exists>e' rb. add_ring c alloc dflt addr nid nm opts e = Some (Some nid, e') \<and> reg_wf e' \<and> e_dirty e'
    \<and> map_of (e_ring_map e') = (map_of (e_ring_map e))(nm \<mapsto> nid)
    \<and> e_rings e' nid = Some rb \<and> rb_name rb = nm \<and> rb_refcnt rb = 2 \<and> rb_timesource rb = e_timesource e
    \<and> caller_ok c e' \<and> (\<forall>x. x \<noteq> nid \<longrightarrow> map_option ring_tag (e_rings e' x) = map_option ring_tag (e_rings e x))"
proof -
  note nf = ringbuf_new_fields [OF assms(3)]
  have new: "nm \<notin> fst ` set (e_ring_map e)" using assms(5) by (simp add: map_of_not_key)
  let ?nr = "set_timesource (e_timesource e) (ring_hold nr)"
  let ?m = "smap_insert nm nid (e_ring_map e)"
  define e1 where "e1 = put_ring nid (ring_hold ?nr) (e\<lparr>e_ring_map := ?m\<rparr>)\<lparr>e_dirty := True\<rparr>"
  have ne: "c_ring c \<noteq> nid" using assms(2,4) by (auto simp: caller_ok_def)
  have e1: "e_rings e1 = (e_rings e)(nid := Some (ring_hold ?nr))" "e_ring_map e1 = ?m" "e_dirty e1"
    by (simp_all add: e1_def put_ring_def)
  have "caller_ok c e1" by (rule caller_ok_cong [OF assms(4)]) (use ne in \<open>simp_all add: e1_def put_ring_def\<close>)
  then obtain e' where p: "post_tls c RING_DEBUG
      [str_arg c ''new ring %s(%p): prio %u capacity %u record-size %u'', str_arg c nm, arg_ptr addr,
       arg_u32 (rb_prio ?nr), arg_u32 (ring_capacity ?nr), arg_u32 (record_size ?nr)] e1 = Some e'" "caller_ok c e'"
    "\<And>x. map_option ring_tag (e_rings e' x) = map_option ring_tag (e_rings e1 x)" "e_ring_map e' = ?m" "e_dirty e'"
    using post_tls_keeps [of c e1 "[str_arg c ''new ring %s(%p): prio %u capacity %u record-size %u'', str_arg c nm,
       arg_ptr addr, arg_u32 (rb_prio ?nr), arg_u32 (ring_capacity ?nr), arg_u32 (record_size ?nr)]" RING_DEBUG] e1(2,3)
    by (auto simp: valid_args_def arg_ptr_def arg_u32_def)
  have "add_ring c alloc dflt addr nid nm opts e = Some (Some nid, e')"
    using assms(3,5) p(1) smap_insert_new(2) [OF new, of nid]
    by (simp add: add_ring_def hold_in_def put_ring_def Let_def e1_def)
  moreover have r1: "reg_wf e1"
  proof -
    have "nid \<notin> snd ` set (e_ring_map e)" using assms(1,2) by (force simp: reg_wf_def reg_ok_def)
    then have "distinct (map snd ?m)"
      using assms(1) smap_insert_new(3) [OF new, of nid] mset_eq_imp_distinct_iff [of "map snd ?m" "nid # map snd (e_ring_map e)"]
      by (auto simp: reg_wf_def)
    moreover have "reg_ok (e_rings e1) q" if "q \<in> set ?m" for q
      using that smap_insert_new(1) [OF new, of nid] assms(1,2) nf
      by (auto simp: reg_wf_def reg_ok_def e1(1) ring_hold_def set_timesource_def)
    ultimately show ?thesis
      using assms(1) sorted_smap_insert by (auto simp: reg_wf_def e1)
  qed
  then have "reg_wf e'" by (rule reg_wf_tags) (use p e1 in simp_all)
  moreover obtain rb where "e_rings e' nid = Some rb" "ring_tag rb = ring_tag (ring_hold ?nr)"
    using p(3) [of nid] e1(1) by (cases "e_rings e' nid") simp_all
  moreover have "map_option ring_tag (e_rings e' x) = map_option ring_tag (e_rings e x)" if "x \<noteq> nid" for x
    using p(3) [of x] e1(1) that by simp
  ultimately show ?thesis
    using nf p smap_insert_new(2) [OF new, of nid] by (simp add: ring_tag_def ring_hold_def set_timesource_def)
qed

lemma release_new:
  assumes "rb_refcnt nr = 1"
  shows "\<exists>v. release_ring nid (h(nid := Some nr)) = Some (h(nid := v)) \<and> (v = None \<or> (\<exists>x. v = Some x \<and> rb_refcnt x = 0))"
  using assms by (auto simp: release_ring_def ring_release_def Let_def)

lemma reg_wf_held:
  assumes "reg_wf e" and "e_rings e nid = None" and "e_rings e rid = Some rb" and "rb_name rb = nm" and "1 \<le> rb_refcnt rb"
    and "rid \<noteq> nid"
  shows "reg_wf (e\<lparr>e_rings := (e_rings e)(rid := Some (ring_hold rb), nid := v)\<rparr>)"
proof -
  have "reg_ok ((e_rings e)(rid := Some (ring_hold rb), nid := v)) q" if q: "q \<in> set (e_ring_map e)" for q
  proof -
    have "reg_ok (e_rings e) q" using assms(1) q by (simp add: reg_wf_def)
    then have "snd q \<noteq> nid" "snd q = rid \<Longrightarrow> fst q = nm" using assms(2-4) by (auto simp: reg_ok_def)
    with \<open>reg_ok (e_rings e) q\<close> assms(4-6) show ?thesis by (auto simp: reg_ok_def ring_hold_def)
  qed
  with assms(1) show ?thesis by (simp add: reg_wf_def)
qed

text \<open>A message and then giving back a reference that is not the last one.\<close>

lemma message_release:
  assumes r1: "reg_wf e1" and "caller_ok c e1" and rb: "e_rings e1 rid = Some rb" and "2 \<le> rb_refcnt rb" and "valid_args msg"
  shows "\<exists>e3 r3. Option.bind (post_tls c I_ERROR msg e1) (release_in rid) = Some e3 \<and> reg_wf e3
    \<and> e_ring_map e3 = e_ring_map e1 \<and> e_dirty e3 = e_dirty e1 \<and> e_rings e3 rid = Some r3 \<and> rb_refcnt r3 = rb_refcnt rb - 1"
proof -
  obtain cr rb' where p: "post_tls c I_ERROR msg e1 = Some (put_ring (c_ring c) rb' e1)" "e_rings e1 (c_ring c) = Some cr"
    "ring_tag rb' = ring_tag cr"
    using post_tls_ok [OF assms(2,5), of I_ERROR] by auto
  let ?e2 = "put_ring (c_ring c) rb' e1"
  have r2: "reg_wf ?e2" by (rule reg_wf_tags [OF r1]) (use p in \<open>simp_all add: put_ring_def\<close>)
  obtain r2 where rr: "e_rings ?e2 rid = Some r2" "ring_tag r2 = ring_tag rb"
    using p rb by (cases "c_ring c = rid") (auto simp: put_ring_def)
  then have rc: "rb_refcnt r2 = rb_refcnt rb" by (auto simp: ring_tag_def)
  let ?r3 = "r2\<lparr>rb_refcnt := rb_refcnt rb - 1\<rparr>"
  let ?e3 = "?e2\<lparr>e_rings := (e_rings ?e2)(rid := Some ?r3)\<rparr>"
  have "release_in rid ?e2 = Some ?e3"
    using rr(1) rc assms(4) by (simp add: release_in_def release_ring_def ring_release_def Let_def)
  moreover have "reg_ok (e_rings ?e3) q" if q: "q \<in> set (e_ring_map e1)" for q
  proof -
    have "reg_ok (e_rings ?e2) q" using r2 q by (simp add: reg_wf_def put_ring_def)
    then show ?thesis using rr(1) assms(4) by (cases "snd q = rid") (auto simp: reg_ok_def)
  qed
  then have "reg_wf ?e3" using r1 by (simp add: reg_wf_def put_ring_def)
  ultimately show ?thesis using p(1) by (intro exI [of _ ?e3] exI [of _ ?r3]) (simp add: put_ring_def)
qed

lemma add_ring_found:
  assumes "reg_wf e" and "e_rings e nid = None" and "ringbuf_new alloc dflt nm opts = Some nr" and "caller_ok c e"
    and "map_of (e_ring_map e) nm = Some rid" and "e_rings e rid = Some rb"
  defines "reuse \<equiv> ring_shared rb \<or> ring_reusable rb \<and> rb_refcnt rb = 1"
  shows "\<exists>e' rb'. add_ring c alloc dflt addr nid nm opts e = Some (if reuse then Some rid else None, e') \<and> reg_wf e'
    \<and> e_ring_map e' = e_ring_map e \<and> e_dirty e' = e_dirty e
    \<and> e_rings e' rid = Some rb' \<and> rb_refcnt rb' = rb_refcnt rb + (if reuse then 1 else 0)"
proof -
  let ?nr = "set_timesource (e_timesource e) (ring_hold nr)"
  have nf: "rb_refcnt ?nr = 1" using ringbuf_new_fields [OF assms(3)] by (simp add: ring_hold_def set_timesource_def)
  have mem: "nm \<in> fst ` set (e_ring_map e)" "(nm, rid) \<in> set (e_ring_map e)"
    using map_of_SomeD [OF assms(5)] by force+
  have srt: "sorted_wrt str_less (map fst (e_ring_map e))" using assms(1) by (simp add: reg_wf_def)
  have m: "smap_insert nm nid (e_ring_map e) = e_ring_map e" by (rule smap_insert_present [OF srt mem(1)])
  have rok: "rb_name rb = nm" "1 \<le> rb_refcnt rb"
    using assms(1,6) mem(2) by (force simp: reg_wf_def reg_ok_def)+
  have ne: "rid \<noteq> nid" "c_ring c \<noteq> nid" using assms(2,4,6) by (auto simp: caller_ok_def)
  obtain v where v: "release_ring nid ((e_rings e)(rid := Some (ring_hold rb), nid := Some ?nr))
      = Some ((e_rings e)(rid := Some (ring_hold rb), nid := v))"
    using release_new [OF nf] by blast
  define e1 where "e1 = e\<lparr>e_rings := (e_rings e)(rid := Some (ring_hold rb), nid := v)\<rparr>"
  have rt: "e_rings e1 rid = Some (ring_hold rb)" "e_ring_map e1 = e_ring_map e" "e_dirty e1 = e_dirty e"
    using ne by (simp_all add: e1_def)
  have hold: "add_ring c alloc dflt addr nid nm opts e =
      (if reuse then Some (Some rid, e1)
       else do {
         e \<leftarrow> post_tls c I_ERROR [str_arg c ''failed to add ring %s. already exists and is not reusable.'', str_arg c nm] e1;
         e \<leftarrow> release_in rid e;
         Some (None, e) })"
    using assms(3,5,6) m ne v rok(1) rt(1) unfolding add_ring_def reuse_def
    by (simp add: Let_def put_ring_def hold_in_def release_in_def fun_upd_twist [of nid rid] e1_def ring_hold_def
        ring_shared_def ring_reusable_def)
  have r1: "reg_wf e1" unfolding e1_def by (rule reg_wf_held [OF assms(1,2,6) rok ne(1)])
  have ok1: "caller_ok c e1"
    using assms(4,6) ne by (cases "c_ring c = rid")
      (auto simp: caller_ok_def e1_def ring_hold_def internal_ok_def internal_area_def ring_ok_def ring_wf_def ring_blocking_def)
  show ?thesis
  proof (cases reuse)
    case True
    then show ?thesis using hold r1 rt by (simp add: ring_hold_def)
  next
    case False
    let ?msg = "[str_arg c ''failed to add ring %s. already exists and is not reusable.'', str_arg c nm]"
    obtain e3 r3 where "Option.bind (post_tls c I_ERROR ?msg e1) (release_in rid) = Some e3" "reg_wf e3"
      "e_ring_map e3 = e_ring_map e" "e_dirty e3 = e_dirty e" "e_rings e3 rid = Some r3" "rb_refcnt r3 = rb_refcnt rb"
      using message_release [OF r1 ok1 rt(1), of ?msg] rok rt by (auto simp: ring_hold_def valid_args_def)
    with hold False show ?thesis by (auto simp: bind_eq_Some_conv)
  qed
qed

text \<open>
  C21: registering a ring by name. A free name gets the new ring, held once by the engine
  and once by the caller, with the engine's timesource, and the index is marked for
  rebuilding. A name in use returns the ring already there when it is shared, or reusable
  with no holder but the engine, and takes one reference on it; otherwise nothing is
  returned, no reference is kept and the registry is as before. The registry invariant
  holds in every case.
\<close>

theorem add_ring_outcome:
  assumes "reg_wf e" and "e_rings e nid = None" and "ringbuf_new alloc dflt nm opts = Some nr" and "caller_ok c e"
  shows "\<exists>r e'. add_ring c alloc dflt addr nid nm opts e = Some (r, e') \<and> reg_wf e' \<and>
    (case map_of (e_ring_map e) nm of
       None \<Rightarrow> r = Some nid \<and> e_dirty e' \<and> map_of (e_ring_map e') = (map_of (e_ring_map e))(nm \<mapsto> nid)
         \<and> (\<exists>rb. e_rings e' nid = Some rb \<and> rb_name rb = nm \<and> rb_refcnt rb = 2 \<and> rb_timesource rb = e_timesource e)
     | Some rid \<Rightarrow> e_ring_map e' = e_ring_map e \<and> e_dirty e' = e_dirty e
         \<and> (\<exists>rb rb'. e_rings e rid = Some rb \<and> e_rings e' rid = Some rb'
              \<and> (if ring_shared rb \<or> ring_reusable rb \<and> rb_refcnt rb = 1
                 then r = Some rid \<and> rb_refcnt rb' = rb_refcnt rb + 1
                 else r = None \<and> rb_refcnt rb' = rb_refcnt rb)))"
proof (cases "map_of (e_ring_map e) nm")
  case None
  from add_ring_new [OF assms this, of addr] None show ?thesis by auto
next
  case (Some rid)
  then obtain rb where rb: "e_rings e rid = Some rb"
    using assms(1) map_of_SomeD [OF Some] by (auto simp: reg_wf_def reg_ok_def)
  let ?reuse = "ring_shared rb \<or> ring_reusable rb \<and> rb_refcnt rb = 1"
  obtain e' rb' where e': "add_ring c alloc dflt addr nid nm opts e = Some (if ?reuse then Some rid else None, e')" "reg_wf e'"
    "e_ring_map e' = e_ring_map e" "e_dirty e' = e_dirty e" "e_rings e' rid = Some rb'"
    "rb_refcnt rb' = rb_refcnt rb + (if ?reuse then 1 else 0)"
    using add_ring_found [OF assms Some rb, of addr] by blast
  have "\<exists>rb rb'. e_rings e rid = Some rb \<and> e_rings e' rid = Some rb'
      \<and> (if ring_shared rb \<or> ring_reusable rb \<and> rb_refcnt rb = 1
         then (if ?reuse then Some rid else None) = Some rid \<and> rb_refcnt rb' = rb_refcnt rb + 1
         else (if ?reuse then Some rid else None) = None \<and> rb_refcnt rb' = rb_refcnt rb)"
    by (rule exI [of _ rb], rule exI [of _ rb']) (use rb e'(5,6) in simp)
  with Some e'(1-4) show ?thesis
    by (intro exI [of _ "if ?reuse then Some rid else None"] exI [of _ e']) (simp only: option.case simp_thms)
qed

definition demo_caller :: caller where
  "demo_caller = \<lparr>c_ring = 10, c_junk = \<lparr>ap_argtype = 0, ap_argval = replicate 16 0, ap_arglen = replicate 16 0\<rparr>,
     c_mem = (\<lambda>_. 65), c_now = 100, c_str = (\<lambda>_. 0x6000), c_area = 0x5000\<rparr>"

lemma demo_ring_new: "\<exists>nr. ringbuf_new (\<lambda>n. Some 0x10000) 7 nm default_ring_opts = Some nr"
proof -
  have "roundup_log2 (ro_capacity default_ring_opts) = Some 10" "roundup_log2 (record_bytes default_ring_opts) = Some 8"
    by (simp_all add: roundup_log2_def default_ring_opts_def record_bytes_def argval_size_def roundup_log2_from.simps)
  from ringbuf_new_eq [OF this, of "\<lambda>n. Some 0x10000" "0x10000" 7 nm] show ?thesis by auto
qed

lemma demo_caller_ok: "e_rings e 10 = e_rings demo_engine 10 \<Longrightarrow> e_area_map e = e_area_map demo_engine \<Longrightarrow> caller_ok demo_caller e"
proof (rule caller_ok_cong [of demo_caller demo_engine])
  have "\<not> ring_blocking (demo_log nm t ts)" for nm t ts by (simp add: ring_blocking_def demo_log_def)
  moreover have "e_rings demo_engine 10 = Some (demo_log ''A'' 2 [5, 9, 0, 0])" by (simp add: demo_engine_def)
  ultimately show "caller_ok demo_caller demo_engine"
    by (auto simp: caller_ok_def demo_caller_def demo_log_ok demo_internal ap_wf_def)
qed (simp_all add: demo_caller_def)

theorem add_ring_outcome_witness:
  "\<exists>r e'. add_ring demo_caller (\<lambda>n. Some 0x10000) 7 0x7000 30 ''C'' default_ring_opts demo_engine = Some (r, e')
    \<and> r = Some 30 \<and> e_dirty e' \<and> reg_wf e'"
proof -
  have rings: "e_rings demo_engine 10 = Some (demo_log ''A'' 2 [5, 9, 0, 0])" "e_rings demo_engine 20 = Some (demo_log ''B'' 1 [7, 0, 0, 0])"
    "e_rings demo_engine 30 = None" "e_ring_map demo_engine = [(''A'', 10), (''B'', 20)]"
    by (simp_all add: demo_engine_def)
  have wf: "reg_wf demo_engine" by (auto simp: reg_wf_def rings reg_ok_def demo_log_def)
  obtain nr where nr: "ringbuf_new (\<lambda>n. Some 0x10000) 7 ''C'' default_ring_opts = Some nr" using demo_ring_new by blast
  have c: "caller_ok demo_caller demo_engine" by (simp add: demo_caller_ok)
  from add_ring_outcome [OF wf rings(3) nr c, of "0x7000"] show ?thesis by (auto simp: rings(4))
qed

text \<open>
  C32: the engine decides that a ring is an orphan before it takes the registry lock and
  does not look again under it. When a thread reuses the ring in between, it gets the
  ring, and the engine then removes that ring from the registry: the thread holds the
  only reference to a ring the engine will never index again.
\<close>

theorem orphan_reuse_race:
  assumes "reg_wf e" and "e_rings e nid = None" and "ringbuf_new alloc dflt nm opts = Some nr" and "caller_ok c e"
    and "map_of (e_ring_map e) nm = Some rid" and "e_rings e rid = Some rb"
    and "ring_reusable rb" and "ring_orphan rb"
  shows "\<exists>e1 rb1 e2 rb2. add_ring c alloc dflt addr nid nm opts e = Some (Some rid, e1) \<and> e_rings e1 rid = Some rb1
    \<and> kill_orphan i rid rb1 e1 = Some e2 \<and> map_of (e_ring_map e2) nm = None
    \<and> e_rings e2 rid = Some rb2 \<and> rb_refcnt rb2 = 1"
proof -
  have "ring_shared rb \<or> ring_reusable rb \<and> rb_refcnt rb = 1" using assms(7,8) by (simp add: ring_orphan_def)
  then obtain e1 rb1 where e1: "add_ring c alloc dflt addr nid nm opts e = Some (Some rid, e1)" "reg_wf e1"
    "e_ring_map e1 = e_ring_map e" "e_rings e1 rid = Some rb1" "rb_refcnt rb1 = 2"
    using add_ring_found [OF assms(1-6), of addr] assms(8) by (auto simp: ring_orphan_def)
  have "rb_name rb1 = nm"
    using e1(2-4) map_of_SomeD [OF assms(5)] by (force simp: reg_wf_def reg_ok_def)
  then have "\<exists>e2 rb2. kill_orphan i rid rb1 e1 = Some e2 \<and> map_of (e_ring_map e2) nm = None
      \<and> e_rings e2 rid = Some rb2 \<and> rb_refcnt rb2 = 1"
    using e1(5) by (auto simp: kill_orphan_def ring_release_def put_ring_def put_entry_def Let_def smap_erase_def
        map_of_eq_None_iff)
  with e1(1,4) show ?thesis by blast
qed

theorem orphan_reuse_race_witness:
  "\<exists>e1 rb1 e2. add_ring demo_caller (\<lambda>n. Some 0x10000) 7 0x7000 30 ''B'' default_ring_opts
      (demo_engine\<lparr>e_rings := (e_rings demo_engine)(20 \<mapsto> (demo_log ''B'' 0 [7, 0, 0, 0])\<lparr>rb_flags := REUSABLE, rb_refcnt := 1\<rparr>)\<rparr>)
      = Some (Some 20, e1)
    \<and> e_rings e1 20 = Some rb1 \<and> kill_orphan 1 20 rb1 e1 = Some e2 \<and> map_of (e_ring_map e2) ''B'' = None"
proof -
  let ?rb = "(demo_log ''B'' 0 [7, 0, 0, 0])\<lparr>rb_flags := REUSABLE, rb_refcnt := 1\<rparr>"
  let ?e = "demo_engine\<lparr>e_rings := (e_rings demo_engine)(20 \<mapsto> ?rb)\<rparr>"
  have rings: "e_rings ?e 10 = Some (demo_log ''A'' 2 [5, 9, 0, 0])" "e_rings ?e 20 = Some ?rb" "e_rings ?e 30 = None"
    "map_of (e_ring_map ?e) ''B'' = Some 20"
    by (simp_all add: demo_engine_def)
  have wf: "reg_wf ?e" by (auto simp: reg_wf_def reg_ok_def demo_log_def demo_engine_def)
  have f: "ring_reusable ?rb" "ring_orphan ?rb" by (simp_all add: ring_reusable_def REUSABLE_def ring_orphan_def)
  obtain nr where nr: "ringbuf_new (\<lambda>n. Some 0x10000) 7 ''B'' default_ring_opts = Some nr" using demo_ring_new by blast
  have c: "caller_ok demo_caller ?e" by (simp add: demo_caller_ok)
  from orphan_reuse_race [OF wf rings(3) nr c rings(4,2) f, of "0x7000" 1] show ?thesis by blast
qed

section \<open>The area registry\<close>

definition areas_wf :: "(string \<times> area) list \<Rightarrow> bool" where
  "areas_wf m \<longleftrightarrow> sorted_wrt str_less (map fst m) \<and> (\<forall>p \<in> set m. area_wf (snd p) \<and> ar_name (snd p) = fst p)"

lemma smap_update_keys [simp]: "map fst (smap_update k v m) = map fst m"
  by (induction k v m rule: smap_update.induct) simp_all

lemma map_of_smap_update: "map_of m k = Some w \<Longrightarrow> map_of (smap_update k v m) = (map_of m)(k \<mapsto> v)"
  by (induction k v m rule: smap_update.induct) (auto simp: fun_eq_iff)

lemma set_smap_update: "set (smap_update k v m) \<subseteq> insert (k, v) (set m)"
  by (induction k v m rule: smap_update.induct) auto

lemma section_name_cong:
  "ar_section a = ar_section b \<Longrightarrow> area_size a = area_size b \<Longrightarrow> section_name a i = section_name b i"
  by (simp add: section_name_def)

lemma add_area_new:
  assumes "areas_wf (e_area_map e)" and "caller_ok c e" and "map_of (e_area_map e) nm = None"
    and "ss = case_option default_section_names id sections" and "length ss \<le> 2 ^ 32 - 64"
  shows "\<exists>a e'. add_area c rem junk addr nm sections e = Some (Some a, e') \<and> areas_wf (e_area_map e')
    \<and> map_of (e_area_map e') = (map_of (e_area_map e))(nm \<mapsto> a) \<and> ar_section a = ss
    \<and> (\<forall>i < area_size a. area_test a i = mask_verdict rem (e_mask e) nm (section_name a i) (Some False))"
proof -
  have "ss = (case sections of None \<Rightarrow> default_section_names | Some ss \<Rightarrow> ss)" using assms(4) by (auto split: option.splits)
  from area_new_spec [OF this assms(5), of junk nm] obtain na where na: "area_new junk nm sections = Some na" "area_wf na"
    "ar_name na = nm" "ar_section na = ss" "\<forall>j < area_size na. area_test na j = Some False" by metis
  obtain a where a: "mask_apply rem (e_mask e) na = Some a" "area_wf a" "ar_name a = nm" "ar_section a = ss" "area_size a = area_size na"
    "\<forall>i < area_size na. area_test a i = mask_verdict rem (e_mask e) nm (section_name na i) (area_test na i)"
    using mask_apply_verdict [OF na(2), of rem "e_mask e"] na(3,4) by auto
  have new: "nm \<notin> fst ` set (e_area_map e)" using assms(3) by (simp add: map_of_eq_None_iff)
  let ?m = "smap_insert nm na (e_area_map e)"
  have in_m: "map_of ?m nm = Some na" using smap_insert_new(2) [OF new, of na] by simp
  let ?m' = "smap_update nm a ?m"
  have m': "map_of ?m' = (map_of (e_area_map e))(nm \<mapsto> a)"
    using map_of_smap_update [OF in_m, of a] smap_insert_new(2) [OF new, of na] by simp
  let ?st = "(e_stats e)\<lparr>st_areas_added := st_areas_added (e_stats e) + 1\<rparr>"
  define e1 where "e1 = e\<lparr>e_stats := ?st, e_area_map := ?m'\<rparr>"
  have "internal_ok e" using assms(2) by (simp add: caller_ok_def)
  then have ia: "internal_ok e1"
    using assms(3) m' by (auto simp: internal_ok_def internal_area_def e1_def)
  then have "caller_ok c e1" using assms(2) by (simp add: caller_ok_def e1_def)
  then obtain rb where p: "post_tls c AREA_DEBUG [str_arg c ''new area %s(%p): number-of-sections %u'', str_arg c nm,
      arg_ptr addr, arg_u32 (area_size a)] e1 = Some (put_ring (c_ring c) rb e1)"
    using post_tls_ok [of c e1 "[str_arg c ''new area %s(%p): number-of-sections %u'', str_arg c nm,
      arg_ptr addr, arg_u32 (area_size a)]" AREA_DEBUG] by (auto simp: valid_args_def arg_ptr_def arg_u32_def)
  have "add_area c rem junk addr nm sections e = Some (Some a, put_ring (c_ring c) rb e1)"
    using na(1) assms(3) a(1,3) p smap_insert_new(2) [OF new, of na]
    by (simp add: add_area_def Let_def bump_def e1_def)
  moreover have "areas_wf ?m'"
    using assms(1) sorted_smap_insert [of "e_area_map e" nm na] set_smap_update [of nm a ?m] a(2,3) na(2,3)
      smap_insert_new(1) [OF new, of na] by (auto simp: areas_wf_def)
  ultimately show ?thesis
    using m' a(4-6) na(4,5) section_name_cong [of na a] by (auto simp: put_ring_def e1_def)
qed

lemma add_area_found:
  assumes "areas_wf (e_area_map e)" and "caller_ok c e" and "map_of (e_area_map e) nm = Some a"
    and "ss = case_option default_section_names id sections" and "length ss \<le> 2 ^ 32 - 64"
  shows "\<exists>e'. add_area c rem junk addr nm sections e = Some (if ar_section a = ss then Some a else None, e')
    \<and> e_area_map e' = e_area_map e"
proof -
  have "ss = (case sections of None \<Rightarrow> default_section_names | Some ss \<Rightarrow> ss)" using assms(4) by (auto split: option.splits)
  from area_new_spec [OF this assms(5), of junk nm] obtain na where na: "area_new junk nm sections = Some na" "area_wf na"
    "ar_name na = nm" "ar_section na = ss" by metis
  have mem: "(nm, a) \<in> set (e_area_map e)" by (rule map_of_SomeD [OF assms(3)])
  then have a: "area_wf a" "ar_name a = nm" using assms(1) by (auto simp: areas_wf_def)
  have m: "smap_insert nm na (e_area_map e) = e_area_map e"
    using smap_insert_present [of "e_area_map e" nm na] assms(1) mem by (force simp: areas_wf_def)
  have eq: "area_eq na a \<longleftrightarrow> ar_section a = ss" using area_eq_iff [OF na(2) a(1)] na a by auto
  let ?e1 = "e\<lparr>e_stats := (e_stats e)\<lparr>st_areas_added := st_areas_added (e_stats e) + 1\<rparr>\<rparr>"
  have "caller_ok c ?e1" by (rule caller_ok_cong [OF assms(2)]) simp_all
  then obtain rb where p: "post_tls c I_ERROR [str_arg c ''failed to add area %s. already exists and is not reusable.'', str_arg c nm] ?e1
      = Some (put_ring (c_ring c) rb ?e1)"
    using post_tls_ok [of c ?e1 "[str_arg c ''failed to add area %s. already exists and is not reusable.'', str_arg c nm]" I_ERROR]
    by (auto simp: valid_args_def)
  show ?thesis
  proof (cases "ar_section a = ss")
    case True
    then show ?thesis using na(1) m assms(3) eq by (simp add: add_area_def Let_def bump_def)
  next
    case False
    then show ?thesis using na(1) m assms(3) eq p by (simp add: add_area_def Let_def bump_def put_ring_def)
  qed
qed

lemma apply_to_areas_spec:
  "areas_wf am \<Longrightarrow> \<exists>am'. apply_to_areas rem m am = Some am' \<and> areas_wf am' \<and> map fst am' = map fst am
    \<and> (\<forall>nm a. map_of am nm = Some a \<longrightarrow> (\<exists>a'. map_of am' nm = Some a' \<and> ar_section a' = ar_section a
         \<and> (\<forall>i < area_size a. area_test a' i = mask_verdict rem m nm (section_name a i) (area_test a i))))"
proof (induction am)
  case (Cons p am)
  obtain k a where p: "p = (k, a)" by (cases p)
  have wf: "areas_wf am" "area_wf a" "ar_name a = k" using Cons.prems by (auto simp: areas_wf_def p)
  obtain a' where a': "mask_apply rem m a = Some a'" "area_wf a'" "ar_name a' = k" "ar_section a' = ar_section a"
    "\<forall>i < area_size a. area_test a' i = mask_verdict rem m k (section_name a i) (area_test a i)"
    using mask_apply_verdict [OF wf(2), of rem m] wf(3) by auto
  obtain am' where am': "apply_to_areas rem m am = Some am'" "areas_wf am'" "map fst am' = map fst am"
    "\<forall>nm a. map_of am nm = Some a \<longrightarrow> (\<exists>a'. map_of am' nm = Some a' \<and> ar_section a' = ar_section a
         \<and> (\<forall>i < area_size a. area_test a' i = mask_verdict rem m nm (section_name a i) (area_test a i)))"
    using Cons.IH [OF wf(1)] by blast
  have "fst ` set am' = fst ` set am" using am'(3) by (metis list.set_map)
  then have "areas_wf ((k, a') # am')" using am'(2) a'(2,3) Cons.prems by (auto simp: areas_wf_def p)
  with a' am' show ?case by (simp add: p)
qed (simp add: areas_wf_def)

text \<open>
  C24: masks and areas. Applying a mask reaches every registered area, and an area
  registered later under a new name gets the same mask: in both a section is what the
  last matching entry says, and with no match keeps its state or, in a new area, is
  disabled. A name in use gives back the existing area, unchanged, exactly when the
  sections agree.
\<close>

theorem mask_reaches_all_areas:
  assumes "areas_wf (e_area_map e)" and "caller_ok c e" and "ss = case_option default_section_names id sections"
    and "length ss \<le> 2 ^ 32 - 64"
  shows "\<exists>e1 r e2. engine_apply_mask rem m e = Some e1 \<and> add_area c rem junk addr nm sections e1 = Some (r, e2)
    \<and> areas_wf (e_area_map e2)
    \<and> (\<forall>n a. find_area n e = Some a \<longrightarrow> (\<exists>a'. find_area n e2 = Some a' \<and> ar_section a' = ar_section a
         \<and> (\<forall>i < area_size a. area_test a' i = mask_verdict rem m n (section_name a i) (area_test a i))))
    \<and> (if find_area nm e = None
       then \<exists>a. r = Some a \<and> find_area nm e2 = Some a \<and> ar_section a = ss
              \<and> (\<forall>i < area_size a. area_test a i = mask_verdict rem m nm (section_name a i) (Some False))
       else r = (if map_option ar_section (find_area nm e) = Some ss then find_area nm e2 else None))"
proof -
  obtain am where am: "apply_to_areas rem m (e_area_map e) = Some am" "areas_wf am" "map fst am = map fst (e_area_map e)"
    "\<forall>nm a. map_of (e_area_map e) nm = Some a \<longrightarrow> (\<exists>a'. map_of am nm = Some a' \<and> ar_section a' = ar_section a
         \<and> (\<forall>i < area_size a. area_test a' i = mask_verdict rem m nm (section_name a i) (area_test a i)))"
    using apply_to_areas_spec [OF assms(1), of rem m] by blast
  define e1 where "e1 = bump (\<lambda>s. s\<lparr>st_mask_changed := st_mask_changed s + 1\<rparr>) (e\<lparr>e_mask := m, e_area_map := am\<rparr>)"
  have e1: "engine_apply_mask rem m e = Some e1" "e_area_map e1 = am" "e_mask e1 = m" "e_rings e1 = e_rings e"
    using am(1) by (simp_all add: engine_apply_mask_def e1_def bump_def)
  have io: "internal_ok e1"
  proof -
    obtain ia where ia: "map_of (e_area_map e) ''HOGL'' = Some ia" "area_wf ia" "area_size ia = 9"
      using assms(2) by (auto simp: caller_ok_def internal_ok_def internal_area_def)
    then obtain ia' where ia': "map_of am ''HOGL'' = Some ia'" "ar_section ia' = ar_section ia" using am(4) by blast
    moreover have "area_wf ia'" using am(2) map_of_SomeD [OF ia'(1)] by (auto simp: areas_wf_def)
    ultimately have "area_size ia' = 9" using ia(2,3) by (simp add: area_wf_def word_unat_eq_iff)
    with ia'(1) \<open>area_wf ia'\<close> show ?thesis by (simp add: internal_ok_def internal_area_def e1(2))
  qed
  then have c1: "caller_ok c e1" using assms(2) e1(4) by (simp add: caller_ok_def)
  have wf1: "areas_wf (e_area_map e1)" using am(2) e1(2) by simp
  have keys: "map_of am nm = None \<longleftrightarrow> map_of (e_area_map e) nm = None"
    using am(3) by (metis map_of_eq_None_iff list.set_map)
  show ?thesis
  proof (cases "map_of (e_area_map e) nm")
    case None
    then have "map_of (e_area_map e1) nm = None" using keys e1(2) by simp
    from add_area_new [OF wf1 c1 this assms(3,4), of rem junk addr] obtain a e2 where
      "add_area c rem junk addr nm sections e1 = Some (Some a, e2)" "areas_wf (e_area_map e2)"
      "map_of (e_area_map e2) = (map_of am)(nm \<mapsto> a)" "ar_section a = ss"
      "\<forall>i < area_size a. area_test a i = mask_verdict rem m nm (section_name a i) (Some False)"
      unfolding e1(2,3) by blast
    with None am(4) e1(1) show ?thesis
      by (intro exI [of _ e1] exI [of _ "Some a"] exI [of _ e2]) (auto simp: find_area_def)
  next
    case (Some a0)
    then obtain a where a: "map_of am nm = Some a" "ar_section a = ar_section a0" using am(4) by blast
    from add_area_found [OF wf1 c1 _ assms(3,4), of nm a rem junk addr] a(1) e1(2) obtain e2 where
      "add_area c rem junk addr nm sections e1 = Some (if ar_section a = ss then Some a else None, e2)" "e_area_map e2 = am"
      by auto
    with Some a am(2,4) e1(1) show ?thesis
      by (intro exI [of _ e1] exI [of _ "if ar_section a = ss then Some a else None"] exI [of _ e2]) (simp add: find_area_def)
  qed
qed

theorem mask_reaches_all_areas_witness:
  "\<exists>e1 r e2. engine_apply_mask (\<lambda>_ _. True) [\<lparr>md_str = ''all'', md_area = (), md_sect = (), md_on = True\<rparr>] demo_engine = Some e1
    \<and> add_area demo_caller (\<lambda>_ _. True) (\<lambda>_. 3) 0x8000 ''NET'' (Some [''RX'']) e1 = Some (r, e2)
    \<and> (\<exists>a. r = Some a \<and> find_area ''NET'' e2 = Some a \<and> ar_section a = [''RX''])"
proof -
  have wf: "areas_wf (e_area_map demo_engine)"
    by (simp add: areas_wf_def demo_engine_def area_wf_def area_size_def bm_wf_def unat_bm_nwords internal_section_names_def)
  have c: "caller_ok demo_caller demo_engine" by (simp add: demo_caller_ok)
  have ss: "[''RX''] = case_option default_section_names id (Some [''RX''])" by simp
  have l: "length [''RX''] \<le> 2 ^ 32 - 64" by simp
  have "find_area ''NET'' demo_engine = None" by (simp add: find_area_def demo_engine_def)
  with mask_reaches_all_areas [OF wf c ss l, of "\<lambda>_ _. True" "[\<lparr>md_str = ''all'', md_area = (), md_sect = (), md_on = True\<rparr>]"
      "\<lambda>_. 3" "0x8000" "''NET''"]
  show ?thesis by auto
qed

end
