(* ===== verification/Dumps.thy ===== *)
theory Dumps
  imports Registry Ntos
begin

text \<open>
  The text dumps of a ring and of the engine (\<^verbatim>\<open>operator<<\<close> in \<^verbatim>\<open>src/ringbuf.cc\<close> and
  \<^verbatim>\<open>src/engine.cc\<close>). Numbers are inserted in decimal, the features in hexadecimal, and the width set
  before a part indents it. The names of the time sources, and the text of the pointer to the
  scheduling parameters, are arguments. Listing and finding the rings, and giving them back, are the
  operations of theory \<open>Registry\<close>.
\<close>

section \<open>Definitions\<close>

abbreviation endl :: string where
  "endl \<equiv> [CHR 0x0a]"

definition put_int :: "int \<Rightarrow> string" where
  "put_int i = (if i < 0 then ''-'' @ dec (nat (- i)) else dec (nat i))"

abbreviation put_word :: "'w::len word \<Rightarrow> string" where
  "put_word w \<equiv> dec (unat w)"

text \<open>\<^verbatim>\<open>"null"\<close> for a null pointer, the name otherwise.\<close>

definition ts_label :: "(u64 \<Rightarrow> string) \<Rightarrow> u64 \<Rightarrow> string" where
  "ts_label ts_name ts = (if ts \<noteq> 0 then ts_name ts else ''null'')"

definition ring_dump :: "(u64 \<Rightarrow> string) \<Rightarrow> nat \<Rightarrow> 'r ringbuf \<Rightarrow> string" where
  "ring_dump ts_name w rb = pad w '''' @ rb_name rb @ '': { ''
     @ ''prio:'' @ put_int (sint (rb_prio rb)) @ '', ''
     @ ''refcnt:'' @ put_int (rb_refcnt rb) @ '', ''
     @ ''seqnum:'' @ put_word (rb_seqnum rb) @ '', ''
     @ ''dropcnt:'' @ put_word (rb_dropcnt rb) @ '', ''
     @ ''capacity:'' @ put_word (ring_capacity rb) @ '', ''
     @ ''size:'' @ put_word (ring_size rb) @ '', ''
     @ ''room:'' @ put_word (ring_room rb) @ '', ''
     @ ''record_size:'' @ put_word (record_size rb) @ '', ''
     @ ''record_tailroom:'' @ put_word (rb_rec_tailroom rb) @ '', ''
     @ ''timesource:'' @ ts_label ts_name (rb_timesource rb)
     @ '' }'' @ endl"

definition stats_dump :: "nat \<Rightarrow> engine_stats \<Rightarrow> string" where
  "stats_dump w st = pad w '''' @ ''{ ''
     @ ''tso_full:'' @ put_word (st_tso_full st) @ '', ''
     @ ''recs_out:'' @ put_word (st_recs_out st) @ '', ''
     @ ''recs_dropped:'' @ put_word (st_recs_dropped st) @ '', ''
     @ ''loops:'' @ put_word (st_loops st) @ '', ''
     @ ''rings_indexed:'' @ put_word (st_rings_indexed st) @ '', ''
     @ ''areas_added:'' @ put_word (st_areas_added st) @ '', ''
     @ ''mask_changed:'' @ put_word (st_mask_changed st) @ '', ''
     @ ''timesource_changed:'' @ put_word (st_timesource_changed st) @ '', ''
     @ '' }'' @ endl"

definition options_dump :: "(u64 \<Rightarrow> string) \<Rightarrow> string \<Rightarrow> nat \<Rightarrow> 're engine_options \<Rightarrow> string" where
  "options_dump ts_name sched w opts = pad w '''' @ ''{ ''
     @ ''polling_interval_usec:'' @ put_word (eo_polling_interval_usec opts) @ '', ''
     @ ''tso_buffer_capacity:'' @ put_word (eo_tso_buffer_capacity opts) @ '', ''
     @ ''tso_buffer_capacity:'' @ put_word (eo_tso_buffer_capacity opts) @ '', ''
     @ ''features:'' @ hex (unat (eo_features opts)) @ '', ''
     @ ''schedparam:'' @ sched @ '', ''
     @ ''timesource:'' @ ts_label ts_name (eo_timesource opts)
     @ '' }'' @ endl"

fun rings_dump :: "(u64 \<Rightarrow> string) \<Rightarrow> string list \<Rightarrow> 're engine \<Rightarrow> (string \<times> 're engine) option" where
  "rings_dump ts_name [] e = Some ([], e)"
| "rings_dump ts_name (nm # l) e = do {
     (r, e) \<leftarrow> find_ring nm e;
     (case r of
        None \<Rightarrow> rings_dump ts_name l e
      | Some rid \<Rightarrow> do {
          rb \<leftarrow> e_rings e rid;
          e \<leftarrow> release_in rid e;
          (t, e) \<leftarrow> rings_dump ts_name l e;
          Some (ring_dump ts_name 4 rb @ t, e)
        })
   }"

fun areas_dump :: "string list \<Rightarrow> 're engine \<Rightarrow> string option" where
  "areas_dump [] e = Some []"
| "areas_dump (nm # l) e =
     (case find_area nm e of
        None \<Rightarrow> areas_dump l e
      | Some a \<Rightarrow> do { s \<leftarrow> area_dump 4 a; t \<leftarrow> areas_dump l e; Some (s @ t) })"

definition engine_dump :: "(u64 \<Rightarrow> string) \<Rightarrow> string \<Rightarrow> 're engine \<Rightarrow> (string \<times> 're engine) option" where
  "engine_dump ts_name sched e = do {
     let s = ''Options: '' @ endl @ options_dump ts_name sched 4 (e_opts e)
           @ ''Mask: '' @ endl @ mask_dump 4 (e_mask e)
           @ ''Stats: '' @ endl @ stats_dump 4 (e_stats e);
     let alist = list_areas e [];
     rlist \<leftarrow> list_rings e [];
     (rs, e) \<leftarrow> rings_dump ts_name rlist e;
     as \<leftarrow> areas_dump alist e;
     Some (s @ ''Rings:'' @ endl @ rs @ ''Areas:'' @ endl @ as, e)
   }"

section \<open>Lemmas\<close>

text \<open>Taking a reference and giving it back leaves the engine as it was.\<close>

lemma hold_release:
  assumes "e_rings e rid = Some rb" and "1 \<le> rb_refcnt rb"
  shows "hold_in rid e = Some (put_ring rid (ring_hold rb) e)"
    and "release_in rid (put_ring rid (ring_hold rb) e) = Some e"
  using assms by (simp_all add: hold_in_def release_in_def release_ring_def put_ring_def ring_release_def ring_hold_def
      Let_def fun_upd_idem)

lemma rings_dump_registered:
  assumes "distinct (map fst (e_ring_map e))" and "set m \<subseteq> set (e_ring_map e)" and "\<forall>p \<in> set m. reg_ok (e_rings e) p"
  shows "rings_dump ts_name (map fst m) e
    = Some (concat (map (\<lambda>p. ring_dump ts_name 4 (ring_hold (the (e_rings e (snd p))))) m), e)"
  using assms(2,3)
proof (induction m)
  case (Cons p m)
  obtain rb where rb: "e_rings e (snd p) = Some rb" "1 \<le> rb_refcnt rb" using Cons.prems(2) by (auto simp: reg_ok_def)
  have "map_of (e_ring_map e) (fst p) = Some (snd p)" using assms(1) Cons.prems(1) by (simp add: map_of_eq_Some_iff)
  with hold_release [OF rb] have "find_ring (fst p) e = Some (Some (snd p), put_ring (snd p) (ring_hold rb) e)"
    by (simp add: find_ring_def)
  with Cons hold_release(2) [OF rb] rb(1) show ?case by (simp add: put_ring_def)
qed simp

lemma list_rings_names:
  assumes "\<forall>p \<in> set m. reg_ok h p"
  shows "those (map (\<lambda>(_, rid). map_option rb_name (h rid)) m) = Some (map fst m)"
  using assms by (induction m) (auto simp: reg_ok_def)

text \<open>The lines of an area: a mark in front of the disabled sections.\<close>

definition area_line :: "nat \<Rightarrow> area \<Rightarrow> nat \<Rightarrow> string" where
  "area_line w a i = pad w (if area_test a (word_of_nat i) = Some True then '''' else ''!'') @ ar_name a @ '':''
     @ ar_section a ! i @ endl"

lemma area_dump_lines:
  assumes "area_wf a"
  shows "area_dump w a = Some (concat (map (area_line w a) [0..<length (ar_section a)]))"
proof -
  have "area_dump_from w a is = Some (concat (map (area_line w a) is))" if "set is \<subseteq> {..<length (ar_section a)}" for "is"
    using that
  proof (induction "is")
    case (Cons i js)
    then have i: "i < length (ar_section a)" "length (ar_section a) < 2 ^ 32"
      using assms unat_less [of "area_size a"] by (auto simp: area_wf_def)
    then have u: "unat (word_of_nat i :: u32) = i" by (simp add: unat_of_nat)
    with i assms have l: "word_of_nat i < area_size a" by (simp add: area_wf_def word_less_nat_alt)
    with ar.test_defined [OF assms] obtain v where "area_test a (word_of_nat i) = Some v" by blast
    with Cons u i l show ?case by (cases v) (auto simp: area_line_def section_name_def)
  qed simp
  from this [of "[0..<length (ar_section a)]"] assms show ?thesis by (simp add: area_dump_def area_wf_def atLeast0LessThan)
qed

lemma areas_dump_registered:
  assumes "distinct (map fst (e_area_map e))" and "set m \<subseteq> set (e_area_map e)" and "\<forall>p \<in> set m. area_wf (snd p)"
  shows "areas_dump (map fst m) e
    = Some (concat (map (\<lambda>p. concat (map (area_line 4 (snd p)) [0..<length (ar_section (snd p))])) m))"
  using assms(2,3)
proof (induction m)
  case (Cons p m)
  have "map_of (e_area_map e) (fst p) = Some (snd p)" using assms(1) Cons.prems(1) by (simp add: map_of_eq_Some_iff)
  with Cons area_dump_lines [of "snd p" 4] show ?case by (simp add: find_area_def)
qed simp

section \<open>Properties\<close>

text \<open>
  C25: dumping an engine as text always succeeds and changes nothing: each ring is found by its name,
  held while its line is written, and given back, so that no reference is left over and no ring
  is deleted on the way. The dump has one line for each registered ring and one for each section of each
  registered area, in the order of the names; a ring shows one reference more than it has without the
  dump, and a section is marked exactly when it is disabled.
\<close>

theorem engine_dump_neutral:
  assumes "reg_wf e" and "areas_wf (e_area_map e)"
  shows "engine_dump ts_name sched e = Some
    (''Options: '' @ endl @ options_dump ts_name sched 4 (e_opts e)
      @ ''Mask: '' @ endl @ mask_dump 4 (e_mask e) @ ''Stats: '' @ endl @ stats_dump 4 (e_stats e)
      @ ''Rings:'' @ endl @ concat (map (\<lambda>(_, rid). ring_dump ts_name 4 (ring_hold (the (e_rings e rid)))) (e_ring_map e))
      @ ''Areas:'' @ endl @ concat (map (\<lambda>(_, a). concat (map (area_line 4 a) [0..<length (ar_section a)])) (e_area_map e)), e)"
proof -
  have r: "\<forall>p \<in> set (e_ring_map e). reg_ok (e_rings e) p" and d: "distinct (map fst (e_ring_map e))"
    using assms(1) by (auto simp: reg_wf_def intro: sorted_distinct_keys)
  have a: "\<forall>p \<in> set (e_area_map e). area_wf (snd p)" and da: "distinct (map fst (e_area_map e))"
    using assms(2) by (auto simp: areas_wf_def intro: sorted_distinct_keys)
  have l: "list_areas e [] = map fst (e_area_map e)"
    using assms(2) by (auto simp: list_areas_def areas_wf_def)
  show ?thesis
    using rings_dump_registered [OF d subset_refl r] areas_dump_registered [OF da subset_refl a] list_rings_names [OF r]
    unfolding engine_dump_def l list_rings_def by (simp add: Let_def case_prod_unfold)
qed

theorem engine_dump_neutral_witness:
  "\<exists>s. engine_dump (\<lambda>_. ''ts'') ''0'' demo_engine = Some (s, demo_engine)
    \<and> ring_hold (the (e_rings demo_engine 10)) = (demo_log ''A'' 2 [5, 9, 0, 0])\<lparr>rb_refcnt := 3\<rparr>"
proof -
  have "reg_wf demo_engine" by (simp add: reg_wf_def reg_ok_def demo_engine_def demo_log_def)
  moreover have "areas_wf (e_area_map demo_engine)"
    using demo_internal by (simp add: areas_wf_def internal_ok_def internal_area_def demo_engine_def)
  ultimately show ?thesis
    using engine_dump_neutral [of demo_engine] by (simp add: demo_engine_def demo_log_def ring_hold_def)
qed

end
