(* ===== verification/Format_Basic.thy ===== *)
theory Format_Basic
  imports Ntos Format_Raw
begin

text \<open>
  The basic text format (\<^verbatim>\<open>include/hogl/format-basic.hpp\<close>, \<^verbatim>\<open>src/format-basic.cc\<close>):
  the fields of the header with the cache of the time text, the plain output of arguments,
  dumps and the output through a format string. \<^verbatim>\<open>printf\<close> of integers and strings is
  modelled; it inserts character by character. What the \<^verbatim>\<open>fmt\<close> library does with
  pointers, floating point numbers and format strings, and the conversion to local time,
  are parameters. The fixed character arrays are buffers of their size.
\<close>

section \<open>Fields\<close>

abbreviation (input) F_TIMESPEC :: u32 where "F_TIMESPEC \<equiv> 1"
abbreviation (input) F_TIMESTAMP :: u32 where "F_TIMESTAMP \<equiv> 2"
abbreviation (input) F_TIMEDELTA :: u32 where "F_TIMEDELTA \<equiv> 4"
abbreviation (input) F_RING :: u32 where "F_RING \<equiv> 8"
abbreviation (input) F_SEQNUM :: u32 where "F_SEQNUM \<equiv> 16"
abbreviation (input) F_AREA :: u32 where "F_AREA \<equiv> 32"
abbreviation (input) F_SECTION :: u32 where "F_SECTION \<equiv> 64"

definition F_DEFAULT :: u32 where
  "F_DEFAULT = F_TIMESTAMP OR F_RING OR F_SEQNUM OR F_AREA OR F_SECTION"

definition F_FAST0 :: u32 where
  "F_FAST0 = F_TIMESPEC OR F_RING OR F_SEQNUM OR F_AREA OR F_SECTION"

definition F_FAST1 :: u32 where
  "F_FAST1 = F_TIMESPEC OR F_TIMEDELTA OR F_RING OR F_SEQNUM OR F_AREA OR F_SECTION"

text \<open>\<^verbatim>\<open>std::getline\<close> with a delimiter: the last line may lack it, and an empty rest gives no line.\<close>

fun split_lines :: "char \<Rightarrow> string \<Rightarrow> string \<Rightarrow> string list" where
  "split_lines d acc [] = (if acc = [] then [] else [acc])"
| "split_lines d acc (c # s) = (if c = d then acc # split_lines d [] s else split_lines d (acc @ [c]) s)"

definition add_field :: "string \<Rightarrow> u32 \<Rightarrow> u32" where
  "add_field s fs =
     (if s = ''timestamp'' then fs OR F_TIMESTAMP
      else if s = ''timedelta'' then fs OR F_TIMEDELTA
      else if s = ''timespec'' then fs OR F_TIMESPEC
      else if s = ''ring'' then fs OR F_RING
      else if s = ''seqnum'' then fs OR F_SEQNUM
      else if s = ''area'' then fs OR F_AREA
      else if s = ''section'' then fs OR F_SECTION
      else if s = ''default'' then F_DEFAULT
      else if s = ''fast0'' then F_FAST0
      else if s = ''fast1'' then F_FAST1
      else fs)"

definition parse_fields :: "string option \<Rightarrow> u32" where
  "parse_fields flds =
     (case flds of
        None \<Rightarrow> F_DEFAULT
      | Some s \<Rightarrow>
          (let d = (if CHR '','' \<in> set s then CHR '','' else CHR ''|'')
           in fold add_field (split_lines d [] s) 0))"

section \<open>The time text\<close>

record tscache =
  tc_sec :: u64
  tc_nsec_hi :: u32
  tc_str :: bytes

definition tc_new :: tscache where
  "tc_new = \<lparr>tc_sec = 0, tc_nsec_hi = 0, tc_str = (replicate 21 0x30)[11 := 0x2e]\<rparr>"

definition tc_update :: "timestamp \<Rightarrow> tscache \<Rightarrow> tscache option" where
  "tc_update t c = do {
     let ts = to_timespec t;
     let nhi = (ucast (tv_nsec ts div 10000) :: u32);
     let nlo = (ucast (tv_nsec ts mod 10000) :: u32);
     c \<leftarrow> (if tc_sec c \<noteq> tv_sec ts
          then map_option (\<lambda>(s, _). c\<lparr>tc_sec := tv_sec ts, tc_str := s\<rparr>) (u64tod (tv_sec ts) 11 0x30 (tc_str c, 0))
          else Some c);
     c \<leftarrow> (if tc_nsec_hi c \<noteq> nhi
          then map_option (\<lambda>(s, _). c\<lparr>tc_nsec_hi := nhi, tc_str := s\<rparr>) (u64tod (ucast nhi) 5 0x30 (tc_str c, 12))
          else Some c);
     map_option (\<lambda>(s, _). c\<lparr>tc_str := s\<rparr>) (u64tod (ucast nlo) 4 0x30 (tc_str c, 17))
   }"

section \<open>Headers\<close>

text \<open>The strings of a record are pointers until they are printed.\<close>

datatype str_ptr = Literal string | In_record nat | In_memory u64

record rec_data =
  rx_record :: log_record
  rx_area :: string
  rx_sect :: string
  rx_ring :: string
  rx_str :: "nat \<Rightarrow> str_ptr"
  rx_next :: nat

record format_basic =
  fb_fields :: u32
  fb_last :: timestamp
  fb_cache :: tscache

definition fb_new :: "u32 \<Rightarrow> format_basic" where
  "fb_new flds = \<lparr>fb_fields = flds, fb_last = from_nsec 0, fb_cache = tc_new\<rparr>"

text \<open>Local time: month from zero, day, year since 1900, hour, minute, second.\<close>

record tm =
  tm_mon :: nat
  tm_mday :: nat
  tm_year :: nat
  tm_hour :: nat
  tm_min :: nat
  tm_sec :: nat

definition out_text :: "'a flusher \<Rightarrow> string \<Rightarrow> 'a ostrbuf_scheme \<Rightarrow> 'a ostrbuf_scheme" where
  "out_text f s sb = fold (ob_push_char f) s sb"

definition date_text :: "tm \<Rightarrow> timespec \<Rightarrow> string" where
  "date_text tm ts =
     pad0 2 (tm_mon tm + 1) @ pad0 2 (tm_mday tm) @ pad0 4 (1900 + tm_year tm) @ '' '' @ pad0 2 (tm_hour tm) @ '':''
     @ pad0 2 (tm_min tm) @ '':'' @ pad0 2 (tm_sec tm) @ ''.'' @ pad0 9 (unat (tv_nsec ts))"

definition default_header :: "'a flusher \<Rightarrow> (u64 \<Rightarrow> tm) \<Rightarrow> rec_data \<Rightarrow> 'a ostrbuf_scheme \<Rightarrow> 'a ostrbuf_scheme" where
  "default_header f localtime d sb =
     (let r = rx_record d; ts = to_timespec (r_timestamp r)
      in out_text f (date_text (localtime (tv_sec ts)) ts @ '' '' @ rx_ring d @ '':'' @ dec (unat (r_seqnum r)) @ '' ''
           @ rx_area d @ '':'' @ rx_sect d @ '' '') sb)"

text \<open>Filling the array on the stack: \<open>memcpy\<close> and single characters at the index.\<close>

definition put :: "bytes \<Rightarrow> bytes \<times> nat \<Rightarrow> (bytes \<times> nat) option" where
  "put x s = (case s of (str, i) \<Rightarrow> map_option (\<lambda>str. (str, i + length x)) (poke str i x))"

definition put_names :: "rec_data \<Rightarrow> bytes \<times> nat \<Rightarrow> (bytes \<times> nat) option" where
  "put_names d s = do {
     s \<leftarrow> put (str_bytes (rx_ring d)) s;
     s \<leftarrow> put (str_bytes '':'') s;
     s \<leftarrow> u64tod (ucast (r_seqnum (rx_record d))) 0 0x30 s;
     s \<leftarrow> put (str_bytes '' '') s;
     s \<leftarrow> put (str_bytes (rx_area d)) s;
     s \<leftarrow> put (str_bytes '':'') s;
     s \<leftarrow> put (str_bytes (rx_sect d)) s;
     put (str_bytes '' '') s
   }"

definition fast0_header :: "'a flusher \<Rightarrow> rec_data \<Rightarrow> format_basic \<Rightarrow> 'a ostrbuf_scheme \<Rightarrow> (format_basic \<times> 'a ostrbuf_scheme) option" where
  "fast0_header f d fb sb = do {
     let hlen = (length (rx_area d) + length (rx_sect d) + length (rx_ring d) + 6 + 3 * 20) mod 2 ^ 32;
     c \<leftarrow> tc_update (r_timestamp (rx_record d)) (fb_cache fb);
     s \<leftarrow> put (take 21 (tc_str c)) (replicate hlen 0, 0);
     s \<leftarrow> put (str_bytes '' '') s;
     (str, i) \<leftarrow> put_names d s;
     Some (fb\<lparr>fb_cache := c\<rparr>, ob_push f (take i str) sb)
   }"

definition time_delta :: "timestamp \<Rightarrow> format_basic \<Rightarrow> timestamp" where
  "time_delta t fb = (if ts_eq (fb_last fb) (from_nsec 0) then from_nsec 0 else ts_diff t (fb_last fb))"

definition fast1_header :: "'a flusher \<Rightarrow> rec_data \<Rightarrow> format_basic \<Rightarrow> 'a ostrbuf_scheme \<Rightarrow> (format_basic \<times> 'a ostrbuf_scheme) option" where
  "fast1_header f d fb sb = do {
     let t = r_timestamp (rx_record d);
     let delta = time_delta t fb;
     let fb = fb\<lparr>fb_last := t\<rparr>;
     let hlen = (length (rx_area d) + length (rx_sect d) + length (rx_ring d) + 9 + 4 * 20) mod 2 ^ 32;
     c \<leftarrow> tc_update t (fb_cache fb);
     s \<leftarrow> put (take 21 (tc_str c)) (replicate hlen 0, 0);
     s \<leftarrow> put (str_bytes '' '') s;
     s \<leftarrow> put (str_bytes ''('') s;
     s \<leftarrow> u64tod (to_nsec delta) 0 0x30 s;
     s \<leftarrow> put (str_bytes '')'') s;
     s \<leftarrow> put (str_bytes '' '') s;
     (str, i) \<leftarrow> put_names d s;
     Some (fb\<lparr>fb_cache := c\<rparr>, ob_push f (take i str) sb)
   }"

definition ring_field :: "u32 \<Rightarrow> rec_data \<Rightarrow> string" where
  "ring_field flds d =
     (let m = flds AND (F_RING OR F_SEQNUM); sq = dec (unat (r_seqnum (rx_record d)))
      in if m = F_RING OR F_SEQNUM then rx_ring d @ '':'' @ sq @ '' ''
         else if m = F_RING then rx_ring d @ '' ''
         else if m = F_SEQNUM then sq @ '' '' else [])"

definition area_field :: "u32 \<Rightarrow> rec_data \<Rightarrow> string" where
  "area_field flds d =
     (let m = flds AND (F_AREA OR F_SECTION)
      in if m = F_AREA OR F_SECTION then rx_area d @ '':'' @ rx_sect d @ '' ''
         else if m = F_AREA then rx_area d @ '' ''
         else if m = F_SECTION then rx_sect d @ '' '' else [])"

definition flexi_header :: "'a flusher \<Rightarrow> (u64 \<Rightarrow> tm) \<Rightarrow> rec_data \<Rightarrow> format_basic \<Rightarrow> 'a ostrbuf_scheme \<Rightarrow> (format_basic \<times> 'a ostrbuf_scheme) option" where
  "flexi_header f localtime d fb sb = do {
     let flds = fb_fields fb;
     let t = r_timestamp (rx_record d);
     let ts = to_timespec t;
     (fb, sb) \<leftarrow> (if flds AND F_TIMESPEC \<noteq> 0
       then do {
         c \<leftarrow> tc_update t (fb_cache fb);
         Some (fb\<lparr>fb_cache := c\<rparr>, ob_push_char f CHR '' '' (ob_push f (take 21 (tc_str c)) sb)) }
       else Some (fb, sb));
     let sb = (if flds AND F_TIMESTAMP \<noteq> 0 then out_text f (date_text (localtime (tv_sec ts)) ts @ '' '') sb else sb);
     let (fb, sb) = (if flds AND F_TIMEDELTA \<noteq> 0
       then (fb\<lparr>fb_last := t\<rparr>, out_text f (''('' @ dec (unat (to_nsec (time_delta t fb))) @ '') '') sb)
       else (fb, sb));
     let sb = out_text f (ring_field flds d) sb;
     let sb = out_text f (area_field flds d) sb;
     Some (fb, sb)
   }"

section \<open>The cache is exact\<close>

text \<open>Decimal digits of a fixed width; the reference of the time text.\<close>

fun fixw :: "nat \<Rightarrow> nat \<Rightarrow> string" where
  "fixw 0 n = []"
| "fixw (Suc w) n = fixw w (n div 10) @ [digit (n mod 10)]"

definition ts_text :: "timestamp \<Rightarrow> string" where
  "ts_text t = pad0 11 (unat t div 10 ^ 9) @ ''.'' @ pad0 9 (unat t mod 10 ^ 9)"

lemma length_fixw [simp]: "length (fixw w n) = w"
  by (induction w arbitrary: n) simp_all

lemma digit_0: "digit 0 = CHR ''0''"
  by code_simp

lemma fixw_0: "fixw w 0 = replicate w CHR ''0''"
  by (induction w) (simp_all add: digit_0 replicate_append_same)

lemma pad0_fixw:
  assumes "0 < w" and "n < 10 ^ w"
  shows "pad0 w n = fixw w n"
  using assms
proof (induction w arbitrary: n)
  case (Suc w)
  show ?case
  proof (cases "n < 10")
    case True
    then show ?thesis by (simp add: num_of.simps pad_left_def fixw_0)
  next
    case False
    then have w: "0 < w" using Suc.prems(2) by (cases w) auto
    have "n div 10 < 10 ^ w" using Suc.prems(2) by (simp add: div_less_iff_less_mult mult.commute)
    with Suc.IH [OF w] False show ?thesis by (subst num_of.simps) (simp add: pad_left_def)
  qed
qed simp

lemma fixw_split: "fixw (a + b) n = fixw a (n div 10 ^ b) @ fixw b (n mod 10 ^ b)"
proof (induction b arbitrary: n)
  case (Suc b)
  have "n mod (10 * 10 ^ b) div 10 = n div 10 mod 10 ^ b" "n mod (10 * 10 ^ b) mod 10 = n mod 10"
    by (simp_all add: mod_mult2_eq)
  then show ?case using Suc.IH [of "n div 10"] by (simp add: div_mult2_eq)
qed simp

lemma u64tod_fixed:
  assumes "0 < w" and "w \<le> 32" and "unat v < 10 ^ w" and "i + w \<le> length str"
  shows "u64tod v w 0x30 (str, i) = Some (take i str @ str_bytes (fixw w (unat v)) @ drop (i + w) str, i + w)"
proof -
  have "length (dec (unat v)) \<le> w" using assms(1,3) length_num_of [of 10 w "unat v"] by simp
  moreover have "(0x30 :: u8) = of_char CHR ''0''" by simp
  ultimately show ?thesis
    using u64tod_ok [of w i v str "CHR ''0''"] assms pad0_fixw [OF assms(1,3)] by (simp add: poke_def max_def)
qed

definition tc_ok :: "tscache \<Rightarrow> bool" where
  "tc_ok c \<longleftrightarrow> length (tc_str c) = 21 \<and> take 17 (tc_str c) = str_bytes (fixw 11 (unat (tc_sec c)) @ ''.'' @ fixw 5 (unat (tc_nsec_hi c)))"

lemma tc_new_ok: "tc_ok tc_new"
  by code_simp

lemma tc_ok_parts:
  assumes "tc_ok c"
  obtains lo where "tc_str c = str_bytes (fixw 11 (unat (tc_sec c))) @ 0x2e # str_bytes (fixw 5 (unat (tc_nsec_hi c))) @ lo" "length lo = 4"
proof -
  have t: "take 17 (tc_str c) = str_bytes (fixw 11 (unat (tc_sec c))) @ 0x2e # str_bytes (fixw 5 (unat (tc_nsec_hi c)))"
    "length (tc_str c) = 21" using assms by (simp_all add: tc_ok_def)
  show thesis
  proof (rule that)
    show "tc_str c = str_bytes (fixw 11 (unat (tc_sec c))) @ 0x2e # str_bytes (fixw 5 (unat (tc_nsec_hi c))) @ drop 17 (tc_str c)"
      using append_take_drop_id [of 17 "tc_str c"] t(1) by simp
  qed (use t(2) in simp)
qed

text \<open>
  Whatever the cache holds, after an update its text is the time of the timestamp and the
  cache is consistent again.
\<close>

lemma tc_update_ok:
  assumes "tc_ok c"
  obtains c' where "tc_update t c = Some c'" "tc_ok c'" "tc_str c' = str_bytes (ts_text t)"
proof -
  let ?sec = "tv_sec (to_timespec t)" and ?ns = "tv_nsec (to_timespec t)"
  define hi lo where "hi = (ucast (?ns div 10000) :: u32)" and "lo = (ucast (?ns mod 10000) :: u32)"
  have sec: "unat ?sec = unat t div 10 ^ 9" and ns: "unat ?ns = unat t mod 10 ^ 9"
    by (simp_all add: to_timespec_def nsec_per_sec_def unat_div unat_mod)
  have "unat t < 2 ^ 64" using unat_less [of t] by simp
  then have sb: "unat ?sec < 10 ^ 11" using sec by (simp add: div_less_iff_less_mult)
  have nb: "unat ?ns < 10 ^ 9" using ns by simp
  then have "unat ?ns div 10000 < 10 ^ 5" by (simp add: div_less_iff_less_mult)
  then have hi: "unat hi = unat ?ns div 10 ^ 4" "unat hi < 10 ^ 5"
    by (simp_all add: hi_def unsigned_ucast_eq unat_div take_bit_nat_eq_self)
  have lo: "unat lo = unat ?ns mod 10 ^ 4" "unat lo < 10 ^ 4"
    by (simp_all add: lo_def unsigned_ucast_eq unat_mod take_bit_nat_eq_self)
  obtain l where l: "tc_str c = str_bytes (fixw 11 (unat (tc_sec c))) @ 0x2e # str_bytes (fixw 5 (unat (tc_nsec_hi c))) @ l" "length l = 4"
    by (rule tc_ok_parts [OF assms])
  define c1 where "c1 = c\<lparr>tc_sec := ?sec, tc_str := str_bytes (fixw 11 (unat ?sec)) @ 0x2e # str_bytes (fixw 5 (unat (tc_nsec_hi c))) @ l\<rparr>"
  define c2 where "c2 = c1\<lparr>tc_nsec_hi := hi, tc_str := str_bytes (fixw 11 (unat ?sec)) @ 0x2e # str_bytes (fixw 5 (unat hi)) @ l\<rparr>"
  define c3 where "c3 = c2\<lparr>tc_str := str_bytes (fixw 11 (unat ?sec)) @ 0x2e # str_bytes (fixw 5 (unat hi)) @ str_bytes (fixw 4 (unat lo))\<rparr>"
  have s1: "(if tc_sec c \<noteq> ?sec then map_option (\<lambda>(s, _). c\<lparr>tc_sec := ?sec, tc_str := s\<rparr>) (u64tod ?sec 11 0x30 (tc_str c, 0)) else Some c) = Some c1"
    using u64tod_fixed [of 11 ?sec 0 "tc_str c"] sb l by (simp add: c1_def)
  have s2: "(if tc_nsec_hi c1 \<noteq> hi then map_option (\<lambda>(s, _). c1\<lparr>tc_nsec_hi := hi, tc_str := s\<rparr>) (u64tod (ucast hi) 5 0x30 (tc_str c1, 12)) else Some c1) = Some c2"
    using u64tod_fixed [of 5 "ucast hi" 12 "tc_str c1"] hi l by (simp add: c1_def c2_def unsigned_ucast_eq take_bit_nat_eq_self)
  have s3: "map_option (\<lambda>(s, _). c2\<lparr>tc_str := s\<rparr>) (u64tod (ucast lo) 4 0x30 (tc_str c2, 17)) = Some c3"
    using u64tod_fixed [of 4 "ucast lo" 17 "tc_str c2"] lo l by (simp add: c2_def c3_def unsigned_ucast_eq take_bit_nat_eq_self)
  have "tc_update t c = Some c3"
    by (simp only: tc_update_def Let_def hi_def [symmetric] lo_def [symmetric] s1 s2 s3 bind.bind_lunit)
  moreover have "tc_ok c3" by (simp add: tc_ok_def c3_def c2_def c1_def)
  moreover have "ts_text t = fixw 11 (unat ?sec) @ ''.'' @ fixw 5 (unat hi) @ fixw 4 (unat lo)"
    using pad0_fixw [of 11 "unat ?sec"] pad0_fixw [of 9 "unat ?ns"] fixw_split [of 5 4 "unat ?ns"] sb nb sec ns hi(1) lo(1)
    by (simp add: ts_text_def)
  ultimately show thesis by (intro that [of c3]) (simp_all add: c3_def)
qed

section \<open>The headers\<close>

text \<open>A buffer of \<open>n\<close> bytes that is filled with \<open>d\<close>.\<close>

definition filled :: "nat \<Rightarrow> bytes \<Rightarrow> bytes \<times> nat \<Rightarrow> bool" where
  "filled n d s \<longleftrightarrow> length (fst s) = n \<and> snd s = length d \<and> take (length d) (fst s) = d"

text \<open>A step that appends \<open>x\<close> to such a buffer whenever there is room.\<close>

definition fills :: "(bytes \<times> nat \<Rightarrow> (bytes \<times> nat) option) \<Rightarrow> bytes \<Rightarrow> bool" where
  "fills g x \<longleftrightarrow> (\<forall>n d s. filled n d s \<longrightarrow> length d + length x \<le> n \<longrightarrow> (\<exists>s'. g s = Some s' \<and> filled n (d @ x) s'))"

lemma fills_poke: "fills (\<lambda>(str, i). map_option (\<lambda>str. (str, i + length x)) (poke str i x)) x"
  unfolding fills_def filled_def by (auto simp: poke_def)

lemma fills_put: "fills (put x) x"
proof -
  have "put x = (\<lambda>(str, i). map_option (\<lambda>str. (str, i + length x)) (poke str i x))" by (rule ext) (simp add: put_def)
  then show ?thesis using fills_poke [of x] by simp
qed

lemma fills_bind: "fills g x \<Longrightarrow> fills h y \<Longrightarrow> fills (\<lambda>s. Option.bind (g s) h) (x @ y)"
  unfolding fills_def
proof (intro allI impI)
  fix n d s
  assume g: "\<forall>n d s. filled n d s \<longrightarrow> length d + length x \<le> n \<longrightarrow> (\<exists>s'. g s = Some s' \<and> filled n (d @ x) s')"
    and h: "\<forall>n d s. filled n d s \<longrightarrow> length d + length y \<le> n \<longrightarrow> (\<exists>s'. h s = Some s' \<and> filled n (d @ y) s')"
    and s: "filled n d s" "length d + length (x @ y) \<le> n"
  obtain s1 where s1: "g s = Some s1" "filled n (d @ x) s1" using g s by fastforce
  then obtain s2 where "h s1 = Some s2" "filled n ((d @ x) @ y) s2" using h s(2) by fastforce
  with s1 show "\<exists>s'. Option.bind (g s) h = Some s' \<and> filled n (d @ x @ y) s'" by simp
qed

lemma fills_u64tod: "fills (u64tod v 0 0x30) (str_bytes (dec (unat v)))"
  unfolding fills_def
proof (intro allI impI)
  fix n d s assume f: "filled n d s" "length d + length (str_bytes (dec (unat v))) \<le> n"
  have "snd s = length d" "length (fst s) = n" using f(1) by (simp_all add: filled_def)
  then have "u64tod v 0 (of_char CHR ''0'') (fst s, snd s)
      = map_option (\<lambda>str. (str, snd s + length (dec (unat v)))) (poke (fst s) (snd s) (str_bytes (dec (unat v))))"
    using u64tod_ok [of 0 "snd s" v "fst s" "CHR ''0''"] f(2) by (simp add: pad_left_def)
  with fills_poke [of "str_bytes (dec (unat v))"] f show "\<exists>s'. u64tod v 0 0x30 s = Some s' \<and> filled n (d @ str_bytes (dec (unat v))) s'"
    by (cases s) (fastforce simp: fills_def)
qed

definition names_text :: "rec_data \<Rightarrow> string" where
  "names_text d = rx_ring d @ '':'' @ dec (unat (r_seqnum (rx_record d))) @ '' '' @ rx_area d @ '':'' @ rx_sect d @ '' ''"

lemma dec_word_length: "length (dec (unat (v :: u64))) \<le> 20"
  using length_num_of [of 10 20 "unat v"] unat_less [of v] by simp

lemma unat_seqnum: "unat (ucast (w :: 52 word) :: u64) = unat w"
  using unat_less [of w] by (simp add: unsigned_ucast_eq take_bit_nat_eq_self)

lemma fills_names: "fills (put_names d) (str_bytes (names_text d))"
proof -
  have "fills (u64tod (ucast (r_seqnum (rx_record d))) 0 0x30) (str_bytes (dec (unat (r_seqnum (rx_record d)))))"
    using fills_u64tod [of "ucast (r_seqnum (rx_record d))"] by (simp add: unat_seqnum)
  then show ?thesis
    unfolding put_names_def names_text_def str_bytes_simps(3)
    by (intro fills_bind fills_put)
qed

lemma filled_start: "filled n [] (replicate n 0, 0)"
  by (simp add: filled_def)

lemma fills_from_start:
  assumes "fills g x" and "length x \<le> n"
  obtains str where "g (replicate n 0, 0) = Some (str, length x)" "take (length x) str = x"
proof -
  obtain s' where s': "g (replicate n 0, 0) = Some s'" "filled n x s'"
    using assms filled_start [of n] unfolding fills_def by fastforce
  then show thesis by (intro that [of "fst s'"]) (auto simp: filled_def intro: prod_eqI)
qed

text \<open>The text of both fast headers.\<close>

definition fast_text :: "rec_data \<Rightarrow> string \<Rightarrow> string" where
  "fast_text d delta = ts_text (r_timestamp (rx_record d)) @ '' '' @ delta @ names_text d"

lemma length_ts_text: "length (ts_text t) = 21"
proof -
  have "unat t < 2 ^ 64" using unat_less [of t] by simp
  then have "unat t div 10 ^ 9 < 10 ^ 11" by (simp add: div_less_iff_less_mult)
  then show ?thesis using length_pad0 [of 11 "unat t div 10 ^ 9"] length_pad0 [of 9 "unat t mod 10 ^ 9"] by (simp add: ts_text_def)
qed

lemma names_length: "length (names_text d) \<le> length (rx_ring d) + length (rx_area d) + length (rx_sect d) + 24"
proof -
  have "length (dec (unat (r_seqnum (rx_record d)))) \<le> 20"
    using dec_word_length [of "ucast (r_seqnum (rx_record d))"] by (simp add: unat_seqnum)
  then show ?thesis by (simp add: names_text_def)
qed

lemma fast0_header_text:
  assumes "tc_ok (fb_cache fb)" and "length (rx_area d) + length (rx_sect d) + length (rx_ring d) < 2 ^ 31"
  obtains c where "fast0_header f d fb sb = Some (fb\<lparr>fb_cache := c\<rparr>, ob_push f (str_bytes (fast_text d '''')) sb)" "tc_ok c"
    "tc_update (r_timestamp (rx_record d)) (fb_cache fb) = Some c" "tc_str c = str_bytes (ts_text (r_timestamp (rx_record d)))"
proof -
  let ?n = "(length (rx_area d) + length (rx_sect d) + length (rx_ring d) + 6 + 3 * 20) mod 2 ^ 32"
  obtain c where c: "tc_update (r_timestamp (rx_record d)) (fb_cache fb) = Some c" "tc_ok c" "tc_str c = str_bytes (ts_text (r_timestamp (rx_record d)))"
    by (rule tc_update_ok [OF assms(1)])
  have n: "?n = length (rx_area d) + length (rx_sect d) + length (rx_ring d) + 66" using assms(2) by simp
  let ?g = "\<lambda>s. Option.bind (put (take 21 (tc_str c)) s) (\<lambda>s. Option.bind (put (str_bytes '' '') s) (put_names d))"
  have "fills ?g (take 21 (tc_str c) @ str_bytes '' '' @ str_bytes (names_text d))"
    by (intro fills_bind fills_put fills_names)
  moreover have "take 21 (tc_str c) @ str_bytes '' '' @ str_bytes (names_text d) = str_bytes (fast_text d '''')"
    using c(3) length_ts_text [of "r_timestamp (rx_record d)"] by (simp add: fast_text_def)
  ultimately have g: "fills ?g (str_bytes (fast_text d ''''))" by simp
  have "length (str_bytes (fast_text d '''')) \<le> ?n"
    unfolding n using names_length [of d] length_ts_text [of "r_timestamp (rx_record d)"] by (simp add: fast_text_def)
  from fills_from_start [OF g this] obtain str where
    "?g (replicate ?n 0, 0) = Some (str, length (str_bytes (fast_text d '''')))" "take (length (str_bytes (fast_text d ''''))) str = str_bytes (fast_text d '''')" .
  then show thesis using c by (intro that [of c]) (auto simp: fast0_header_def bind_eq_Some_conv)
qed

definition delta_text :: "rec_data \<Rightarrow> format_basic \<Rightarrow> string" where
  "delta_text d fb = ''('' @ dec (unat (to_nsec (time_delta (r_timestamp (rx_record d)) fb))) @ '') ''"

lemma fast1_header_text:
  assumes "tc_ok (fb_cache fb)" and "length (rx_area d) + length (rx_sect d) + length (rx_ring d) < 2 ^ 31"
  obtains c where "fast1_header f d fb sb
      = Some (fb\<lparr>fb_last := r_timestamp (rx_record d), fb_cache := c\<rparr>, ob_push f (str_bytes (fast_text d (delta_text d fb))) sb)"
    "tc_ok c" "tc_update (r_timestamp (rx_record d)) (fb_cache fb) = Some c" "tc_str c = str_bytes (ts_text (r_timestamp (rx_record d)))"
proof -
  let ?n = "(length (rx_area d) + length (rx_sect d) + length (rx_ring d) + 9 + 4 * 20) mod 2 ^ 32"
  let ?v = "to_nsec (time_delta (r_timestamp (rx_record d)) fb)" and ?x = "str_bytes (fast_text d (delta_text d fb))"
  obtain c where c: "tc_update (r_timestamp (rx_record d)) (fb_cache fb) = Some c" "tc_ok c" "tc_str c = str_bytes (ts_text (r_timestamp (rx_record d)))"
    by (rule tc_update_ok [OF assms(1)])
  have n: "?n = length (rx_area d) + length (rx_sect d) + length (rx_ring d) + 89" using assms(2) by simp
  let ?g = "\<lambda>s. Option.bind (put (take 21 (tc_str c)) s) (\<lambda>s. Option.bind (put (str_bytes '' '') s) (\<lambda>s. Option.bind (put (str_bytes ''('') s)
    (\<lambda>s. Option.bind (u64tod ?v 0 0x30 s) (\<lambda>s. Option.bind (put (str_bytes '')'') s) (\<lambda>s. Option.bind (put (str_bytes '' '') s) (put_names d))))))"
  have "fills ?g (take 21 (tc_str c) @ str_bytes '' '' @ str_bytes ''('' @ str_bytes (dec (unat ?v)) @ str_bytes '')'' @ str_bytes '' '' @ str_bytes (names_text d))"
    by (intro fills_bind fills_put fills_names fills_u64tod)
  moreover have "take 21 (tc_str c) @ str_bytes '' '' @ str_bytes ''('' @ str_bytes (dec (unat ?v)) @ str_bytes '')'' @ str_bytes '' '' @ str_bytes (names_text d) = ?x"
    using c(3) length_ts_text [of "r_timestamp (rx_record d)"] by (simp add: fast_text_def delta_text_def)
  ultimately have g: "fills ?g ?x" by simp
  have "length ?x \<le> ?n"
    unfolding n using names_length [of d] length_ts_text [of "r_timestamp (rx_record d)"] dec_word_length [of ?v]
    by (simp add: fast_text_def delta_text_def)
  from fills_from_start [OF g this] obtain str where "?g (replicate ?n 0, 0) = Some (str, length ?x)" "take (length ?x) str = ?x" .
  then show thesis using c by (intro that [of c]) (auto simp: fast1_header_def bind_eq_Some_conv Let_def)
qed

lemma out_text_pushes: "pushes (out_text f s) (ob_push f) (str_bytes s)"
proof -
  have "out_text f s sb = fold (ob_push f) (map (\<lambda>c. [of_char c]) s) sb" for sb
    unfolding out_text_def by (induction s arbitrary: sb) (simp_all add: ob_push_char_def)
  moreover have "concat (map (\<lambda>c. [of_char c]) s) = str_bytes s" by (induction s) simp_all
  ultimately show ?thesis unfolding pushes_def by blast
qed

lemma push_char_pushes: "pushes (ob_push_char f c) (ob_push f) [of_char c]"
  unfolding ob_push_char_def by (rule pushes_push)

lemma field_masks:
  "F_FAST0 AND F_TIMESPEC \<noteq> 0" "F_FAST0 AND F_TIMESTAMP = 0" "F_FAST0 AND F_TIMEDELTA = 0"
  "F_FAST1 AND F_TIMESPEC \<noteq> 0" "F_FAST1 AND F_TIMESTAMP = 0" "F_FAST1 AND F_TIMEDELTA \<noteq> 0"
  by (simp_all add: F_FAST0_def F_FAST1_def)

lemma fast_fields: "flds = F_FAST0 \<or> flds = F_FAST1 \<Longrightarrow> str_bytes (ring_field flds d) @ str_bytes (area_field flds d) = str_bytes (names_text d)"
  by (auto simp: ring_field_def area_field_def names_text_def F_FAST0_def F_FAST1_def Let_def)

lemma flexi_fast0:
  assumes "fb_fields fb = F_FAST0" and "tc_update (r_timestamp (rx_record d)) (fb_cache fb) = Some c"
    and "tc_str c = str_bytes (ts_text (r_timestamp (rx_record d)))"
  obtains g where "\<And>sb. flexi_header f localtime d fb sb = Some (fb\<lparr>fb_cache := c\<rparr>, g sb)" "pushes g (ob_push f) (str_bytes (fast_text d ''''))"
proof -
  let ?g = "\<lambda>sb. out_text f (area_field F_FAST0 d) (out_text f (ring_field F_FAST0 d) (ob_push_char f CHR '' '' (ob_push f (take 21 (tc_str c)) sb)))"
  have "pushes ?g (ob_push f) (((take 21 (tc_str c) @ [of_char CHR '' '']) @ str_bytes (ring_field F_FAST0 d)) @ str_bytes (area_field F_FAST0 d))"
    by (intro pushes_comp [of _ _ _ "\<lambda>sb. out_text f (area_field F_FAST0 d) sb"] pushes_comp [of _ _ _ "\<lambda>sb. out_text f (ring_field F_FAST0 d) sb"]
        pushes_comp [of _ _ _ "\<lambda>sb. ob_push_char f CHR '' '' sb"] pushes_push push_char_pushes out_text_pushes)
  moreover have "((take 21 (tc_str c) @ [of_char CHR '' '']) @ str_bytes (ring_field F_FAST0 d)) @ str_bytes (area_field F_FAST0 d) = str_bytes (fast_text d '''')"
    using fast_fields [of F_FAST0 d] assms(3) length_ts_text [of "r_timestamp (rx_record d)"]
    by (simp add: fast_text_def)
  ultimately have "pushes ?g (ob_push f) (str_bytes (fast_text d ''''))" by simp
  moreover have "flexi_header f localtime d fb sb = Some (fb\<lparr>fb_cache := c\<rparr>, ?g sb)" for sb
    using assms(1,2) field_masks by (simp add: flexi_header_def Let_def)
  ultimately show thesis by (intro that [of ?g])
qed

lemma flexi_fast1:
  assumes "fb_fields fb = F_FAST1" and "tc_update (r_timestamp (rx_record d)) (fb_cache fb) = Some c"
    and "tc_str c = str_bytes (ts_text (r_timestamp (rx_record d)))"
  obtains g where "\<And>sb. flexi_header f localtime d fb sb = Some (fb\<lparr>fb_last := r_timestamp (rx_record d), fb_cache := c\<rparr>, g sb)"
    "pushes g (ob_push f) (str_bytes (fast_text d (delta_text d fb)))"
proof -
  let ?g = "\<lambda>sb. out_text f (area_field F_FAST1 d) (out_text f (ring_field F_FAST1 d) (out_text f (delta_text d fb)
    (ob_push_char f CHR '' '' (ob_push f (take 21 (tc_str c)) sb))))"
  have "pushes ?g (ob_push f) ((((take 21 (tc_str c) @ [of_char CHR '' '']) @ str_bytes (delta_text d fb)) @ str_bytes (ring_field F_FAST1 d)) @ str_bytes (area_field F_FAST1 d))"
    by (intro pushes_comp [of _ _ _ "\<lambda>sb. out_text f (area_field F_FAST1 d) sb"] pushes_comp [of _ _ _ "\<lambda>sb. out_text f (ring_field F_FAST1 d) sb"]
        pushes_comp [of _ _ _ "\<lambda>sb. out_text f (delta_text d fb) sb"]
        pushes_comp [of _ _ _ "\<lambda>sb. ob_push_char f CHR '' '' sb"] pushes_push push_char_pushes out_text_pushes)
  moreover have "(((take 21 (tc_str c) @ [of_char CHR '' '']) @ str_bytes (delta_text d fb)) @ str_bytes (ring_field F_FAST1 d)) @ str_bytes (area_field F_FAST1 d)
      = str_bytes (fast_text d (delta_text d fb))"
    using fast_fields [of F_FAST1 d] assms(3) length_ts_text [of "r_timestamp (rx_record d)"]
    by (simp add: fast_text_def)
  ultimately have "pushes ?g (ob_push f) (str_bytes (fast_text d (delta_text d fb)))" by simp
  moreover have "time_delta t (fb\<lparr>fb_cache := c\<rparr>) = time_delta t fb" for t by (simp add: time_delta_def)
  then have "flexi_header f localtime d fb sb = Some (fb\<lparr>fb_last := r_timestamp (rx_record d), fb_cache := c\<rparr>, ?g sb)" for sb
    using assms(1,2) field_masks by (simp add: flexi_header_def Let_def delta_text_def)
  ultimately show thesis by (intro that [of ?g])
qed

section \<open>Properties\<close>

text \<open>
  C19: the hand-written fast headers never leave their arrays and write exactly what the general
  header formatter writes for the same fields: the time with eleven digits of seconds and
  nine of nanoseconds, the optional time difference, ring, sequence number, area and
  section; both leave the formatter in the same state.
\<close>

theorem fast_headers_exact:
  assumes "tc_ok (fb_cache fb)" and "length (rx_area d) + length (rx_sect d) + length (rx_ring d) < 2 ^ 31"
    and "fb_fields fb = (if delta then F_FAST1 else F_FAST0)"
  shows "\<exists>fb' g. (if delta then fast1_header f d fb sb else fast0_header f d fb sb)
      = Some (fb', ob_push f (str_bytes (fast_text d (if delta then delta_text d fb else ''''))) sb)
    \<and> tc_ok (fb_cache fb') \<and> flexi_header f localtime d fb sb = Some (fb', g sb)
    \<and> pushes g (ob_push f) (str_bytes (fast_text d (if delta then delta_text d fb else '''')))"
proof (cases delta)
  case True
  obtain c where c: "fast1_header f d fb sb = Some (fb\<lparr>fb_last := r_timestamp (rx_record d), fb_cache := c\<rparr>, ob_push f (str_bytes (fast_text d (delta_text d fb))) sb)"
    "tc_ok c" "tc_update (r_timestamp (rx_record d)) (fb_cache fb) = Some c" "tc_str c = str_bytes (ts_text (r_timestamp (rx_record d)))"
    by (rule fast1_header_text [OF assms(1,2)])
  have "fb_fields fb = F_FAST1" using True assms(3) by simp
  from flexi_fast1 [OF this c(3,4), of f localtime] obtain g where
    "flexi_header f localtime d fb sb = Some (fb\<lparr>fb_last := r_timestamp (rx_record d), fb_cache := c\<rparr>, g sb)"
    "pushes g (ob_push f) (str_bytes (fast_text d (delta_text d fb)))" by metis
  with c(1,2) True show ?thesis
    by (intro exI [of _ "fb\<lparr>fb_last := r_timestamp (rx_record d), fb_cache := c\<rparr>"] exI [of _ g]) simp
next
  case False
  obtain c where c: "fast0_header f d fb sb = Some (fb\<lparr>fb_cache := c\<rparr>, ob_push f (str_bytes (fast_text d '''')) sb)"
    "tc_ok c" "tc_update (r_timestamp (rx_record d)) (fb_cache fb) = Some c" "tc_str c = str_bytes (ts_text (r_timestamp (rx_record d)))"
    by (rule fast0_header_text [OF assms(1,2)])
  have "fb_fields fb = F_FAST0" using False assms(3) by simp
  from flexi_fast0 [OF this c(3,4), of f localtime] obtain g where
    "flexi_header f localtime d fb sb = Some (fb\<lparr>fb_cache := c\<rparr>, g sb)" "pushes g (ob_push f) (str_bytes (fast_text d ''''))" by metis
  with c(1,2) False show ?thesis by (intro exI [of _ "fb\<lparr>fb_cache := c\<rparr>"] exI [of _ g]) simp
qed

theorem fast_headers_exact_witness:
  "let d = \<lparr>rx_record = \<lparr>r_area = 0, r_timestamp = 5000000042, r_seqnum = 7, r_section = 0, r_argtype = 0, r_argval = []\<rparr>,
             rx_area = ''NET'', rx_sect = ''INFO'', rx_ring = ''R'', rx_str = \<lambda>_. Literal '''', rx_next = 0\<rparr>
   in \<exists>fb'. fast0_header fd_do_flush d (fb_new F_FAST0) (fd_new True 1 0 100 (\<lambda>_. Complete))
     = Some (fb', ob_push fd_do_flush (str_bytes ''00000000005.000000042 R:7 NET:INFO '') (fd_new True 1 0 100 (\<lambda>_. Complete)))"
proof -
  let ?d = "\<lparr>rx_record = \<lparr>r_area = 0, r_timestamp = 5000000042, r_seqnum = 7, r_section = 0, r_argtype = 0, r_argval = []\<rparr>,
             rx_area = ''NET'', rx_sect = ''INFO'', rx_ring = ''R'', rx_str = \<lambda>_. Literal '''', rx_next = 0\<rparr>"
  have dg: "digit 2 = CHR ''2''" "digit 4 = CHR ''4''" "digit 5 = CHR ''5''" "digit 7 = CHR ''7''" by code_simp+
  have z: "replicate 10 CHR ''0'' = ''0000000000''" "replicate 7 CHR ''0'' = ''0000000''" by code_simp+
  have t: "fast_text ?d '''' = ''00000000005.000000042 R:7 NET:INFO ''"
    by (simp add: fast_text_def ts_text_def names_text_def pad_left_def num_of.simps dg z)
  have "tc_ok (fb_cache (fb_new F_FAST0))" "fb_fields (fb_new F_FAST0) = (if False then F_FAST1 else F_FAST0)"
    using tc_new_ok by (simp_all add: fb_new_def)
  from fast_headers_exact [OF this(1) _ this(2), of ?d fd_do_flush "fd_new True 1 0 100 (\<lambda>_. Complete)"] t show ?thesis
    by (auto simp: Let_def)
qed

end
