(* ===== verification/Tools.thy ===== *)
theory Tools
  imports Cook Schedparam Recovery Dumps Format_Basic
begin

text \<open>
  The two command line tools from \<^verbatim>\<open>main\<close> on: \<^verbatim>\<open>hogl-cook\<close> (\<^verbatim>\<open>tools/cook.cc\<close>) and
  \<^verbatim>\<open>hogl-recover\<close> (\<^verbatim>\<open>tools/recover.cc\<close>), with the dumps of \<^verbatim>\<open>tools/recovery-engine.cc\<close> that the
  latter writes. The options come as \<^verbatim>\<open>getopt_long\<close> returns them, a letter and its argument. An early
  \<^verbatim>\<open>exit\<close> is \<open>Inl\<close> of its status. Plugins, files and the memory of the dead process are arguments.
\<close>

section \<open>The format\<close>

text \<open>What \<^verbatim>\<open>dlopen\<close>, \<^verbatim>\<open>dlsym\<close> and the plugin's \<^verbatim>\<open>create\<close> give for a file name.\<close>

record 'p plugins =
  pl_open :: "string \<Rightarrow> bool"
  pl_symbol :: "string \<Rightarrow> bool"
  pl_create :: "string \<Rightarrow> string option \<Rightarrow> 'p option"

datatype 'p tool_format = Basic_format format_basic | Plugin_format 'p

definition load_format :: "'p plugins \<Rightarrow> string option \<Rightarrow> string option \<Rightarrow> nat + 'p tool_format" where
  "load_format pl fmt_plugin log_format =
     (case fmt_plugin of
        Some so \<Rightarrow>
          if \<not> pl_open pl so then Inl 1
          else if \<not> pl_symbol pl so then Inl 1
          else (case pl_create pl so log_format of None \<Rightarrow> Inl 1 | Some f \<Rightarrow> Inr (Plugin_format f))
      | None \<Rightarrow> Inr (Basic_format (fb_new (parse_fields log_format))))"

section \<open>hogl-cook\<close>

record cook_cmd =
  cc_format :: "string option"
  cc_plugin :: "string option"
  cc_tailf :: bool
  cc_opts :: cook_opts

definition cook_cmd_new :: cook_cmd where
  "cook_cmd_new = \<lparr>cc_format = None, cc_plugin = None, cc_tailf = False, cc_opts = cook_defaults\<rparr>"

fun cook_getopt :: "(char \<times> string) list \<Rightarrow> cook_cmd \<Rightarrow> nat + cook_cmd" where
  "cook_getopt [] c = Inr c"
| "cook_getopt ((opt, optarg) # os) c =
     (if opt = CHR ''v'' then
        (case get_version optarg of
           None \<Rightarrow> Inl 1
         | Some v \<Rightarrow> cook_getopt os (c\<lparr>cc_opts := (cc_opts c)\<lparr>ck_version := v\<rparr>\<rparr>))
      else if opt = CHR ''f'' then cook_getopt os (c\<lparr>cc_format := Some optarg\<rparr>)
      else if opt = CHR ''p'' then cook_getopt os (c\<lparr>cc_plugin := Some optarg\<rparr>)
      else if opt = CHR ''t'' then cook_getopt os (c\<lparr>cc_tailf := True\<rparr>)
      else if opt = CHR ''M'' then
        cook_getopt os (c\<lparr>cc_opts := (cc_opts c)\<lparr>ck_max_record_size := ucast (fst (strtoull0 optarg))\<rparr>\<rparr>)
      else if opt = CHR ''R'' then
        cook_getopt os (c\<lparr>cc_opts := (cc_opts c)\<lparr>ck_min_valid_recs := ucast (fst (strtoull0 optarg))\<rparr>\<rparr>)
      else Inl 0)"

text \<open>
  The status and, when it got as far as processing, the state of the format and the output;
  \<open>start\<close> is the state for a format, \<open>open_in\<close> the file as it is opened for each attempt.
\<close>

definition cook_main ::
  "'p plugins \<Rightarrow> (string \<Rightarrow> bool \<Rightarrow> u64 \<Rightarrow> bool \<times> file_rdbuf) \<Rightarrow> (nat \<Rightarrow> u8) \<Rightarrow> bool \<times> bool \<Rightarrow> u64 \<Rightarrow> ('p tool_format \<Rightarrow> 'o)
    \<Rightarrow> (file_rdbuf raw_parser \<Rightarrow> 'o \<Rightarrow> 'o) \<Rightarrow> (char \<times> string) list \<Rightarrow> string list \<Rightarrow> (nat \<times> 'o option) option" where
  "cook_main pl open_in junk alloc area start proc os args =
     (case cook_getopt os cook_cmd_new of
        Inl st \<Rightarrow> Some (st, None)
      | Inr c \<Rightarrow>
          (case args of
             [] \<Rightarrow> Some (1, None)
           | infile # _ \<Rightarrow>
               (case load_format pl (cc_plugin c) (cc_format c) of
                  Inl st \<Rightarrow> Some (st, None)
                | Inr fmt \<Rightarrow> do {
                    (res, out) \<leftarrow> cook_process junk alloc area (cc_opts c) (open_in infile (cc_tailf c)) proc (start fmt);
                    Some (case res of Exit_error \<Rightarrow> 1 | _ \<Rightarrow> 0, Some out)
                  })))"

section \<open>hogl-recover\<close>

definition DUMP_ALL :: u32 where
  "DUMP_ALL = push_bit 0 1"

record recover_cmd =
  rc_format :: "string option"
  rc_plugin :: "string option"
  rc_dump_rings :: bool
  rc_dump_areas :: bool
  rc_flags :: u32

definition recover_cmd_new :: recover_cmd where
  "recover_cmd_new = \<lparr>rc_format = None, rc_plugin = None, rc_dump_rings = False, rc_dump_areas = False, rc_flags = 0\<rparr>"

fun recover_getopt :: "(char \<times> string) list \<Rightarrow> recover_cmd \<Rightarrow> nat + recover_cmd" where
  "recover_getopt [] c = Inr c"
| "recover_getopt ((opt, optarg) # os) c =
     (if opt = CHR ''f'' then recover_getopt os (c\<lparr>rc_format := Some optarg\<rparr>)
      else if opt = CHR ''p'' then recover_getopt os (c\<lparr>rc_plugin := Some optarg\<rparr>)
      else if opt = CHR ''A'' then recover_getopt os (c\<lparr>rc_dump_areas := True\<rparr>)
      else if opt = CHR ''R'' then recover_getopt os (c\<lparr>rc_dump_rings := True\<rparr>)
      else if opt = CHR ''a'' then recover_getopt os (c\<lparr>rc_flags := rc_flags c OR DUMP_ALL\<rparr>)
      else Inl 0)"

text \<open>Reading the recovered memory: strings, words, and the bytes of a buffer.\<close>

record core_mem =
  cm_str :: "u64 \<Rightarrow> string"
  cm_word :: "u64 \<Rightarrow> u64"
  cm_bytes :: "u64 \<Rightarrow> nat \<Rightarrow> bytes"

definition dump_rings :: "core_mem \<Rightarrow> recovery \<Rightarrow> string" where
  "dump_rings m rv = concat (map (\<lambda>p.
     let r = h_rings (rv_heap rv) p
     in ring_dump (\<lambda>ts. cm_str m (h_timesources (rv_heap rv) ts)) 0 ((cr_ring r)\<lparr>rb_name := cm_str m (cr_name r)\<rparr>)) (rv_rings rv))"

definition area_of :: "core_mem \<Rightarrow> heap \<Rightarrow> u64 \<Rightarrow> area" where
  "area_of m h p =
     (let a = h_areas h p
      in \<lparr>ar_name = cm_str m (ca_name a),
          ar_section = map (\<lambda>i. cm_str m (h_names h (ca_section a + 8 * word_of_nat i))) [0..<unat (ca_bm_size a)],
          ar_bitmap = \<lparr>bm_data = map (\<lambda>i. cm_word m (ca_bm_data a + 8 * word_of_nat i)) [0..<unat (bm_nwords (ca_bm_size a))],
            bm_size = ca_bm_size a\<rparr>\<rparr>)"

text \<open>A \<^verbatim>\<open>std::map\<close> with addresses as keys is iterated in the order of the addresses.\<close>

definition map_values :: "(u64 \<rightharpoonup> 'v) \<Rightarrow> 'v list" where
  "map_values m = map (\<lambda>k. the (m k)) (sorted_list_of_set (dom m))"

definition dump_areas :: "core_mem \<Rightarrow> recovery \<Rightarrow> string option" where
  "dump_areas m rv = map_option concat
     (those (map (\<lambda>a. if a = 0 then Some [] else area_dump 0 (area_of m (rv_heap rv) a)) (map_values (rv_areas rv))))"

definition frame :: string where
  "frame = ''#### #### #### ####'' @ endl"

definition dump_records_text :: "core_mem \<Rightarrow> (string \<Rightarrow> log_record \<Rightarrow> 'o \<Rightarrow> 'o \<times> string) \<Rightarrow> 'o \<Rightarrow> recovery \<Rightarrow> string option" where
  "dump_records_text m process st rv = do {
     es \<leftarrow> dump_records rv;
     let (_, t) = fold (\<lambda>(ring, r) (st, t). let (st, u) = process (cm_str m ring) r st in (st, t @ u)) es (st, []);
     Some (frame @ ''Dumping records from ring buffers:'' @ endl @ t @ frame @ endl)
   }"

definition byte_text :: "bytes \<Rightarrow> string" where
  "byte_text bs = map (\<lambda>b. char_of (unat b)) bs"

definition ostrbuf_dump_write :: "core_mem \<Rightarrow> bool \<Rightarrow> core_buf \<Rightarrow> string" where
  "ostrbuf_dump_write m all b = frame
     @ ''Dumping output buffer: capacity '' @ put_word (cb_capacity b) @ '' size '' @ put_word (cb_size b)
     @ '' failed '' @ dec (if cb_failed b then 1 else 0) @ '' data '' @ dec (if cb_data b \<noteq> 0 then 1 else 0) @ endl
     @ (if cb_failed b then cb_error b else '''')
     @ (if cb_data b \<noteq> 0 then byte_text (dump_outbuf (cm_bytes m) all b) else '''')
     @ frame @ endl"

definition dump_outbufs :: "core_mem \<Rightarrow> bool \<Rightarrow> recovery \<Rightarrow> string" where
  "dump_outbufs m all rv = concat (map (\<lambda>b.
     if b = 0 then '''' else ostrbuf_dump_write m all (h_bufs (rv_heap rv) b)) (map_values (rv_outbufs rv)))"

text \<open>
  \<open>open_bfd\<close> opens a file, \<open>objects\<close> is the memory of the dead process as the loaded chunks have it.
\<close>

definition recover_main ::
  "'p plugins \<Rightarrow> (string \<Rightarrow> (bool \<times> asection list) option) \<Rightarrow> (u64 \<Rightarrow> u64 \<Rightarrow> u64 option) \<Rightarrow> statics \<Rightarrow> (coredump \<Rightarrow> heap) \<Rightarrow> core_mem
    \<Rightarrow> ('p tool_format \<Rightarrow> 'o) \<Rightarrow> (string \<Rightarrow> log_record \<Rightarrow> 'o \<Rightarrow> 'o \<times> string) \<Rightarrow> (char \<times> string) list \<Rightarrow> string list \<Rightarrow> (nat \<times> string) option" where
  "recover_main pl open_bfd alloc st objects m start process os args =
     (case recover_getopt os recover_cmd_new of
        Inl s \<Rightarrow> Some (s, '''')
      | Inr c \<Rightarrow>
          (case args of
             [] \<Rightarrow> Some (1, '''')
           | corefile # rest \<Rightarrow> do {
               let execfile = (case rest of [x] \<Rightarrow> Some (open_bfd x) | _ \<Rightarrow> None);
               core \<leftarrow> coredump_new alloc (open_bfd corefile) execfile;
               if cd_failed core then Some (1, '''')
               else (case load_format pl (rc_plugin c) (rc_format c) of
                  Inl s \<Rightarrow> Some (s, '''')
                | Inr fmt \<Rightarrow> do {
                    let all = (rc_flags c AND DUMP_ALL \<noteq> 0);
                    rv \<leftarrow> recovery_engine_new st core all (objects core);
                    let rings = (if rc_dump_rings c then dump_rings m rv else '''');
                    areas \<leftarrow> (if rc_dump_areas c then dump_areas m rv else Some '''');
                    records \<leftarrow> (if \<not> rc_dump_rings c \<and> \<not> rc_dump_areas c
                      then map_option ((@) (dump_outbufs m all rv)) (dump_records_text m process (start fmt) rv)
                      else Some '''');
                    Some (0, rings @ areas @ records)
                  })
             }))"

section \<open>Options\<close>

text \<open>The argument of the last option with a letter.\<close>

definition last_arg :: "char \<Rightarrow> (char \<times> string) list \<Rightarrow> string option \<Rightarrow> string option" where
  "last_arg ch os dflt = fold (\<lambda>(opt, a) r. if opt = ch then Some a else r) os dflt"

lemma last_arg_simps [simp]:
  "last_arg ch [] d = d" "last_arg ch ((opt, a) # os) d = last_arg ch os (if opt = ch then Some a else d)"
  by (simp_all add: last_arg_def)

lemma DUMP_ALL_nonzero [simp]: "DUMP_ALL \<noteq> 0"
  by (simp add: DUMP_ALL_def)

text \<open>With known letters only, each setting says whether its letter was given, in whatever order.\<close>

abbreviation recover_letters :: "char set" where
  "recover_letters \<equiv> {CHR ''f'', CHR ''p'', CHR ''A'', CHR ''R'', CHR ''a''}"

lemma recover_getopt_spec:
  assumes "fst ` set os \<subseteq> recover_letters"
  shows "\<exists>c'. recover_getopt os c = Inr c'
    \<and> rc_format c' = last_arg CHR ''f'' os (rc_format c) \<and> rc_plugin c' = last_arg CHR ''p'' os (rc_plugin c)
    \<and> rc_dump_rings c' = (rc_dump_rings c \<or> CHR ''R'' \<in> fst ` set os)
    \<and> rc_dump_areas c' = (rc_dump_areas c \<or> CHR ''A'' \<in> fst ` set os)
    \<and> (rc_flags c' AND DUMP_ALL \<noteq> 0) = (rc_flags c AND DUMP_ALL \<noteq> 0 \<or> CHR ''a'' \<in> fst ` set os)"
  using assms
proof (induction os c rule: recover_getopt.induct)
  case (2 opt optarg os c)
  then have "opt = CHR ''f'' \<or> opt = CHR ''p'' \<or> opt = CHR ''A'' \<or> opt = CHR ''R'' \<or> opt = CHR ''a''" by auto
  with 2 show ?case by (elim disjE) (simp_all)
qed simp

text \<open>A letter that the tool does not know, or the one for help, ends it before any file is opened.\<close>

lemma recover_getopt_help: "opt \<in> fst ` set os \<Longrightarrow> opt \<notin> recover_letters \<Longrightarrow> recover_getopt os c = Inl 0"
proof (induction os c rule: recover_getopt.induct)
  case (2 opt' optarg os c)
  then have "opt = opt' \<or> opt \<in> fst ` set os" by auto
  with 2 show ?case by (elim disjE) simp_all
qed simp

lemma recover_main_help:
  assumes "opt \<in> fst ` set os" and "opt \<notin> recover_letters"
  shows "recover_main pl open_bfd alloc st objects m start process os args = Some (0, [])"
  by (simp add: recover_main_def recover_getopt_help [OF assms])

text \<open>
  The recovery tool from its command line on. For a core file that loads, and options it
  knows in any order and number, it ends with status 0 and writes exactly what was asked for: the rings
  when the letter \<open>R\<close> was given, then the areas when \<open>A\<close> was given, and only when neither was the
  output buffers followed by the records. The letter \<open>a\<close> selects all slots and whole buffers, and the
  format is the plugin or the fields named last.
\<close>

lemma recover_main_writes:
  fixes os :: "(char \<times> string) list"
  defines "L \<equiv> fst ` set os"
  assumes "L \<subseteq> recover_letters"
    and "coredump_new alloc (open_bfd corefile) None = Some core" and "\<not> cd_failed core"
    and "load_format pl (last_arg CHR ''p'' os None) (last_arg CHR ''f'' os None) = Inr fmt"
    and "recovery_engine_new st core (CHR ''a'' \<in> L) (objects core) = Some rv"
    and "dump_areas m rv = Some areas" and "dump_records_text m process (start fmt) rv = Some records"
  shows "recover_main pl open_bfd alloc st objects m start process os [corefile] = Some (0,
    (if CHR ''R'' \<in> L then dump_rings m rv else []) @ (if CHR ''A'' \<in> L then areas else [])
    @ (if CHR ''R'' \<in> L \<or> CHR ''A'' \<in> L then [] else dump_outbufs m (CHR ''a'' \<in> L) rv @ records))"
proof -
  from recover_getopt_spec [of os recover_cmd_new] assms(2) obtain c where "recover_getopt os recover_cmd_new = Inr c"
    "rc_format c = last_arg CHR ''f'' os None" "rc_plugin c = last_arg CHR ''p'' os None"
    "rc_dump_rings c = (CHR ''R'' \<in> L)" "rc_dump_areas c = (CHR ''A'' \<in> L)" "(rc_flags c AND DUMP_ALL \<noteq> 0) = (CHR ''a'' \<in> L)"
    unfolding L_def by (auto simp: recover_cmd_new_def)
  then show ?thesis
    using assms(3-) by (simp add: recover_main_def Let_def)
qed

section \<open>Properties\<close>

text \<open>
  C5: the raw log processor from its command line on. A log that the raw format wrote through a file
  stream without failures and short writes, of records whose names have 2 to 128 printable characters and
  whose values fit the format and the record size of the options (at least 160 bytes), is read
  back completely, however the reads are split: with any options that leave the version, and any
  format that loads, the tool ends with status 0 and has formatted exactly the logged records, in
  order, from the initial state of that format.
\<close>

theorem cook_main_formats_log:
  assumes cmd: "cook_getopt os cook_cmd_new = Inr c" "load_format pl (cc_plugin c) (cc_format c) = Inr fmt"
    and views: "list_all2 (\<lambda>d lv. data_view mem areas d = Some lv) ds lvs"
    and fits: "list_all (raw_ok (unat (ck_max_record_size (cc_opts c)) - 32)) lvs"
    and opts: "ck_version (cc_opts c) = V1_1" "160 \<le> unat (ck_max_record_size (cc_opts c))"
    and stream: "fd_complete s" "ob_buf s = []" "fd_sink s = []"
    and written: "raw_write_all fd_do_flush mem areas ds s = Some t" "\<not> ob_failed (ob_flush fd_do_flush t)"
    and input: "open_in infile (cc_tailf c) 0 = (True, src)" "rd_fine src" "rd_left src = fd_sink (ob_flush fd_do_flush t)"
  shows "cook_main pl open_in junk (True, True) area start (of_view F) os [infile] = Some (0, Some (fold F lvs (start fmt)))"
  using cmd cook_process_log [where open_at = "open_in infile (cc_tailf c)", OF views fits opts stream written input, of junk area F "start fmt"]
  by (simp add: cook_main_def)

definition no_plugins :: "unit plugins" where
  "no_plugins = \<lparr>pl_open = \<lambda>_. False, pl_symbol = \<lambda>_. False, pl_create = \<lambda>_ _. None\<rparr>"

theorem cook_main_formats_log_witness:
  "cook_main no_plugins (\<lambda>f _ _. (f = ''log'', demo_src)) (\<lambda>_. 0) (True, True) 4096 (\<lambda>_. []) (of_view (\<lambda>lv out. out @ [lv]))
    [(CHR ''M'', ''300''), (CHR ''f'', ''fast1'')] [''log''] = Some (0, Some [demo_view, demo_view])"
proof -
  let ?c = "\<lparr>cc_format = Some ''fast1'', cc_plugin = None, cc_tailf = False, cc_opts = demo_opts\<rparr>"
  have n: "fst (strtoull0 ''300'') = 300"
    by (simp add: strtoull0_def digit_value_def Let_def of_char_def)
  have c: "cook_getopt [(CHR ''M'', ''300''), (CHR ''f'', ''fast1'')] cook_cmd_new = Inr ?c"
    by (simp add: n cook_cmd_new_def cook_defaults_def demo_opts_def)
  have f: "load_format no_plugins (cc_plugin ?c) (cc_format ?c) = Inr (Basic_format (fb_new (parse_fields (Some ''fast1''))))"
    by (simp add: load_format_def)
  obtain t where t: "raw_write_all fd_do_flush demo_mem (\<lambda>_. None) [demo_data, demo_data] demo_stream = Some t"
    "\<not> ob_failed (ob_flush fd_do_flush t)" "rd_left demo_src = fd_sink (ob_flush fd_do_flush t)"
    by (rule demo_log_written)
  have o: "ck_version (cc_opts ?c) = V1_1" "160 \<le> unat (ck_max_record_size (cc_opts ?c))"
    "list_all (raw_ok (unat (ck_max_record_size (cc_opts ?c)) - 32)) [demo_view, demo_view]"
    using demo_raw_ok by (simp_all add: demo_opts_def)
  have i: "(\<lambda>f _ _. (f = ''log'', demo_src)) ''log'' (cc_tailf ?c) (0 :: u64) = (True, demo_src)" by simp
  show ?thesis
    using cook_main_formats_log [where open_in = "\<lambda>f _ _. (f = ''log'', demo_src)", OF c f demo_views o(3,1,2) demo_stream_ok t(1,2) i demo_src_fine t(3),
        of "\<lambda>_. 0" 4096 "\<lambda>_. []" "\<lambda>lv out. out @ [lv]"] by simp
qed

end
