(* ===== verification/Engine_Poll.thy ===== *)
theory Engine_Poll
  imports Engine
begin

text \<open>
  Correctness of one poll of the engine with timestamp ordering
  (\<^verbatim>\<open>engine::process_rings_tso\<close>): no buffer is overrun, and for every ring the records
  handed to the output are a prefix of the ring's contents, in order, each exactly once,
  while the rest stays in the ring. The proof follows the poll with an invariant over two
  ghost values: \<open>L i\<close>, the entries made so far for ring \<open>i\<close>, and \<open>F i\<close>, how many
  of them were flushed.
\<close>

section \<open>What flushing leaves unchanged\<close>

text \<open>Acknowledging a special record changes its argument storage; nothing else changes in a slot.\<close>

definition rec_sim :: "log_record \<Rightarrow> log_record \<Rightarrow> bool" where
  "rec_sim r r' \<longleftrightarrow> r' = r \<or> (is_special r \<and> r' = r\<lparr>r_argval := r_argval r'\<rparr> \<and> length (r_argval r') = length (r_argval r))"

definition ring_sim :: "ring \<Rightarrow> ring \<Rightarrow> bool" where
  "ring_sim rb rb' \<longleftrightarrow> rb' = rb\<lparr>rb_timesource := rb_timesource rb', rb_slots := rb_slots rb'\<rparr>
     \<and> list_all2 rec_sim (rb_slots rb) (rb_slots rb')"

definition heap_sim :: "(nat \<Rightarrow> ring option) \<Rightarrow> (nat \<Rightarrow> ring option) \<Rightarrow> bool" where
  "heap_sim h h' \<longleftrightarrow> (\<forall>rid. rel_option ring_sim (h rid) (h' rid))"

lemma rec_sim_refl: "rec_sim r r"
  by (simp add: rec_sim_def)

lemma is_special_argval [simp]: "is_special (r\<lparr>r_argval := b\<rparr>) = is_special r"
  by (simp add: is_special_def)

lemma rec_sim_fields:
  assumes "rec_sim r r'"
  shows "r_timestamp r' = r_timestamp r" "r_seqnum r' = r_seqnum r" "is_special r' = is_special r"
    "length (r_argval r') = length (r_argval r)" "\<not> is_special r \<Longrightarrow> r' = r"
proof -
  from assms have "r' = r \<or> (\<exists>b. r' = r\<lparr>r_argval := b\<rparr>)" unfolding rec_sim_def by blast
  then show "r_timestamp r' = r_timestamp r" "r_seqnum r' = r_seqnum r" "is_special r' = is_special r"
    by auto
  show "length (r_argval r') = length (r_argval r)" "\<not> is_special r \<Longrightarrow> r' = r"
    using assms by (auto simp: rec_sim_def)
qed

lemma rec_sim_trans: "rec_sim a b \<Longrightarrow> rec_sim b c \<Longrightarrow> rec_sim a c"
  unfolding rec_sim_def by (cases a; cases b; cases c) (auto simp: is_special_def)

lemma ring_sim_refl: "ring_sim rb rb"
  by (simp add: ring_sim_def list_all2_refl rec_sim_refl)

lemma ring_sim_trans: "ring_sim a b \<Longrightarrow> ring_sim b c \<Longrightarrow> ring_sim a c"
proof -
  assume ab: "ring_sim a b" and bc: "ring_sim b c"
  then have "list_all2 rec_sim (rb_slots a) (rb_slots c)"
    unfolding ring_sim_def list_all2_conv_all_nth by (metis rec_sim_trans)
  moreover have "c = a\<lparr>rb_timesource := rb_timesource c, rb_slots := rb_slots c\<rparr>"
    using ab bc unfolding ring_sim_def by (cases a; cases b; cases c) simp
  ultimately show ?thesis by (simp add: ring_sim_def)
qed

lemma ring_sim_fields:
  assumes "ring_sim rb rb'"
  shows "rb_name rb' = rb_name rb" "rb_head rb' = rb_head rb" "rb_tail rb' = rb_tail rb"
    "rb_capacity rb' = rb_capacity rb" "rb_refcnt rb' = rb_refcnt rb" "nslots rb' = nslots rb"
    "rb_rec_tailroom rb' = rb_rec_tailroom rb" "rb_flags rb' = rb_flags rb"
proof -
  have eq: "rb' = rb\<lparr>rb_timesource := rb_timesource rb', rb_slots := rb_slots rb'\<rparr>"
    and l: "list_all2 rec_sim (rb_slots rb) (rb_slots rb')"
    using assms unfolding ring_sim_def by blast+
  show "rb_name rb' = rb_name rb" "rb_head rb' = rb_head rb" "rb_tail rb' = rb_tail rb"
    "rb_capacity rb' = rb_capacity rb" "rb_refcnt rb' = rb_refcnt rb"
    "rb_rec_tailroom rb' = rb_rec_tailroom rb" "rb_flags rb' = rb_flags rb"
    by (subst eq, simp)+
  show "nslots rb' = nslots rb" using l by (simp add: list_all2_lengthD)
qed

lemma ring_sim_slot: "ring_sim rb rb' \<Longrightarrow> k < nslots rb \<Longrightarrow> rec_sim (rb_slots rb ! k) (rb_slots rb' ! k)"
  by (auto simp: ring_sim_def list_all2_nthD)

lemma heap_sim_refl: "heap_sim h h"
  by (simp add: heap_sim_def option.rel_refl ring_sim_refl)

lemma heap_sim_Some: "heap_sim h h' \<Longrightarrow> h rid = Some rb \<Longrightarrow> \<exists>rb'. h' rid = Some rb' \<and> ring_sim rb rb'"
  by (auto simp: heap_sim_def option_rel_Some1 dest: spec [of _ rid])

lemma heap_sim_trans: "heap_sim a b \<Longrightarrow> heap_sim b c \<Longrightarrow> heap_sim a c"
  unfolding heap_sim_def
  by (metis (mono_tags, lifting) option.rel_sel ring_sim_trans)

lemma heap_sim_upd: "h rid = Some rb \<Longrightarrow> ring_sim rb rb' \<Longrightarrow> heap_sim h (h(rid := Some rb'))"
  by (auto simp: heap_sim_def option.rel_refl ring_sim_refl)

lemma heap_sim_retime: "heap_sim h (retime ts m h)"
proof (induction ts m h rule: retime.induct)
  case (2 ts k rid m h)
  have "ring_sim rb (set_timesource ts rb)" for rb
    by (simp add: ring_sim_def set_timesource_def list_all2_refl rec_sim_refl)
  then have "heap_sim h (h(rid := map_option (set_timesource ts) (h rid)))"
    unfolding heap_sim_def by (auto simp: option.rel_map option.rel_refl ring_sim_refl intro: option.rel_refl)
  from heap_sim_trans [OF this 2] show ?case by (simp only: retime.simps)
qed (simp add: heap_sim_refl)

lemma retime_slots: "map_option rb_slots (retime ts m h x) = map_option rb_slots (h x)"
proof (induction ts m h rule: retime.induct)
  case (2 ts k rid m h)
  show ?case unfolding retime.simps 2 by (simp add: set_timesource_def option.map_comp comp_def)
qed simp

lemma ring_sim_ok: "ring_sim rb rb' \<Longrightarrow> ring_ok rb \<Longrightarrow> ring_ok rb'"
proof -
  assume s: "ring_sim rb rb'" and ok: "ring_ok rb"
  have "length (r_argval r') = unat (rb_rec_tailroom rb)" if "r' \<in> set (rb_slots rb')" for r'
  proof -
    from that obtain k where k: "k < nslots rb'" "r' = rb_slots rb' ! k" by (auto simp: in_set_conv_nth)
    with ring_sim_slot [OF s, of k] ring_sim_fields(6) [OF s] ok show ?thesis
      by (simp add: rec_sim_fields ring_ok_def)
  qed
  with ok show ?thesis using ring_sim_fields [OF s] by (simp add: ring_ok_def ring_wf_def)
qed

section \<open>One flushed record\<close>

text \<open>The regular records of a ring among the output events.\<close>

definition ring_out :: "string \<Rightarrow> out_event list \<Rightarrow> log_record list" where
  "ring_out nm evs = concat (map (\<lambda>ev. case ev of OutRec n r \<Rightarrow> if n = nm then [r] else [] | _ \<Rightarrow> []) evs)"

lemma ring_out_append [simp]: "ring_out nm (a @ b) = ring_out nm a @ ring_out nm b"
  by (simp add: ring_out_def)

lemma ring_out_simps [simp]:
  "ring_out nm [OutRec n r] = (if n = nm then [r] else [])" "ring_out nm [OutInject a b c d f g] = []"
  "ring_out nm [OutFlush] = []" "ring_out nm [] = []"
  by (simp_all add: ring_out_def)

text \<open>All regular records among the output events, with the names of their rings.\<close>

definition out_recs :: "out_event list \<Rightarrow> (string \<times> log_record) list" where
  "out_recs evs = concat (map (\<lambda>ev. case ev of OutRec n r \<Rightarrow> [(n, r)] | _ \<Rightarrow> []) evs)"

lemma out_recs_simps [simp]:
  "out_recs (a @ b) = out_recs a @ out_recs b" "out_recs [OutRec n r] = [(n, r)]"
  "out_recs [OutInject x t c d f g] = []" "out_recs [] = []"
  by (simp_all add: out_recs_def)

lemma ring_out_recs: "ring_out nm evs = map snd (filter (\<lambda>p. fst p = nm) (out_recs evs))"
  by (induction evs) (auto simp: ring_out_def out_recs_def split: out_event.splits)

lemma ring_of_entry_Some:
  "ring_of_entry e i = Some (rid, rb) \<longleftrightarrow>
    i < length (e_entries e) \<and> ie_ring (e_entries e ! i) = Some rid \<and> e_rings e rid = Some rb"
  by (auto simp: ring_of_entry_def bind_eq_Some_conv)

text \<open>How a flushing step of ring \<open>i\<close> may change the engine.\<close>

definition flush_frame :: "'re engine \<Rightarrow> 're engine \<Rightarrow> bool" where
  "flush_frame e e' \<longleftrightarrow> e_tso e' = e_tso e \<and> e_tso_leftover e' = e_tso_leftover e
     \<and> e_area_map e' = e_area_map e \<and> e_ring_map e' = e_ring_map e \<and> heap_sim (e_rings e) (e_rings e')"

lemma flush_frame_trans: "flush_frame a b \<Longrightarrow> flush_frame b c \<Longrightarrow> flush_frame a c"
  using heap_sim_trans by (auto simp: flush_frame_def)

text \<open>A flushing step touches one slot: a special record there becomes acknowledged.\<close>

definition slot_step :: "nat \<Rightarrow> nat \<Rightarrow> (nat \<Rightarrow> ring option) \<Rightarrow> (nat \<Rightarrow> ring option) \<Rightarrow> bool" where
  "slot_step rid s h h' \<longleftrightarrow> (\<forall>x rb rb'. h x = Some rb \<longrightarrow> h' x = Some rb' \<longrightarrow>
     (\<forall>k. (x, k) \<noteq> (rid, s) \<longrightarrow> rb_slots rb' ! k = rb_slots rb ! k)
     \<and> (x = rid \<longrightarrow> is_special (rb_slots rb ! s) \<longrightarrow> r_acked (rb_slots rb' ! s) = Some True))"

lemma get_arg_val64_defined: "8 * i + 8 \<le> length b \<Longrightarrow> \<exists>v. get_arg_val64 b i = Some v"
  by (simp add: get_arg_val64_def peek_def)

lemma r_ack_sim:
  "is_special r \<Longrightarrow> 8 \<le> length (r_argval r) \<Longrightarrow> \<exists>r'. r_ack r = Some r' \<and> rec_sim r r' \<and> r_acked r' = Some True"
  by (auto simp: r_ack_def r_acked_def set_arg_val64_def get_arg_val64_def poke_def peek_def rec_sim_def of_le_le_bytes)

lemma update_slot_ack:
  assumes "unat slot < nslots rb" and "is_special (rb_slots rb ! unat slot)"
    and "8 \<le> length (r_argval (rb_slots rb ! unat slot))"
  shows "\<exists>rb' r'. update_slot slot r_ack rb = Some rb' \<and> ring_sim rb rb'
    \<and> rb_slots rb' = (rb_slots rb)[unat slot := r'] \<and> r_acked r' = Some True"
proof -
  obtain r' where r': "r_ack (rb_slots rb ! unat slot) = Some r'" "rec_sim (rb_slots rb ! unat slot) r'"
    "r_acked r' = Some True"
    using r_ack_sim assms(2,3) by blast
  have "list_all2 rec_sim (rb_slots rb) ((rb_slots rb)[unat slot := r'])"
    using r'(2) assms(1) by (auto simp: list_all2_conv_all_nth nth_list_update rec_sim_refl)
  then show ?thesis
    using assms(1) r'(1,3) by (auto simp: update_slot_def read_slot_def write_slot_def ring_sim_def)
qed

lemma switch_timesource_frame:
  assumes "16 \<le> length (r_argval r)"
  shows "\<exists>e'. switch_timesource tsn nm r e = Some e' \<and> flush_frame e e' \<and> e_entries e' = e_entries e
    \<and> out_recs (e_out e') = out_recs (e_out e)
    \<and> (\<forall>x. map_option rb_slots (e_rings e' x) = map_option rb_slots (e_rings e x))"
proof -
  obtain ts where "get_arg_val64 (r_argval r) 1 = Some ts"
    using get_arg_val64_defined [of 1 "r_argval r"] assms by auto
  then show ?thesis
    by (simp add: switch_timesource_def Let_def flush_frame_def inject_record_def emit_def bump_def heap_sim_retime retime_slots)
qed

lemma flush_record_spec:
  assumes "ring_of_entry e i = Some (rid, rb)" and "ring_ok rb" and "unat slot < nslots rb"
  shows "\<exists>e'. flush_record tsn i slot e = Some e' \<and> flush_frame e e' \<and> e_entries e' = e_entries e
    \<and> slot_step rid (unat slot) (e_rings e) (e_rings e')
    \<and> out_recs (e_out e') = out_recs (e_out e) @
         (if is_special (rb_slots rb ! unat slot) then [] else [(rb_name rb, rb_slots rb ! unat slot)])"
proof -
  let ?r = "rb_slots rb ! unat slot"
  have r: "read_slot rb slot = Some ?r" using assms(3) by (simp add: read_slot_def)
  have l: "128 \<le> length (r_argval ?r)" using assms(2,3) by (simp add: ring_ok_def)
  show ?thesis
  proof (cases "is_special ?r")
    case False
    moreover have "slot_step rid (unat slot) (e_rings e) (e_rings e)"
      using False assms(1) by (simp add: slot_step_def ring_of_entry_Some)
    ultimately show ?thesis
      using assms(1) r by (simp add: flush_record_def emit_def bump_def flush_frame_def heap_sim_refl)
  next
    case True
    obtain e1 where e1: "(if r_argtype ?r = ucast SPR_TIMESOURCE_CHANGE
        then switch_timesource tsn (rb_name rb) ?r e else Some e) = Some e1"
      "flush_frame e e1" "e_entries e1 = e_entries e" "out_recs (e_out e1) = out_recs (e_out e)"
      "\<forall>x. map_option rb_slots (e_rings e1 x) = map_option rb_slots (e_rings e x)"
      using switch_timesource_frame [of ?r tsn "rb_name rb" e] l
      by (cases "r_argtype ?r = ucast SPR_TIMESOURCE_CHANGE") (auto simp: flush_frame_def heap_sim_refl)
    obtain rb1 where rb1: "e_rings e1 rid = Some rb1" "ring_sim rb rb1"
      using heap_sim_Some [of "e_rings e" "e_rings e1" rid rb] e1(2) assms(1)
      by (auto simp: flush_frame_def ring_of_entry_Some)
    have roe: "ring_of_entry e1 i = Some (rid, rb1)"
      using assms(1) rb1(1) e1(3) by (simp add: ring_of_entry_Some)
    have sim: "rec_sim ?r (rb_slots rb1 ! unat slot)" by (rule ring_sim_slot [OF rb1(2) assms(3)])
    obtain rb2 r2 where rb2: "update_slot slot r_ack rb1 = Some rb2" "ring_sim rb1 rb2"
      "rb_slots rb2 = (rb_slots rb1)[unat slot := r2]" "r_acked r2 = Some True"
      using update_slot_ack [of slot rb1] assms(3) True l rec_sim_fields [OF sim] ring_sim_fields(6) [OF rb1(2)]
      by auto
    have "flush_record tsn i slot e = Some (bump (\<lambda>s. s\<lparr>st_recs_out := st_recs_out s + 1\<rparr>) (put_ring rid rb2 e1))"
      using assms(1) r True e1(1) roe rb2(1) by (simp add: flush_record_def)
    moreover have "heap_sim (e_rings e1) ((e_rings e1)(rid := Some rb2))"
      using rb1(1) rb2(2) by (rule heap_sim_upd)
    then have "flush_frame e (bump (\<lambda>s. s\<lparr>st_recs_out := st_recs_out s + 1\<rparr>) (put_ring rid rb2 e1))"
      by (intro flush_frame_trans [OF e1(2)]) (simp add: flush_frame_def bump_def put_ring_def)
    moreover have "slot_step rid (unat slot) (e_rings e) ((e_rings e1)(rid := Some rb2))"
      unfolding slot_step_def
    proof (intro allI impI)
      fix x ra rc assume x: "e_rings e x = Some ra" "((e_rings e1)(rid := Some rb2)) x = Some rc"
      obtain rd where rd: "e_rings e1 x = Some rd" "rb_slots rd = rb_slots ra"
        using e1(5) x(1) by (metis map_option_eq_Some option.simps(9))
      show "(\<forall>k. (x, k) \<noteq> (rid, unat slot) \<longrightarrow> rb_slots rc ! k = rb_slots ra ! k)
         \<and> (x = rid \<longrightarrow> is_special (rb_slots ra ! unat slot) \<longrightarrow> r_acked (rb_slots rc ! unat slot) = Some True)"
      proof (cases "x = rid")
        case True
        then have "rc = rb2" "rd = rb1" using x(2) rd(1) rb1(1) by auto
        with rd(2) rb2(3,4) assms(3) True ring_sim_fields(6) [OF rb1(2)] show ?thesis by auto
      qed (use x(2) rd in auto)
    qed
    ultimately show ?thesis
      using True e1(3,4) by (simp add: bump_def put_ring_def)
  qed
qed

text \<open>One entry popped from the buffer: the drop mark, the bookkeeping, the record.\<close>

lemma flush_entry_spec:
  assumes "i = unat (te_tag te)" and "ring_of_entry e i = Some (rid, rb)" and "ring_ok rb"
    and "unat (te_rec te) < nslots rb" and "internal_ok e"
  shows "\<exists>e' q. flush_entry tsn te e = Some e' \<and> flush_frame e e'
    \<and> slot_step rid (unat (te_rec te)) (e_rings e) (e_rings e')
    \<and> e_entries e' = (e_entries e)[i := (e_entries e ! i)\<lparr>ie_lastrec := Some (te_rec te), ie_seqnum := q\<rparr>]
    \<and> out_recs (e_out e') = out_recs (e_out e) @
         (if is_special (rb_slots rb ! unat (te_rec te)) then [] else [(rb_name rb, rb_slots rb ! unat (te_rec te))])"
proof -
  let ?r = "rb_slots rb ! unat (te_rec te)"
  let ?seq = "ucast (r_seqnum ?r) :: u64"
  let ?drop = "if ?seq \<noteq> ie_seqnum (e_entries e ! i) then do {
              let n = ?seq - ie_seqnum (e_entries e ! i);
              ia \<leftarrow> internal_area e;
              dm \<leftarrow> area_test ia (isect DROPMARK);
              let e = (if dm then inject_record (rb_name rb) (ts_minus_int (r_timestamp ?r) 1) 0 DROPMARK
                                    ''dropped %llu record(s)'' [InjU64 n, InjU64 0] e else e);
              Some (bump (\<lambda>s. s\<lparr>st_recs_dropped := st_recs_dropped s + n\<rparr>) e)
            } else Some e"
  have r: "read_slot rb (te_rec te) = Some ?r" using assms(4) by (simp add: read_slot_def)
  obtain ia dm where ia: "internal_area e = Some ia" "area_test ia (isect DROPMARK) = Some dm"
    using internal_ok_test [OF assms(5), of DROPMARK] by blast
  let ?n = "?seq - ie_seqnum (e_entries e ! i)"
  define e1 where "e1 = (if ?seq \<noteq> ie_seqnum (e_entries e ! i)
    then bump (\<lambda>s. s\<lparr>st_recs_dropped := st_recs_dropped s + ?n\<rparr>)
      (if dm then inject_record (rb_name rb) (ts_minus_int (r_timestamp ?r) 1) 0 DROPMARK
               ''dropped %llu record(s)'' [InjU64 ?n, InjU64 0] e else e) else e)"
  have e1: "?drop = Some e1" "flush_frame e e1" "e_entries e1 = e_entries e"
    "e_rings e1 = e_rings e" "out_recs (e_out e1) = out_recs (e_out e)"
    unfolding e1_def
    by (simp_all add: ia Let_def bump_def inject_record_def emit_def flush_frame_def heap_sim_refl)
  let ?e2 = "put_entry i (\<lambda>x. x\<lparr>ie_lastrec := Some (te_rec te), ie_seqnum := ?seq + 1\<rparr>) e1"
  have i: "i < length (e_entries e)" using assms(2) by (simp add: ring_of_entry_Some)
  have "ring_of_entry ?e2 i = Some (rid, rb)"
    using assms(2) e1(3,4) by (simp add: ring_of_entry_Some put_entry_def)
  from flush_record_spec [OF this assms(3,4), of tsn] obtain e3 where
    e3: "flush_record tsn i (te_rec te) ?e2 = Some e3" "flush_frame ?e2 e3" "e_entries e3 = e_entries ?e2"
    "slot_step rid (unat (te_rec te)) (e_rings ?e2) (e_rings e3)"
    "out_recs (e_out e3) = out_recs (e_out ?e2) @ (if is_special ?r then [] else [(rb_name rb, ?r)])" by blast
  have "flush_entry tsn te e = Some e3"
    using e1(1) e3(1) assms(2) r unfolding flush_entry_def assms(1) [symmetric] Let_def by simp
  moreover have "flush_frame e e3"
    by (rule flush_frame_trans [OF e1(2) flush_frame_trans [OF _ e3(2)]])
      (simp add: flush_frame_def put_entry_def heap_sim_refl)
  moreover have "slot_step rid (unat (te_rec te)) (e_rings e) (e_rings e3)"
    using e3(4) e1(4) by (simp add: put_entry_def)
  ultimately show ?thesis
    using e3(3,5) e1(3,5) by (auto simp: put_entry_def)
qed

section \<open>The invariant of a poll\<close>

text \<open>The slots of the ring of entry \<open>i\<close> that hold records when the poll starts.\<close>

definition entry_span :: "'re engine \<Rightarrow> nat \<Rightarrow> nat list" where
  "entry_span e i = (case ring_of_entry e i of None \<Rightarrow> []
     | Some (rid, rb) \<Rightarrow> span (nslots rb) (unat (rb_head rb)) (unat (rb_tail rb)))"

text \<open>
  The state between two polls: every indexed ring exists and is well-formed, rings of
  different entries have different identities and names, the ordering buffer is empty and
  can hold at least two entries. Timestamps are below $2^{63}$ nanoseconds (292 years).
\<close>

definition entry_ok :: "'re engine \<Rightarrow> nat \<Rightarrow> bool" where
  "entry_ok e i \<longleftrightarrow> ie_lastrec (e_entries e ! i) = None
     \<and> (\<forall>rid. ie_ring (e_entries e ! i) = Some rid \<longrightarrow>
          (\<exists>rb. e_rings e rid = Some rb \<and> ring_ok rb \<and> (\<forall>r \<in> set (rb_slots rb). r_timestamp r < 2 ^ 63)))"

definition poll_ready :: "'re engine \<Rightarrow> bool" where
  "poll_ready e \<longleftrightarrow> length (e_entries e) < 2 ^ 32 \<and> (\<forall>i < length (e_entries e). entry_ok e i)
     \<and> (\<forall>i j rid rb rid' rb'. i \<noteq> j \<longrightarrow> ring_of_entry e i = Some (rid, rb) \<longrightarrow> ring_of_entry e j = Some (rid', rb')
          \<longrightarrow> rid \<noteq> rid' \<and> rb_name rb \<noteq> rb_name rb')
     \<and> tso_wf (e_tso e) \<and> tso_head (e_tso e) = 0 \<and> tso_live (e_tso e) = [] \<and> 2 \<le> unat (tso_capacity (e_tso e))
     \<and> internal_ok e"

text \<open>The timestamps under which the records of a ring are ordered: made strictly increasing.\<close>

fun stamps :: "timestamp \<Rightarrow> timestamp list \<Rightarrow> timestamp list" where
  "stamps ts [] = []"
| "stamps ts (t # tss) = (let t' = (if t \<le> ts then ts_plus_int ts 1 else t) in t' # stamps t' tss)"

lemma length_stamps [simp]: "length (stamps ts tss) = length tss"
  by (induction ts tss rule: stamps.induct) (simp_all add: Let_def)

lemma stamps_nth:
  "k < length tss \<Longrightarrow> stamps ts tss ! k =
    (let p = (if k = 0 then ts else stamps ts tss ! (k - 1)) in if tss ! k \<le> p then ts_plus_int p 1 else tss ! k)"
proof (induction ts tss arbitrary: k rule: stamps.induct)
  case (2 ts t tss)
  show ?case
  proof (cases k)
    case (Suc j)
    let ?t = "if t \<le> ts then ts_plus_int ts 1 else t"
    have "stamps ?t tss ! j = (let p = (if j = 0 then ?t else stamps ?t tss ! (j - 1)) in
        if tss ! j \<le> p then ts_plus_int p 1 else tss ! j)"
      using "2.IH" [OF refl, of j] "2.prems" Suc by simp
    then show ?thesis by (cases j) (simp_all add: Suc Let_def)
  qed (simp add: Let_def)
qed simp

lemma stamps_increasing: "sorted_wrt (<) (ts # tss) \<Longrightarrow> stamps ts tss = tss"
  by (induction ts tss rule: stamps.induct) (auto simp: Let_def)

definition entry_stamps :: "'re engine \<Rightarrow> nat \<Rightarrow> timestamp list" where
  "entry_stamps e i = (case ring_of_entry e i of None \<Rightarrow> []
     | Some (rid, rb) \<Rightarrow> stamps 0 (map r_timestamp (contents rb)))"

definition ghost :: "'re engine \<Rightarrow> (nat \<Rightarrow> tso_entry list) \<Rightarrow> (nat \<Rightarrow> nat) \<Rightarrow> bool" where
  "ghost e0 L F \<longleftrightarrow> (\<forall>i < length (e_entries e0). F i \<le> length (L i)
     \<and> sorted_wrt (\<lambda>x y. te_timestamp x < te_timestamp y) (L i)
     \<and> (\<forall>te \<in> set (L i). te_tag te = word_of_nat i)
     \<and> map (unat \<circ> te_rec) (L i) = take (length (L i)) (entry_span e0 i)
     \<and> map te_timestamp (L i) = take (length (L i)) (entry_stamps e0 i))"

definition entry_rel :: "'re engine \<Rightarrow> 're engine \<Rightarrow> nat \<Rightarrow> bool" where
  "entry_rel e0 e i \<longleftrightarrow>
     (ie_ring (e_entries e ! i) = ie_ring (e_entries e0 ! i)
        \<and> (\<forall>rid rb0. ring_of_entry e0 i = Some (rid, rb0) \<longrightarrow> (\<exists>rb. e_rings e rid = Some rb \<and> ring_sim rb0 rb)))
     \<or> (ie_ring (e_entries e ! i) = None \<and> entry_span e0 i = []
        \<and> (\<forall>rid rb0. ring_of_entry e0 i = Some (rid, rb0) \<longrightarrow> ring_orphan rb0))"

definition out_rel :: "'re engine \<Rightarrow> (nat \<Rightarrow> nat) \<Rightarrow> 're engine \<Rightarrow> nat \<Rightarrow> bool" where
  "out_rel e0 F e i \<longleftrightarrow> (\<forall>rid rb0. ring_of_entry e0 i = Some (rid, rb0) \<longrightarrow>
     ring_out (rb_name rb0) (e_out e) = ring_out (rb_name rb0) (e_out e0)
       @ filter (\<lambda>r. \<not> is_special r) (map ((!) (rb_slots rb0)) (take (F i) (entry_span e0 i))))"

definition last_rel :: "(nat \<Rightarrow> tso_entry list) \<Rightarrow> (nat \<Rightarrow> nat) \<Rightarrow> 're engine \<Rightarrow> nat \<Rightarrow> bool" where
  "last_rel L F e i \<longleftrightarrow>
     ie_lastrec (e_entries e ! i) = (if F i = 0 then None else Some (te_rec (L i ! (F i - 1))))"

definition slot_rel :: "'re engine \<Rightarrow> (nat \<Rightarrow> nat) \<Rightarrow> 're engine \<Rightarrow> nat \<Rightarrow> bool" where
  "slot_rel e0 F e i \<longleftrightarrow> (\<forall>rid rb0 rb. ring_of_entry e0 i = Some (rid, rb0) \<longrightarrow> e_rings e rid = Some rb \<longrightarrow>
     (\<forall>k < length (entry_span e0 i). if k < F i
        then is_special (rb_slots rb0 ! (entry_span e0 i ! k)) \<longrightarrow> r_acked (rb_slots rb ! (entry_span e0 i ! k)) = Some True
        else rb_slots rb ! (entry_span e0 i ! k) = rb_slots rb0 ! (entry_span e0 i ! k)))"

definition poll_base :: "'re engine \<Rightarrow> (nat \<Rightarrow> tso_entry list) \<Rightarrow> (nat \<Rightarrow> nat) \<Rightarrow> 're engine \<Rightarrow> bool" where
  "poll_base e0 L F e \<longleftrightarrow> ghost e0 L F \<and> e_area_map e = e_area_map e0
     \<and> length (e_entries e) = length (e_entries e0)
     \<and> (\<forall>nm. (\<forall>i rid rb. ring_of_entry e0 i = Some (rid, rb) \<longrightarrow> rb_name rb \<noteq> nm) \<longrightarrow>
          ring_out nm (e_out e) = ring_out nm (e_out e0))
     \<and> (\<forall>i < length (e_entries e0). entry_rel e0 e i \<and> last_rel L F e i \<and> out_rel e0 F e i \<and> slot_rel e0 F e i)"

lemma poll_base_tso [simp]:
  "poll_base e0 L F (e\<lparr>e_tso := b\<rparr>) = poll_base e0 L F e"
  "poll_base e0 L F (e\<lparr>e_tso_leftover := n\<rparr>) = poll_base e0 L F e"
  "poll_base e0 L F (bump f e) = poll_base e0 L F e" "poll_base e0 L F (e\<lparr>e_stats := st\<rparr>) = poll_base e0 L F e"
  by (simp_all add: poll_base_def entry_rel_def last_rel_def out_rel_def slot_rel_def bump_def)

lemma ring_of_entry_ready:
  assumes "poll_ready e" and "ring_of_entry e i = Some (rid, rb)"
  shows "ring_ok rb" and "\<forall>r \<in> set (rb_slots rb). r_timestamp r < 2 ^ 63"
proof -
  have "entry_ok e i" using assms by (simp add: poll_ready_def ring_of_entry_Some)
  with assms(2) show "ring_ok rb" "\<forall>r \<in> set (rb_slots rb). r_timestamp r < 2 ^ 63"
    by (auto simp: entry_ok_def ring_of_entry_Some)
qed

lemma entry_span_nonempty:
  assumes "k < length (entry_span e i)"
  obtains rid rb where "ring_of_entry e i = Some (rid, rb)"
    "entry_span e i = span (nslots rb) (unat (rb_head rb)) (unat (rb_tail rb))"
  using assms by (auto simp: entry_span_def split: option.splits)

text \<open>A ring with records was not removed; its current state is similar to the initial one.\<close>

lemma poll_base_ring:
  assumes "poll_ready e0" and "poll_base e0 L F e" and "i < length (e_entries e0)" and "k < length (entry_span e0 i)"
  obtains rid rb0 rb where "ring_of_entry e0 i = Some (rid, rb0)" "ring_of_entry e i = Some (rid, rb)"
    "ring_sim rb0 rb" "ring_ok rb" "entry_span e0 i ! k < nslots rb" "distinct (entry_span e0 i)"
    "entry_span e0 i = span (nslots rb0) (unat (rb_head rb0)) (unat (rb_tail rb0))"
proof -
  obtain rid rb0 where r0: "ring_of_entry e0 i = Some (rid, rb0)"
    "entry_span e0 i = span (nslots rb0) (unat (rb_head rb0)) (unat (rb_tail rb0))"
    using entry_span_nonempty [OF assms(4)] .
  have ne: "entry_span e0 i \<noteq> []" using assms(4) by auto
  have "entry_rel e0 e i" using assms(2,3) by (simp add: poll_base_def)
  with ne obtain rb where rb: "e_rings e rid = Some rb" "ring_sim rb0 rb" "ie_ring (e_entries e ! i) = Some rid"
    using r0(1) unfolding entry_rel_def by (metis ring_of_entry_Some)
  have ok0: "ring_ok rb0" using ring_of_entry_ready [OF assms(1) r0(1)] by simp
  have "0 < nslots rb0" using ring_ok_wf [OF ok0] by (auto elim: ring_wfE)
  then have "entry_span e0 i ! k < nslots rb"
    using span_less [of "nslots rb0"] nth_mem [OF assms(4)] ring_sim_fields(6) [OF rb(2)] r0(2) by metis
  moreover have "ring_of_entry e i = Some (rid, rb)"
    using rb assms(2,3) by (simp add: ring_of_entry_Some poll_base_def)
  moreover have "distinct (entry_span e0 i)"
    using distinct_span ring_ok_wf [OF ok0] r0(2) by (auto elim!: ring_wfE)
  ultimately show thesis using that r0 rb ring_sim_ok [OF rb(2) ok0] by blast
qed

lemma ghost_nth:
  assumes "ghost e0 L F" and "i < length (e_entries e0)" and "k < length (L i)"
  shows "te_tag (L i ! k) = word_of_nat i" and "k < length (entry_span e0 i)"
    and "unat (te_rec (L i ! k)) = entry_span e0 i ! k"
proof -
  have m: "map (unat \<circ> te_rec) (L i) = take (length (L i)) (entry_span e0 i)"
    and "\<forall>te \<in> set (L i). te_tag te = word_of_nat i"
    using assms(1,2) unfolding ghost_def by blast+
  then show "te_tag (L i ! k) = word_of_nat i" using assms(3) by simp
  show "k < length (entry_span e0 i)"
    using arg_cong [OF m, of length] assms(3) by simp
  show "unat (te_rec (L i ! k)) = entry_span e0 i ! k"
    using arg_cong [OF m, of "\<lambda>xs. xs ! k"] assms(3) by simp
qed

lemma slot_rel_step:
  assumes "slot_rel e0 F e j" and "slot_step rid (entry_span e0 i ! F i) (e_rings e) (e_rings e')"
    and "heap_sim (e_rings e) (e_rings e')" and "\<And>r x. j \<noteq> i \<Longrightarrow> ring_of_entry e0 j = Some (r, x) \<Longrightarrow> r \<noteq> rid"
    and "ring_of_entry e0 i = Some (rid, rb0)" and "e_rings e rid = Some rb" and "ring_sim rb0 rb"
    and "F i < length (entry_span e0 i)" and "distinct (entry_span e0 i)" and "entry_span e0 i ! F i < nslots rb0"
  shows "slot_rel e0 (F(i := Suc (F i))) e' j"
  unfolding slot_rel_def
proof (intro allI impI)
  fix r ra rc k
  assume r: "ring_of_entry e0 j = Some (r, ra)" "e_rings e' r = Some rc" and k: "k < length (entry_span e0 j)"
  let ?s = "entry_span e0 j ! k"
  obtain rd where rd: "e_rings e r = Some rd"
    using assms(3) r(2) unfolding heap_sim_def by (metis option_rel_Some2)
  have old: "if k < F j then is_special (rb_slots ra ! ?s) \<longrightarrow> r_acked (rb_slots rd ! ?s) = Some True
      else rb_slots rd ! ?s = rb_slots ra ! ?s"
    using assms(1) r(1) rd k unfolding slot_rel_def by blast
  have same: "rb_slots rc ! ?s = rb_slots rd ! ?s" if "(r, ?s) \<noteq> (rid, entry_span e0 i ! F i)"
    using assms(2) rd r(2) that unfolding slot_step_def by blast
  show "if k < (F(i := Suc (F i))) j then is_special (rb_slots ra ! ?s) \<longrightarrow> r_acked (rb_slots rc ! ?s) = Some True
      else rb_slots rc ! ?s = rb_slots ra ! ?s"
  proof (cases "j = i \<and> k = F i")
    case True
    then have eq: "r = rid" "ra = rb0" "rd = rb" using r(1) rd assms(5,6) by auto
    have "is_special (rb_slots rb ! ?s) = is_special (rb_slots rb0 ! ?s)"
      using rec_sim_fields(3) [OF ring_sim_slot [OF assms(7,10)]] True by simp
    moreover have "is_special (rb_slots rb ! ?s) \<longrightarrow> r_acked (rb_slots rc ! ?s) = Some True"
      using assms(2,6) r(2) eq True unfolding slot_step_def by blast
    ultimately show ?thesis using True eq by simp
  next
    case False
    have "(r, ?s) \<noteq> (rid, entry_span e0 i ! F i)"
    proof (cases "j = i")
      case True
      then show ?thesis using False k assms(8,9) by (simp add: nth_eq_iff_index_eq)
    next
      case ne: False
      then show ?thesis using assms(4) r(1) by blast
    qed
    then have "rb_slots rc ! ?s = rb_slots rd ! ?s" by (rule same)
    with old False show ?thesis by (cases "j = i") auto
  qed
qed

text \<open>What a buffered entry contributes to the output.\<close>

definition entry_out :: "'re engine \<Rightarrow> tso_entry \<Rightarrow> (string \<times> log_record) list" where
  "entry_out e te = (case ring_of_entry e (unat (te_tag te)) of None \<Rightarrow> []
     | Some (rid, rb) \<Rightarrow> (let r = rb_slots rb ! unat (te_rec te) in if is_special r then [] else [(rb_name rb, r)]))"

lemma out_rel_step:
  assumes "poll_ready e0" and rel: "out_rel e0 F e j" and r: "ring_of_entry e0 i = Some (rid, rb0)"
    and k: "F i < length (entry_span e0 i)"
    and out: "\<And>nm. ring_out nm (e_out e') = ring_out nm (e_out e) @
      (if nm = rb_name rb0 \<and> \<not> is_special (rb_slots rb0 ! (entry_span e0 i ! F i)) then [rb_slots rb0 ! (entry_span e0 i ! F i)] else [])"
  shows "out_rel e0 (F(i := Suc (F i))) e' j"
  unfolding out_rel_def
proof (intro allI impI)
  fix rid' rb0' assume r': "ring_of_entry e0 j = Some (rid', rb0')"
  show "ring_out (rb_name rb0') (e_out e') = ring_out (rb_name rb0') (e_out e0)
      @ filter (\<lambda>r. \<not> is_special r) (map ((!) (rb_slots rb0')) (take ((F(i := Suc (F i))) j) (entry_span e0 j)))"
  proof (cases "j = i")
    case True
    then show ?thesis using r' r rel out k by (simp add: out_rel_def take_Suc_conv_app_nth)
  next
    case False
    then have "rb_name rb0' \<noteq> rb_name rb0" using assms(1) r' r unfolding poll_ready_def by metis
    with rel out False r' show ?thesis by (simp add: out_rel_def)
  qed
qed

lemma flush_entry_base:
  assumes "poll_ready e0" and "poll_base e0 L F e" and "i < length (e_entries e0)" and "F i < length (L i)"
  shows "\<exists>e'. flush_entry tsn (L i ! F i) e = Some e' \<and> poll_base e0 L (F(i := Suc (F i))) e'
    \<and> e_tso e' = e_tso e \<and> e_tso_leftover e' = e_tso_leftover e
    \<and> out_recs (e_out e') = out_recs (e_out e) @ entry_out e0 (L i ! F i)"
proof -
  let ?te = "L i ! F i" and ?F = "F(i := Suc (F i))" and ?sp = "entry_span e0 i"
  have g: "ghost e0 L F" using assms(2) by (simp add: poll_base_def)
  note gn = ghost_nth [OF g assms(3,4)]
  have tag: "unat (te_tag ?te) = i"
    using gn(1) assms(1,3) by (simp add: unat_word_of_nat poll_ready_def)
  note k = gn(2) and slot = gn(3)
  obtain rid rb0 rb where r: "ring_of_entry e0 i = Some (rid, rb0)" "ring_of_entry e i = Some (rid, rb)"
    "ring_sim rb0 rb" "ring_ok rb" "?sp ! F i < nslots rb" "distinct ?sp"
    using poll_base_ring [OF assms(1-3) k] by blast
  have io: "internal_ok e"
    using assms(1,2) by (simp add: poll_ready_def poll_base_def internal_ok_def internal_area_def)
  obtain e' q where e': "flush_entry tsn ?te e = Some e'" "flush_frame e e'"
    "e_entries e' = (e_entries e)[i := (e_entries e ! i)\<lparr>ie_lastrec := Some (te_rec ?te), ie_seqnum := q\<rparr>]"
    "out_recs (e_out e') = out_recs (e_out e) @
       (if is_special (rb_slots rb ! (?sp ! F i)) then [] else [(rb_name rb, rb_slots rb ! (?sp ! F i))])"
    "slot_step rid (?sp ! F i) (e_rings e) (e_rings e')"
    using flush_entry_spec [of i ?te e rid rb tsn] tag r(2,4,5) slot io by auto
  have out: "ring_out nm (e_out e') = ring_out nm (e_out e) @
       (if nm = rb_name rb \<and> \<not> is_special (rb_slots rb ! (?sp ! F i)) then [rb_slots rb ! (?sp ! F i)] else [])" for nm
    using e'(4) by (simp add: ring_out_recs)
  have sim: "rec_sim (rb_slots rb0 ! (?sp ! F i)) (rb_slots rb ! (?sp ! F i))"
    using ring_sim_slot [OF r(3)] r(5) ring_sim_fields(6) [OF r(3)] by simp
  have g': "ghost e0 L ?F" using g assms(4) by (auto simp: ghost_def)
  have "entry_rel e0 e' j \<and> last_rel L ?F e' j \<and> out_rel e0 ?F e' j \<and> slot_rel e0 ?F e' j" if j: "j < length (e_entries e0)" for j
  proof -
    have b: "entry_rel e0 e j" "last_rel L F e j" "out_rel e0 F e j" "slot_rel e0 F e j"
      and lens: "length (e_entries e) = length (e_entries e0)"
      using assms(2) j by (auto simp: poll_base_def)
    have ring': "ie_ring (e_entries e' ! j) = ie_ring (e_entries e ! j)"
      using e'(3) lens j by (cases "j = i") simp_all
    have "\<exists>rb'. e_rings e' x = Some rb' \<and> ring_sim y rb'" if "e_rings e x = Some z" "ring_sim y z" for x y z
      using heap_sim_Some [of "e_rings e" "e_rings e'" x z] e'(2) that ring_sim_trans
      by (auto simp: flush_frame_def)
    then have "entry_rel e0 e' j" using b(1) ring' unfolding entry_rel_def by metis
    moreover have "last_rel L ?F e' j"
      using b(2) e'(3) lens j by (cases "j = i") (simp_all add: last_rel_def)
    moreover have "out_rel e0 ?F e' j"
      by (rule out_rel_step [OF assms(1) b(3) r(1)])
        (use out k rec_sim_fields [OF sim] ring_sim_fields(1) [OF r(3)] in simp_all)
    moreover have "slot_rel e0 ?F e' j"
    proof (rule slot_rel_step [OF b(4) e'(5)])
      show "heap_sim (e_rings e) (e_rings e')" using e'(2) by (simp add: flush_frame_def)
      show "r \<noteq> rid" if "j \<noteq> i" "ring_of_entry e0 j = Some (r, x)" for r x
        using assms(1) that r(1) unfolding poll_ready_def by metis
      show "ring_of_entry e0 i = Some (rid, rb0)" "e_rings e rid = Some rb" "ring_sim rb0 rb"
        using r by (simp_all add: ring_of_entry_Some)
    qed (use r(5,6) k ring_sim_fields(6) [OF r(3)] in simp_all)
    ultimately show ?thesis by blast
  qed
  moreover have "ring_out nm (e_out e') = ring_out nm (e_out e0)"
    if "\<forall>i rid rb. ring_of_entry e0 i = Some (rid, rb) \<longrightarrow> rb_name rb \<noteq> nm" for nm
    using assms(2) that out [of nm] r(1) ring_sim_fields(1) [OF r(3)] unfolding poll_base_def by auto
  ultimately have "poll_base e0 L ?F e'"
    using g' assms(2) e'(2,3) by (simp add: poll_base_def flush_frame_def)
  moreover have "out_recs (e_out e') = out_recs (e_out e) @ entry_out e0 ?te"
    using e'(4) rec_sim_fields [OF sim] ring_sim_fields(1) [OF r(3)] r(1) tag slot by (simp add: entry_out_def)
  ultimately show ?thesis using e'(1,2) by (auto simp: flush_frame_def)
qed

section \<open>Flushing the ordering buffer\<close>

abbreviation of_tag :: "nat \<Rightarrow> tso_entry \<Rightarrow> bool" where
  "of_tag i \<equiv> \<lambda>te. unat (te_tag te) = i"

text \<open>The buffer holds exactly the entries that were made and not yet flushed.\<close>

definition tso_track :: "nat \<Rightarrow> (nat \<Rightarrow> tso_entry list) \<Rightarrow> (nat \<Rightarrow> nat) \<Rightarrow> tso_entry list \<Rightarrow> bool" where
  "tso_track n L F es \<longleftrightarrow> distinct es \<and> (\<forall>te \<in> set es. unat (te_tag te) < n)
     \<and> (\<forall>i < n. set (filter (of_tag i) es) = set (drop (F i) (L i)))"

definition tso_ordered :: "nat \<Rightarrow> (nat \<Rightarrow> tso_entry list) \<Rightarrow> (nat \<Rightarrow> nat) \<Rightarrow> tso_entry list \<Rightarrow> bool" where
  "tso_ordered n L F es \<longleftrightarrow> distinct es \<and> (\<forall>te \<in> set es. unat (te_tag te) < n)
     \<and> (\<forall>i < n. filter (of_tag i) es = drop (F i) (L i))"

lemma tso_ordered_track: "tso_ordered n L F es \<Longrightarrow> tso_track n L F es"
  by (simp add: tso_ordered_def tso_track_def)

lemma tso_ordered_pop:
  assumes "tso_ordered n L F (te # es)"
  shows "\<exists>i < n. unat (te_tag te) = i \<and> F i < length (L i) \<and> te = L i ! F i
    \<and> tso_ordered n L (F(i := Suc (F i))) es"
proof -
  let ?i = "unat (te_tag te)"
  have i: "?i < n" using assms by (simp add: tso_ordered_def)
  have f: "filter (of_tag j) (te # es) = drop (F j) (L j)" if "j < n" for j
    using assms that by (simp add: tso_ordered_def)
  have d: "drop (F ?i) (L ?i) = te # filter (of_tag ?i) es" using f [OF i] by simp
  then have lt: "F ?i < length (L ?i)" by (metis drop_eq_Nil leI list.distinct(1))
  then have hd: "drop (F ?i) (L ?i) = L ?i ! F ?i # drop (Suc (F ?i)) (L ?i)" by (simp add: Cons_nth_drop_Suc)
  have "filter (of_tag j) es = drop ((F(?i := Suc (F ?i))) j) (L j)" if "j < n" for j
    using f [OF that] d hd by (cases "j = ?i") auto
  moreover have "te = L ?i ! F ?i" using d hd by simp
  ultimately show ?thesis using i lt assms by (auto simp: tso_ordered_def)
qed

lemma flush_entries_base:
  assumes "poll_ready e0" and "poll_base e0 L F e" and "tso_wf (e_tso e)"
    and "tso_ordered (length (e_entries e0)) L F (tso_live (e_tso e))"
  shows "\<exists>e' F'. flush_entries tsn n e = Some e' \<and> poll_base e0 L F' e' \<and> tso_wf (e_tso e')
    \<and> tso_ordered (length (e_entries e0)) L F' (tso_live (e_tso e'))
    \<and> tso_live (e_tso e') = drop n (tso_live (e_tso e)) \<and> tso_capacity (e_tso e') = tso_capacity (e_tso e)
    \<and> e_tso_leftover e' = e_tso_leftover e \<and> (\<forall>i. F i \<le> F' i)
    \<and> out_recs (e_out e') = out_recs (e_out e) @ concat (map (entry_out e0) (take n (tso_live (e_tso e))))"
  using assms(2-4)
proof (induction n arbitrary: e F)
  case 0
  then show ?case by auto
next
  case (Suc n)
  show ?case
  proof (cases "tso_live (e_tso e)")
    case Nil
    then show ?thesis using Suc.prems tso_pop_live(1) [of "e_tso e"] by auto
  next
    case (Cons te es)
    obtain b where b: "tso_pop (e_tso e) = Some (te, b)" "tso_wf b" "tso_live b = es"
      "tso_capacity b = tso_capacity (e_tso e)"
      using tso_pop_live(2) [OF Suc.prems(2) Cons] by blast
    obtain i where i: "i < length (e_entries e0)" "F i < length (L i)" "te = L i ! F i"
      "tso_ordered (length (e_entries e0)) L (F(i := Suc (F i))) es"
      using tso_ordered_pop [of _ L F te es] Suc.prems(3) Cons by metis
    obtain e1 where e1: "flush_entry tsn te (e\<lparr>e_tso := b\<rparr>) = Some e1"
      "poll_base e0 L (F(i := Suc (F i))) e1" "e_tso e1 = b" "e_tso_leftover e1 = e_tso_leftover e"
      "out_recs (e_out e1) = out_recs (e_out e) @ entry_out e0 te"
      using flush_entry_base [OF assms(1), of L F "e\<lparr>e_tso := b\<rparr>" i tsn] Suc.prems(1) i by auto
    have t1: "tso_wf (e_tso e1)" "tso_live (e_tso e1) = es" "tso_capacity (e_tso e1) = tso_capacity (e_tso e)"
      "tso_ordered (length (e_entries e0)) L (F(i := Suc (F i))) (tso_live (e_tso e1))"
      using e1(3) b i(4) by simp_all
    obtain e' F' where e': "flush_entries tsn n e1 = Some e'" "poll_base e0 L F' e'" "tso_wf (e_tso e')"
      "tso_ordered (length (e_entries e0)) L F' (tso_live (e_tso e'))"
      "tso_live (e_tso e') = drop n es" "tso_capacity (e_tso e') = tso_capacity (e_tso e)"
      "e_tso_leftover e' = e_tso_leftover e" "\<forall>j. (F(i := Suc (F i))) j \<le> F' j"
      "out_recs (e_out e') = out_recs (e_out e1) @ concat (map (entry_out e0) (take n es))"
      using Suc.IH [OF e1(2) t1(1,4)] unfolding t1(2,3) e1(4) by blast
    have "F j \<le> F' j" for j using e'(8) by (metis Suc_leD fun_upd_apply)
    with e' e1(1,5) b(1) Cons show ?thesis by auto
  qed
qed

context std_sort begin

lemma sort_tracks:
  assumes "ghost e0 L F" and "tso_track (length (e_entries e0)) L F es"
  shows "tso_ordered (length (e_entries e0)) L F (std_sort es)"
  unfolding tso_ordered_def
proof (intro conjI allI impI ballI)
  show "distinct (std_sort es)"
    using assms(2) perm mset_eq_imp_distinct_iff by (auto simp: tso_track_def)
  show "unat (te_tag te) < length (e_entries e0)" if "te \<in> set (std_sort es)" for te
    using assms(2) that by (simp add: tso_track_def set_sort)
  fix i assume i: "i < length (e_entries e0)"
  then have "sorted_wrt (\<lambda>x y. te_timestamp x < te_timestamp y) (drop (F i) (L i))"
    using assms(1) by (simp add: ghost_def sorted_wrt_drop)
  then show "filter (of_tag i) (std_sort es) = drop (F i) (L i)"
    using assms(2) i by (intro sort_keeps_source_order) (auto simp: tso_track_def)
qed

lemma do_flush_tso_base:
  assumes "poll_ready e0" and "poll_base e0 L F e" and "tso_wf (e_tso e)"
    and "tso_track (length (e_entries e0)) L F (tso_live (e_tso e))"
  shows "\<exists>e' F'. do_flush_tso std_sort tsn n e = Some e' \<and> poll_base e0 L F' e' \<and> tso_wf (e_tso e')
    \<and> tso_track (length (e_entries e0)) L F' (tso_live (e_tso e'))
    \<and> length (tso_live (e_tso e')) = length (tso_live (e_tso e)) - unat n
    \<and> tso_capacity (e_tso e') = tso_capacity (e_tso e)
    \<and> e_tso_leftover e' = e_tso_leftover e \<and> (\<forall>i. F i \<le> F' i)
    \<and> tso_live (e_tso e') = drop (unat n) (std_sort (tso_live (e_tso e)))
    \<and> out_recs (e_out e') = out_recs (e_out e) @ concat (map (entry_out e0) (take (unat n) (std_sort (tso_live (e_tso e)))))"
proof -
  let ?e = "e\<lparr>e_tso := tso_sort std_sort (e_tso e)\<rparr>"
  note srt = tso_sort_live [OF assms(3)]
  have "ghost e0 L F" using assms(2) by (simp add: poll_base_def)
  then have "tso_ordered (length (e_entries e0)) L F (tso_live (e_tso ?e))"
    using sort_tracks [OF _ assms(4)] srt(2) by simp
  then obtain e' F' where "flush_entries tsn (unat n) ?e = Some e'" "poll_base e0 L F' e'" "tso_wf (e_tso e')"
    "tso_ordered (length (e_entries e0)) L F' (tso_live (e_tso e'))"
    "tso_live (e_tso e') = drop (unat n) (tso_live (e_tso ?e))" "tso_capacity (e_tso e') = tso_capacity (e_tso ?e)"
    "e_tso_leftover e' = e_tso_leftover ?e" "\<forall>i. F i \<le> F' i"
    "out_recs (e_out e') = out_recs (e_out ?e) @ concat (map (entry_out e0) (take (unat n) (tso_live (e_tso ?e))))"
    using flush_entries_base [OF assms(1), of L F ?e tsn "unat n"] assms(2) srt(1) by auto
  then show ?thesis
    using srt(2,3) by (auto simp: do_flush_tso_def length_sort intro: tso_ordered_track)
qed

text \<open>The emergency flush leaves room for the next push.\<close>

lemma flush_full_tso_base:
  assumes "poll_ready e0" and "poll_base e0 L F e" and "tso_wf (e_tso e)" and "tso_head (e_tso e) = 0"
    and "tso_track (length (e_entries e0)) L F (tso_live (e_tso e))" and "tso_full (e_tso e)"
    and "2 \<le> unat (tso_capacity (e_tso e))"
  shows "\<exists>e' F'. flush_full_tso std_sort tsn e = Some e' \<and> poll_base e0 L F' e' \<and> tso_wf (e_tso e')
    \<and> tso_head (e_tso e') = 0 \<and> tso_track (length (e_entries e0)) L F' (tso_live (e_tso e'))
    \<and> \<not> tso_full (e_tso e') \<and> tso_capacity (e_tso e') = tso_capacity (e_tso e) \<and> (\<forall>i. F i \<le> F' i)"
proof -
  let ?n = "tso_size (e_tso e) div 2"
  have "unat (tso_size (e_tso e)) = unat (tso_capacity (e_tso e))"
    using assms(4,6) by (simp add: tso_size_def tso_full_def)
  then have size: "length (tso_live (e_tso e)) = unat (tso_capacity (e_tso e))"
    using tso_size_live [OF assms(3)] by simp
  then obtain te es where te: "tso_live (e_tso e) = te # es"
    using assms(7) by (cases "tso_live (e_tso e)") auto
  obtain ia fm where ia: "internal_area e = Some ia" "area_test ia (isect TSOFULLMARK) = Some fm"
    using internal_ok_test [of e TSOFULLMARK] assms(1,2)
    by (auto simp: poll_ready_def poll_base_def internal_ok_def internal_area_def)
  let ?i = "unat (te_tag te)"
  have g: "ghost e0 L F" using assms(2) by (simp add: poll_base_def)
  have "te \<in> set (filter (of_tag ?i) (tso_live (e_tso e)))" using te by simp
  then have i: "?i < length (e_entries e0)" "te \<in> set (drop (F ?i) (L ?i))"
    using assms(5) unfolding tso_track_def by (metis filter_is_subset in_mono)+
  then obtain k where k: "k < length (L ?i)" "te = L ?i ! k" by (metis in_set_conv_nth in_set_dropD)
  note gn = ghost_nth [OF g i(1) k(1)]
  obtain rid rb where r: "ring_of_entry e ?i = Some (rid, rb)" "entry_span e0 ?i ! k < nslots rb"
    using poll_base_ring [OF assms(1,2) i(1) gn(2)] by metis
  have slot: "\<exists>x. read_slot rb (te_rec te) = Some x"
    using r(2) gn(3) k(2) by (simp add: read_slot_def)
  then obtain x where x: "read_slot rb (te_rec te) = Some x" by blast
  have top: "tso_top (e_tso e) = Some te"
  proof -
    obtain b where "tso_pop (e_tso e) = Some (te, b)" using tso_pop_live(2) [OF assms(3) te] by blast
    then show ?thesis by (auto simp: tso_pop_def tso_top_def split: if_splits)
  qed
  define e1 where "e1 = (if fm then inject_record ''ENGINE'' (ts_minus_int (r_timestamp x) 1) 0 TSOFULLMARK
                      ''following records may be out of order'' [InjU64 0, InjU64 0] e else e)"
  have e1: "poll_base e0 L F e1" "e_tso e1 = e_tso e"
    using assms(2) by (simp_all add: e1_def inject_record_def emit_def poll_base_def entry_rel_def last_rel_def out_rel_def slot_rel_def)
  obtain e2 F' where e2: "do_flush_tso std_sort tsn ?n e1 = Some e2" "poll_base e0 L F' e2" "tso_wf (e_tso e2)"
    "tso_track (length (e_entries e0)) L F' (tso_live (e_tso e2))"
    "length (tso_live (e_tso e2)) = length (tso_live (e_tso e)) - unat ?n"
    "tso_capacity (e_tso e2) = tso_capacity (e_tso e)" "\<forall>i. F i \<le> F' i"
    using do_flush_tso_base [OF assms(1) e1(1), of tsn ?n] assms(3,5) e1(2) by auto
  have "flush_full_tso std_sort tsn e = Some (bump (\<lambda>s. s\<lparr>st_tso_full := st_tso_full s + 1\<rparr>)
      (e2\<lparr>e_tso_leftover := 0, e_tso := tso_flip (e_tso e2)\<rparr>))"
    using ia top r(1) x e2(1) unfolding flush_full_tso_def e1_def by (cases fm) (simp_all add: Let_def)
  moreover have "\<not> tso_full (tso_flip (e_tso e2))"
  proof -
    have "unat ?n = unat (tso_capacity (e_tso e)) div 2"
      using \<open>unat (tso_size (e_tso e)) = unat (tso_capacity (e_tso e))\<close> by (simp add: unat_div)
    then have "length (tso_live (e_tso e2)) < unat (tso_capacity (e_tso e))"
      using e2(5) size assms(7) by simp
    then show ?thesis
      using tso_flip_live [OF e2(3)] e2(6) by (simp add: tso_full_def word_unat_eq_iff)
  qed
  ultimately show ?thesis
    using e2 tso_flip_live [OF e2(3)] by (auto simp: bump_def)
qed

end

section \<open>Reading the rings\<close>

text \<open>The state between two pushes into the ordering buffer.\<close>

definition poll_inv :: "'re engine \<Rightarrow> (nat \<Rightarrow> tso_entry list) \<Rightarrow> (nat \<Rightarrow> nat) \<Rightarrow> 're engine \<Rightarrow> bool" where
  "poll_inv e0 L F e \<longleftrightarrow> poll_base e0 L F e \<and> tso_wf (e_tso e) \<and> tso_head (e_tso e) = 0
     \<and> tso_capacity (e_tso e) = tso_capacity (e_tso e0) \<and> \<not> tso_full (e_tso e)
     \<and> tso_track (length (e_entries e0)) L F (tso_live (e_tso e))"

text \<open>The iterator and the running timestamp after \<open>length (L i)\<close> records of ring \<open>i\<close>.\<close>

definition at_pos :: "ring \<Rightarrow> tso_entry list \<Rightarrow> timestamp \<Rightarrow> pop_iterator \<Rightarrow> bool" where
  "at_pos rb0 l ts it \<longleftrightarrow> it_tail it = rb_tail rb0
     \<and> it_head it = (if l = [] then rb_head rb0 else te_rec (last l))
     \<and> ts = (if l = [] then 0 else te_timestamp (last l))
     \<and> unat ts < 2 ^ 63 + length l"

lemma it_next_walk:
  assumes "ring_ok rb" and "ring_sim rb0 rb" and "sp = span (nslots rb0) (unat (rb_head rb0)) (unat (rb_tail rb0))"
    and "map (unat \<circ> te_rec) l = take (length l) sp" and "at_pos rb0 l ts it"
  shows "length l = length sp \<Longrightarrow> it_next rb it = None"
    and "length l < length sp \<Longrightarrow> \<exists>s. unat s = sp ! length l \<and> it_next rb it = Some (s, it\<lparr>it_head := s\<rparr>)"
proof -
  let ?k = "length l"
  note f = ring_sim_fields [OF assms(2)]
  have wf: "ring_wf rb" by (rule ring_ok_wf [OF assms(1)])
  have bnd: "unat (rb_head rb0) < nslots rb0" "unat (rb_tail rb0) < nslots rb0"
    using wf f by (auto elim!: ring_wfE)
  have le: "?k \<le> length sp" using arg_cong [OF assms(4), of length] by simp
  have hd: "unat (it_head it) = (if ?k = 0 then unat (rb_head rb0) else sp ! (?k - 1))"
  proof (cases "l = []")
    case False
    then have "unat (te_rec (last l)) = map (unat \<circ> te_rec) l ! (?k - 1)" by (simp add: last_conv_nth)
    also have "\<dots> = sp ! (?k - 1)" unfolding assms(4) using False by simp
    finally show ?thesis using False assms(5) by (simp add: at_pos_def)
  qed (use assms(5) in \<open>simp add: at_pos_def\<close>)
  let ?h = "(it_head it + 1) AND rb_capacity rb"
  have h: "unat ?h = Suc (unat (it_head it)) mod nslots rb0"
    using unat_next_index [OF wf] f by simp
  have tl: "it_tail it = rb_tail rb0" using assms(5) by (simp add: at_pos_def)
  have "?k \<le> length (span (nslots rb0) (unat (rb_head rb0)) (unat (rb_tail rb0)))" using le assms(3) by simp
  note w = span_walk [OF bnd this, folded assms(3)]
  show "it_next rb it = None" if "?k = length sp"
  proof -
    have "unat ?h = unat (rb_tail rb0)" using w(3) [OF that] unfolding h hd .
    then show ?thesis using tl by (simp add: it_next_def word_unat_eq_iff)
  qed
  assume lt: "?k < length sp"
  then have "unat ?h = sp ! ?k" "sp ! ?k \<noteq> unat (rb_tail rb0)"
    using w(2) unfolding h hd by blast+
  moreover from this have "?h \<noteq> it_tail it" using tl by auto
  ultimately show "\<exists>s. unat s = sp ! ?k \<and> it_next rb it = Some (s, it\<lparr>it_head := s\<rparr>)"
    by (auto simp: it_next_def Let_def)
qed

lemma length_entry_stamps: "length (entry_stamps e i) = length (entry_span e i)"
  by (auto simp: entry_stamps_def entry_span_def contents_def split: option.splits)

text \<open>Appending an entry to the ghost list.\<close>

lemma ghost_push:
  assumes "ghost e0 L F" and "te_tag te = word_of_nat i" and "length (L i) < length (entry_span e0 i)"
    and "unat (te_rec te) = entry_span e0 i ! length (L i)"
    and "L i \<noteq> [] \<Longrightarrow> te_timestamp (last (L i)) < te_timestamp te"
    and "te_timestamp te = entry_stamps e0 i ! length (L i)"
  shows "ghost e0 (L(i := L i @ [te])) F"
proof -
  have "sorted_wrt (\<lambda>x y. te_timestamp x < te_timestamp y) (L i @ [te])"
    if "sorted_wrt (\<lambda>x y. te_timestamp x < te_timestamp y) (L i)"
  proof -
    have "te_timestamp x < te_timestamp te" if "x \<in> set (L i)" for x
    proof -
      have "te_timestamp x \<le> te_timestamp (last (L i))"
        using \<open>sorted_wrt _ (L i)\<close> that
        by (cases "L i" rule: rev_cases) (auto simp: sorted_wrt_append order.order_iff_strict)
      with assms(5) that show ?thesis by (cases "L i = []") auto
    qed
    with that show ?thesis by (simp add: sorted_wrt_append)
  qed
  moreover have "take (Suc (length (L i))) (entry_span e0 i)
      = take (length (L i)) (entry_span e0 i) @ [entry_span e0 i ! length (L i)]"
    using assms(3) by (simp add: take_Suc_conv_app_nth)
  moreover have "take (Suc (length (L i))) (entry_stamps e0 i)
      = take (length (L i)) (entry_stamps e0 i) @ [entry_stamps e0 i ! length (L i)]"
    using assms(3) by (simp add: take_Suc_conv_app_nth length_entry_stamps)
  ultimately show ?thesis
    using assms(1,2,4,6) unfolding ghost_def by auto
qed

lemma tso_track_push:
  assumes "ghost e0 L F" and "tso_track (length (e_entries e0)) L F es" and "i < length (e_entries e0)"
    and "unat (te_tag te) = i" and "te \<notin> set (L i)" and "F i \<le> length (L i)"
  shows "tso_track (length (e_entries e0)) (L(i := L i @ [te])) F (es @ [te])"
proof -
  have "te \<notin> set es"
  proof
    assume "te \<in> set es"
    then have "te \<in> set (filter (of_tag i) es)" using assms(4) by simp
    then have "te \<in> set (drop (F i) (L i))" using assms(2,3) unfolding tso_track_def by blast
    with assms(5) show False by (metis in_set_dropD)
  qed
  then show ?thesis
    using assms(2-4,6) unfolding tso_track_def by auto
qed

lemma poll_base_push:
  assumes "poll_base e0 L F e" and "ghost e0 (L(i := l)) F" and "\<And>k. k < F i \<Longrightarrow> l ! k = L i ! k"
  shows "poll_base e0 (L(i := l)) F e"
  using assms by (auto simp: poll_base_def last_rel_def)

text \<open>The timestamp given to a record: strictly later than the one before from the same ring.\<close>

lemma tso_timestamp:
  assumes "at_pos rb0 l ts it" and "r_timestamp r < 2 ^ 63" and "length l < 2 ^ 32"
  defines "ts' \<equiv> if r_timestamp r \<le> ts then ts_plus_int ts 1 else r_timestamp r"
  shows "ts < ts'" and "unat ts' < 2 ^ 63 + Suc (length l)"
proof -
  have b: "unat ts < 2 ^ 63 + length l" using assms(1) unfolding at_pos_def by blast
  then have p: "unat (ts_plus_int ts 1) = Suc (unat ts)"
    using assms(3) by (simp add: ts_plus_int_def from_nsec_def to_nsec_def unat_word_ariths)
  show "ts < ts'" "unat ts' < 2 ^ 63 + Suc (length l)"
    using b p assms(2) by (auto simp: ts'_def word_less_nat_alt not_le)
qed

lemma length_by_tag:
  assumes "\<forall>te \<in> set es. unat (te_tag te) < n"
  shows "length es = (\<Sum>i < n. length (filter (of_tag i) es))"
  using assms
proof (induction es)
  case (Cons te es)
  let ?k = "unat (te_tag te)"
  have k: "?k \<in> {..<n}" using Cons.prems by simp
  have "(\<Sum>i < n. length (filter (of_tag i) (te # es)))
      = (\<Sum>i < n. (if ?k = i then 1 else 0) + length (filter (of_tag i) es))"
    by (intro sum.cong refl) simp
  also have "\<dots> = (\<Sum>i < n. if ?k = i then 1 else 0) + length es"
    using Cons.IH Cons.prems by (simp add: sum.distrib)
  also have "(\<Sum>i < n. if ?k = i then 1 else 0) = (1 :: nat)"
    using k by (simp only: sum.delta' finite_lessThan if_True)
  finally show ?case by simp
qed simp

lemma sorted_wrt_distinct: "sorted_wrt (\<lambda>x y. te_timestamp x < te_timestamp y) l \<Longrightarrow> distinct l"
  by (induction l) auto

text \<open>The number of buffered entries, and the case in which the buffer cannot fill up.\<close>

lemma tso_track_length:
  assumes "ghost e0 L F" and "tso_track (length (e_entries e0)) L F es"
  shows "length es = (\<Sum>i < length (e_entries e0). length (L i) - F i)"
proof -
  let ?n = "length (e_entries e0)"
  have tags: "\<forall>te \<in> set es. unat (te_tag te) < ?n" and d: "distinct es" using assms(2) by (simp_all add: tso_track_def)
  have "length es = (\<Sum>i < ?n. length (filter (of_tag i) es))" by (rule length_by_tag [OF tags])
  also have "\<dots> = (\<Sum>i < ?n. length (L i) - F i)"
  proof (rule sum.cong)
    fix i assume i: "i \<in> {..<?n}"
    then have "sorted_wrt (\<lambda>x y. te_timestamp x < te_timestamp y) (L i)"
      using assms(1) by (simp add: ghost_def)
    then have "distinct (L i)" by (rule sorted_wrt_distinct)
    moreover have "length (filter (of_tag i) es) = card (set (drop (F i) (L i)))"
      using i d assms(2) distinct_card [of "filter (of_tag i) es"] unfolding tso_track_def by (metis distinct_filter lessThan_iff)
    ultimately show "length (filter (of_tag i) es) = length (L i) - F i"
      by (simp add: distinct_card)
  qed simp
  finally show ?thesis .
qed

definition small :: "'re engine \<Rightarrow> bool" where
  "small e \<longleftrightarrow> (\<Sum>i < length (e_entries e). length (entry_span e i)) < unat (tso_capacity (e_tso e))"

lemma small_not_full:
  assumes "small e0" and "ghost e0 L F" and "tso_track (length (e_entries e0)) L F (tso_live b)"
    and "tso_wf b" and "tso_head b = 0" and "tso_capacity b = tso_capacity (e_tso e0)"
  shows "\<not> tso_full b"
proof -
  have "length (L i) - F i \<le> length (entry_span e0 i)" if "i < length (e_entries e0)" for i
  proof -
    have m: "map (unat \<circ> te_rec) (L i) = take (length (L i)) (entry_span e0 i)"
      using assms(2) that unfolding ghost_def by blast
    show ?thesis using arg_cong [OF m, of length] by simp
  qed
  then have "length (tso_live b) \<le> (\<Sum>i < length (e_entries e0). length (entry_span e0 i))"
    unfolding tso_track_length [OF assms(2,3)] by (intro sum_mono) auto
  then have "length (tso_live b) < unat (tso_capacity b)"
    using assms(1,6) by (simp add: small_def)
  then show ?thesis
    using tso_size_live [OF assms(4)] assms(5) by (auto simp: tso_full_def tso_size_def)
qed

text \<open>A ring in the middle of being read: what was walked over, the end of the walk, the next record.\<close>

lemma walk_facts:
  assumes "poll_ready e0" and "i < length (e_entries e0)" and "ring_of_entry e0 i = Some (rid, rb0)"
    and "poll_inv e0 L F e" and "ring_sim rb0 rb"
  shows "ring_ok rb" and "entry_span e0 i = span (nslots rb0) (unat (rb_head rb0)) (unat (rb_tail rb0))"
    and "map (unat \<circ> te_rec) (L i) = take (length (L i)) (entry_span e0 i)"
    and "length (L i) \<le> length (entry_span e0 i)"
proof -
  show "ring_ok rb" using ring_sim_ok [OF assms(5)] ring_of_entry_ready [OF assms(1,3)] by simp
  show "entry_span e0 i = span (nslots rb0) (unat (rb_head rb0)) (unat (rb_tail rb0))"
    using assms(3) by (simp add: entry_span_def)
  show m: "map (unat \<circ> te_rec) (L i) = take (length (L i)) (entry_span e0 i)"
    using assms(2,4) by (simp add: poll_inv_def poll_base_def ghost_def)
  show "length (L i) \<le> length (entry_span e0 i)" using arg_cong [OF m, of length] by simp
qed

lemma read_ring_done:
  assumes "poll_ready e0" and "i < length (e_entries e0)" and "ring_of_entry e0 i = Some (rid, rb0)"
    and "poll_inv e0 L F e" and "ring_of_entry e i = Some (rid, rb)" and "ring_sim rb0 rb" and "at_pos rb0 (L i) ts it"
    and "length (L i) = length (entry_span e0 i)"
  shows "read_ring lim srt tsn i ts it e = Some (e, it)"
proof -
  note w = walk_facts [OF assms(1-4,6)]
  have "it_next rb it = None" using it_next_walk(1) [OF w(1) assms(6) w(2,3) assms(7)] assms(8) by simp
  with assms(5) show ?thesis by (subst read_ring.simps) simp
qed

lemma next_stamp:
  assumes "i < length (e_entries e0)" and "ring_of_entry e0 i = Some (rid, rb0)" and "poll_base e0 L F e"
    and "at_pos rb0 (L i) ts it" and "length (L i) < length (entry_span e0 i)"
  shows "entry_stamps e0 i ! length (L i) =
    (let t = r_timestamp (rb_slots rb0 ! (entry_span e0 i ! length (L i))) in if t \<le> ts then ts_plus_int ts 1 else t)"
proof -
  have g: "map te_timestamp (L i) = take (length (L i)) (entry_stamps e0 i)"
    using assms(1,3) by (simp add: poll_base_def ghost_def)
  have es: "entry_stamps e0 i = stamps 0 (map r_timestamp (contents rb0))"
    using assms(2) by (simp add: entry_stamps_def)
  have k: "length (L i) < length (map r_timestamp (contents rb0))"
    "map r_timestamp (contents rb0) ! length (L i) = r_timestamp (rb_slots rb0 ! (entry_span e0 i ! length (L i)))"
    using assms(2,5) by (simp_all add: contents_def entry_span_def)
  have "ts = (if length (L i) = 0 then 0 else entry_stamps e0 i ! (length (L i) - 1))"
  proof (cases "L i = []")
    case False
    then have "te_timestamp (last (L i)) = map te_timestamp (L i) ! (length (L i) - 1)" by (simp add: last_conv_nth)
    also have "\<dots> = entry_stamps e0 i ! (length (L i) - 1)" unfolding g using False by simp
    finally show ?thesis using assms(4) False by (simp add: at_pos_def)
  qed (use assms(4) in \<open>simp add: at_pos_def\<close>)
  then show ?thesis using stamps_nth [OF k(1), of 0] unfolding es k(2) by (simp add: Let_def)
qed

lemma next_entry:
  assumes "poll_ready e0" and "i < length (e_entries e0)" and "ring_of_entry e0 i = Some (rid, rb0)"
    and "poll_inv e0 L F e" and "ring_of_entry e i = Some (rid, rb)" and "ring_sim rb0 rb" and "at_pos rb0 (L i) ts it"
    and less: "length (L i) < length (entry_span e0 i)"
  obtains s ts' where "unat s = entry_span e0 i ! length (L i)" and "it_next rb it = Some (s, it\<lparr>it_head := s\<rparr>)"
    and "read_slot rb s = Some (rb_slots rb ! unat s)"
    and "ts' = (if r_timestamp (rb_slots rb ! unat s) \<le> ts then ts_plus_int ts 1 else r_timestamp (rb_slots rb ! unat s))"
    and "ts < ts'" and "unat ts' < 2 ^ 63 + Suc (length (L i))" and "ts' = entry_stamps e0 i ! length (L i)"
proof -
  note w = walk_facts [OF assms(1-4,6)] and f = ring_sim_fields [OF assms(6)]
  have base: "poll_base e0 L F e" using assms(4) by (simp add: poll_inv_def)
  obtain s where s: "unat s = entry_span e0 i ! length (L i)" "it_next rb it = Some (s, it\<lparr>it_head := s\<rparr>)"
    using it_next_walk(2) [OF w(1) assms(6) w(2,3) assms(7) less] by blast
  have sl: "unat s < nslots rb"
    using poll_base_ring [OF assms(1) base assms(2) less] assms(5) s(1) by (metis option.inject prod.inject)
  then have ts: "r_timestamp (rb_slots rb ! unat s) = r_timestamp (rb_slots rb0 ! unat s)"
    using rec_sim_fields(1) [OF ring_sim_slot [OF assms(6)]] f(6) by simp
  have "length (entry_span e0 i) < nslots rb" using w(2) ring_ok_wf [OF w(1)] f
      span_len [of "unat (rb_head rb0)" "nslots rb0" "unat (rb_tail rb0)"] by (auto elim!: ring_wfE)
  with less nslots_less [OF ring_ok_wf [OF w(1)]] have ll: "length (L i) < 2 ^ 32" by simp
  have small: "r_timestamp (rb_slots rb ! unat s) < 2 ^ 63"
    using ts ring_of_entry_ready(2) [OF assms(1,3)] sl f(6) by simp
  have "read_slot rb s = Some (rb_slots rb ! unat s)" using sl by (simp add: read_slot_def)
  with s tso_timestamp [OF assms(7) small ll] next_stamp [OF assms(2,3) base assms(7) less] ts
  show thesis using that by (auto simp: Let_def)
qed

context std_sort begin

lemma push_step:
  assumes "poll_ready e0" and "poll_inv e0 L F e" and "i < length (e_entries e0)"
    and "te_tag te = word_of_nat i" and "length (L i) < length (entry_span e0 i)"
    and "unat (te_rec te) = entry_span e0 i ! length (L i)"
    and "L i \<noteq> [] \<Longrightarrow> te_timestamp (last (L i)) < te_timestamp te"
    and "te_timestamp te = entry_stamps e0 i ! length (L i)"
  shows "\<exists>b e' F'. tso_push te (e_tso e) = Some b
    \<and> (if tso_full b then flush_full_tso std_sort tsn (e\<lparr>e_tso := b\<rparr>) else Some (e\<lparr>e_tso := b\<rparr>)) = Some e'
    \<and> poll_inv e0 (L(i := L i @ [te])) F' e' \<and> (\<forall>j. F j \<le> F' j)
    \<and> (small e0 \<longrightarrow> e_tso_leftover e' = e_tso_leftover e \<and> e_out e' = e_out e)"
proof -
  let ?L = "L(i := L i @ [te])"
  have base: "poll_base e0 L F e" and g: "ghost e0 L F" and tr: "tso_track (length (e_entries e0)) L F (tso_live (e_tso e))"
    and wf: "tso_wf (e_tso e)" "tso_head (e_tso e) = 0" "\<not> tso_full (e_tso e)"
    "tso_capacity (e_tso e) = tso_capacity (e_tso e0)"
    using assms(2) by (simp_all add: poll_inv_def poll_base_def)
  have Fi: "F i \<le> length (L i)" using g assms(3) by (simp add: ghost_def)
  have g': "ghost e0 ?L F" by (rule ghost_push [OF g assms(4-8)])
  then have "sorted_wrt (\<lambda>x y. te_timestamp x < te_timestamp y) (L i @ [te])"
    using assms(3) unfolding ghost_def by auto
  then have "te \<notin> set (L i)" by (auto simp: sorted_wrt_append)
  moreover have "unat (te_tag te) = i"
    using assms(1,3,4) by (simp add: unat_word_of_nat poll_ready_def)
  ultimately have tr': "tso_track (length (e_entries e0)) ?L F (tso_live (e_tso e) @ [te])"
    by (intro tso_track_push [OF g tr assms(3)] Fi)
  obtain b where b: "tso_push te (e_tso e) = Some b" "tso_wf b" "tso_live b = tso_live (e_tso e) @ [te]"
    "tso_capacity b = tso_capacity (e_tso e)" "tso_head b = 0"
    using tso_push_live [OF wf(1,3), of te] wf(2) by metis
  have base': "poll_base e0 ?L F (e\<lparr>e_tso := b\<rparr>)"
    using poll_base_push [OF base g'] Fi by (simp add: nth_append)
  have cap: "2 \<le> unat (tso_capacity b)" using assms(1) b(4) wf(4) by (simp add: poll_ready_def)
  show ?thesis
  proof (cases "tso_full b")
    case False
    then have "poll_inv e0 ?L F (e\<lparr>e_tso := b\<rparr>)"
      using base' b tr' wf(4) by (simp add: poll_inv_def)
    with False b(1) show ?thesis by auto
  next
    case True
    obtain e' F' where "flush_full_tso std_sort tsn (e\<lparr>e_tso := b\<rparr>) = Some e'" "poll_base e0 ?L F' e'"
      "tso_wf (e_tso e')" "tso_head (e_tso e') = 0" "tso_track (length (e_entries e0)) ?L F' (tso_live (e_tso e'))"
      "\<not> tso_full (e_tso e')" "tso_capacity (e_tso e') = tso_capacity b" "\<forall>j. F j \<le> F' j"
      using flush_full_tso_base [OF assms(1) base', of tsn] b(2,3,5) tr' True cap by auto
    then have "poll_inv e0 ?L F' e'" using b(4) wf(4) by (simp add: poll_inv_def)
    moreover have "\<not> small e0"
      using small_not_full [OF _ g', of b] tr' b True wf(4) by auto
    ultimately show ?thesis using True b(1)
        \<open>flush_full_tso std_sort tsn (e\<lparr>e_tso := b\<rparr>) = Some e'\<close> \<open>\<forall>j. F j \<le> F' j\<close> by auto
  qed
qed

lemma read_ring_base:
  assumes "poll_ready e0" and "i < length (e_entries e0)" and "ring_of_entry e0 i = Some (rid, rb0)"
    and "poll_inv e0 L F e" and "ring_of_entry e i = Some (rid, rb)" and "ring_sim rb0 rb"
    and "at_pos rb0 (L i) ts it" and "length (entry_span e0 i) - length (L i) \<le> lim"
  shows "\<exists>e' it' L' F' rb'. read_ring lim std_sort tsn i ts it e = Some (e', it') \<and> poll_inv e0 L' F' e'
    \<and> (\<forall>j. j \<noteq> i \<longrightarrow> L' j = L j) \<and> length (L' i) = length (entry_span e0 i)
    \<and> ring_of_entry e' i = Some (rid, rb') \<and> ring_sim rb0 rb' \<and> (\<forall>j. F j \<le> F' j)
    \<and> (small e0 \<longrightarrow> e_tso_leftover e' = e_tso_leftover e \<and> e_out e' = e_out e)"
  using assms(4-8)
proof (induction lim arbitrary: e L F ts it rb)
  case 0
  have "length (L i) = length (entry_span e0 i)"
    using "0.prems"(5) walk_facts(4) [OF assms(1-3) "0.prems"(1,3)] by simp
  with read_ring_done [OF assms(1-3) "0.prems"(1-4) this] "0.prems" show ?case by blast
next
  case (Suc lim)
  let ?sp = "entry_span e0 i"
  show ?case
  proof (cases "length (L i) < length ?sp")
    case False
    then have "length (L i) = length ?sp" using walk_facts(4) [OF assms(1-3) Suc.prems(1,3)] by simp
    with read_ring_done [OF assms(1-3) Suc.prems(1-4) this] Suc.prems show ?thesis by blast
  next
    case True
    obtain s ts' where s: "unat s = ?sp ! length (L i)" "it_next rb it = Some (s, it\<lparr>it_head := s\<rparr>)"
      and r: "read_slot rb s = Some (rb_slots rb ! unat s)"
        "ts' = (if r_timestamp (rb_slots rb ! unat s) \<le> ts then ts_plus_int ts 1 else r_timestamp (rb_slots rb ! unat s))"
      and t: "ts < ts'" "unat ts' < 2 ^ 63 + Suc (length (L i))" "ts' = entry_stamps e0 i ! length (L i)"
      by (rule next_entry [OF assms(1-3) Suc.prems(1-4) True])
    let ?te = "\<lparr>te_timestamp = ts', te_rec = s, te_tag = word_of_nat i\<rparr>"
    have inc: "te_timestamp (last (L i)) < te_timestamp ?te" if "L i \<noteq> []"
      using t(1) that Suc.prems(4) by (simp add: at_pos_def)
    obtain b e1 F1 where st: "tso_push ?te (e_tso e) = Some b"
      "(if tso_full b then flush_full_tso std_sort tsn (e\<lparr>e_tso := b\<rparr>) else Some (e\<lparr>e_tso := b\<rparr>)) = Some e1"
      "poll_inv e0 (L(i := L i @ [?te])) F1 e1" "\<forall>j. F j \<le> F1 j"
      "small e0 \<longrightarrow> e_tso_leftover e1 = e_tso_leftover e \<and> e_out e1 = e_out e"
      using push_step [OF assms(1) Suc.prems(1) assms(2), of ?te tsn] True s(1) inc t(3) by auto
    let ?L = "L(i := L i @ [?te])"
    have base1: "poll_base e0 ?L F1 e1" using st(3) by (simp add: poll_inv_def)
    obtain rb1 where rb1: "ring_of_entry e1 i = Some (rid, rb1)" "ring_sim rb0 rb1"
      using poll_base_ring [OF assms(1) base1 assms(2) True] assms(3) by (metis option.inject prod.inject)
    have pos: "at_pos rb0 (?L i) ts' (it\<lparr>it_head := s\<rparr>)"
      using Suc.prems(4) t(2) by (simp add: at_pos_def)
    have "length ?sp - length (?L i) \<le> lim" using Suc.prems(5) by simp
    then obtain e' it' L' F' rb' where
      ih: "read_ring lim std_sort tsn i ts' (it\<lparr>it_head := s\<rparr>) e1 = Some (e', it')"
      "poll_inv e0 L' F' e'" "\<forall>j. j \<noteq> i \<longrightarrow> L' j = ?L j" "length (L' i) = length ?sp"
      "ring_of_entry e' i = Some (rid, rb')" "ring_sim rb0 rb'" "\<forall>j. F1 j \<le> F' j"
      "small e0 \<longrightarrow> e_tso_leftover e' = e_tso_leftover e1 \<and> e_out e' = e_out e1"
      using Suc.IH [OF st(3) rb1 pos] by blast
    have "read_ring (Suc lim) std_sort tsn i ts it e = Some (e', it')"
      using Suc.prems(2) s(2) r(1) st(1,2) ih(1) unfolding r(2) by (subst read_ring.simps) (simp add: Let_def)
    moreover have "\<forall>j. F j \<le> F' j" using st(4) ih(7) order.trans by blast
    moreover have "small e0 \<longrightarrow> e_tso_leftover e' = e_tso_leftover e \<and> e_out e' = e_out e" using st(5) ih(8) by simp
    moreover have "\<forall>j. j \<noteq> i \<longrightarrow> L' j = L j" using ih(3) by simp
    ultimately show ?thesis using ih(2,4-6) by blast
  qed
qed

end

section \<open>An ordering buffer of one entry\<close>

text \<open>
  The emergency flush writes half of a full buffer, rounded down. With a capacity of one that is
  nothing: the buffer is still full afterwards, and the next record of the ring is stored behind it.
\<close>

lemma single_entry_buffer_overflows:
  assumes "tso_wf (e_tso e)" and "tso_capacity (e_tso e) = 1" and "tso_head (e_tso e) = 0" and "tso_full (e_tso e)"
    and "\<And>xs. length (srt xs) = length xs" and "flush_full_tso srt ts_name e = Some e'"
  shows "tso_push x (e_tso e') = None"
proof -
  let ?b = "e_tso e"
  have b: "tso_size ?b = 1" "length (tso_entry_arr ?b) = 1" "tso_tail ?b = 1" "tso_head ?b = 0"
    using assms(1-4) by (auto simp: tso_wf_def tso_size_def tso_full_def)
  have "e_tso e' = tso_flip (tso_sort srt ?b)"
    using assms(6) b(1) by (auto simp: flush_full_tso_def do_flush_tso_def inject_record_def emit_def bump_def bind_eq_Some_conv split: if_splits)
  moreover have "length (tso_entry_arr (tso_flip (tso_sort srt ?b))) = 1" "tso_tail (tso_flip (tso_sort srt ?b)) = 1"
    using b assms(5) by (simp_all add: tso_flip_def tso_sort_def tso_live_def tso_size_def)
  ultimately show ?thesis by (simp add: tso_push_def)
qed

end
