(* ===== verification/Poll_Correct.thy ===== *)
theory Poll_Correct
  imports Engine_Poll
begin

text \<open>
  The end of a poll with timestamp ordering and the theorems about the whole of it:
  reading all rings, the regular flush, and committing each ring up to the last record
  that went to the output.
\<close>

section \<open>Reading all rings\<close>

lemma poll_inv_pit:
  assumes "poll_inv e0 L F e" and "i < length (e_entries e0)"
  shows "poll_inv e0 L F (put_entry i (\<lambda>x. x\<lparr>ie_pit := it\<rparr>) e)"
proof -
  let ?e = "put_entry i (\<lambda>x. x\<lparr>ie_pit := it\<rparr>) e"
  have f: "e_entries ?e = (e_entries e)[i := (e_entries e ! i)\<lparr>ie_pit := it\<rparr>]" "e_rings ?e = e_rings e"
    "e_out ?e = e_out e" "e_tso ?e = e_tso e" "e_area_map ?e = e_area_map e"
    by (simp_all add: put_entry_def)
  have len: "length (e_entries e) = length (e_entries e0)" using assms(1) by (simp add: poll_inv_def poll_base_def)
  have "ie_ring (e_entries ?e ! j) = ie_ring (e_entries e ! j)" "ie_lastrec (e_entries ?e ! j) = ie_lastrec (e_entries e ! j)"
    if "j < length (e_entries e0)" for j
    using that len assms(2) by (cases "j = i"; simp add: f(1))+
  then show ?thesis
    using assms(1) len unfolding poll_inv_def poll_base_def entry_rel_def last_rel_def out_rel_def slot_rel_def f
    by simp
qed

text \<open>Removing an empty ring that only the engine holds.\<close>

lemma kill_orphan_base:
  assumes "poll_ready e0" and "poll_inv e0 L F e" and "i < length (e_entries e0)"
    and "ring_of_entry e0 i = Some (rid, rb0)" and "ring_orphan rb" and "entry_span e0 i = []" and "ring_orphan rb0"
  shows "\<exists>e'. kill_orphan i rid rb e = Some e' \<and> poll_inv e0 L F e' \<and> e_tso_leftover e' = e_tso_leftover e
    \<and> e_out e' = e_out e"
proof -
  define e1 where "e1 = put_entry i (\<lambda>x. x\<lparr>ie_ring := None, ie_pit := it_invalid\<rparr>)
    (e\<lparr>e_ring_map := smap_erase (rb_name rb) (e_ring_map e)\<rparr>)\<lparr>e_dirty := True\<rparr>"
  have "\<exists>v. kill_orphan i rid rb e = Some (e1\<lparr>e_rings := (e_rings e1)(rid := v)\<rparr>)"
    using assms(5) by (auto simp: kill_orphan_def ring_release_def ring_orphan_def e1_def put_ring_def Let_def)
  then obtain v where kill: "kill_orphan i rid rb e = Some (e1\<lparr>e_rings := (e_rings e1)(rid := v)\<rparr>)" (is "_ = Some ?e") ..
  have f: "e_entries ?e = (e_entries e)[i := (e_entries e ! i)\<lparr>ie_ring := None, ie_pit := it_invalid\<rparr>]"
    "e_rings ?e = (e_rings e)(rid := v)" "e_out ?e = e_out e" "e_tso ?e = e_tso e" "e_area_map ?e = e_area_map e"
    "e_tso_leftover ?e = e_tso_leftover e"
    by (simp_all add: e1_def put_entry_def)
  have base: "poll_base e0 L F e" and len: "length (e_entries e) = length (e_entries e0)"
    using assms(2) by (simp_all add: poll_inv_def poll_base_def)
  have "entry_rel e0 ?e j \<and> last_rel L F ?e j \<and> out_rel e0 F ?e j \<and> slot_rel e0 F ?e j" if j: "j < length (e_entries e0)" for j
  proof -
    have b: "entry_rel e0 e j" "last_rel L F e j" "out_rel e0 F e j" "slot_rel e0 F e j" using base j by (simp_all add: poll_base_def)
    have "last_rel L F ?e j" "out_rel e0 F ?e j"
      using b(2,3) len assms(3) unfolding last_rel_def out_rel_def f by (cases "j = i"; simp)+
    moreover have "entry_rel e0 ?e j \<and> slot_rel e0 F ?e j"
    proof (cases "j = i")
      case True
      then show ?thesis using len assms(3,4,6,7) unfolding entry_rel_def slot_rel_def f by simp
    next
      case False
      then have "\<forall>r rb. ring_of_entry e0 j = Some (r, rb) \<longrightarrow> r \<noteq> rid"
        using assms(1,4) unfolding poll_ready_def by metis
      with b(1,4) False show ?thesis unfolding entry_rel_def slot_rel_def f by auto
    qed
    ultimately show ?thesis by blast
  qed
  then have "poll_inv e0 L F ?e"
    using assms(2) unfolding poll_inv_def poll_base_def by (simp add: f)
  with kill f(3,6) show ?thesis by blast
qed

text \<open>The ring of an entry at the start of a poll and now.\<close>

lemma entry_ring_now:
  assumes "poll_ready e0" and "i < length (e_entries e0)" and "poll_base e0 L F e" and "entry_rel e0 e i"
    and "ie_ring (e_entries e ! i) = Some rid"
  obtains rb0 rb where "ring_of_entry e0 i = Some (rid, rb0)" "ring_ok rb0" "ring_of_entry e i = Some (rid, rb)" "ring_sim rb0 rb"
proof -
  have "ie_ring (e_entries e0 ! i) = Some rid" using assms(4,5) by (auto simp: entry_rel_def)
  moreover have "entry_ok e0 i" using assms(1,2) by (simp add: poll_ready_def)
  ultimately obtain rb0 where rb0: "ring_of_entry e0 i = Some (rid, rb0)"
    using assms(2) unfolding entry_ok_def by (auto simp: ring_of_entry_Some)
  then obtain rb where rb: "e_rings e rid = Some rb" "ring_sim rb0 rb"
    using assms(4,5) unfolding entry_rel_def by auto
  moreover have "ring_of_entry e i = Some (rid, rb)"
    using assms(2,3,5) rb(1) by (simp add: ring_of_entry_Some poll_base_def)
  ultimately show thesis using that rb0 ring_of_entry_ready [OF assms(1) rb0] by blast
qed

lemma entry_span_slots:
  assumes "ring_of_entry e0 i = Some (rid, rb0)" and "ring_ok rb0"
  shows "length (entry_span e0 i) < nslots rb0"
  using assms ring_ok_wf [OF assms(2)] span_len [of "unat (rb_head rb0)" "nslots rb0" "unat (rb_tail rb0)"]
  by (auto simp: entry_span_def elim!: ring_wfE)

lemma entry_span_empty:
  assumes "ring_of_entry e0 i = Some (rid, rb0)" and "ring_ok rb0" and "ring_sim rb0 rb" and "ring_empty rb"
  shows "entry_span e0 i = []"
proof -
  have "contents rb = []" using assms(4) ring_empty_iff [OF ring_ok_wf [OF ring_sim_ok [OF assms(3,2)]]] by simp
  then show ?thesis using assms(1) ring_sim_fields [OF assms(3)] by (simp add: contents_def entry_span_def)
qed

context std_sort begin

lemma read_ring_entry_base:
  assumes "poll_ready e0" and "i < length (e_entries e0)" and "poll_inv e0 L F e" and "L i = []"
  shows "\<exists>e' L' F'. read_ring_entry tlock std_sort tsn i e = Some e' \<and> poll_inv e0 L' F' e'
    \<and> (\<forall>j. j \<noteq> i \<longrightarrow> L' j = L j) \<and> length (L' i) = length (entry_span e0 i)
    \<and> (small e0 \<longrightarrow> e_tso_leftover e' = e_tso_leftover e \<and> e_out e' = e_out e)"
proof -
  have base: "poll_base e0 L F e" and rel: "entry_rel e0 e i"
    using assms(2,3) by (simp_all add: poll_inv_def poll_base_def)
  show ?thesis
  proof (cases "ie_ring (e_entries e ! i)")
    case None
    then have "entry_span e0 i = []"
      using rel by (auto simp: entry_rel_def entry_span_def ring_of_entry_def)
    with None assms(3,4) show ?thesis
      by (intro exI [of _ e] exI [of _ L] exI [of _ F]) (simp add: read_ring_entry_def)
  next
    case (Some rid)
    obtain rb0 rb where rb0: "ring_of_entry e0 i = Some (rid, rb0)" "ring_ok rb0"
      and rb: "ring_of_entry e i = Some (rid, rb)" "ring_sim rb0 rb"
      by (rule entry_ring_now [OF assms(1,2) base rel Some])
    have lim: "length (entry_span e0 i) - length (L i) \<le> nslots rb"
      using entry_span_slots [OF rb0] ring_sim_fields(6) [OF rb(2)] by simp
    have pos: "at_pos rb0 (L i) (from_nsec 0) (it_reset rb)"
      using ring_sim_fields [OF rb(2)] assms(4) by (simp add: at_pos_def it_reset_def from_nsec_def)
    obtain e1 it L' F' rb' where e1: "read_ring (nslots rb) std_sort tsn i (from_nsec 0) (it_reset rb) e = Some (e1, it)"
      "poll_inv e0 L' F' e1" "\<forall>j. j \<noteq> i \<longrightarrow> L' j = L j" "length (L' i) = length (entry_span e0 i)"
      "ring_of_entry e1 i = Some (rid, rb')" "ring_sim rb0 rb'" "small e0 \<longrightarrow> e_tso_leftover e1 = e_tso_leftover e \<and> e_out e1 = e_out e"
      using read_ring_base [OF assms(1,2) rb0(1) assms(3) rb pos lim, of tsn] by blast
    define e2 where "e2 = put_entry i (\<lambda>x. x\<lparr>ie_pit := it\<rparr>) e1"
    have e2: "poll_inv e0 L' F' e2" unfolding e2_def by (rule poll_inv_pit [OF e1(2) assms(2)])
    have roe2: "ring_of_entry e2 i = Some (rid, rb')" and lo: "e_tso_leftover e2 = e_tso_leftover e1" "e_out e2 = e_out e1"
      using e1(5) by (simp_all add: e2_def ring_of_entry_Some put_entry_def)
    have eq: "read_ring_entry tlock std_sort tsn i e =
        (if ring_orphan rb' \<and> ring_empty rb' then (if tlock i then kill_orphan i rid rb' e2 else Some e2) else Some e2)"
      using Some rb(1) e1(1) roe2 unfolding read_ring_entry_def e2_def [symmetric] by (simp add: e2_def [symmetric])
    show ?thesis
    proof (cases "ring_orphan rb' \<and> ring_empty rb' \<and> tlock i")
      case True
      have "entry_span e0 i = []" using True entry_span_empty [OF rb0 e1(6)] by simp
      then obtain e' where "kill_orphan i rid rb' e2 = Some e'" "poll_inv e0 L' F' e'"
        "e_tso_leftover e' = e_tso_leftover e2" "e_out e' = e_out e2"
        using kill_orphan_base [OF assms(1) e2 assms(2) rb0(1), of rb'] True ring_sim_fields(5) [OF e1(6)]
        by (auto simp: ring_orphan_def)
      with eq True e1(3,4,7) lo show ?thesis by auto
    next
      case False
      then have "read_ring_entry tlock std_sort tsn i e = Some e2" using eq by auto
      with e2 e1(3,4,7) lo show ?thesis by auto
    qed
  qed
qed

lemma read_rings_base:
  assumes "poll_ready e0" and "poll_inv e0 L F e" and "distinct is"
    and "\<forall>i \<in> set is. i < length (e_entries e0) \<and> L i = []"
  shows "\<exists>e' L' F'. read_rings tlock std_sort tsn is e = Some e' \<and> poll_inv e0 L' F' e'
    \<and> (\<forall>j. j \<notin> set is \<longrightarrow> L' j = L j) \<and> (\<forall>i \<in> set is. length (L' i) = length (entry_span e0 i))
    \<and> (small e0 \<longrightarrow> e_tso_leftover e' = e_tso_leftover e \<and> e_out e' = e_out e)"
  using assms(2-4)
proof (induction "is" arbitrary: e L F)
  case Nil
  then show ?case by auto
next
  case (Cons i "is")
  have i: "i < length (e_entries e0)" "L i = []" "i \<notin> set is" "distinct is" using Cons.prems by auto
  obtain e1 L1 F1 where e1: "read_ring_entry tlock std_sort tsn i e = Some e1" "poll_inv e0 L1 F1 e1"
    "\<forall>j. j \<noteq> i \<longrightarrow> L1 j = L j" "length (L1 i) = length (entry_span e0 i)"
    "small e0 \<longrightarrow> e_tso_leftover e1 = e_tso_leftover e \<and> e_out e1 = e_out e"
    using read_ring_entry_base [OF assms(1) i(1) Cons.prems(1) i(2), of tlock tsn] by blast
  have "\<forall>j \<in> set is. j < length (e_entries e0) \<and> L1 j = []" using Cons.prems(3) e1(3) i(3) by auto
  then obtain e' L' F' where e': "read_rings tlock std_sort tsn is e1 = Some e'" "poll_inv e0 L' F' e'"
    "\<forall>j. j \<notin> set is \<longrightarrow> L' j = L1 j" "\<forall>j \<in> set is. length (L' j) = length (entry_span e0 j)"
    "small e0 \<longrightarrow> e_tso_leftover e' = e_tso_leftover e1 \<and> e_out e' = e_out e1"
    using Cons.IH [OF e1(2) i(4)] by blast
  have "read_rings tlock std_sort tsn (i # is) e = Some e'" using e1(1) e'(1) by simp
  moreover have "\<forall>j. j \<notin> set (i # is) \<longrightarrow> L' j = L j" using e'(3) e1(3) by simp
  moreover have "\<forall>j \<in> set (i # is). length (L' j) = length (entry_span e0 j)" using e'(3,4) e1(4) i(3) by auto
  ultimately show ?case using e'(2,5) e1(5) by auto
qed

text \<open>The regular flush at the end of a poll.\<close>

lemma flush_tso_base:
  assumes "poll_ready e0" and "poll_inv e0 L F e"
  shows "\<exists>e' F'. flush_tso std_sort tsn e = Some e' \<and> poll_base e0 L F' e' \<and> tso_wf (e_tso e')
    \<and> tso_head (e_tso e') = 0 \<and> tso_live (e_tso e') = [] \<and> tso_capacity (e_tso e') = tso_capacity (e_tso e0)
    \<and> unat (e_tso_leftover e') = (\<Sum>i < length (e_entries e0). length (L i) - F' i)
    \<and> (\<Sum>i < length (e_entries e0). length (L i) - F' i) \<le> unat (tso_capacity (e_tso e0)) div 8
    \<and> (length (tso_live (e_tso e)) \<le> unat (e_tso_leftover e) \<longrightarrow> e_tso_leftover e' = 0)
    \<and> (\<exists>n. out_recs (e_out e') = out_recs (e_out e) @ concat (map (entry_out e0) (take n (std_sort (tso_live (e_tso e)))))
         \<and> tso_track (length (e_entries e0)) L F' (drop n (std_sort (tso_live (e_tso e)))))"
proof -
  have inv: "poll_base e0 L F e" "tso_wf (e_tso e)" "tso_capacity (e_tso e) = tso_capacity (e_tso e0)"
    "tso_track (length (e_entries e0)) L F (tso_live (e_tso e))"
    using assms(2) by (simp_all add: poll_inv_def)
  define keep where "keep = tso_capacity (e_tso e) div 8"
  define s1 where "s1 = (if tso_size (e_tso e) > keep then tso_size (e_tso e) - keep else 0)"
  define s where "s = (if s1 < e_tso_leftover e then e_tso_leftover e else s1)"
  let ?n = "length (tso_live (e_tso e))"
  have n: "unat (tso_size (e_tso e)) = ?n" by (rule tso_size_live [OF inv(2)])
  have k: "unat keep = unat (tso_capacity (e_tso e0)) div 8" using inv(3) by (simp add: keep_def unat_div)
  have s1: "unat s1 = ?n - unat keep" using n by (auto simp: s1_def unat_sub word_le_nat_alt word_less_nat_alt)
  have s: "unat s = max (unat s1) (unat (e_tso_leftover e))" by (auto simp: s_def word_less_nat_alt max_def)
  have "\<exists>e1 F'. (if s \<noteq> 0 then do_flush_tso std_sort tsn s e else Some e) = Some e1 \<and> poll_base e0 L F' e1
      \<and> tso_wf (e_tso e1) \<and> tso_track (length (e_entries e0)) L F' (tso_live (e_tso e1))
      \<and> length (tso_live (e_tso e1)) = ?n - unat s \<and> tso_capacity (e_tso e1) = tso_capacity (e_tso e)
      \<and> out_recs (e_out e1) = out_recs (e_out e) @ concat (map (entry_out e0) (take (unat s) (std_sort (tso_live (e_tso e)))))
      \<and> tso_track (length (e_entries e0)) L F' (drop (unat s) (std_sort (tso_live (e_tso e))))"
  proof (cases "s = 0")
    case True
    have "ghost e0 L F" using inv(1) by (simp add: poll_base_def)
    from tso_ordered_track [OF sort_tracks [OF this inv(4)]] True inv show ?thesis by auto
  next
    case False
    then show ?thesis using do_flush_tso_base [OF assms(1) inv(1,2,4), of tsn s] by auto
  qed
  then obtain e1 F' where e1: "(if s \<noteq> 0 then do_flush_tso std_sort tsn s e else Some e) = Some e1" "poll_base e0 L F' e1"
    "tso_wf (e_tso e1)" "tso_track (length (e_entries e0)) L F' (tso_live (e_tso e1))"
    "length (tso_live (e_tso e1)) = ?n - unat s" "tso_capacity (e_tso e1) = tso_capacity (e_tso e)"
    "out_recs (e_out e1) = out_recs (e_out e) @ concat (map (entry_out e0) (take (unat s) (std_sort (tso_live (e_tso e)))))"
    "tso_track (length (e_entries e0)) L F' (drop (unat s) (std_sort (tso_live (e_tso e))))" by blast
  let ?e = "e1\<lparr>e_tso_leftover := tso_size (e_tso e1), e_tso := tso_reset (e_tso e1)\<rparr>"
  have "flush_tso std_sort tsn e = Some ?e"
    unfolding flush_tso_def Let_def keep_def [symmetric] s1_def [symmetric] s_def [symmetric] e1(1) by simp
  moreover have "ghost e0 L F'" using e1(2) by (simp add: poll_base_def)
  then have len: "length (tso_live (e_tso e1)) = (\<Sum>i < length (e_entries e0). length (L i) - F' i)"
    by (rule tso_track_length [OF _ e1(4)])
  moreover have "unat (e_tso_leftover ?e) = length (tso_live (e_tso e1))" using tso_size_live [OF e1(3)] by simp
  moreover have "length (tso_live (e_tso e1)) \<le> unat (tso_capacity (e_tso e0)) div 8"
    using e1(5) s s1 unfolding k [symmetric] by linarith
  moreover have "e_tso_leftover ?e = 0" if "?n \<le> unat (e_tso_leftover e)"
    using that e1(5) s tso_size_live [OF e1(3)] by (simp add: word_unat_eq_iff)
  ultimately show ?thesis
    using e1(2,3,6-8) inv(3) tso_reset_live by (intro exI [of _ ?e] exI [of _ F']) (auto simp: tso_reset_def)
qed

end

section \<open>Committing the rings\<close>

text \<open>A ring after a poll that wrote out its first \<open>k\<close> records.\<close>

definition ring_after :: "ring \<Rightarrow> nat \<Rightarrow> ring \<Rightarrow> bool" where
  "ring_after rb0 k rb \<longleftrightarrow> rb_name rb = rb_name rb0 \<and> ring_ok rb \<and> (\<forall>r \<in> set (rb_slots rb). r_timestamp r < 2 ^ 63)
     \<and> k \<le> length (contents rb0) \<and> contents rb = drop k (contents rb0)
     \<and> (\<forall>j < k. is_special (contents rb0 ! j) \<longrightarrow>
          r_acked (rb_slots rb ! (span (nslots rb0) (unat (rb_head rb0)) (unat (rb_tail rb0)) ! j)) = Some True)"

lemma ring_after_commit:
  assumes "ring_sim rb0 rb" and "ring_ok rb0" and "\<forall>r \<in> set (rb_slots rb0). r_timestamp r < 2 ^ 63"
    and "sp = span (nslots rb0) (unat (rb_head rb0)) (unat (rb_tail rb0))" and "k \<le> length sp"
    and "\<forall>j < length sp. if j < k then is_special (rb_slots rb0 ! (sp ! j)) \<longrightarrow> r_acked (rb_slots rb ! (sp ! j)) = Some True
           else rb_slots rb ! (sp ! j) = rb_slots rb0 ! (sp ! j)"
    and "0 < k \<Longrightarrow> unat s = sp ! (k - 1)"
  shows "ring_after rb0 k (if k = 0 then rb else ring_unblock (commit_head rb s))"
proof -
  let ?rb = "if k = 0 then rb else ring_unblock (commit_head rb s)"
  note f = ring_sim_fields [OF assms(1)]
  have ok: "ring_ok rb" by (rule ring_sim_ok [OF assms(1,2)])
  have bnd: "unat (rb_head rb0) < nslots rb0" "unat (rb_tail rb0) < nslots rb0"
    using ring_ok_wf [OF assms(2)] by (auto elim!: ring_wfE)
  have rb: "rb_name ?rb = rb_name rb0" "rb_slots ?rb = rb_slots rb" "rb_tail ?rb = rb_tail rb0"
    "rb_rec_tailroom ?rb = rb_rec_tailroom rb" "rb_capacity ?rb = rb_capacity rb"
    using f by (simp_all add: ring_unblock_def commit_head_def)
  have hd: "unat (rb_head ?rb) = (if k = 0 then unat (rb_head rb0) else sp ! (k - 1))"
    using f assms(7) by (simp add: ring_unblock_def commit_head_def)
  have lt: "unat (rb_head ?rb) < nslots rb"
    using span_walk(1) [OF bnd, of k] assms(4,5) f(6) by (auto simp: hd)
  have "ring_ok ?rb"
    using ok lt unfolding ring_ok_def ring_wf_def rb f(3) [symmetric] by auto
  moreover have "r_timestamp r < 2 ^ 63" if "r \<in> set (rb_slots rb)" for r
  proof -
    from that obtain j where "j < nslots rb0" "r = rb_slots rb ! j" using f(6) by (metis in_set_conv_nth)
    with ring_sim_slot [OF assms(1), of j] assms(3) show ?thesis by (simp add: rec_sim_fields)
  qed
  moreover have "span (nslots rb0) (unat (rb_head ?rb)) (unat (rb_tail rb0)) = drop k sp"
    unfolding hd using span_drop [OF bnd, of "k - 1"] assms(4,5) by (cases k) auto
  then have "contents ?rb = drop k (contents rb0)"
    using assms(6) f(6) by (intro nth_equalityI) (simp_all add: contents_def rb assms(4) [symmetric])
  moreover have "is_special (contents rb0 ! j) \<longrightarrow> r_acked (rb_slots rb ! (sp ! j)) = Some True" if "j < k" for j
    using assms(6) that assms(5) by (auto simp: contents_def assms(4) [symmetric])
  ultimately show ?thesis
    using assms(4,5) unfolding ring_after_def rb by (simp add: contents_def)
qed

definition committed :: "'re engine \<Rightarrow> (nat \<Rightarrow> nat) \<Rightarrow> 're engine \<Rightarrow> nat \<Rightarrow> bool" where
  "committed e0 F e i \<longleftrightarrow> ie_lastrec (e_entries e ! i) = None \<and>
     (ie_ring (e_entries e ! i) = ie_ring (e_entries e0 ! i)
        \<and> (\<forall>rid rb0. ring_of_entry e0 i = Some (rid, rb0) \<longrightarrow> (\<exists>rb. e_rings e rid = Some rb \<and> ring_after rb0 (F i) rb))
      \<or> ie_ring (e_entries e ! i) = None \<and> entry_span e0 i = []
        \<and> (\<forall>rid rb0. ring_of_entry e0 i = Some (rid, rb0) \<longrightarrow> ring_orphan rb0))"

definition ready_commit :: "'re engine \<Rightarrow> (nat \<Rightarrow> tso_entry list) \<Rightarrow> (nat \<Rightarrow> nat) \<Rightarrow> 're engine \<Rightarrow> nat \<Rightarrow> bool" where
  "ready_commit e0 L F e i \<longleftrightarrow> entry_rel e0 e i \<and> last_rel L F e i \<and> slot_rel e0 F e i"

text \<open>Two engines that differ at most in entry \<open>i\<close> and its ring.\<close>

definition same_but :: "'re engine \<Rightarrow> nat set \<Rightarrow> 're engine \<Rightarrow> 're engine \<Rightarrow> bool" where
  "same_but e0 I e e' \<longleftrightarrow> e' = e\<lparr>e_rings := e_rings e', e_entries := e_entries e'\<rparr>
     \<and> length (e_entries e') = length (e_entries e)
     \<and> (\<forall>j. j \<notin> I \<longrightarrow> e_entries e' ! j = e_entries e ! j)
     \<and> (\<forall>x. (\<forall>i \<in> I. \<forall>rb. ring_of_entry e0 i \<noteq> Some (x, rb)) \<longrightarrow> e_rings e' x = e_rings e x)"

lemma same_but_trans: "same_but e0 I a b \<Longrightarrow> same_but e0 J b c \<Longrightarrow> same_but e0 (I \<union> J) a c"
  unfolding same_but_def by (cases a; cases b; cases c) auto

lemma same_but_other:
  assumes "poll_ready e0" and "same_but e0 {i} e e'" and "i \<noteq> j"
  shows "ready_commit e0 L F e j \<Longrightarrow> ready_commit e0 L F e' j" and "committed e0 F e j \<Longrightarrow> committed e0 F e' j"
proof -
  have ent: "e_entries e' ! j = e_entries e ! j" using assms(2,3) by (simp add: same_but_def)
  have ring: "e_rings e' x = e_rings e x" if "ring_of_entry e0 j = Some (x, rb)" for x rb
  proof -
    have "\<forall>i \<in> {i}. \<forall>rb. ring_of_entry e0 i \<noteq> Some (x, rb)" using assms(1,3) that unfolding poll_ready_def by blast
    then show ?thesis using assms(2) unfolding same_but_def by blast
  qed
  show "ready_commit e0 L F e j \<Longrightarrow> ready_commit e0 L F e' j" "committed e0 F e j \<Longrightarrow> committed e0 F e' j"
    unfolding ready_commit_def committed_def entry_rel_def last_rel_def slot_rel_def ent using ring by auto
qed

lemma commit_entry_base:
  assumes "poll_ready e0" and "i < length (e_entries e0)" and "length (e_entries e) = length (e_entries e0)"
    and "ghost e0 L F" and "ready_commit e0 L F e i"
  shows "\<exists>e'. commit_entry i e = Some e' \<and> committed e0 F e' i \<and> same_but e0 {i} e e'"
proof -
  have rel: "entry_rel e0 e i" "last_rel L F e i" "slot_rel e0 F e i" using assms(5) by (simp_all add: ready_commit_def)
  have m: "map (unat \<circ> te_rec) (L i) = take (length (L i)) (entry_span e0 i)" and le: "F i \<le> length (L i)"
    using assms(2,4) unfolding ghost_def by blast+
  have F: "F i \<le> length (entry_span e0 i)" using arg_cong [OF m, of length] le by simp
  have after: "ring_after rb0 (F i) (if F i = 0 then rb else ring_unblock (commit_head rb s))"
    if "ring_of_entry e0 i = Some (rid, rb0)" "e_rings e rid = Some rb" "ring_sim rb0 rb"
      "0 < F i \<Longrightarrow> unat s = entry_span e0 i ! (F i - 1)" for rid rb0 rb s
    using ring_after_commit [OF that(3) ring_of_entry_ready [OF assms(1) that(1)] _ F _ that(4)]
      rel(3) that(1,2) unfolding slot_rel_def by (simp add: entry_span_def)
  show ?thesis
  proof (cases "F i = 0")
    case True
    then have l: "ie_lastrec (e_entries e ! i) = None" using rel(2) by (simp add: last_rel_def)
    have "ring_after rb0 (F i) rb"
      if "ring_of_entry e0 i = Some (rid, rb0)" "e_rings e rid = Some rb" "ring_sim rb0 rb" for rid rb0 rb
      using after [OF that] True by simp
    then have "committed e0 F e i"
      using rel(1) l unfolding committed_def entry_rel_def by blast
    moreover have "same_but e0 {i} e e" by (simp add: same_but_def)
    ultimately show ?thesis using l by (auto simp: commit_entry_def)
  next
    case False
    let ?s = "te_rec (L i ! (F i - 1))"
    have l: "ie_lastrec (e_entries e ! i) = Some ?s" using rel(2) False by (simp add: last_rel_def)
    have s: "unat ?s = entry_span e0 i ! (F i - 1)"
      using ghost_nth(3) [OF assms(4,2), of "F i - 1"] False le by simp
    have ne: "0 < length (entry_span e0 i)" using False F by linarith
    obtain rid rb0 where r0: "ring_of_entry e0 i = Some (rid, rb0)" using entry_span_nonempty [OF ne] .
    then obtain rb where rb: "ie_ring (e_entries e ! i) = Some rid" "e_rings e rid = Some rb" "ring_sim rb0 rb"
      using rel(1) ne unfolding entry_rel_def by (auto simp: ring_of_entry_Some)
    let ?it = "it_rewind ?s (ie_pit (e_entries e ! i))" and ?rb = "ring_unblock (commit_head rb ?s)"
    let ?e = "put_entry i (\<lambda>x. x\<lparr>ie_pit := ?it, ie_lastrec := None\<rparr>) (put_ring rid ?rb e)"
    have "ring_of_entry e i = Some (rid, rb)" using rb assms(2,3) by (simp add: ring_of_entry_Some)
    then have "commit_entry i e = Some ?e"
      using l rb(1) by (simp add: commit_entry_def it_commit_def it_rewind_def Let_def)
    moreover have "ring_after rb0 (F i) ?rb" using after [OF r0 rb(2,3), of ?s] s False by simp
    then have "committed e0 F ?e i"
      using rb(1) r0 assms(2,3) by (simp add: committed_def put_entry_def put_ring_def ring_of_entry_Some)
    moreover have "same_but e0 {i} e ?e"
      using r0 by (auto simp: same_but_def put_entry_def put_ring_def)
    ultimately show ?thesis by blast
  qed
qed

lemma commit_entries_base:
  assumes "poll_ready e0" and "ghost e0 L F" and "length (e_entries e) = length (e_entries e0)"
    and "distinct is" and "\<forall>i \<in> set is. i < length (e_entries e0) \<and> ready_commit e0 L F e i"
  shows "\<exists>e'. commit_entries is e = Some e' \<and> (\<forall>i \<in> set is. committed e0 F e' i) \<and> same_but e0 (set is) e e'
    \<and> (\<forall>j. j \<notin> set is \<longrightarrow> committed e0 F e j \<longrightarrow> committed e0 F e' j)"
  using assms(3-5)
proof (induction "is" arbitrary: e)
  case Nil
  then show ?case by (simp add: same_but_def)
next
  case (Cons i "is")
  then have i: "i < length (e_entries e0)" "ready_commit e0 L F e i" "i \<notin> set is" "distinct is" by auto
  obtain e1 where e1: "commit_entry i e = Some e1" "committed e0 F e1 i" "same_but e0 {i} e e1"
    using commit_entry_base [OF assms(1) i(1) Cons.prems(1) assms(2) i(2)] by blast
  note other = same_but_other [OF assms(1) e1(3)]
  have len: "length (e_entries e1) = length (e_entries e0)" using e1(3) Cons.prems(1) by (simp add: same_but_def)
  have "\<forall>j \<in> set is. j < length (e_entries e0) \<and> ready_commit e0 L F e1 j"
    using Cons.prems(3) i(3) other(1) by (metis list.set_intros(2))
  from Cons.IH [OF len i(4) this] obtain e' where e': "commit_entries is e1 = Some e'"
    "\<forall>j \<in> set is. committed e0 F e' j" "same_but e0 (set is) e1 e'"
    "\<forall>j. j \<notin> set is \<longrightarrow> committed e0 F e1 j \<longrightarrow> committed e0 F e' j" by blast
  have "same_but e0 (set (i # is)) e e'" using same_but_trans [OF e1(3) e'(3)] by simp
  moreover have "commit_entries (i # is) e = Some e'" using e1(1) e'(1) by simp
  moreover have "\<forall>j \<in> set (i # is). committed e0 F e' j" using e'(2,4) e1(2) i(3) by auto
  moreover have "\<forall>j. j \<notin> set (i # is) \<longrightarrow> committed e0 F e j \<longrightarrow> committed e0 F e' j"
    using e'(4) other(2) by auto
  ultimately show ?case by blast
qed

section \<open>The whole poll\<close>

text \<open>The outcome of a poll for the ring of entry \<open>i\<close>, of which \<open>k\<close> records were written out.\<close>

definition entry_polled :: "'re engine \<Rightarrow> 're engine \<Rightarrow> nat \<Rightarrow> nat \<Rightarrow> bool" where
  "entry_polled e e' i k \<longleftrightarrow> (\<forall>rid rb. ring_of_entry e i = Some (rid, rb) \<longrightarrow>
     ring_out (rb_name rb) (e_out e') = ring_out (rb_name rb) (e_out e) @ filter (\<lambda>r. \<not> is_special r) (take k (contents rb))
     \<and> ((\<exists>rb'. ring_of_entry e' i = Some (rid, rb') \<and> ring_after rb k rb')
        \<or> (contents rb = [] \<and> ring_orphan rb \<and> ring_of_entry e' i = None)))"

definition backlog :: "'re engine \<Rightarrow> nat" where
  "backlog e = (\<Sum>i < length (e_entries e). length (entry_span e i))"

lemma entry_polled_span:
  assumes "entry_polled e e' i k" and "k \<le> length (entry_span e i)" and "ring_of_entry e i = None \<Longrightarrow> ring_of_entry e' i = None"
  shows "length (entry_span e' i) = length (entry_span e i) - k"
proof (cases "ring_of_entry e i")
  case (Some p)
  then obtain rid rb where r: "ring_of_entry e i = Some (rid, rb)" by (cases p) auto
  have l: "length (entry_span e i) = length (contents rb)" using r by (simp add: entry_span_def contents_def)
  have "(\<exists>rb'. ring_of_entry e' i = Some (rid, rb') \<and> ring_after rb k rb') \<or> contents rb = [] \<and> ring_of_entry e' i = None"
    using assms(1) r unfolding entry_polled_def by blast
  then show ?thesis
  proof (elim disjE exE conjE)
    fix rb' assume a: "ring_of_entry e' i = Some (rid, rb')" "ring_after rb k rb'"
    then have "length (entry_span e' i) = length (contents rb')" by (simp add: entry_span_def contents_def)
    also have "\<dots> = length (entry_span e i) - k" using a(2) l by (simp add: ring_after_def)
    finally show ?thesis .
  qed (use l in \<open>simp add: entry_span_def\<close>)
qed (use assms(3) in \<open>simp add: entry_span_def\<close>)

lemma ring_of_entry_less: "ring_of_entry e i = Some p \<Longrightarrow> i < length (e_entries e)"
  by (simp add: ring_of_entry_def split: if_splits)

lemma ring_of_entry_None: "ie_ring (e_entries e ! i) = None \<Longrightarrow> ring_of_entry e i = None"
  by (simp add: ring_of_entry_def)

lemma committed_polled:
  assumes "poll_ready e" and "i < length (e_entries e)" and "length (e_entries e') = length (e_entries e)"
    and "committed e F e' i" and "out_rel e F e' i"
  shows "entry_polled e e' i (F i)"
  unfolding entry_polled_def
proof (intro allI impI conjI)
  fix rid rb assume r: "ring_of_entry e i = Some (rid, rb)"
  have c: "contents rb = map ((!) (rb_slots rb)) (entry_span e i)" using r by (simp add: entry_span_def contents_def)
  then show "ring_out (rb_name rb) (e_out e') = ring_out (rb_name rb) (e_out e) @ filter (\<lambda>r. \<not> is_special r) (take (F i) (contents rb))"
    using assms(5) r unfolding out_rel_def by (simp add: take_map)
  show "(\<exists>rb'. ring_of_entry e' i = Some (rid, rb') \<and> ring_after rb (F i) rb')
      \<or> (contents rb = [] \<and> ring_orphan rb \<and> ring_of_entry e' i = None)"
    using assms(2-4) r c unfolding committed_def by (auto simp: ring_of_entry_Some ring_of_entry_None)
qed

lemma committed_ready:
  assumes "poll_ready e" and "length (e_entries e') = length (e_entries e)"
    and "\<forall>i < length (e_entries e). committed e F e' i" and "e_area_map e' = e_area_map e"
    and "tso_wf (e_tso e')" "tso_head (e_tso e') = 0" "tso_live (e_tso e') = []" "tso_capacity (e_tso e') = tso_capacity (e_tso e)"
  shows "poll_ready e'"
proof -
  have orig: "\<exists>rb0. ring_of_entry e i = Some (rid, rb0) \<and> e_rings e' rid = Some rb \<and> ring_after rb0 (F i) rb"
    if "i < length (e_entries e)" "ie_ring (e_entries e' ! i) = Some rid" "e_rings e' rid = Some rb" for i rid rb
  proof -
    have c: "committed e F e' i" using assms(3) that(1) by blast
    then have ie: "ie_ring (e_entries e ! i) = Some rid" using that(2) by (auto simp: committed_def)
    have i: "i < length (e_entries e)" by (rule that(1))
    have "entry_ok e i" using assms(1) i by (simp add: poll_ready_def)
    then obtain rb0 where "ring_of_entry e i = Some (rid, rb0)"
      using ie i unfolding entry_ok_def by (auto simp: ring_of_entry_Some)
    with c that show ?thesis unfolding committed_def by auto
  qed
  have "entry_ok e' i" if i: "i < length (e_entries e)" for i
    unfolding entry_ok_def
  proof (intro conjI allI impI)
    have c: "committed e F e' i" using assms(3) i by blast
    then show "ie_lastrec (e_entries e' ! i) = None" by (simp add: committed_def)
    fix rid assume r: "ie_ring (e_entries e' ! i) = Some rid"
    then have ie: "ie_ring (e_entries e ! i) = Some rid" using c by (auto simp: committed_def)
    have "entry_ok e i" using assms(1) i by (simp add: poll_ready_def)
    then obtain rb0 where "ring_of_entry e i = Some (rid, rb0)"
      using ie i unfolding entry_ok_def by (auto simp: ring_of_entry_Some)
    then obtain rb where "e_rings e' rid = Some rb" "ring_after rb0 (F i) rb"
      using c r unfolding committed_def by auto
    then show "\<exists>rb. e_rings e' rid = Some rb \<and> ring_ok rb \<and> (\<forall>r \<in> set (rb_slots rb). r_timestamp r < 2 ^ 63)"
      by (auto simp: ring_after_def)
  qed
  moreover have "rid \<noteq> rid' \<and> rb_name rb \<noteq> rb_name rb'"
    if ne: "i \<noteq> j" and r: "ring_of_entry e' i = Some (rid, rb)" "ring_of_entry e' j = Some (rid', rb')" for i j rid rb rid' rb'
  proof -
    obtain ra where ra: "ring_of_entry e i = Some (rid, ra)" "rb_name rb = rb_name ra"
      using orig [of i rid rb] r(1) assms(2) by (auto simp: ring_of_entry_Some ring_after_def)
    obtain ra' where ra': "ring_of_entry e j = Some (rid', ra')" "rb_name rb' = rb_name ra'"
      using orig [of j rid' rb'] r(2) assms(2) by (auto simp: ring_of_entry_Some ring_after_def)
    show ?thesis unfolding ra(2) ra'(2) using assms(1) ne ra(1) ra'(1) unfolding poll_ready_def by metis
  qed
  moreover have "internal_ok e'"
    using assms(1,4) by (simp add: poll_ready_def internal_ok_def internal_area_def)
  moreover have "length (e_entries e') < 2 ^ 32" "2 \<le> unat (tso_capacity (e_tso e'))"
    using assms(1,2,8) by (simp_all add: poll_ready_def)
  ultimately show ?thesis
    unfolding poll_ready_def [of e'] using assms(2,5-7) by metis
qed

lemma small_backlog: "small e \<longleftrightarrow> backlog e < unat (tso_capacity (e_tso e))"
  by (simp add: small_def backlog_def)

lemma sum_drained: "(\<Sum>i < n. f i - g i) = 0 \<Longrightarrow> i < n \<Longrightarrow> f i \<le> g i" for f g :: "nat \<Rightarrow> nat"
  by simp

text \<open>An entry of the ordering buffer and the record of a ring it stands for.\<close>

definition entry_of :: "'re engine \<Rightarrow> tso_entry \<Rightarrow> bool" where
  "entry_of e te \<longleftrightarrow> (\<exists>k < length (entry_span e (unat (te_tag te))).
     unat (te_rec te) = entry_span e (unat (te_tag te)) ! k \<and> te_timestamp te = entry_stamps e (unat (te_tag te)) ! k)"

lemma ghost_stamp:
  assumes "ghost e L F" and "i < length (e_entries e)" and "k < length (L i)"
  shows "te_timestamp (L i ! k) = entry_stamps e i ! k"
proof -
  have m: "map te_timestamp (L i) = take (length (L i)) (entry_stamps e i)"
    using assms(1,2) unfolding ghost_def by blast
  show ?thesis using arg_cong [OF m, of "\<lambda>xs. xs ! k"] assms(3) by simp
qed

lemma track_entry_of:
  assumes "ghost e L F" and "tso_track (length (e_entries e)) L F es" and "te \<in> set es"
  shows "entry_of e te"
proof -
  let ?i = "unat (te_tag te)"
  have i: "?i < length (e_entries e)" using assms(2,3) by (simp add: tso_track_def)
  have "te \<in> set (filter (of_tag ?i) es)" using assms(3) by simp
  then have "te \<in> set (L ?i)" using assms(2) i unfolding tso_track_def by (metis in_set_dropD)
  then obtain k where k: "k < length (L ?i)" "te = L ?i ! k" by (metis in_set_conv_nth)
  show ?thesis
    using ghost_nth [OF assms(1) i k(1)] ghost_stamp [OF assms(1) i k(1)] unfolding entry_of_def k(2) [symmetric] by blast
qed

lemma track_pending:
  assumes "ghost e L F" and "tso_track (length (e_entries e)) L F es" and "i < length (e_entries e)"
    and "F i \<le> k" and "k < length (L i)"
  shows "\<exists>te \<in> set es. te_timestamp te = entry_stamps e i ! k"
proof -
  have "L i ! k \<in> set (drop (F i) (L i))"
    using assms(4,5) nth_mem [of "k - F i" "drop (F i) (L i)"] by simp
  then have "L i ! k \<in> set (filter (of_tag i) es)" using assms(2,3) unfolding tso_track_def by blast
  then show ?thesis using ghost_stamp [OF assms(1,3,5)] by auto
qed

context std_sort begin

lemma poll_inv_start:
  assumes "poll_ready e"
  shows "poll_inv e (\<lambda>_. []) (\<lambda>_. 0) e"
proof -
  have "entry_rel e e i \<and> last_rel (\<lambda>_. []) (\<lambda>_. 0) e i \<and> out_rel e (\<lambda>_. 0) e i \<and> slot_rel e (\<lambda>_. 0) e i"
    if "i < length (e_entries e)" for i
    using assms that by (auto simp: poll_ready_def entry_ok_def entry_rel_def last_rel_def out_rel_def slot_rel_def
        ring_of_entry_Some ring_sim_refl)
  moreover have "\<not> tso_full (e_tso e)"
    using assms tso_size_live [of "e_tso e"] by (auto simp: poll_ready_def tso_full_def tso_size_def)
  ultimately show ?thesis
    using assms by (simp add: poll_inv_def poll_base_def ghost_def poll_ready_def tso_track_def)
qed

lemma committed_gone:
  assumes "poll_ready e" and "i < length (e_entries e)" and "ring_of_entry e i = None" and "committed e F e' i"
  shows "ring_of_entry e' i = None"
proof -
  have "entry_ok e i" using assms(1,2) by (simp add: poll_ready_def)
  then have "ie_ring (e_entries e ! i) = None"
    using assms(2,3) unfolding entry_ok_def by (cases "ie_ring (e_entries e ! i)") (auto simp: ring_of_entry_def)
  then have "ie_ring (e_entries e' ! i) = None" using assms(4) unfolding committed_def by auto
  then show ?thesis by (simp add: ring_of_entry_def)
qed

text \<open>What the final flush wrote is a sorted prefix of the entries, and the rest is pending.\<close>

lemma flushed_sorted:
  assumes ready: "poll_ready e" and inv: "poll_inv e L F1 e1" and g: "ghost e L F"
    and L: "\<forall>i \<in> set [0..<length (e_entries e)]. length (L i) = length (entry_span e i)"
    and n: "\<exists>n. out_recs out = out_recs out1 @ concat (map (entry_out e) (take n (std_sort (tso_live (e_tso e1)))))
      \<and> tso_track (length (e_entries e)) L F (drop n (std_sort (tso_live (e_tso e1))))"
  shows "\<exists>es n. out_recs out = out_recs out1 @ concat (map (entry_out e) (take n es))
    \<and> sorted_wrt (\<lambda>x y. te_timestamp x \<le> te_timestamp y) es \<and> (\<forall>te \<in> set es. entry_of e te)
    \<and> (\<forall>i < length (e_entries e). \<forall>k < length (entry_span e i). F i \<le> k \<longrightarrow>
         (\<exists>te \<in> set (drop n es). te_timestamp te = entry_stamps e i ! k))"
proof -
  let ?es = "std_sort (tso_live (e_tso e1))"
  obtain n where n: "out_recs out = out_recs out1 @ concat (map (entry_out e) (take n ?es))"
    "tso_track (length (e_entries e)) L F (drop n ?es)" using n by blast
  have g1: "ghost e L F1" and tr: "tso_track (length (e_entries e)) L F1 (tso_live (e_tso e1))"
    using inv by (simp_all add: poll_inv_def poll_base_def)
  have "entry_of e te" if "te \<in> set ?es" for te
    using track_entry_of [OF g1 tr] that ready by (simp add: set_sort poll_ready_def)
  moreover have "\<exists>te \<in> set (drop n ?es). te_timestamp te = entry_stamps e i ! k"
    if "i < length (e_entries e)" "k < length (entry_span e i)" "F i \<le> k" for i k
    using track_pending [OF g n(2) that(1,3)] that L by simp
  ultimately show ?thesis
    using n(1) sorted [of "tso_live (e_tso e1)"] by (intro exI [of _ ?es] exI [of _ n]) simp
qed

lemma live_backlog:
  assumes "poll_inv e L F e1" and "\<forall>i \<in> set [0..<length (e_entries e)]. length (L i) = length (entry_span e i)"
  shows "length (tso_live (e_tso e1)) \<le> backlog e"
proof -
  have g: "ghost e L F" and tr: "tso_track (length (e_entries e)) L F (tso_live (e_tso e1))"
    using assms(1) by (simp_all add: poll_inv_def poll_base_def)
  show ?thesis unfolding tso_track_length [OF g tr] backlog_def using assms(2) by (intro sum_mono) simp
qed

lemma process_rings_tso_base:
  assumes "poll_ready e"
  shows "\<exists>e' F. process_rings_tso tlock std_sort tsn e = Some e' \<and> poll_ready e'
    \<and> length (e_entries e') = length (e_entries e) \<and> tso_capacity (e_tso e') = tso_capacity (e_tso e)
    \<and> (\<forall>i < length (e_entries e). entry_polled e e' i (F i) \<and> F i \<le> length (entry_span e i)
         \<and> (ring_of_entry e i = None \<longrightarrow> ring_of_entry e' i = None))
    \<and> (\<forall>nm. (\<forall>i rid rb. ring_of_entry e i = Some (rid, rb) \<longrightarrow> rb_name rb \<noteq> nm) \<longrightarrow> ring_out nm (e_out e') = ring_out nm (e_out e))
    \<and> unat (e_tso_leftover e') = (\<Sum>i < length (e_entries e). length (entry_span e i) - F i)
    \<and> unat (e_tso_leftover e') \<le> unat (tso_capacity (e_tso e)) div 8
    \<and> (small e \<longrightarrow> backlog e \<le> unat (e_tso_leftover e) \<longrightarrow> e_tso_leftover e' = 0)
    \<and> (small e \<longrightarrow> (\<exists>es n. out_recs (e_out e') = out_recs (e_out e) @ concat (map (entry_out e) (take n es))
         \<and> sorted_wrt (\<lambda>x y. te_timestamp x \<le> te_timestamp y) es \<and> (\<forall>te \<in> set es. entry_of e te)
         \<and> (\<forall>i < length (e_entries e). \<forall>k < length (entry_span e i). F i \<le> k \<longrightarrow>
              (\<exists>te \<in> set (drop n es). te_timestamp te = entry_stamps e i ! k))))"
proof -
  let ?n = "length (e_entries e)"
  obtain e1 L F1 where e1: "read_rings tlock std_sort tsn [0..<?n] e = Some e1" "poll_inv e L F1 e1"
    "\<forall>i \<in> set [0..<?n]. length (L i) = length (entry_span e i)"
    "small e \<longrightarrow> e_tso_leftover e1 = e_tso_leftover e \<and> e_out e1 = e_out e"
    using read_rings_base [OF assms poll_inv_start [OF assms], of "[0..<?n]" tlock tsn] by auto
  obtain e2 F where e2: "flush_tso std_sort tsn e1 = Some e2" "poll_base e L F e2" "tso_wf (e_tso e2)"
    "tso_head (e_tso e2) = 0" "tso_live (e_tso e2) = []" "tso_capacity (e_tso e2) = tso_capacity (e_tso e)"
    "unat (e_tso_leftover e2) = (\<Sum>i < ?n. length (L i) - F i)"
    "(\<Sum>i < ?n. length (L i) - F i) \<le> unat (tso_capacity (e_tso e)) div 8"
    "length (tso_live (e_tso e1)) \<le> unat (e_tso_leftover e1) \<longrightarrow> e_tso_leftover e2 = 0"
    "\<exists>n. out_recs (e_out e2) = out_recs (e_out e1) @ concat (map (entry_out e) (take n (std_sort (tso_live (e_tso e1)))))
         \<and> tso_track ?n L F (drop n (std_sort (tso_live (e_tso e1))))"
    using flush_tso_base [OF assms e1(2), of tsn] by blast
  have g: "ghost e L F" and len2: "length (e_entries e2) = ?n" and am: "e_area_map e2 = e_area_map e"
    using e2(2) by (simp_all add: poll_base_def)
  have "\<forall>i \<in> set [0..<?n]. i < ?n \<and> ready_commit e L F e2 i"
    using e2(2) by (simp add: poll_base_def ready_commit_def)
  then obtain e' where e': "commit_entries [0..<?n] e2 = Some e'" "\<forall>i \<in> set [0..<?n]. committed e F e' i"
    "same_but e (set [0..<?n]) e2 e'"
    using commit_entries_base [OF assms g len2, of "[0..<?n]"] by auto
  obtain h es where same: "e' = e2\<lparr>e_rings := h, e_entries := es\<rparr>" "length es = length (e_entries e2)"
    using e'(3) unfolding same_but_def by blast
  have len: "length (e_entries e') = ?n" using same len2 by simp
  have L: "(\<Sum>i < ?n. length (L i) - F i) = (\<Sum>i < ?n. length (entry_span e i) - F i)" using e1(3) by simp
  have F: "F i \<le> length (entry_span e i)" if "i < ?n" for i using g e1(3) that by (simp add: ghost_def)
  have "process_rings_tso tlock std_sort tsn e = Some e'"
    using e1(1) e2(1) e'(1) by (simp add: process_rings_tso_def Let_def)
  moreover have "poll_ready e'"
    by (rule committed_ready [OF assms len, of F]) (use e'(2) e2 am same in simp_all)
  moreover have "entry_polled e e' i (F i)" if i: "i < ?n" for i
  proof (rule committed_polled [OF assms i len])
    show "committed e F e' i" using e'(2) i by simp
    show "out_rel e F e' i" using e2(2) i same(1) by (simp add: poll_base_def out_rel_def)
  qed
  moreover have "ring_of_entry e' i = None" if "i < ?n" "ring_of_entry e i = None" for i
    using committed_gone [OF assms that, of F e'] e'(2) that(1) by simp
  moreover have "\<forall>nm. (\<forall>i rid rb. ring_of_entry e i = Some (rid, rb) \<longrightarrow> rb_name rb \<noteq> nm) \<longrightarrow>
      ring_out nm (e_out e') = ring_out nm (e_out e)"
    using e2(2) same(1) by (simp add: poll_base_def)
  moreover have "e_tso_leftover e' = 0" if "small e" "backlog e \<le> unat (e_tso_leftover e)"
    using live_backlog [OF e1(2,3)] that e1(4) e2(9) same(1) by simp
  moreover have "\<exists>es n. out_recs (e_out e') = out_recs (e_out e) @ concat (map (entry_out e) (take n es))
         \<and> sorted_wrt (\<lambda>x y. te_timestamp x \<le> te_timestamp y) es \<and> (\<forall>te \<in> set es. entry_of e te)
         \<and> (\<forall>i < ?n. \<forall>k < length (entry_span e i). F i \<le> k \<longrightarrow>
              (\<exists>te \<in> set (drop n es). te_timestamp te = entry_stamps e i ! k))" if "small e"
    using flushed_sorted [OF assms e1(2) g e1(3)] e2(10) e1(4) same(1) that by auto
  ultimately show ?thesis
    using F e2(6-8) same(1) len L by (intro exI [of _ e'] exI [of _ F]) simp
qed

end

lemma demo_rings:
  "ring_of_entry demo_engine i = Some (rid, rb) \<longleftrightarrow>
    i = 0 \<and> rid = 10 \<and> rb = demo_log ''A'' 2 [5, 9, 0, 0] \<or> i = 1 \<and> rid = 20 \<and> rb = demo_log ''B'' 1 [7, 0, 0, 0]"
  by (auto simp: ring_of_entry_def demo_engine_def less_Suc_eq nth_Cons split: nat.splits)

lemma demo_ready: "poll_ready demo_engine"
proof -
  have ok: "entry_ok demo_engine i" if "i < 2" for i
  proof -
    from that consider "i = 0" | "i = 1" by linarith
    then show ?thesis
      by cases (simp_all add: entry_ok_def demo_engine_def demo_log_ok, simp_all add: demo_log_def demo_rec_def)
  qed
  have len: "length (e_entries demo_engine) = 2" by (simp add: demo_engine_def)
  have tso: "tso_wf (e_tso demo_engine)" "tso_live (e_tso demo_engine) = []"
    using tso_resize_live by (simp_all add: demo_engine_def)
  have cap: "tso_head (e_tso demo_engine) = 0" "2 \<le> unat (tso_capacity (e_tso demo_engine))"
    by (simp_all add: demo_engine_def tso_resize_def)
  note io = demo_internal
  have "rid \<noteq> rid' \<and> rb_name rb \<noteq> rb_name rb'" if "i \<noteq> j" "ring_of_entry demo_engine i = Some (rid, rb)"
    "ring_of_entry demo_engine j = Some (rid', rb')" for i j rid rb rid' rb'
    using that unfolding demo_rings by (auto simp: demo_log_def)
  then show ?thesis
    unfolding poll_ready_def len by (intro conjI tso cap io) (use ok in \<open>simp, blast, blast\<close>)
qed

lemma demo_contents:
  "contents (demo_log nm 2 [a, b, c, d]) = [demo_rec a, demo_rec b]" "contents (demo_log nm 1 [a, b, c, d]) = [demo_rec a]"
  by (simp_all add: contents_def span_def demo_log_def upt_rec)

text \<open>
  C1: a poll with timestamp ordering never leaves a buffer and hands every record of every
  ring to the output exactly once: for each ring some number \<open>F i\<close> of records from the
  front of its contents went out, in their order and without loss or duplication (special
  records are acknowledged instead of written), exactly the others are still in the ring,
  and the engine is ready for the next poll. A ring disappears only when it was empty and
  nobody but the engine referred to it. This holds for every sorting function, every
  outcome of the lock attempts and also when the ordering buffer overflows.
\<close>

theorem poll_exactly_once:
  assumes "std_sort srt" and "poll_ready e"
  shows "\<exists>e' F. process_rings_tso tlock srt tsn e = Some e' \<and> poll_ready e'
    \<and> (\<forall>i rid rb. ring_of_entry e i = Some (rid, rb) \<longrightarrow>
         ring_out (rb_name rb) (e_out e')
           = ring_out (rb_name rb) (e_out e) @ filter (\<lambda>r. \<not> is_special r) (take (F i) (contents rb))
         \<and> ((\<exists>rb'. ring_of_entry e' i = Some (rid, rb') \<and> ring_after rb (F i) rb')
            \<or> (contents rb = [] \<and> ring_orphan rb \<and> ring_of_entry e' i = None)))"
proof -
  obtain e' F where "process_rings_tso tlock srt tsn e = Some e'" "poll_ready e'"
    "\<forall>i < length (e_entries e). entry_polled e e' i (F i)"
    using std_sort.process_rings_tso_base [OF assms, of tlock tsn] by blast
  then show ?thesis
    unfolding entry_polled_def by (blast dest: ring_of_entry_less)
qed

theorem poll_exactly_once_witness:
  "\<exists>e' F. process_rings_tso (\<lambda>_. True) (sort_key te_timestamp) (\<lambda>_. ''ts'') demo_engine = Some e' \<and> poll_ready e'
    \<and> ring_out ''A'' (e_out e') = take (F (0 :: nat)) [demo_rec 5, demo_rec 9]"
proof -
  have ns: "\<not> is_special (demo_rec t)" for t by (simp add: is_special_def demo_rec_def)
  have r: "ring_of_entry demo_engine 0 = Some (10, demo_log ''A'' 2 [5, 9, 0, 0])" by (simp add: demo_rings)
  have "filter (\<lambda>r. \<not> is_special r) (take k [demo_rec 5, demo_rec 9]) = take k [demo_rec 5, demo_rec 9]" for k
    by (rule filter_True) (auto dest!: in_set_takeD simp: ns)
  moreover have "rb_name (demo_log nm t ts) = nm" for nm t ts by (simp add: demo_log_def)
  moreover have "e_out demo_engine = []" by (simp add: demo_engine_def)
  moreover obtain e' F where "process_rings_tso (\<lambda>_. True) (sort_key te_timestamp) (\<lambda>_. ''ts'') demo_engine = Some e'" "poll_ready e'"
    and o: "\<forall>i rid rb. ring_of_entry demo_engine i = Some (rid, rb) \<longrightarrow>
         ring_out (rb_name rb) (e_out e')
           = ring_out (rb_name rb) (e_out demo_engine) @ filter (\<lambda>r. \<not> is_special r) (take (F i) (contents rb))"
    using poll_exactly_once [OF isort.std_sort_axioms demo_ready, of "\<lambda>_. True" "\<lambda>_. ''ts''"] by blast
  ultimately show ?thesis using o [rule_format, OF r] by (intro exI [of _ e'] exI [of _ F]) (simp add: demo_contents)
qed

text \<open>A ring present after a poll was there before, under the same name.\<close>

lemma entry_polled_orig:
  assumes "entry_polled e e' i k" and "ring_of_entry e i = None \<longrightarrow> ring_of_entry e' i = None"
    and "ring_of_entry e' i = Some (rid, rb')"
  shows "\<exists>rb. ring_of_entry e i = Some (rid, rb) \<and> ring_after rb k rb'"
proof (cases "ring_of_entry e i")
  case None
  then show ?thesis using assms(2,3) by simp
next
  case (Some p)
  then show ?thesis using assms(1,3) unfolding entry_polled_def by (cases p) auto
qed

text \<open>A ring that a poll leaves in the index, and the next poll empties.\<close>

lemma polled_rest:
  assumes o1: "ring_out (rb_name rb) (e_out e1) = out @ filter (\<lambda>r. \<not> is_special r) (take f (contents rb))"
    and r1: "ring_of_entry e1 i = Some (rid, rb1)" "ring_after rb f rb1"
    and p: "entry_polled e1 e2 i f'" "length (contents rb1) \<le> f'"
  shows "ring_out (rb_name rb) (e_out e2) = out @ filter (\<lambda>r. \<not> is_special r) (contents rb)
    \<and> (\<forall>rb'. ring_of_entry e2 i = Some (rid, rb') \<longrightarrow> contents rb' = [])"
proof -
  have c: "rb_name rb1 = rb_name rb" "contents rb1 = drop f (contents rb)" using r1(2) by (simp_all add: ring_after_def)
  have "ring_out (rb_name rb1) (e_out e2) = ring_out (rb_name rb1) (e_out e1) @ filter (\<lambda>r. \<not> is_special r) (contents rb1)"
    using p r1(1) unfolding entry_polled_def by (metis take_all)
  then have "ring_out (rb_name rb) (e_out e2) = out @ filter (\<lambda>r. \<not> is_special r) (take f (contents rb) @ drop f (contents rb))"
    using o1 c by (simp only: filter_append append_assoc)
  moreover have "contents rb' = []" if "ring_of_entry e2 i = Some (rid, rb')" for rb'
    using p r1(1) that unfolding entry_polled_def by (auto simp: ring_after_def)
  ultimately show ?thesis by simp
qed

text \<open>The name of a ring that left the index is not the name of another one.\<close>

lemma gone_name:
  fixes e e1 :: "'re engine"
  assumes "poll_ready e" and r: "ring_of_entry e i = Some (rid, rb)" and none: "ring_of_entry e1 i = None"
    and len: "length (e_entries e1) = length (e_entries e)"
    and p: "\<And>j. j < length (e_entries e) \<Longrightarrow> entry_polled e e1 j (F j) \<and> (ring_of_entry e j = None \<longrightarrow> ring_of_entry e1 j = None)"
    and x: "ring_of_entry e1 j = Some (y, x)"
  shows "rb_name x \<noteq> rb_name rb"
proof -
  have j: "j < length (e_entries e)" using ring_of_entry_less [OF x] len by simp
  obtain x0 where x0: "ring_of_entry e j = Some (y, x0)" "ring_after x0 (F j) x"
    using entry_polled_orig [OF conjunct1 [OF p [OF j]] conjunct2 [OF p [OF j]] x] by blast
  have "j \<noteq> i" using x none by auto
  then have "rb_name x0 \<noteq> rb_name rb" using assms(1) r x0(1) unfolding poll_ready_def by metis
  with x0(2) show ?thesis by (simp add: ring_after_def)
qed

text \<open>
  C2: two polls without a record posted in between empty every ring: all records that
  were in the rings are in the output, each once and in the order of its ring, and the
  ordering buffer holds nothing back.
\<close>

theorem two_polls_drain:
  assumes "std_sort srt" and "poll_ready e"
  shows "\<exists>e1 e2. process_rings_tso tl1 srt tsn e = Some e1 \<and> process_rings_tso tl2 srt tsn e1 = Some e2
    \<and> e_tso_leftover e2 = 0
    \<and> (\<forall>i rid rb. ring_of_entry e i = Some (rid, rb) \<longrightarrow>
         ring_out (rb_name rb) (e_out e2) = ring_out (rb_name rb) (e_out e) @ filter (\<lambda>r. \<not> is_special r) (contents rb)
         \<and> (\<forall>rb'. ring_of_entry e2 i = Some (rid, rb') \<longrightarrow> contents rb' = []))"
proof -
  let ?n = "length (e_entries e)" and ?c = "unat (tso_capacity (e_tso e))"
  obtain e1 F1 where p1: "process_rings_tso tl1 srt tsn e = Some e1" "poll_ready e1"
    "length (e_entries e1) = ?n" "tso_capacity (e_tso e1) = tso_capacity (e_tso e)"
    "\<forall>i < ?n. entry_polled e e1 i (F1 i) \<and> F1 i \<le> length (entry_span e i)
         \<and> (ring_of_entry e i = None \<longrightarrow> ring_of_entry e1 i = None)"
    "unat (e_tso_leftover e1) = (\<Sum>i < ?n. length (entry_span e i) - F1 i)"
    "unat (e_tso_leftover e1) \<le> ?c div 8"
    using std_sort.process_rings_tso_base [OF assms, of tl1 tsn] by blast
  obtain e2 F2 where p2: "process_rings_tso tl2 srt tsn e1 = Some e2"
    "\<forall>i < ?n. entry_polled e1 e2 i (F2 i) \<and> (ring_of_entry e1 i = None \<longrightarrow> ring_of_entry e2 i = None)"
    "\<forall>nm. (\<forall>i rid rb. ring_of_entry e1 i = Some (rid, rb) \<longrightarrow> rb_name rb \<noteq> nm) \<longrightarrow> ring_out nm (e_out e2) = ring_out nm (e_out e1)"
    "unat (e_tso_leftover e2) = (\<Sum>i < ?n. length (entry_span e1 i) - F2 i)"
    "small e1 \<longrightarrow> backlog e1 \<le> unat (e_tso_leftover e1) \<longrightarrow> e_tso_leftover e2 = 0"
    using std_sort.process_rings_tso_base [OF assms(1) p1(2), of tl2 tsn] unfolding p1(3) by blast
  have "backlog e1 = unat (e_tso_leftover e1)"
    unfolding backlog_def p1(3,6) using p1(5) by (intro sum.cong refl) (simp add: entry_polled_span)
  moreover have "2 \<le> ?c" using assms(2) by (simp add: poll_ready_def)
  then have "?c div 8 < ?c" by simp
  ultimately have "small e1" using p1(4,7) by (simp add: small_backlog)
  with p2(5) \<open>backlog e1 = _\<close> have z: "e_tso_leftover e2 = 0" by simp
  have full: "length (entry_span e1 i) \<le> F2 i" if "i < ?n" for i
    using p2(4) z that by (intro sum_drained [where n = ?n]) simp_all
  have "ring_out (rb_name rb) (e_out e2) = ring_out (rb_name rb) (e_out e) @ filter (\<lambda>r. \<not> is_special r) (contents rb)
      \<and> (\<forall>rb'. ring_of_entry e2 i = Some (rid, rb') \<longrightarrow> contents rb' = [])"
    if r: "ring_of_entry e i = Some (rid, rb)" for i rid rb
  proof -
    have i: "i < ?n" using r by (rule ring_of_entry_less)
    have o1: "ring_out (rb_name rb) (e_out e1) = ring_out (rb_name rb) (e_out e) @ filter (\<lambda>r. \<not> is_special r) (take (F1 i) (contents rb))"
      and alt: "(\<exists>rb1. ring_of_entry e1 i = Some (rid, rb1) \<and> ring_after rb (F1 i) rb1) \<or> (contents rb = [] \<and> ring_of_entry e1 i = None)"
      using p1(5) i r unfolding entry_polled_def by blast+
    from alt show ?thesis
    proof (elim disjE exE conjE)
      fix rb1 assume r1: "ring_of_entry e1 i = Some (rid, rb1)" "ring_after rb (F1 i) rb1"
      have "length (contents rb1) \<le> F2 i" using full [OF i] r1 by (simp add: entry_span_def contents_def)
      with p2(2) i show ?thesis by (intro polled_rest [OF o1 r1]) blast+
    next
      assume none: "contents rb = []" "ring_of_entry e1 i = None"
      have "ring_out (rb_name rb) (e_out e2) = ring_out (rb_name rb) (e_out e1)"
        using p2(3) gone_name [OF assms(2) r none(2) p1(3)] p1(5) by blast
      moreover have "ring_of_entry e2 i = None" using p2(2) i none(2) by blast
      ultimately show ?thesis using o1 none(1) by simp
    qed
  qed
  with p1(1) p2(1) z show ?thesis by blast
qed

theorem two_polls_drain_witness:
  "\<exists>e1 e2. process_rings_tso (\<lambda>_. True) (sort_key te_timestamp) (\<lambda>_. ''ts'') demo_engine = Some e1
    \<and> process_rings_tso (\<lambda>_. False) (sort_key te_timestamp) (\<lambda>_. ''ts'') e1 = Some e2
    \<and> ring_out ''A'' (e_out e2) = [demo_rec 5, demo_rec 9]"
proof -
  have r: "ring_of_entry demo_engine 0 = Some (10, demo_log ''A'' 2 [5, 9, 0, 0])" by (simp add: demo_rings)
  have "rb_name (demo_log nm t ts) = nm" for nm t ts by (simp add: demo_log_def)
  moreover have "\<not> is_special (demo_rec t)" for t by (simp add: is_special_def demo_rec_def)
  moreover have "e_out demo_engine = []" by (simp add: demo_engine_def)
  moreover obtain e1 e2 where p: "process_rings_tso (\<lambda>_. True) (sort_key te_timestamp) (\<lambda>_. ''ts'') demo_engine = Some e1"
    "process_rings_tso (\<lambda>_. False) (sort_key te_timestamp) (\<lambda>_. ''ts'') e1 = Some e2"
    and o: "\<forall>i rid rb. ring_of_entry demo_engine i = Some (rid, rb) \<longrightarrow>
      ring_out (rb_name rb) (e_out e2) = ring_out (rb_name rb) (e_out demo_engine) @ filter (\<lambda>r. \<not> is_special r) (contents rb)"
    using two_polls_drain [OF isort.std_sort_axioms demo_ready, of "\<lambda>_. True" "\<lambda>_. ''ts''" "\<lambda>_. False"] by blast
  ultimately have "ring_out ''A'' (e_out e2) = [demo_rec 5, demo_rec 9]"
    using o [rule_format, OF r] by (simp add: demo_contents)
  with p show ?thesis by blast
qed

lemma entry_out_stamp:
  assumes "entry_of e te" and "\<And>i rid rb. ring_of_entry e i = Some (rid, rb) \<Longrightarrow> entry_stamps e i = map r_timestamp (contents rb)"
  shows "length (entry_out e te) \<le> 1 \<and> (\<forall>q \<in> set (entry_out e te). (r_timestamp \<circ> snd) q = te_timestamp te)"
proof -
  obtain k where k: "k < length (entry_span e (unat (te_tag te)))"
    "unat (te_rec te) = entry_span e (unat (te_tag te)) ! k" "te_timestamp te = entry_stamps e (unat (te_tag te)) ! k"
    using assms(1) unfolding entry_of_def by blast
  obtain rid rb where r: "ring_of_entry e (unat (te_tag te)) = Some (rid, rb)"
    "entry_span e (unat (te_tag te)) = span (nslots rb) (unat (rb_head rb)) (unat (rb_tail rb))"
    using entry_span_nonempty [OF k(1)] .
  then show ?thesis
    using k assms(2) [OF r(1)] by (simp add: entry_out_def Let_def contents_def)
qed

lemma sorted_concat_stamped:
  assumes "\<And>x. x \<in> set xs \<Longrightarrow> length (f x) \<le> 1 \<and> (\<forall>q \<in> set (f x). g q = h x)"
    and "sorted_wrt (\<lambda>x y. h x \<le> h y) xs"
  shows "sorted (map (g :: 'a \<Rightarrow> 'b::linorder) (concat (map f xs)))"
  using assms
proof (induction xs)
  case (Cons x xs)
  have "sorted (map g (concat (map f xs)))" using Cons by simp
  moreover have "sorted (map g (f x))" using Cons.prems(1) [of x] by (cases "f x") simp_all
  moreover have "g a \<le> g q" if a: "a \<in> set (f x)" and q: "q \<in> set (concat (map f xs))" for a q
  proof -
    obtain t where t: "t \<in> set xs" "q \<in> set (f t)" using q by auto
    then show ?thesis using Cons.prems(1) [of x] Cons.prems(1) [of t] Cons.prems(2) a by simp
  qed
  ultimately show ?case by (auto simp: sorted_append)
qed simp

lemma sorted_wrt_take_drop: "sorted_wrt P xs \<Longrightarrow> x \<in> set (take n xs) \<Longrightarrow> y \<in> set (drop n xs) \<Longrightarrow> P x y"
  using sorted_wrt_append [of P "take n xs" "drop n xs"] by simp

text \<open>A record that stays in a ring is one of those the poll walked over and did not write.\<close>

lemma kept_index:
  assumes "ring_of_entry e i = Some (rid, rb)" and "ring_after rb f rb'" and "r \<in> set (contents rb')"
  shows "\<exists>k \<ge> f. k < length (entry_span e i) \<and> r = contents rb ! k"
proof -
  have "r \<in> set (drop f (contents rb))" using assms(2,3) by (simp add: ring_after_def)
  then obtain j where "j < length (drop f (contents rb))" "r = drop f (contents rb) ! j" by (metis in_set_conv_nth)
  with assms(1) show ?thesis by (intro exI [of _ "f + j"]) (simp add: entry_span_def contents_def)
qed

text \<open>The entries of the ordering buffer as records: what is written is sorted, what is kept comes later.\<close>

lemma poll_time_base:
  assumes "std_sort srt" and "poll_ready e" and "backlog e < unat (tso_capacity (e_tso e))"
    and "\<forall>i rid rb. ring_of_entry e i = Some (rid, rb) \<longrightarrow> sorted_wrt (<) (0 # map r_timestamp (contents rb))"
  shows "\<exists>e' new F. process_rings_tso tlock srt tsn e = Some e' \<and> out_recs (e_out e') = out_recs (e_out e) @ new
    \<and> sorted (map (r_timestamp \<circ> snd) new) \<and> (\<forall>p \<in> set new. \<exists>i rid rb. ring_of_entry e i = Some (rid, rb) \<and> fst p = rb_name rb)
    \<and> (\<forall>i rid rb'. ring_of_entry e' i = Some (rid, rb') \<longrightarrow>
         (\<forall>r \<in> set (contents rb'). \<forall>p \<in> set new. r_timestamp (snd p) \<le> r_timestamp r))
    \<and> (\<forall>i < length (e_entries e). entry_polled e e' i (F i)) \<and> backlog e' \<le> unat (tso_capacity (e_tso e)) div 8"
proof -
  let ?n = "length (e_entries e)"
  have "small e" using assms(3) by (simp add: small_backlog)
  then obtain e' F es n where p: "process_rings_tso tlock srt tsn e = Some e'"
    "length (e_entries e') = ?n"
    "\<forall>i < ?n. entry_polled e e' i (F i) \<and> F i \<le> length (entry_span e i) \<and> (ring_of_entry e i = None \<longrightarrow> ring_of_entry e' i = None)"
    "unat (e_tso_leftover e') = (\<Sum>i < ?n. length (entry_span e i) - F i)"
    "unat (e_tso_leftover e') \<le> unat (tso_capacity (e_tso e)) div 8"
    and o: "out_recs (e_out e') = out_recs (e_out e) @ concat (map (entry_out e) (take n es))"
    "sorted_wrt (\<lambda>x y. te_timestamp x \<le> te_timestamp y) es" "\<forall>te \<in> set es. entry_of e te"
    "\<forall>i < ?n. \<forall>k < length (entry_span e i). F i \<le> k \<longrightarrow>
       (\<exists>te \<in> set (drop n es). te_timestamp te = entry_stamps e i ! k)"
    using std_sort.process_rings_tso_base [OF assms(1,2), of tlock tsn] by blast
  have st: "entry_stamps e i = map r_timestamp (contents rb)" if "ring_of_entry e i = Some (rid, rb)" for i rid rb
    using stamps_increasing [OF assms(4) [rule_format, OF that]] that by (simp add: entry_stamps_def)
  have ts: "length (entry_out e te) \<le> 1 \<and> (\<forall>q \<in> set (entry_out e te). (r_timestamp \<circ> snd) q = te_timestamp te)"
    if "te \<in> set es" for te
  proof -
    have "entry_of e te" using o(3) that by blast
    from entry_out_stamp [OF this st] show ?thesis .
  qed
  let ?new = "concat (map (entry_out e) (take n es))"
  have le: "r_timestamp (snd q) \<le> te_timestamp te" if q: "q \<in> set ?new" and te: "te \<in> set (drop n es)" for q te
  proof -
    obtain t where t: "t \<in> set (take n es)" "q \<in> set (entry_out e t)" using q by auto
    have "te_timestamp t \<le> te_timestamp te" using sorted_wrt_take_drop [OF o(2) t(1) te] .
    then show ?thesis using ts [OF in_set_takeD [OF t(1)]] t(2) by simp
  qed
  have "r_timestamp (snd q) \<le> r_timestamp r"
    if r': "ring_of_entry e' i = Some (rid, rb')" "r \<in> set (contents rb')" and q: "q \<in> set ?new" for i rid rb' r q
  proof -
    have i: "i < ?n" using ring_of_entry_less [OF r'(1)] p(2) by simp
    obtain rb where rb: "ring_of_entry e i = Some (rid, rb)" "ring_after rb (F i) rb'"
      using entry_polled_orig [OF _ _ r'(1)] p(3) i by blast
    obtain k where k: "F i \<le> k" "k < length (entry_span e i)" "r = contents rb ! k"
      using kept_index [OF rb r'(2)] by blast
    then obtain te where te: "te \<in> set (drop n es)" "te_timestamp te = entry_stamps e i ! k" using o(4) i by blast
    have "te_timestamp te = r_timestamp r" using te(2) k rb(1) st [OF rb(1)] by (simp add: entry_span_def contents_def)
    with le [OF q te(1)] show ?thesis by simp
  qed
  moreover have "sorted (map (r_timestamp \<circ> snd) ?new)"
    by (rule sorted_concat_stamped [where h = te_timestamp])
      (use o(2) ts in_set_takeD [of _ n es] in \<open>auto simp: sorted_wrt_take\<close>)
  moreover have "\<exists>i rid rb. ring_of_entry e i = Some (rid, rb) \<and> fst q = rb_name rb" if "q \<in> set ?new" for q
  proof -
    obtain te where "q \<in> set (entry_out e te)" using \<open>q \<in> set ?new\<close> by auto
    then show ?thesis
      by (cases "ring_of_entry e (unat (te_tag te))") (auto simp: entry_out_def Let_def split: if_splits, blast)
  qed
  moreover have "backlog e' = unat (e_tso_leftover e')"
    unfolding backlog_def p(2,4) using p(3) by (intro sum.cong refl) (simp add: entry_polled_span)
  ultimately show ?thesis using p(1,3,5) o(1) by (intro exI [of _ e'] exI [of _ ?new] exI [of _ F]) simp
qed


text \<open>
  C3: when the records in the rings fit the ordering buffer and the timestamps of each ring are
  positive and strictly increase, a poll writes the records of all rings in the order of their
  timestamps. What it writes of a ring is the front of the ring's contents, without the special
  records, and what stays in the ring is the rest; nothing else is written. Every record that
  is kept back is at least as late as all those written, and at most an eighth of the capacity
  of the ordering buffer is kept back. (Timestamps that repeat or go back are raised for
  sorting only, so then the records written need not be in order.)
\<close>

theorem poll_time_order:
  assumes "std_sort srt" and "poll_ready e" and "backlog e < unat (tso_capacity (e_tso e))"
    and "\<forall>i rid rb. ring_of_entry e i = Some (rid, rb) \<longrightarrow> sorted_wrt (<) (0 # map r_timestamp (contents rb))"
  shows "\<exists>e' new F. process_rings_tso tlock srt tsn e = Some e' \<and> out_recs (e_out e') = out_recs (e_out e) @ new
    \<and> sorted (map (r_timestamp \<circ> snd) new)
    \<and> (\<forall>p \<in> set new. \<exists>i rid rb. ring_of_entry e i = Some (rid, rb) \<and> fst p = rb_name rb)
    \<and> (\<forall>i rid rb. ring_of_entry e i = Some (rid, rb) \<longrightarrow>
         map snd (filter (\<lambda>p. fst p = rb_name rb) new) = filter (\<lambda>r. \<not> is_special r) (take (F i) (contents rb))
         \<and> (\<forall>rb'. ring_of_entry e' i = Some (rid, rb') \<longrightarrow> contents rb' = drop (F i) (contents rb)))
    \<and> (\<forall>i rid rb'. ring_of_entry e' i = Some (rid, rb') \<longrightarrow>
         (\<forall>r \<in> set (contents rb'). \<forall>p \<in> set new. r_timestamp (snd p) \<le> r_timestamp r))
    \<and> backlog e' \<le> unat (tso_capacity (e_tso e)) div 8"
proof -
  obtain e' new F where p: "process_rings_tso tlock srt tsn e = Some e'" "out_recs (e_out e') = out_recs (e_out e) @ new"
    "sorted (map (r_timestamp \<circ> snd) new)" "\<forall>p \<in> set new. \<exists>i rid rb. ring_of_entry e i = Some (rid, rb) \<and> fst p = rb_name rb"
    "\<forall>i rid rb'. ring_of_entry e' i = Some (rid, rb') \<longrightarrow> (\<forall>r \<in> set (contents rb'). \<forall>p \<in> set new. r_timestamp (snd p) \<le> r_timestamp r)"
    "\<forall>i < length (e_entries e). entry_polled e e' i (F i)" "backlog e' \<le> unat (tso_capacity (e_tso e)) div 8"
    using poll_time_base [OF assms, of tlock tsn] by blast
  have "map snd (filter (\<lambda>p. fst p = rb_name rb) new) = filter (\<lambda>r. \<not> is_special r) (take (F i) (contents rb))
      \<and> (\<forall>rb'. ring_of_entry e' i = Some (rid, rb') \<longrightarrow> contents rb' = drop (F i) (contents rb))"
    if r: "ring_of_entry e i = Some (rid, rb)" for i rid rb
  proof -
    have "entry_polled e e' i (F i)" using p(6) ring_of_entry_less [OF r] by blast
    then show ?thesis using r p(2) by (auto simp: entry_polled_def ring_out_recs ring_after_def)
  qed
  with p show ?thesis by (intro exI [of _ e'] exI [of _ new] exI [of _ F]) simp
qed

theorem poll_time_order_witness:
  "\<exists>e' new. process_rings_tso (\<lambda>_. True) (sort_key te_timestamp) (\<lambda>_. ''ts'') demo_engine = Some e'
    \<and> out_recs (e_out e') = new \<and> sorted (map (r_timestamp \<circ> snd) new) \<and> backlog e' \<le> 1"
proof -
  have c: "unat (tso_capacity (e_tso demo_engine)) = 8" "out_recs (e_out demo_engine) = []"
    by (simp_all add: demo_engine_def tso_resize_def)
  have "ring_of_entry demo_engine 0 = Some (10, demo_log ''A'' 2 [5, 9, 0, 0])"
    "ring_of_entry demo_engine 1 = Some (20, demo_log ''B'' 1 [7, 0, 0, 0])" by (simp_all add: demo_rings)
  moreover have "length (e_entries demo_engine) = 2" by (simp add: demo_engine_def)
  ultimately have b: "backlog demo_engine < unat (tso_capacity (e_tso demo_engine))"
    unfolding c(1) by (simp add: backlog_def entry_span_def demo_log_def span_def numeral_2_eq_2)
  have inc: "\<forall>i rid rb. ring_of_entry demo_engine i = Some (rid, rb) \<longrightarrow> sorted_wrt (<) (0 # map r_timestamp (contents rb))"
    unfolding demo_rings by (auto simp: demo_contents demo_rec_def)
  from poll_time_order [OF isort.std_sort_axioms demo_ready b inc, where tlock = "\<lambda>_. True" and tsn = "\<lambda>_. ''ts''"]
  show ?thesis unfolding c by auto
qed

end
