(* ===== verification/Engine_Loop.thy ===== *)
theory Engine_Loop
  imports Poll_Correct Registry
begin

text \<open>
  The engine thread (\<^verbatim>\<open>src/engine.cc\<close>): polling until the engine is destroyed, then draining
  the rings until none is left. \<open>locks k\<close> says which attempts to take the registry lock succeed
  in poll \<open>k\<close>, \<open>env k\<close> is what other threads do to the engine during the sleep after it; the
  length of the sleeps is left out. The theorems follow the registry through a poll: which
  rings stay registered, and that a ring without holders goes away once it is empty.
\<close>

section \<open>Operations\<close>

type_synonym ring_sorter = "(nat \<Rightarrow> ring option) \<Rightarrow> index_entry list \<Rightarrow> index_entry list"

type_synonym locking = "nat \<Rightarrow> bool \<times> (nat \<Rightarrow> bool)"

partial_function (option) drain_rings :: "ring_sorter \<Rightarrow> locking \<Rightarrow> (nat \<Rightarrow> 're engine \<Rightarrow> 're engine) \<Rightarrow> sorter
    \<Rightarrow> (u64 \<Rightarrow> string) \<Rightarrow> nat \<Rightarrow> 're engine \<Rightarrow> 're engine option" where
  "drain_rings rsort locks env srt ts_name k e = do {
     e \<leftarrow> process_rings rsort (fst (locks k)) (snd (locks k)) srt ts_name e;
     if \<not> e_dirty e \<and> length (e_entries e) = 0 then Some e
     else drain_rings rsort locks env srt ts_name (Suc k) (env k e)
   }"

text \<open>\<open>killed k\<close> is the flag when poll \<open>k\<close> would start.\<close>

partial_function (option) engine_loop :: "ring_sorter \<Rightarrow> locking \<Rightarrow> (nat \<Rightarrow> 're engine \<Rightarrow> 're engine) \<Rightarrow> (nat \<Rightarrow> bool) \<Rightarrow> sorter
    \<Rightarrow> (u64 \<Rightarrow> string) \<Rightarrow> nat \<Rightarrow> 're engine \<Rightarrow> 're engine option" where
  "engine_loop rsort locks env killed srt ts_name k e =
     (if killed k then drain_rings rsort locks env srt ts_name k e
      else do {
        e \<leftarrow> process_rings rsort (fst (locks k)) (snd (locks k)) srt ts_name e;
        engine_loop rsort locks env killed srt ts_name (Suc k) (env k e)
      })"

section \<open>What a poll leaves of the registry\<close>

text \<open>\<open>f\<close> selects what stays of each ring.\<close>

definition keeps :: "(ring \<Rightarrow> 'b) \<Rightarrow> 're engine \<Rightarrow> 're engine \<Rightarrow> bool" where
  "keeps f e e' \<longleftrightarrow> e_ring_map e' = e_ring_map e \<and> e_dirty e' = e_dirty e \<and> e_opts e' = e_opts e
     \<and> map ie_ring (e_entries e') = map ie_ring (e_entries e)
     \<and> (\<forall>x. map_option f (e_rings e' x) = map_option f (e_rings e x))"

definition owner_tag :: "ring \<Rightarrow> string \<times> int \<times> u32" where
  "owner_tag rb = (rb_name rb, rb_refcnt rb, rb_flags rb)"

definition queue_tag :: "ring \<Rightarrow> (string \<times> int \<times> u32) \<times> u32 \<times> u32 \<times> u32" where
  "queue_tag rb = (owner_tag rb, rb_head rb, rb_tail rb, rb_capacity rb)"

lemma keeps_refl [simp]: "keeps f e e"
  by (simp add: keeps_def)

lemma keeps_trans [trans]: "keeps f a b \<Longrightarrow> keeps f b c \<Longrightarrow> keeps f a c"
  by (simp add: keeps_def)

lemma keeps_owner: "keeps queue_tag e e' \<Longrightarrow> keeps owner_tag e e'"
proof -
  assume k: "keeps queue_tag e e'"
  have o: "owner_tag = fst \<circ> queue_tag" by (simp add: fun_eq_iff queue_tag_def)
  have "map_option owner_tag (e_rings e' x) = map_option owner_tag (e_rings e x)" for x
    using k unfolding o option.map_comp [symmetric] keeps_def by simp
  with k show ?thesis by (simp add: keeps_def)
qed

lemma retime_tag: "map_option queue_tag (retime ts m h x) = map_option queue_tag (h x)"
proof (induction ts m h rule: retime.induct)
  case (2 ts k rid m h)
  have "queue_tag \<circ> set_timesource ts = queue_tag"
    by (simp add: fun_eq_iff set_timesource_def queue_tag_def owner_tag_def)
  then show ?case unfolding retime.simps 2 by (simp add: option.map_comp)
qed simp

lemma keeps_simps [simp]:
  "keeps f e (bump g e')  = keeps f e e'" "keeps f e (emit ev e') = keeps f e e'"
  "keeps f e (inject_record nm ts q s fm as e') = keeps f e e'"
  "keeps f e (e'\<lparr>e_tso := b\<rparr>) = keeps f e e'" "keeps f e (e'\<lparr>e_tso_leftover := n\<rparr>) = keeps f e e'"
  "keeps f e (e'\<lparr>e_timesource := ts\<rparr>) = keeps f e e'"
  by (simp_all add: keeps_def bump_def emit_def inject_record_def)

lemma keeps_put_ring:
  "keeps f e e' \<Longrightarrow> e_rings e' rid = Some rb \<Longrightarrow> f rb' = f rb \<Longrightarrow> keeps f e (put_ring rid rb' e')"
  unfolding keeps_def put_ring_def by (auto dest: spec [of _ rid])

lemma keeps_put_entry:
  assumes "keeps f e e'" and "\<And>x. ie_ring (g x) = ie_ring x"
  shows "keeps f e (put_entry i g e')"
proof -
  have "map ie_ring ((e_entries e')[i := g (e_entries e' ! i)]) = map ie_ring (e_entries e')"
    using assms(2) by (cases "i < length (e_entries e')") (simp_all add: map_update list_update_same_conv list_update_beyond)
  with assms(1) show ?thesis by (simp add: keeps_def put_entry_def)
qed

lemma switch_timesource_keeps: "switch_timesource tsn nm r e = Some e' \<Longrightarrow> keeps queue_tag e e'"
  by (auto simp: switch_timesource_def Let_def bind_eq_Some_conv keeps_def retime_tag bump_def inject_record_def emit_def)

lemma update_slot_tag: "update_slot i f rb = Some rb' \<Longrightarrow> queue_tag rb' = queue_tag rb"
  by (auto simp: update_slot_def write_slot_def bind_eq_Some_conv queue_tag_def owner_tag_def split: if_splits)

lemma flush_record_keeps:
  assumes "flush_record tsn i slot e = Some e'"
  shows "keeps queue_tag e e'"
proof -
  obtain rid rb r where r: "ring_of_entry e i = Some (rid, rb)" "read_slot rb slot = Some r"
    using assms by (auto simp: flush_record_def bind_eq_Some_conv)
  show ?thesis
  proof (cases "is_special r")
    case False
    then show ?thesis using assms r by (simp add: flush_record_def) (auto simp: keeps_def bump_def emit_def)
  next
    case True
    then obtain e1 rid1 rb1 rb2 where e1: "(if r_argtype r = ucast SPR_TIMESOURCE_CHANGE
        then switch_timesource tsn (rb_name rb) r e else Some e) = Some e1"
      "ring_of_entry e1 i = Some (rid1, rb1)" "update_slot slot r_ack rb1 = Some rb2"
      "e' = bump (\<lambda>s. s\<lparr>st_recs_out := st_recs_out s + 1\<rparr>) (put_ring rid1 rb2 e1)"
      using assms r by (simp add: flush_record_def bind_eq_Some_conv) blast
    have "keeps queue_tag e e1" using e1(1) switch_timesource_keeps by (auto split: if_splits)
    then have "keeps queue_tag e (put_ring rid1 rb2 e1)"
      using e1(2) update_slot_tag [OF e1(3)] by (intro keeps_put_ring [of _ _ _ _ rb1]) (simp_all add: ring_of_entry_Some)
    then show ?thesis by (simp add: e1(4))
  qed
qed

lemma flush_entry_keeps:
  assumes "flush_entry tsn te e = Some e'"
  shows "keeps queue_tag e e'"
proof -
  let ?i = "unat (te_tag te)"
  obtain rid rb r where r: "ring_of_entry e ?i = Some (rid, rb)" "read_slot rb (te_rec te) = Some r"
    using assms by (auto simp: flush_entry_def Let_def bind_eq_Some_conv)
  let ?seq = "ucast (r_seqnum r) :: u64"
  obtain e1 where e1: "flush_record tsn ?i (te_rec te)
      (put_entry ?i (\<lambda>x. x\<lparr>ie_lastrec := Some (te_rec te), ie_seqnum := ?seq + 1\<rparr>) e1) = Some e'" "keeps queue_tag e e1"
    using assms r
    by (auto simp: flush_entry_def Let_def bind_eq_Some_conv keeps_def bump_def inject_record_def emit_def split: if_splits)
  have "keeps queue_tag e (put_entry ?i (\<lambda>x. x\<lparr>ie_lastrec := Some (te_rec te), ie_seqnum := ?seq + 1\<rparr>) e1)"
    by (rule keeps_put_entry [OF e1(2)]) simp
  then show ?thesis using flush_record_keeps [OF e1(1)] by (rule keeps_trans)
qed

lemma flush_entries_keeps: "flush_entries tsn n e = Some e' \<Longrightarrow> keeps queue_tag e e'"
proof (induction n arbitrary: e)
  case (Suc n)
  show ?case
  proof (cases "tso_pop (e_tso e)")
    case None
    with Suc.prems show ?thesis by simp
  next
    case (Some p)
    then obtain te b e1 where e1: "flush_entry tsn te (e\<lparr>e_tso := b\<rparr>) = Some e1" "flush_entries tsn n e1 = Some e'"
      using Suc.prems by (auto simp: bind_eq_Some_conv split: prod.splits)
    have "keeps queue_tag e e1" using flush_entry_keeps [OF e1(1)] by (simp add: keeps_def)
    then show ?thesis using Suc.IH [OF e1(2)] by (rule keeps_trans)
  qed
qed simp

lemma do_flush_tso_keeps: "do_flush_tso srt tsn n e = Some e' \<Longrightarrow> keeps queue_tag e e'"
  by (auto simp: do_flush_tso_def keeps_def dest!: flush_entries_keeps)

lemma flush_full_tso_keeps:
  assumes "flush_full_tso srt tsn e = Some e'"
  shows "keeps queue_tag e e'"
proof -
  obtain fm e1 e2 where e1: "(if fm then do {
              te \<leftarrow> tso_top (e_tso e);
              (rid, rb) \<leftarrow> ring_of_entry e (unat (te_tag te));
              r \<leftarrow> read_slot rb (te_rec te);
              Some (inject_record ''ENGINE'' (ts_minus_int (r_timestamp r) 1) 0 TSOFULLMARK
                      ''following records may be out of order'' [InjU64 0, InjU64 0] e)
            } else Some e) = Some e1" "do_flush_tso srt tsn (tso_size (e_tso e) div 2) e1 = Some e2"
    "e' = bump (\<lambda>s. s\<lparr>st_tso_full := st_tso_full s + 1\<rparr>) (e2\<lparr>e_tso_leftover := 0, e_tso := tso_flip (e_tso e2)\<rparr>)"
    using assms unfolding flush_full_tso_def Let_def bind_eq_Some_conv by blast
  have "keeps queue_tag e e1" using e1(1) by (auto simp: bind_eq_Some_conv split: if_splits)
  then show ?thesis using do_flush_tso_keeps [OF e1(2)] unfolding e1(3) keeps_simps by (rule keeps_trans)
qed

lemma flush_tso_keeps:
  assumes "flush_tso srt tsn e = Some e'"
  shows "keeps queue_tag e e'"
proof -
  let ?s = "let size = tso_size (e_tso e); keep = tso_capacity (e_tso e) div 8; size = (if size > keep then size - keep else 0)
     in if size < e_tso_leftover e then e_tso_leftover e else size"
  obtain e1 where e1: "(if ?s \<noteq> 0 then do_flush_tso srt tsn ?s e else Some e) = Some e1"
    "e' = e1\<lparr>e_tso_leftover := tso_size (e_tso e1), e_tso := tso_reset (e_tso e1)\<rparr>"
    using assms unfolding flush_tso_def Let_def bind_eq_Some_conv by blast
  have "keeps queue_tag e e1" using e1(1) do_flush_tso_keeps by (auto split: if_splits)
  then show ?thesis by (simp add: e1(2))
qed

lemma read_ring_keeps:
  "read_ring lim srt tsn i t it e = Some (e', it') \<Longrightarrow> keeps queue_tag e e'"
proof (induction lim arbitrary: t it e)
  case 0
  then show ?case
    by (subst (asm) read_ring.simps) (auto simp: bind_eq_Some_conv split: option.splits)
next
  case (Suc lim)
  obtain rid rb where r: "ring_of_entry e i = Some (rid, rb)"
    using Suc.prems by (subst (asm) read_ring.simps) (auto simp: bind_eq_Some_conv)
  show ?case
  proof (cases "it_next rb it")
    case None
    then show ?thesis using Suc.prems r by (subst (asm) read_ring.simps) simp
  next
    case (Some p)
    obtain slot it1 where p: "p = (slot, it1)" by (cases p)
    obtain ts b e1 where e1: "(if tso_full b then flush_full_tso srt tsn (e\<lparr>e_tso := b\<rparr>) else Some (e\<lparr>e_tso := b\<rparr>)) = Some e1"
      "read_ring lim srt tsn i ts it1 e1 = Some (e', it')"
      using Suc.prems r Some p by (subst (asm) read_ring.simps) (auto simp: bind_eq_Some_conv Let_def)
    have "keeps queue_tag (e\<lparr>e_tso := b\<rparr>) e1" using e1(1) flush_full_tso_keeps by (auto split: if_splits)
    then have "keeps queue_tag e e1" by (simp add: keeps_def)
    then show ?thesis using Suc.IH [OF e1(2)] by (rule keeps_trans)
  qed
qed

lemma commit_entry_keeps:
  assumes "commit_entry i e = Some e'"
  shows "keeps owner_tag e e'"
proof -
  have "e' = e \<or> (\<exists>rid rb it. ring_of_entry e i = Some (rid, rb)
      \<and> e' = put_entry i (\<lambda>x. x\<lparr>ie_pit := it, ie_lastrec := None\<rparr>) (put_ring rid (ring_unblock (it_commit it rb)) e))"
    using assms by (auto simp: commit_entry_def Let_def bind_eq_Some_conv split: option.splits)
  then show ?thesis
  proof (elim disjE exE conjE)
    fix rid rb it
    assume r: "ring_of_entry e i = Some (rid, rb)"
      and e': "e' = put_entry i (\<lambda>x. x\<lparr>ie_pit := it, ie_lastrec := None\<rparr>) (put_ring rid (ring_unblock (it_commit it rb)) e)"
    have "owner_tag (ring_unblock (it_commit it rb)) = owner_tag rb"
      by (simp add: owner_tag_def ring_unblock_def it_commit_def commit_head_def)
    then have "keeps owner_tag e (put_ring rid (ring_unblock (it_commit it rb)) e)"
      using r by (intro keeps_put_ring [of _ _ _ _ rb]) (simp_all add: ring_of_entry_Some)
    then show ?thesis unfolding e' by (rule keeps_put_entry) simp
  qed simp
qed

lemma commit_entries_keeps: "commit_entries is e = Some e' \<Longrightarrow> keeps owner_tag e e'"
proof (induction "is" arbitrary: e)
  case (Cons i "is")
  then obtain e1 where "commit_entry i e = Some e1" "commit_entries is e1 = Some e'" by (auto simp: bind_eq_Some_conv)
  then show ?case using commit_entry_keeps Cons.IH keeps_trans by blast
qed simp

section \<open>The registry and the index\<close>

text \<open>Every registered ring exists under its name and is held by the engine alone.\<close>

definition orphaned :: "'re engine \<Rightarrow> bool" where
  "orphaned e \<longleftrightarrow> distinct (map fst (e_ring_map e)) \<and> distinct (map snd (e_ring_map e))
     \<and> (\<forall>p \<in> set (e_ring_map e). \<exists>fl. map_option owner_tag (e_rings e (snd p)) = Some (fst p, 1, fl))"

text \<open>The index has exactly one entry for each registered ring, and entries without a ring.\<close>

definition indexed :: "'re engine \<Rightarrow> bool" where
  "indexed e \<longleftrightarrow> (\<forall>rid. rid \<in> snd ` set (e_ring_map e) \<longleftrightarrow> Some rid \<in> set (map ie_ring (e_entries e)))
     \<and> (\<forall>i j rid. i < length (e_entries e) \<longrightarrow> j < length (e_entries e) \<longrightarrow> map ie_ring (e_entries e) ! i = Some rid
          \<longrightarrow> map ie_ring (e_entries e) ! j = Some rid \<longrightarrow> i = j)"

text \<open>
  What becomes of a ring with flags \<open>fl\<close>: registered and held by the engine, or removed and
  then deleted, unless it is immortal.
\<close>

definition fate :: "'re engine \<Rightarrow> nat \<Rightarrow> string \<Rightarrow> u32 \<Rightarrow> bool" where
  "fate e rid nm fl \<longleftrightarrow> map_option owner_tag (e_rings e rid) =
     (if rid \<in> snd ` set (e_ring_map e) then Some (nm, 1, fl) else if fl AND IMMORTAL \<noteq> 0 then Some (nm, 0, fl) else None)"

definition empty_at :: "'re engine \<Rightarrow> nat \<Rightarrow> bool" where
  "empty_at e i \<longleftrightarrow> (\<exists>rid rb. ring_of_entry e i = Some (rid, rb) \<and> ring_empty rb)"

lemma keeps_length: "keeps f e e' \<Longrightarrow> length (e_entries e') = length (e_entries e)"
  unfolding keeps_def by (elim conjE, drule arg_cong [of _ _ length]) simp

lemma keeps_ie_ring: "keeps f e e' \<Longrightarrow> i < length (e_entries e) \<Longrightarrow> ie_ring (e_entries e' ! i) = ie_ring (e_entries e ! i)"
proof -
  assume k: "keeps f e e'" and i: "i < length (e_entries e)"
  have "map ie_ring (e_entries e') ! i = map ie_ring (e_entries e) ! i" using k by (simp add: keeps_def)
  then show ?thesis using i keeps_length [OF k] by simp
qed

lemma keeps_orphaned: "keeps owner_tag e e' \<Longrightarrow> orphaned e' = orphaned e"
  by (simp add: keeps_def orphaned_def)

lemma keeps_fate: "keeps owner_tag e e' \<Longrightarrow> fate e' rid nm fl = fate e rid nm fl"
  by (simp add: keeps_def fate_def)

lemma keeps_indexed: "keeps f e e' \<Longrightarrow> indexed e' = indexed e"
  using keeps_length [of f e e'] by (simp add: keeps_def indexed_def)

lemma orphaned_ring:
  assumes "orphaned e" and "indexed e" and "i < length (e_entries e)" and "ie_ring (e_entries e ! i) = Some rid"
  obtains rb where "ring_of_entry e i = Some (rid, rb)" "rb_refcnt rb = 1" "(rb_name rb, rid) \<in> set (e_ring_map e)"
proof -
  have "Some rid \<in> set (map ie_ring (e_entries e))" using assms(3,4) by (metis length_map nth_map nth_mem)
  then obtain nm where nm: "(nm, rid) \<in> set (e_ring_map e)" using assms(2) unfolding indexed_def by force
  then obtain rb where rb: "e_rings e rid = Some rb" "rb_refcnt rb = 1" "rb_name rb = nm"
    using assms(1) by (fastforce simp: orphaned_def owner_tag_def)
  show thesis
  proof (rule that)
    show "ring_of_entry e i = Some (rid, rb)" using rb(1) assms(3,4) by (simp add: ring_of_entry_Some)
  qed (use rb nm in simp_all)
qed

lemma remove_from_index:
  assumes "i < length ids" and "ids ! i = Some r"
    and "\<And>j k x. j < length ids \<Longrightarrow> k < length ids \<Longrightarrow> ids ! j = Some x \<Longrightarrow> ids ! k = Some x \<Longrightarrow> j = k"
  shows "Some x \<in> set (ids[i := None]) \<longleftrightarrow> Some x \<in> set ids \<and> x \<noteq> r"
proof
  assume "Some x \<in> set (ids[i := None])"
  then obtain j where j: "j < length ids" "j \<noteq> i" "ids ! j = Some x"
    using assms(1) unfolding in_set_conv_nth by (auto simp: nth_list_update split: if_splits)
  then have "x \<noteq> r" using assms(3) [OF j(1) assms(1) j(3)] assms(2) by auto
  with j show "Some x \<in> set ids \<and> x \<noteq> r" by (auto simp: in_set_conv_nth)
next
  assume "Some x \<in> set ids \<and> x \<noteq> r"
  then obtain j where "j < length ids" "ids ! j = Some x" "j \<noteq> i" using assms(2) unfolding in_set_conv_nth by fastforce
  then show "Some x \<in> set (ids[i := None])"
    unfolding in_set_conv_nth by (intro exI [of _ j]) simp
qed

text \<open>An engine without the ring \<open>rid\<close> of entry \<open>i\<close>; \<open>v\<close> is what is left of it on the heap.\<close>

definition unregistered :: "nat \<Rightarrow> nat \<Rightarrow> string \<Rightarrow> ring option \<Rightarrow> 're engine \<Rightarrow> 're engine" where
  "unregistered i rid nm v e = e\<lparr>e_ring_map := smap_erase nm (e_ring_map e),
     e_entries := (e_entries e)[i := (e_entries e ! i)\<lparr>ie_ring := None, ie_pit := it_invalid\<rparr>],
     e_dirty := True, e_rings := (e_rings e)(rid := v)\<rparr>"

lemma unregistered_simps [simp]:
  "e_ring_map (unregistered i rid nm v e) = smap_erase nm (e_ring_map e)" "e_dirty (unregistered i rid nm v e)"
  "e_rings (unregistered i rid nm v e) = (e_rings e)(rid := v)" "e_opts (unregistered i rid nm v e) = e_opts e"
  "map ie_ring (e_entries (unregistered i rid nm v e)) = (map ie_ring (e_entries e))[i := None]"
  "length (e_entries (unregistered i rid nm v e)) = length (e_entries e)"
  by (simp_all add: unregistered_def map_update)

lemma kill_orphan_eq:
  assumes "rb_refcnt rb = 1"
  shows "kill_orphan i rid rb e
    = Some (unregistered i rid (rb_name rb) (if ring_immortal rb then Some (rb\<lparr>rb_refcnt := 0\<rparr>) else None) e)"
  using assms by (cases "ring_immortal rb")
    (simp_all add: unregistered_def kill_orphan_def ring_release_def put_ring_def put_entry_def Let_def ring_immortal_def)

text \<open>The name and the identity of a registered ring determine each other.\<close>

lemma registered_unique:
  assumes "orphaned e" and "(nm, rid) \<in> set (e_ring_map e)" and "(n, x) \<in> set (e_ring_map e)"
  shows "x = rid \<longleftrightarrow> n = nm"
proof -
  have d: "distinct (map fst (e_ring_map e))" "distinct (map snd (e_ring_map e))" using assms(1) by (simp_all add: orphaned_def)
  show ?thesis
    using assms(2,3) eq_key_imp_eq_value [OF d(1), of n x rid]
      inj_onD [of snd "set (e_ring_map e)" "(n, x)" "(nm, rid)"] d(2) by (auto simp: distinct_map)
qed

lemma erased_map:
  assumes "orphaned e" and "(nm, rid) \<in> set (e_ring_map e)"
  shows "set (smap_erase nm (e_ring_map e)) = set (e_ring_map e) - {(nm, rid)}"
    and "snd ` set (smap_erase nm (e_ring_map e)) = snd ` set (e_ring_map e) - {rid}"
proof -
  note u = registered_unique [OF assms]
  show m: "set (smap_erase nm (e_ring_map e)) = set (e_ring_map e) - {(nm, rid)}"
    using u assms(2) by (auto simp: smap_erase_def)
  show "snd ` set (smap_erase nm (e_ring_map e)) = snd ` set (e_ring_map e) - {rid}"
    using u assms(2) unfolding m by force
qed

lemma orphaned_unregistered:
  assumes "orphaned e" and "(nm, rid) \<in> set (e_ring_map e)"
  shows "orphaned (unregistered i rid nm v e)"
  unfolding orphaned_def
proof (intro conjI ballI)
  have d: "distinct (map fst (e_ring_map e))" "distinct (map snd (e_ring_map e))" using assms(1) by (simp_all add: orphaned_def)
  then show "distinct (map fst (e_ring_map (unregistered i rid nm v e)))" "distinct (map snd (e_ring_map (unregistered i rid nm v e)))"
    by (simp_all add: smap_erase_def distinct_map_filter)
  fix p assume "p \<in> set (e_ring_map (unregistered i rid nm v e))"
  then have p: "p \<in> set (e_ring_map e)" "p \<noteq> (nm, rid)" by (simp_all add: erased_map(1) [OF assms])
  then have "snd p \<noteq> rid" using registered_unique [OF assms, of "fst p" "snd p"] by (auto simp: prod_eq_iff)
  with p(1) show "\<exists>fl. map_option owner_tag (e_rings (unregistered i rid nm v e) (snd p)) = Some (fst p, 1, fl)"
    using assms(1) by (auto simp: orphaned_def)
qed

lemma indexed_unregistered:
  assumes "orphaned e" and "indexed e" and "(nm, rid) \<in> set (e_ring_map e)"
    and i: "i < length (e_entries e)" "ie_ring (e_entries e ! i) = Some rid"
  shows "indexed (unregistered i rid nm v e)"
proof -
  let ?ids = "map ie_ring (e_entries e)"
  have inj: "j = k" if "j < length ?ids" "k < length ?ids" "?ids ! j = Some y" "?ids ! k = Some y" for j k y
    using that assms(2) unfolding indexed_def length_map by blast
  have "x \<in> snd ` set (smap_erase nm (e_ring_map e)) \<longleftrightarrow> Some x \<in> set (?ids[i := None])" for x
  proof -
    have "x \<in> snd ` set (smap_erase nm (e_ring_map e)) \<longleftrightarrow> Some x \<in> set ?ids \<and> x \<noteq> rid"
      using assms(2) unfolding erased_map(2) [OF assms(1,3)] indexed_def by blast
    also have "\<dots> \<longleftrightarrow> Some x \<in> set (?ids[i := None])"
      by (rule remove_from_index [symmetric]) (use i inj in auto)
    finally show ?thesis .
  qed
  moreover have "j = k" if "j < length ?ids" "k < length ?ids" "?ids[i := None] ! j = Some y" "?ids[i := None] ! k = Some y" for j k y
    using that inj [of j k y] i(1) by (cases "j = i"; cases "k = i") simp_all
  ultimately show ?thesis unfolding indexed_def unregistered_simps length_map by blast
qed

lemma kill_orphan_reg:
  assumes "orphaned e" and "indexed e" and "ring_of_entry e i = Some (rid, rb)" and "(rb_name rb, rid) \<in> set (e_ring_map e)"
    and "rb_refcnt rb = 1"
  shows "\<exists>e'. kill_orphan i rid rb e = Some e' \<and> orphaned e' \<and> indexed e' \<and> e_dirty e' \<and> e_opts e' = e_opts e
    \<and> map ie_ring (e_entries e') = (map ie_ring (e_entries e))[i := None]
    \<and> set (e_ring_map e') = set (e_ring_map e) - {(rb_name rb, rid)}
    \<and> (\<forall>x. x \<noteq> rid \<longrightarrow> e_rings e' x = e_rings e x)
    \<and> (\<forall>x nm fl. fate e x nm fl \<longrightarrow> fate e' x nm fl)"
proof -
  define v where "v = (if ring_immortal rb then Some (rb\<lparr>rb_refcnt := 0\<rparr>) else None)"
  let ?e = "unregistered i rid (rb_name rb) v e"
  have i: "i < length (e_entries e)" "ie_ring (e_entries e ! i) = Some rid" using assms(3) by (simp_all add: ring_of_entry_Some)
  have r: "rid \<in> snd ` set (e_ring_map e)" "e_rings e rid = Some rb" using assms(3,4) by (force simp: ring_of_entry_Some)+
  have "fate ?e x nm fl" if "fate e x nm fl" for x nm fl
    using that r erased_map(2) [OF assms(1,4)]
    by (cases "x = rid") (simp_all add: fate_def v_def owner_tag_def ring_immortal_def)
  then show ?thesis
    using kill_orphan_eq [OF assms(5), of i rid e, folded v_def] orphaned_unregistered [OF assms(1,4)]
      indexed_unregistered [OF assms(1,2,4) i] erased_map(1) [OF assms(1,4)]
    by (intro exI [of _ ?e]) simp
qed

lemma read_ring_entry_reg:
  assumes "read_ring_entry (\<lambda>_. True) srt tsn i e = Some e'" and "orphaned e" and "indexed e" and "i < length (e_entries e)"
  shows "orphaned e' \<and> indexed e' \<and> (e_dirty e' \<longleftrightarrow> e_dirty e \<or> empty_at e i) \<and> e_opts e' = e_opts e
    \<and> map ie_ring (e_entries e') = (map ie_ring (e_entries e))[i := if empty_at e i then None else ie_ring (e_entries e ! i)]
    \<and> set (e_ring_map e') \<subseteq> set (e_ring_map e)
    \<and> (\<forall>x. (empty_at e i \<longrightarrow> ie_ring (e_entries e ! i) \<noteq> Some x) \<longrightarrow> map_option queue_tag (e_rings e' x) = map_option queue_tag (e_rings e x))
    \<and> (\<forall>x nm fl. fate e x nm fl \<longrightarrow> fate e' x nm fl)"
proof (cases "ie_ring (e_entries e ! i)")
  case None
  then have "e' = e" "\<not> empty_at e i"
    using assms(1) by (simp_all add: read_ring_entry_def empty_at_def ring_of_entry_None)
  moreover have "(map ie_ring (e_entries e))[i := None] = map ie_ring (e_entries e)"
    using None assms(4) by (metis list_update_id nth_map)
  ultimately show ?thesis using None assms(2,3) by simp
next
  case (Some rid)
  obtain rb where rb: "ring_of_entry e i = Some (rid, rb)" "rb_refcnt rb = 1" "(rb_name rb, rid) \<in> set (e_ring_map e)"
    using orphaned_ring [OF assms(2-4) Some] .
  obtain e1 it where e1: "read_ring (nslots rb) srt tsn i (from_nsec 0) (it_reset rb) e = Some (e1, it)"
    using assms(1) Some rb(1) by (auto simp: read_ring_entry_def bind_eq_Some_conv)
  define e2 where "e2 = put_entry i (\<lambda>x. x\<lparr>ie_pit := it\<rparr>) e1"
  have k: "keeps queue_tag e e2" unfolding e2_def
    by (rule keeps_put_entry [OF read_ring_keeps [OF e1]]) simp
  have ko: "keeps owner_tag e e2" by (rule keeps_owner [OF k])
  then have o2: "orphaned e2" "indexed e2" using assms(2,3) by (simp_all add: keeps_orphaned keeps_indexed)
  have i2: "i < length (e_entries e2)" "ie_ring (e_entries e2 ! i) = Some rid"
    using keeps_length [OF k] keeps_ie_ring [OF k assms(4)] assms(4) Some by simp_all
  obtain rb2 where rb2: "ring_of_entry e2 i = Some (rid, rb2)" "rb_refcnt rb2 = 1" "(rb_name rb2, rid) \<in> set (e_ring_map e2)"
    using orphaned_ring [OF o2 i2] .
  have "queue_tag rb2 = queue_tag rb"
    using k rb(1) rb2(1) by (force simp: keeps_def ring_of_entry_Some dest: spec [of _ rid])
  then have em: "ring_empty rb2 \<longleftrightarrow> empty_at e i"
    using rb(1) by (simp add: empty_at_def ring_empty_def queue_tag_def)
  have eq: "read_ring_entry (\<lambda>_. True) srt tsn i e = (if empty_at e i then kill_orphan i rid rb2 e2 else Some e2)"
    using Some rb(1) e1 rb2(1,2) em unfolding read_ring_entry_def by (simp add: e2_def [symmetric] ring_orphan_def)
  have k2: "e_ring_map e2 = e_ring_map e" "e_dirty e2 = e_dirty e" "e_opts e2 = e_opts e"
    "map ie_ring (e_entries e2) = map ie_ring (e_entries e)"
    "\<And>x. map_option queue_tag (e_rings e2 x) = map_option queue_tag (e_rings e x)"
    using k by (simp_all add: keeps_def)
  show ?thesis
  proof (cases "empty_at e i")
    case True
    obtain e3 where "kill_orphan i rid rb2 e2 = Some e3" "orphaned e3" "indexed e3" "e_dirty e3" "e_opts e3 = e_opts e2"
      "map ie_ring (e_entries e3) = (map ie_ring (e_entries e2))[i := None]"
      "set (e_ring_map e3) = set (e_ring_map e2) - {(rb_name rb2, rid)}" "\<forall>x. x \<noteq> rid \<longrightarrow> e_rings e3 x = e_rings e2 x"
      "\<forall>x nm fl. fate e2 x nm fl \<longrightarrow> fate e3 x nm fl"
      using kill_orphan_reg [OF o2 rb2(1,3,2)] by blast
    with assms(1) eq True Some k2 keeps_fate [OF ko] show ?thesis by auto
  next
    case False
    then have "e' = e2" using assms(1) eq by simp
    moreover have "(map ie_ring (e_entries e))[i := Some rid] = map ie_ring (e_entries e)"
      using Some assms(4) by (metis list_update_id nth_map)
    ultimately show ?thesis using False o2 k2 Some keeps_fate [OF ko] by simp
  qed
qed


lemma ring_of_entry_tag:
  assumes "map ie_ring (e_entries e') ! j = map ie_ring (e_entries e) ! j" and "length (e_entries e') = length (e_entries e)"
    and "\<And>x. j < length (e_entries e) \<Longrightarrow> ie_ring (e_entries e ! j) = Some x \<Longrightarrow> map_option queue_tag (e_rings e' x) = map_option queue_tag (e_rings e x)"
  shows "empty_at e' j = empty_at e j"
proof (cases "j < length (e_entries e) \<and> ie_ring (e_entries e ! j) \<noteq> None")
  case True
  then obtain x where j: "j < length (e_entries e)" "ie_ring (e_entries e ! j) = Some x" by auto
  then have j': "ie_ring (e_entries e' ! j) = Some x" using assms(1,2) by simp
  then show ?thesis using assms(2) assms(3) [OF j] j
    by (cases "e_rings e x"; cases "e_rings e' x")
      (simp_all add: empty_at_def ring_of_entry_Some queue_tag_def ring_empty_def)
next
  case False
  then show ?thesis using assms(1,2) by (auto simp: empty_at_def ring_of_entry_Some)
qed

lemma read_rings_reg:
  assumes "read_rings (\<lambda>_. True) srt tsn is e = Some e'" and "orphaned e" and "indexed e" and "distinct is"
    and "\<forall>i \<in> set is. i < length (e_entries e)"
  shows "orphaned e' \<and> indexed e' \<and> (e_dirty e' \<longleftrightarrow> e_dirty e \<or> (\<exists>i \<in> set is. empty_at e i)) \<and> e_opts e' = e_opts e
    \<and> length (e_entries e') = length (e_entries e)
    \<and> (\<forall>j < length (e_entries e). ie_ring (e_entries e' ! j) =
         (if j \<in> set is \<and> empty_at e j then None else ie_ring (e_entries e ! j)))
    \<and> set (e_ring_map e') \<subseteq> set (e_ring_map e)
    \<and> (\<forall>x nm fl. fate e x nm fl \<longrightarrow> fate e' x nm fl)"
  using assms
proof (induction "is" arbitrary: e)
  case (Cons i "is")
  obtain e1 where e1: "read_ring_entry (\<lambda>_. True) srt tsn i e = Some e1" "read_rings (\<lambda>_. True) srt tsn is e1 = Some e'"
    using Cons.prems(1) by (auto simp: bind_eq_Some_conv)
  have i: "i < length (e_entries e)" using Cons.prems(5) by simp
  have r: "orphaned e1" "indexed e1" "e_dirty e1 \<longleftrightarrow> e_dirty e \<or> empty_at e i" "e_opts e1 = e_opts e"
    "map ie_ring (e_entries e1) = (map ie_ring (e_entries e))[i := if empty_at e i then None else ie_ring (e_entries e ! i)]"
    "set (e_ring_map e1) \<subseteq> set (e_ring_map e)"
    "\<And>x. (empty_at e i \<longrightarrow> ie_ring (e_entries e ! i) \<noteq> Some x) \<Longrightarrow> map_option queue_tag (e_rings e1 x) = map_option queue_tag (e_rings e x)"
    "\<And>x nm fl. fate e x nm fl \<Longrightarrow> fate e1 x nm fl"
    using read_ring_entry_reg [OF e1(1) Cons.prems(2,3) i] by simp_all
  have len: "length (e_entries e1) = length (e_entries e)" using arg_cong [OF r(5), of length] by simp
  have ent: "ie_ring (e_entries e1 ! j) = (if j = i \<and> empty_at e i then None else ie_ring (e_entries e ! j))"
    if "j < length (e_entries e)" for j
    using arg_cong [OF r(5), of "\<lambda>l. l ! j"] that len i by (auto simp: nth_list_update)
  have em: "empty_at e1 j = empty_at e j" if "j \<noteq> i" for j
  proof (rule ring_of_entry_tag)
    show "map ie_ring (e_entries e1) ! j = map ie_ring (e_entries e) ! j" using r(5) that by simp
    show "map_option queue_tag (e_rings e1 x) = map_option queue_tag (e_rings e x)"
      if jx: "j < length (e_entries e)" "ie_ring (e_entries e ! j) = Some x" for x
    proof (rule r(7), intro impI notI)
      assume "ie_ring (e_entries e ! i) = Some x"
      then have "map ie_ring (e_entries e) ! i = Some x" "map ie_ring (e_entries e) ! j = Some x" using jx i by simp_all
      with Cons.prems(3) i jx(1) \<open>j \<noteq> i\<close> show False unfolding indexed_def by blast
    qed
  qed (rule len)
  have "\<forall>j \<in> set is. j < length (e_entries e1)" "distinct is" "i \<notin> set is" using Cons.prems(4,5) len by simp_all
  note IH = Cons.IH [OF e1(2) r(1,2) this(2,1)] and ni = this(3)
  have "(\<exists>j \<in> set is. empty_at e1 j) \<longleftrightarrow> (\<exists>j \<in> set is. empty_at e j)" using em ni by metis
  moreover have "ie_ring (e_entries e' ! j) = (if j \<in> set (i # is) \<and> empty_at e j then None else ie_ring (e_entries e ! j))"
    if "j < length (e_entries e)" for j
    using IH ent [OF that] em [of j] ni that len by (cases "j = i") auto
  ultimately show ?case using IH r(3,4,6,8) len by auto
qed simp

lemma process_rings_tso_reg:
  assumes "process_rings_tso (\<lambda>_. True) srt tsn e = Some e'" and "orphaned e" and "indexed e"
  shows "orphaned e' \<and> indexed e' \<and> (e_dirty e' \<longleftrightarrow> e_dirty e \<or> (\<exists>i < length (e_entries e). empty_at e i)) \<and> e_opts e' = e_opts e
    \<and> length (e_entries e') = length (e_entries e)
    \<and> (\<forall>j < length (e_entries e). ie_ring (e_entries e' ! j) = (if empty_at e j then None else ie_ring (e_entries e ! j)))
    \<and> set (e_ring_map e') \<subseteq> set (e_ring_map e)
    \<and> (\<forall>x nm fl. fate e x nm fl \<longrightarrow> fate e' x nm fl)"
proof -
  let ?is = "[0..<length (e_entries e)]"
  obtain e1 e2 where e1: "read_rings (\<lambda>_. True) srt tsn ?is e = Some e1" "flush_tso srt tsn e1 = Some e2"
    "commit_entries ?is e2 = Some e'"
    using assms(1) by (auto simp: process_rings_tso_def Let_def bind_eq_Some_conv)
  have k: "keeps owner_tag e1 e'"
    by (rule keeps_trans [OF keeps_owner [OF flush_tso_keeps [OF e1(2)]] commit_entries_keeps [OF e1(3)]])
  note r = read_rings_reg [OF e1(1) assms(2,3)]
  have "(\<exists>i \<in> set ?is. empty_at e i) \<longleftrightarrow> (\<exists>i < length (e_entries e). empty_at e i)" by auto
  then show ?thesis
    using r k keeps_fate [OF k] keeps_orphaned [OF k] keeps_indexed [OF k] keeps_length [OF k] keeps_ie_ring [OF k]
    by (simp add: keeps_def)
qed


section \<open>One poll of an engine without users\<close>

definition ring_sort :: "ring_sorter \<Rightarrow> bool" where
  "ring_sort rsort \<longleftrightarrow> (\<forall>h es. mset (rsort h es) = mset es)"

definition timely :: "ring \<Rightarrow> bool" where
  "timely rb \<longleftrightarrow> (\<forall>r \<in> set (rb_slots rb). r_timestamp r < 2 ^ 63)"

text \<open>
  The state of the engine after all threads released their rings: the registry is consistent,
  its rings are well-formed, the ordering buffer is empty, and the index is up to date unless it
  is marked as dirty.
\<close>

definition drainable :: "'re engine \<Rightarrow> bool" where
  "drainable e \<longleftrightarrow> orphaned e \<and> (\<forall>p \<in> set (e_ring_map e). \<forall>rb. e_rings e (snd p) = Some rb \<longrightarrow> ring_ok rb \<and> timely rb)
     \<and> length (e_ring_map e) < 2 ^ 32
     \<and> tso_wf (e_tso e) \<and> tso_head (e_tso e) = 0 \<and> tso_live (e_tso e) = [] \<and> 2 \<le> unat (tso_capacity (e_tso e))
     \<and> internal_ok e \<and> eo_features (e_opts e) AND DISABLE_TSO = 0
     \<and> (\<not> e_dirty e \<longrightarrow> indexed e \<and> length (e_entries e) < 2 ^ 32
          \<and> (\<forall>i < length (e_entries e). ie_ring (e_entries e ! i) \<noteq> None \<and> ie_lastrec (e_entries e ! i) = None))"

text \<open>The records that a name still has in its ring, and what has been written of it plus what is to come.\<close>

definition pending :: "'re engine \<Rightarrow> string \<Rightarrow> log_record list" where
  "pending e nm = (case map_of (e_ring_map e) nm of None \<Rightarrow> [] | Some rid \<Rightarrow> contents (the (e_rings e rid)))"

definition conserved :: "'re engine \<Rightarrow> string \<Rightarrow> log_record list" where
  "conserved e nm = ring_out nm (e_out e) @ filter (\<lambda>r. \<not> is_special r) (pending e nm)"

definition total :: "'re engine \<Rightarrow> nat" where
  "total e = (\<Sum>rid \<in> snd ` set (e_ring_map e). length (contents (the (e_rings e rid))))"

text \<open>The engine as a poll finds it: the index rebuilt when it is dirty.\<close>

definition refreshed :: "ring_sorter \<Rightarrow> 're engine \<Rightarrow> 're engine" where
  "refreshed rsort e = (let e = bump (\<lambda>s. s\<lparr>st_loops := st_loops s + 1\<rparr>) e in if e_dirty e then rebuild_ring_index rsort e else e)"

lemma refreshed_fields [simp]:
  "e_ring_map (refreshed rsort e) = e_ring_map e" "e_rings (refreshed rsort e) = e_rings e" "e_out (refreshed rsort e) = e_out e"
  "e_tso (refreshed rsort e) = e_tso e" "e_tso_leftover (refreshed rsort e) = e_tso_leftover e"
  "e_opts (refreshed rsort e) = e_opts e" "e_area_map (refreshed rsort e) = e_area_map e" "\<not> e_dirty (refreshed rsort e)"
  by (simp_all add: refreshed_def rebuild_ring_index_def bump_def Let_def)

lemma rebuild_index:
  assumes "ring_sort rsort" and "e_dirty e"
  shows "mset (map ie_ring (e_entries (refreshed rsort e))) = mset (map (Some \<circ> snd) (e_ring_map e))"
    and "\<forall>x \<in> set (e_entries (refreshed rsort e)). ie_lastrec x = None"
proof -
  define mk where "mk = (\<lambda>(_ :: string, rid). \<lparr>ie_ring = Some rid,
    ie_pit = (case e_rings e rid of Some rb \<Rightarrow> it_reset rb | None \<Rightarrow> it_invalid), ie_lastrec = None,
    ie_seqnum = (case find_entry (e_entries e) rid of Some x \<Rightarrow> ie_seqnum x | None \<Rightarrow> 0)\<rparr>)"
  have eq: "e_entries (refreshed rsort e) = rsort (e_rings e) (map mk (e_ring_map e))"
    using assms(2) by (simp add: refreshed_def rebuild_ring_index_def bump_def Let_def mk_def)
  then have m: "mset (e_entries (refreshed rsort e)) = mset (map mk (e_ring_map e))"
    using assms(1) by (simp add: ring_sort_def)
  have "ie_ring \<circ> mk = Some \<circ> snd" by (auto simp: fun_eq_iff mk_def)
  then show "mset (map ie_ring (e_entries (refreshed rsort e))) = mset (map (Some \<circ> snd) (e_ring_map e))"
    using m by (metis mset_map map_map)
  have "set (e_entries (refreshed rsort e)) = set (map mk (e_ring_map e))" using m by (metis set_mset_mset)
  then show "\<forall>x \<in> set (e_entries (refreshed rsort e)). ie_lastrec x = None" by (auto simp: mk_def)
qed

lemma distinct_indexed:
  assumes "mset (map ie_ring (e_entries e)) = mset (map (Some \<circ> snd) (e_ring_map e))" and "distinct (map snd (e_ring_map e))"
  shows "indexed e" and "length (e_entries e) = length (e_ring_map e)" and "\<forall>i < length (e_entries e). ie_ring (e_entries e ! i) \<noteq> None"
proof -
  let ?l = "map ie_ring (e_entries e)"
  have st: "set ?l = Some ` snd ` set (e_ring_map e)" using assms(1) by (metis set_mset_mset set_map image_comp)
  have "distinct (map (Some \<circ> snd) (e_ring_map e))"
    using assms(2) by (simp add: distinct_map inj_on_def)
  then have d: "distinct ?l" using assms(1) mset_eq_imp_distinct_iff by blast
  show "length (e_entries e) = length (e_ring_map e)" using mset_eq_length [OF assms(1)] by simp
  show "\<forall>i < length (e_entries e). ie_ring (e_entries e ! i) \<noteq> None" using st by (force simp: image_iff in_set_conv_nth)
  show "indexed e" unfolding indexed_def
  proof (intro conjI allI impI)
    show "rid \<in> snd ` set (e_ring_map e) \<longleftrightarrow> Some rid \<in> set ?l" for rid unfolding st by auto
    show "i = j" if "i < length (e_entries e)" "j < length (e_entries e)" "?l ! i = Some rid" "?l ! j = Some rid" for i j rid
      using that d nth_eq_iff_index_eq [of ?l i j] by simp
  qed
qed

lemma drainable_refreshed:
  assumes "ring_sort rsort" and "drainable e"
  defines "e1 \<equiv> refreshed rsort e"
  shows "orphaned e1" and "indexed e1" and "length (e_entries e1) < 2 ^ 32"
    and "\<forall>i < length (e_entries e1). ie_ring (e_entries e1 ! i) \<noteq> None \<and> ie_lastrec (e_entries e1 ! i) = None"
proof -
  have d: "distinct (map snd (e_ring_map e))" using assms(2) by (simp add: drainable_def orphaned_def)
  show "orphaned e1" using assms(2) by (simp add: e1_def drainable_def orphaned_def)
  have "indexed e1 \<and> length (e_entries e1) < 2 ^ 32
    \<and> (\<forall>i < length (e_entries e1). ie_ring (e_entries e1 ! i) \<noteq> None \<and> ie_lastrec (e_entries e1 ! i) = None)"
  proof (cases "e_dirty e")
    case True
    note r = rebuild_index [OF assms(1) True, folded e1_def]
    have m: "mset (map ie_ring (e_entries e1)) = mset (map (Some \<circ> snd) (e_ring_map e1))" using r(1) by (simp add: e1_def)
    have d1: "distinct (map snd (e_ring_map e1))" using d by (simp add: e1_def)
    have "length (e_ring_map e1) < 2 ^ 32" using assms(2) by (simp add: e1_def drainable_def)
    with distinct_indexed [OF m d1] r(2) show ?thesis by simp
  next
    case False
    then have "e_entries e1 = e_entries e" "e_ring_map e1 = e_ring_map e" by (simp_all add: e1_def refreshed_def bump_def)
    with False assms(2) show ?thesis by (simp add: drainable_def indexed_def)
  qed
  then show "indexed e1" "length (e_entries e1) < 2 ^ 32"
    "\<forall>i < length (e_entries e1). ie_ring (e_entries e1 ! i) \<noteq> None \<and> ie_lastrec (e_entries e1 ! i) = None" by blast+
qed


lemma index_entry_of:
  assumes "orphaned e" and "indexed e" and "(nm, rid) \<in> set (e_ring_map e)"
  obtains i rb where "i < length (e_entries e)" "ring_of_entry e i = Some (rid, rb)" "rb_name rb = nm"
proof -
  have "Some rid \<in> set (map ie_ring (e_entries e))" using assms(2,3) unfolding indexed_def by force
  then obtain i where i: "i < length (e_entries e)" "ie_ring (e_entries e ! i) = Some rid"
    by (auto simp: in_set_conv_nth)
  obtain rb where rb: "e_rings e rid = Some rb" "rb_name rb = nm"
    using assms(1,3) by (fastforce simp: orphaned_def owner_tag_def)
  show thesis by (rule that [OF i(1) _ rb(2)]) (use i rb in \<open>simp add: ring_of_entry_Some\<close>)
qed

lemma entry_in_registry:
  assumes "orphaned e" and "indexed e" and "ring_of_entry e i = Some (rid, rb)"
  shows "(rb_name rb, rid) \<in> set (e_ring_map e)" and "rb_refcnt rb = 1"
proof -
  have i: "i < length (e_entries e)" "ie_ring (e_entries e ! i) = Some rid" using assms(3) by (simp_all add: ring_of_entry_Some)
  obtain rb' where rb': "ring_of_entry e i = Some (rid, rb')" "rb_refcnt rb' = 1" "(rb_name rb', rid) \<in> set (e_ring_map e)"
    using orphaned_ring [OF assms(1,2) i] .
  then have "rb' = rb" using assms(3) by simp
  with rb' show "(rb_name rb, rid) \<in> set (e_ring_map e)" "rb_refcnt rb = 1" by simp_all
qed

lemma entries_distinct:
  assumes "orphaned e" and "indexed e" and "i \<noteq> j" and "ring_of_entry e i = Some (rid, rb)" and "ring_of_entry e j = Some (rid', rb')"
  shows "rid \<noteq> rid'" and "rb_name rb \<noteq> rb_name rb'"
proof -
  have "map ie_ring (e_entries e) ! i = Some rid" "map ie_ring (e_entries e) ! j = Some rid'"
    "i < length (e_entries e)" "j < length (e_entries e)"
    using assms(4,5) by (simp_all add: ring_of_entry_Some)
  then show ne: "rid \<noteq> rid'" using assms(2,3) unfolding indexed_def by metis
  have "distinct (map fst (e_ring_map e))" using assms(1) by (simp add: orphaned_def)
  then show "rb_name rb \<noteq> rb_name rb'"
    using ne entry_in_registry(1) [OF assms(1,2,4)] entry_in_registry(1) [OF assms(1,2,5)]
      eq_key_imp_eq_value [of "e_ring_map e" "rb_name rb" rid rid'] by auto
qed

lemma drainable_ready:
  assumes "ring_sort rsort" and "drainable e"
  shows "poll_ready (refreshed rsort e)"
proof -
  let ?e = "refreshed rsort e"
  note d = drainable_refreshed [OF assms]
  have "entry_ok ?e i" if i: "i < length (e_entries ?e)" for i
  proof -
    have "\<exists>rb. e_rings ?e rid = Some rb \<and> ring_ok rb \<and> timely rb" if r: "ie_ring (e_entries ?e ! i) = Some rid" for rid
    proof -
      obtain rb where rb: "ring_of_entry ?e i = Some (rid, rb)" "(rb_name rb, rid) \<in> set (e_ring_map ?e)"
        using orphaned_ring [OF d(1,2) i r] .
      then have "e_rings e rid = Some rb" "(rb_name rb, rid) \<in> set (e_ring_map e)" by (simp_all add: ring_of_entry_Some)
      with assms(2) show ?thesis by (force simp: drainable_def)
    qed
    then show ?thesis using d(4) i by (simp add: entry_ok_def timely_def)
  qed
  moreover have "internal_ok ?e" using assms(2) by (simp add: drainable_def internal_ok_def internal_area_def)
  moreover have "tso_wf (e_tso ?e) \<and> tso_head (e_tso ?e) = 0 \<and> tso_live (e_tso ?e) = [] \<and> 2 \<le> unat (tso_capacity (e_tso ?e))"
    using assms(2) by (simp add: drainable_def)
  ultimately show ?thesis
    using d(3) entries_distinct [OF d(1,2)] unfolding poll_ready_def by blast
qed

lemma backlog_total:
  assumes "orphaned e" and "indexed e"
  shows "backlog e = total e"
proof -
  let ?I = "{i. i < length (e_entries e) \<and> ie_ring (e_entries e ! i) \<noteq> None}"
  let ?f = "\<lambda>i. the (ie_ring (e_entries e ! i))"
  have len: "length (entry_span e i) = length (contents (the (e_rings e (?f i))))" if "i \<in> ?I" for i
  proof -
    from that obtain rid where i: "i < length (e_entries e)" "ie_ring (e_entries e ! i) = Some rid" by auto
    obtain rb where r: "ring_of_entry e i = Some (rid, rb)" using orphaned_ring [OF assms i] .
    then have "e_rings e rid = Some rb" by (simp add: ring_of_entry_Some)
    with r i show ?thesis by (simp add: entry_span_def contents_def)
  qed
  have "backlog e = (\<Sum>i \<in> ?I. length (entry_span e i))"
    unfolding backlog_def by (rule sum.mono_neutral_right) (auto simp: entry_span_def ring_of_entry_def)
  also have "\<dots> = (\<Sum>i \<in> ?I. length (contents (the (e_rings e (?f i)))))" by (rule sum.cong [OF refl len])
  also have "\<dots> = (\<Sum>rid \<in> ?f ` ?I. length (contents (the (e_rings e rid))))"
  proof (rule sum.reindex_cong [symmetric, where l = ?f])
    show "inj_on ?f ?I"
    proof (rule inj_onI)
      fix i j assume a: "i \<in> ?I" "j \<in> ?I" "?f i = ?f j"
      then have "map ie_ring (e_entries e) ! i = Some (?f i)" "map ie_ring (e_entries e) ! j = Some (?f i)"
        "i < length (e_entries e)" "j < length (e_entries e)" by auto
      then show "i = j" using assms(2) unfolding indexed_def by blast
    qed
  qed simp_all
  also have "?f ` ?I = snd ` set (e_ring_map e)"
  proof -
    have "x \<in> ?f ` ?I \<longleftrightarrow> Some x \<in> set (map ie_ring (e_entries e))" for x
    proof -
      have "x \<in> ?f ` ?I \<longleftrightarrow> (\<exists>i < length (e_entries e). ie_ring (e_entries e ! i) = Some x)"
        by (auto intro: rev_image_eqI)
      also have "\<dots> \<longleftrightarrow> Some x \<in> set (map ie_ring (e_entries e))"
        unfolding in_set_conv_nth by (simp cong: conj_cong)
      finally show ?thesis .
    qed
    moreover have "x \<in> snd ` set (e_ring_map e) \<longleftrightarrow> Some x \<in> set (map ie_ring (e_entries e))" for x
      using assms(2) by (simp only: indexed_def)
    ultimately show ?thesis by (intro set_eqI) (simp only:)
  qed
  finally show ?thesis by (simp add: total_def)
qed

lemma pending_entry:
  assumes "orphaned e" and "indexed e" and "ring_of_entry e i = Some (rid, rb)"
  shows "pending e (rb_name rb) = contents rb"
proof -
  have "map_of (e_ring_map e) (rb_name rb) = Some rid"
    using assms(1) entry_in_registry(1) [OF assms] by (simp add: orphaned_def)
  then show ?thesis using assms(3) by (simp add: pending_def ring_of_entry_Some)
qed

lemma pending_none:
  assumes "orphaned e" and "indexed e" and "\<And>i rid rb. ring_of_entry e i = Some (rid, rb) \<Longrightarrow> rb_name rb \<noteq> nm"
  shows "pending e nm = []"
proof (cases "map_of (e_ring_map e) nm")
  case (Some rid)
  then show ?thesis using index_entry_of [OF assms(1,2) map_of_SomeD [OF Some]] assms(3) by metis
qed (simp add: pending_def)

text \<open>What a poll does to each indexed ring, as it is known of \<open>process_rings_tso\<close>.\<close>

definition polled :: "'re engine \<Rightarrow> 're engine \<Rightarrow> (nat \<Rightarrow> nat) \<Rightarrow> bool" where
  "polled e e' F \<longleftrightarrow> length (e_entries e') = length (e_entries e)
     \<and> (\<forall>i < length (e_entries e). entry_polled e e' i (F i) \<and> F i \<le> length (entry_span e i)
          \<and> (ring_of_entry e i = None \<longrightarrow> ring_of_entry e' i = None))
     \<and> (\<forall>nm. (\<forall>i rid rb. ring_of_entry e i = Some (rid, rb) \<longrightarrow> rb_name rb \<noteq> nm) \<longrightarrow> ring_out nm (e_out e') = ring_out nm (e_out e))"

lemma polled_orig:
  assumes "polled e e' F" and "ring_of_entry e' j = Some (x, y)"
  obtains y0 where "ring_of_entry e j = Some (x, y0)" "ring_after y0 (F j) y"
proof -
  have "j < length (e_entries e)" using ring_of_entry_less [OF assms(2)] assms(1) by (simp add: polled_def)
  then have "\<exists>y0. ring_of_entry e j = Some (x, y0) \<and> ring_after y0 (F j) y"
    using assms(1) by (intro entry_polled_orig [OF _ _ assms(2)]) (simp_all add: polled_def)
  then show thesis using that by blast
qed

lemma polled_pending:
  assumes "orphaned e" and "indexed e" and "orphaned e'" and "indexed e'" and "polled e e' F"
    and "ring_of_entry e i = Some (rid, rb)"
  shows "pending e' (rb_name rb) = drop (F i) (contents rb)"
proof -
  have "entry_polled e e' i (F i)" using assms(5) ring_of_entry_less [OF assms(6)] by (simp add: polled_def)
  then have "(\<exists>rb'. ring_of_entry e' i = Some (rid, rb') \<and> ring_after rb (F i) rb') \<or> contents rb = [] \<and> ring_of_entry e' i = None"
    using assms(6) unfolding entry_polled_def by blast
  then show ?thesis
  proof (elim disjE exE conjE)
    fix rb' assume r: "ring_of_entry e' i = Some (rid, rb')" "ring_after rb (F i) rb'"
    from pending_entry [OF assms(3,4) r(1)] r(2) show ?thesis by (simp add: ring_after_def)
  next
    assume none: "contents rb = []" "ring_of_entry e' i = None"
    have "rb_name y \<noteq> rb_name rb" if y: "ring_of_entry e' j = Some (x, y)" for j x y
    proof -
      obtain y0 where y0: "ring_of_entry e j = Some (x, y0)" "ring_after y0 (F j) y" using polled_orig [OF assms(5) y] .
      have "j \<noteq> i" using y none(2) by auto
      from entries_distinct(2) [OF assms(1,2) this y0(1) assms(6)] y0(2) show ?thesis by (simp add: ring_after_def)
    qed
    then show ?thesis using pending_none [OF assms(3,4)] none(1) by simp
  qed
qed

lemma polled_conserved:
  assumes "orphaned e" and "indexed e" and "orphaned e'" and "indexed e'" and "polled e e' F"
  shows "conserved e' nm = conserved e nm"
proof (cases "\<exists>i rid rb. ring_of_entry e i = Some (rid, rb) \<and> rb_name rb = nm")
  case True
  then obtain i rid rb where i: "ring_of_entry e i = Some (rid, rb)" "rb_name rb = nm" by blast
  have "ring_out nm (e_out e') = ring_out nm (e_out e) @ filter (\<lambda>r. \<not> is_special r) (take (F i) (contents rb))"
    using assms(5) ring_of_entry_less [OF i(1)] i unfolding polled_def entry_polled_def by blast
  then show ?thesis
    using polled_pending [OF assms i(1)] pending_entry [OF assms(1,2) i(1)] i(2)
    unfolding conserved_def by (simp flip: filter_append)
next
  case False
  then have n: "rb_name rb \<noteq> nm" if "ring_of_entry e i = Some (rid, rb)" for i rid rb using that by blast
  have "rb_name y \<noteq> nm" if y: "ring_of_entry e' j = Some (x, y)" for j x y
  proof -
    obtain y0 where y0: "ring_of_entry e j = Some (x, y0)" "ring_after y0 (F j) y" using polled_orig [OF assms(5) y] .
    with n [OF y0(1)] show ?thesis by (simp add: ring_after_def)
  qed
  then have "pending e' nm = []" by (rule pending_none [OF assms(3,4)])
  moreover have "pending e nm = []" by (rule pending_none [OF assms(1,2) n])
  moreover have "ring_out nm (e_out e') = ring_out nm (e_out e)" using assms(5) n unfolding polled_def by blast
  ultimately show ?thesis by (simp add: conserved_def)
qed

lemma polled_total:
  assumes "orphaned e'" and "indexed e'" and "polled e e' F"
  shows "total e' = (\<Sum>i < length (e_entries e). length (entry_span e i) - F i)"
  unfolding backlog_total [OF assms(1,2), symmetric] backlog_def using assms(3)
  by (intro sum.cong) (simp_all add: polled_def entry_polled_span)

lemma ready_drainable:
  assumes "poll_ready e" and "orphaned e" and "indexed e" and "eo_features (e_opts e) AND DISABLE_TSO = 0"
    and "length (e_ring_map e) < 2 ^ 32" and "\<not> e_dirty e \<Longrightarrow> \<forall>i < length (e_entries e). ie_ring (e_entries e ! i) \<noteq> None"
  shows "drainable e"
proof -
  have "ring_ok rb \<and> timely rb" if p: "(nm, rid) \<in> set (e_ring_map e)" "e_rings e rid = Some rb" for nm rid rb
  proof -
    obtain i rb' where i: "i < length (e_entries e)" "ring_of_entry e i = Some (rid, rb')" using index_entry_of [OF assms(2,3) p(1)] .
    have "entry_ok e i" using assms(1) i(1) by (simp add: poll_ready_def)
    with i(2) p(2) show ?thesis by (auto simp: entry_ok_def timely_def ring_of_entry_Some)
  qed
  moreover have "\<forall>i < length (e_entries e). ie_lastrec (e_entries e ! i) = None"
    using assms(1) by (simp add: poll_ready_def entry_ok_def)
  ultimately show ?thesis
    using assms unfolding drainable_def by (auto simp: poll_ready_def)
qed


text \<open>One poll: nothing is lost or written twice, and what is left fits the ordering buffer.\<close>

lemma drain_poll:
  assumes "std_sort srt" and "ring_sort rsort" and "drainable e"
  obtains e1 e2 F where "e1 = refreshed rsort e" "process_rings_tso (\<lambda>_. True) srt tsn e1 = Some e2" "poll_ready e2" "polled e1 e2 F"
    "tso_capacity (e_tso e2) = tso_capacity (e_tso e)"
    "unat (e_tso_leftover e2) = (\<Sum>i < length (e_entries e1). length (entry_span e1 i) - F i)"
    "unat (e_tso_leftover e2) \<le> unat (tso_capacity (e_tso e)) div 8"
    "small e1 \<longrightarrow> backlog e1 \<le> unat (e_tso_leftover e) \<longrightarrow> e_tso_leftover e2 = 0"
proof -
  let ?e = "refreshed rsort e"
  from std_sort.process_rings_tso_base [OF assms(1) drainable_ready [OF assms(2,3)], of "\<lambda>_. True" tsn]
  obtain e2 F where "process_rings_tso (\<lambda>_. True) srt tsn ?e = Some e2" "poll_ready e2" "polled ?e e2 F"
    "tso_capacity (e_tso e2) = tso_capacity (e_tso ?e)"
    "unat (e_tso_leftover e2) = (\<Sum>i < length (e_entries ?e). length (entry_span ?e i) - F i)"
    "unat (e_tso_leftover e2) \<le> unat (tso_capacity (e_tso ?e)) div 8"
    "small ?e \<longrightarrow> backlog ?e \<le> unat (e_tso_leftover ?e) \<longrightarrow> e_tso_leftover e2 = 0"
    unfolding polled_def by blast
  then show thesis by (intro that [OF refl]) simp_all
qed

lemma drainable_emit [simp]: "drainable (emit OutFlush e) = drainable e"
  by (simp add: drainable_def emit_def orphaned_def indexed_def internal_ok_def internal_area_def)

lemma measures_emit [simp]:
  "total (emit OutFlush e) = total e" "conserved (emit OutFlush e) nm = conserved e nm" "fate (emit OutFlush e) x nm fl = fate e x nm fl"
  by (simp_all add: fate_def total_def conserved_def pending_def emit_def split: option.split)

lemma emit_fields [simp]:
  "e_ring_map (emit ev e) = e_ring_map e" "e_entries (emit ev e) = e_entries e" "e_dirty (emit ev e) = e_dirty e"
  "e_tso (emit ev e) = e_tso e" "e_tso_leftover (emit ev e) = e_tso_leftover e"
  by (simp_all add: emit_def)

lemma refreshed_measures [simp]:
  "total (refreshed rsort e) = total e" "conserved (refreshed rsort e) nm = conserved e nm"
  by (simp_all add: total_def conserved_def pending_def split: option.split)

lemma process_rings_refreshed:
  assumes "eo_features (e_opts e) AND DISABLE_TSO = 0" and "process_rings_tso tlock srt tsn (refreshed rsort e) = Some e'"
  shows "process_rings rsort True tlock srt tsn e = Some (emit OutFlush e')"
proof -
  have "e_opts (bump g x) = e_opts x" "e_opts (rebuild_ring_index rsort x) = e_opts x" for g and x :: "'a engine"
    by (simp_all add: bump_def rebuild_ring_index_def Let_def)
  then show ?thesis
    using assms by (simp add: process_rings_def refreshed_def Let_def split: if_splits)
qed

lemma total_zero:
  assumes "total e = 0" and "rid \<in> snd ` set (e_ring_map e)"
  shows "contents (the (e_rings e rid)) = []"
  using assms by (auto simp: total_def sum_eq_0_iff)

lemma nothing_left:
  assumes "orphaned e" and "indexed e" and "\<forall>i < length (e_entries e). ie_ring (e_entries e ! i) = None"
  shows "e_ring_map e = []"
proof (rule ccontr)
  assume "e_ring_map e \<noteq> []"
  then obtain nm rid where p: "(nm, rid) \<in> set (e_ring_map e)" by (cases "e_ring_map e") auto
  obtain i rb where "i < length (e_entries e)" "ring_of_entry e i = Some (rid, rb)"
    using index_entry_of [OF assms(1,2) p] .
  then show False using assms(3) by (simp add: ring_of_entry_Some)
qed

lemma distinct_subset_length: "distinct xs \<Longrightarrow> set xs \<subseteq> set ys \<Longrightarrow> length xs \<le> length ys"
  by (metis List.finite_set card_length card_mono distinct_card le_trans)

text \<open>With nothing pending every indexed ring is empty; without registered rings there are no entries.\<close>

lemma empty_entries:
  assumes "orphaned e" and "indexed e" and "poll_ready e" and i: "i < length (e_entries e)"
    and "ie_ring (e_entries e ! i) \<noteq> None" and "total e = 0"
  shows "empty_at e i"
proof -
  obtain rid where rid: "ie_ring (e_entries e ! i) = Some rid" using assms(5) by auto
  obtain rb where rb: "ring_of_entry e i = Some (rid, rb)" "(rb_name rb, rid) \<in> set (e_ring_map e)"
    using orphaned_ring [OF assms(1,2) i rid] .
  have "contents (the (e_rings e rid)) = []"
    by (rule total_zero) (use assms(6) rb(2) in force)+
  then have "contents rb = []" using rb(1) by (simp add: ring_of_entry_Some)
  moreover have "ring_wf rb" using rb(1) assms(3) ring_of_entry_ready ring_ok_wf by blast
  ultimately show ?thesis using rb(1) by (auto simp: empty_at_def ring_empty_iff)
qed

lemma no_entries:
  assumes "orphaned e" and "indexed e" and "\<forall>i < length (e_entries e). ie_ring (e_entries e ! i) \<noteq> None" and "e_ring_map e = []"
  shows "e_entries e = []"
proof (rule ccontr)
  assume "e_entries e \<noteq> []"
  then obtain rid where "ie_ring (e_entries e ! 0) = Some rid" "0 < length (e_entries e)" using assms(3) by auto
  then show False using orphaned_ring [OF assms(1,2)] assms(4) by (metis empty_iff list.set(1))
qed

lemma drain_step:
  assumes "std_sort srt" and "ring_sort rsort" and "drainable e"
  defines "cap \<equiv> unat (tso_capacity (e_tso e))"
  shows "\<exists>e'. process_rings rsort True (\<lambda>_. True) srt tsn e = Some e' \<and> drainable e'
    \<and> (\<forall>nm. conserved e' nm = conserved e nm)
    \<and> total e' = unat (e_tso_leftover e') \<and> total e' \<le> cap div 8 \<and> unat (tso_capacity (e_tso e')) = cap
    \<and> (total e < cap \<longrightarrow> total e \<le> unat (e_tso_leftover e) \<longrightarrow> total e' = 0)
    \<and> (total e = 0 \<longrightarrow> e_ring_map e' = [])
    \<and> (e_ring_map e = [] \<longrightarrow> e_entries e' = [] \<and> \<not> e_dirty e')
    \<and> (\<forall>x nm fl. fate e x nm fl \<longrightarrow> fate e' x nm fl)"
proof -
  obtain e1 e2 F where e1: "e1 = refreshed rsort e" and e2: "process_rings_tso (\<lambda>_. True) srt tsn e1 = Some e2" "poll_ready e2" "polled e1 e2 F"
    "tso_capacity (e_tso e2) = tso_capacity (e_tso e)"
    "unat (e_tso_leftover e2) = (\<Sum>i < length (e_entries e1). length (entry_span e1 i) - F i)"
    "unat (e_tso_leftover e2) \<le> cap div 8" "small e1 \<longrightarrow> backlog e1 \<le> unat (e_tso_leftover e) \<longrightarrow> e_tso_leftover e2 = 0"
    unfolding cap_def by (rule drain_poll [OF assms(1-3), of tsn])
  note d = drainable_refreshed [OF assms(2,3), folded e1]
  note r = process_rings_tso_reg [OF e2(1) d(1,2)]
  have o2: "orphaned e2" "indexed e2" "e_opts e2 = e_opts e" "length (e_entries e2) = length (e_entries e1)" using r by (simp_all add: e1)
  have tot: "total e2 = unat (e_tso_leftover e2)" using polled_total [OF o2(1,2) e2(3)] e2(5) by simp
  have feat: "eo_features (e_opts e) AND DISABLE_TSO = 0" using assms(3) by (simp add: drainable_def)
  have "distinct (e_ring_map e2)" "set (e_ring_map e2) \<subseteq> set (e_ring_map e)"
    using o2(1) r by (simp_all add: orphaned_def distinct_map e1)
  then have len: "length (e_ring_map e2) \<le> length (e_ring_map e)" by (rule distinct_subset_length)
  have "drainable e2"
  proof (rule ready_drainable [OF e2(2) o2(1,2)])
    show "length (e_ring_map e2) < 2 ^ 32" using len assms(3) by (simp add: drainable_def)
    show "\<forall>i < length (e_entries e2). ie_ring (e_entries e2 ! i) \<noteq> None" if "\<not> e_dirty e2"
      using r that d(4) by simp
  qed (use o2(3) feat in simp)
  moreover have "e_ring_map e2 = []" if "total e = 0"
  proof (rule nothing_left [OF o2(1,2)], intro allI impI)
    fix i assume "i < length (e_entries e2)"
    then have i: "i < length (e_entries e1)" using o2(4) by simp
    have "empty_at e1 i"
      using empty_entries [OF d(1,2) _ i] drainable_ready [OF assms(2,3)] d(4) i that unfolding e1 by auto
    then show "ie_ring (e_entries e2 ! i) = None" using r i by simp
  qed
  moreover have "e_entries e2 = [] \<and> \<not> e_dirty e2" if "e_ring_map e = []"
    using no_entries [OF d(1,2)] d(4) that r by (simp add: e1)
  moreover have fates: "fate e2 x nm fl" if "fate e x nm fl" for x nm fl
  proof -
    have "fate e1 x nm fl" using that by (simp add: fate_def e1)
    then show ?thesis using r by blast
  qed
  moreover have "total e2 = 0" if "total e < cap" "total e \<le> unat (e_tso_leftover e)"
  proof -
    have b: "backlog e1 = total e" using backlog_total [OF d(1,2)] by (simp add: e1)
    then have "small e1" using that(1) unfolding small_backlog cap_def by (simp add: e1)
    then show ?thesis using e2(7) b that(2) tot by simp
  qed
  ultimately show ?thesis
    using process_rings_refreshed [OF feat, of "\<lambda>_. True" srt tsn rsort e2] e2(1,4,6) tot e1 cap_def
      polled_conserved [OF d(1,2) o2(1,2) e2(3)] fates
    by (intro exI [of _ "emit OutFlush e2"]) simp
qed


section \<open>Draining\<close>

lemma drained_out:
  assumes "drainable e" and "\<not> e_dirty e" and "e_entries e = []"
  shows "e_ring_map e = []"
  by (rule nothing_left) (use assms in \<open>simp_all add: drainable_def\<close>)

lemma drain_rings_step:
  assumes "process_rings rsort (fst (locks k)) (snd (locks k)) srt tsn e = Some e1"
  shows "drain_rings rsort locks env srt tsn k e =
    (if \<not> e_dirty e1 \<and> e_entries e1 = [] then Some e1 else drain_rings rsort locks env srt tsn (Suc k) (env k e1))"
  by (subst drain_rings.simps) (simp add: assms)

text \<open>All that draining keeps: the records, and the fate of the rings.\<close>

definition drains_to :: "'re engine \<Rightarrow> 're engine \<Rightarrow> bool" where
  "drains_to e e' \<longleftrightarrow> (\<forall>nm. conserved e' nm = conserved e nm) \<and> (\<forall>x nm fl. fate e x nm fl \<longrightarrow> fate e' x nm fl)"

abbreviation drain_quietly :: "ring_sorter \<Rightarrow> sorter \<Rightarrow> (u64 \<Rightarrow> string) \<Rightarrow> nat \<Rightarrow> 're engine \<Rightarrow> 're engine option" where
  "drain_quietly rsort srt tsn k e \<equiv> drain_rings rsort (\<lambda>_. (True, \<lambda>_. True)) (\<lambda>_ e. e) srt tsn k e"

text \<open>Polls in a row with the locks free and nothing happening in between.\<close>

primrec quiet_polls :: "ring_sorter \<Rightarrow> sorter \<Rightarrow> (u64 \<Rightarrow> string) \<Rightarrow> nat \<Rightarrow> 're engine \<Rightarrow> 're engine option" where
  "quiet_polls rsort srt tsn 0 e = Some e"
| "quiet_polls rsort srt tsn (Suc n) e = do { e \<leftarrow> process_rings rsort True (\<lambda>_. True) srt tsn e; quiet_polls rsort srt tsn n e }"

definition calm :: "locking \<Rightarrow> (nat \<Rightarrow> 're engine \<Rightarrow> 're engine) \<Rightarrow> nat \<Rightarrow> nat \<Rightarrow> bool" where
  "calm locks env k n \<longleftrightarrow> (\<forall>j. k \<le> j \<and> j < k + n \<longrightarrow> locks j = (True, \<lambda>_. True) \<and> env j = id)"

text \<open>Draining that ends with poll \<open>n\<close> or before.\<close>

definition drains_within :: "nat \<Rightarrow> ring_sorter \<Rightarrow> locking \<Rightarrow> (nat \<Rightarrow> 're engine \<Rightarrow> 're engine) \<Rightarrow> sorter \<Rightarrow> (u64 \<Rightarrow> string)
    \<Rightarrow> nat \<Rightarrow> 're engine \<Rightarrow> bool" where
  "drains_within m rsort locks env srt tsn k e \<longleftrightarrow> (\<exists>n e'. 0 < n \<and> n \<le> m \<and> quiet_polls rsort srt tsn n e = Some e'
     \<and> drain_rings rsort locks env srt tsn k e = Some e' \<and> e_ring_map e' = [] \<and> drains_to e e')"

text \<open>The registry is empty: one more poll.\<close>

lemma drain_last:
  assumes "std_sort srt" and "ring_sort rsort" and "drainable e" and "e_ring_map e = []" and "locks k = (True, \<lambda>_. True)"
  shows "drains_within 1 rsort locks env srt tsn k e"
proof -
  obtain e' where "process_rings rsort True (\<lambda>_. True) srt tsn e = Some e'" "drainable e'" "drains_to e e'"
    "e_entries e' = []" "\<not> e_dirty e'"
    using drain_step [OF assms(1-3), of tsn] assms(4) unfolding drains_to_def by blast
  then show ?thesis
    using drain_rings_step [of rsort locks k srt tsn e e' env] drained_out [of e'] assms(5)
    unfolding drains_within_def by (intro exI [of _ 1] exI [of _ e']) simp
qed

text \<open>A poll and then the rest.\<close>

lemma drain_more:
  assumes p: "process_rings rsort True (\<lambda>_. True) srt tsn e = Some e1" and "drainable e1" and to: "drains_to e e1"
    and q: "locks k = (True, \<lambda>_. True)" "env k = id" and rest: "drains_within m rsort locks env srt tsn (Suc k) e1"
  shows "drains_within (Suc m) rsort locks env srt tsn k e"
proof (cases "\<not> e_dirty e1 \<and> e_entries e1 = []")
  case True
  then have "drain_rings rsort locks env srt tsn k e = Some e1" "e_ring_map e1 = []"
    using drain_rings_step [of rsort locks k srt tsn e e1 env] p q drained_out [OF assms(2)] by simp_all
  then show ?thesis using p to unfolding drains_within_def by (intro exI [of _ 1] exI [of _ e1]) simp
next
  case False
  obtain n e' where n: "n \<le> m" "quiet_polls rsort srt tsn n e1 = Some e'" "drain_rings rsort locks env srt tsn (Suc k) e1 = Some e'"
    "e_ring_map e' = []" "drains_to e1 e'" using rest unfolding drains_within_def by blast
  have "drain_rings rsort locks env srt tsn k e = Some e'"
    using drain_rings_step [of rsort locks k srt tsn e e1 env] p q n(3) False by (simp del: not_not de_Morgan_conj)
  moreover have "drains_to e e'" using to n(5) by (auto simp: drains_to_def)
  ultimately show ?thesis using p n unfolding drains_within_def by (intro exI [of _ "Suc n"] exI [of _ e']) simp
qed

lemma drain_in_four:
  assumes "std_sort srt" and "ring_sort rsort" and "drainable e" and "calm locks env k 4"
  shows "drains_within 4 rsort locks env srt tsn k e"
proof -
  let ?cap = "unat (tso_capacity (e_tso e))"
  have cap: "?cap div 8 < ?cap" using assms(3) by (simp add: drainable_def)
  have q: "locks (k + j) = (True, \<lambda>_. True)" "env (k + j) = id" if "j < 4" for j using assms(4) that by (simp_all add: calm_def)
  obtain e1 where e1: "process_rings rsort True (\<lambda>_. True) srt tsn e = Some e1" "drainable e1" "drains_to e e1"
    "total e1 = unat (e_tso_leftover e1)" "total e1 \<le> ?cap div 8" "unat (tso_capacity (e_tso e1)) = ?cap"
    using drain_step [OF assms(1-3), of tsn] unfolding drains_to_def by blast
  obtain e2 where e2: "process_rings rsort True (\<lambda>_. True) srt tsn e1 = Some e2" "drainable e2" "drains_to e1 e2" "total e2 = 0"
    using drain_step [OF assms(1,2) e1(2), of tsn] e1(4-6) cap unfolding drains_to_def by auto
  obtain e3 where e3: "process_rings rsort True (\<lambda>_. True) srt tsn e2 = Some e3" "drainable e3" "drains_to e2 e3" "e_ring_map e3 = []"
    using drain_step [OF assms(1,2) e2(2), of tsn] e2(4) unfolding drains_to_def by blast
  have "drains_within 1 rsort locks env srt tsn (Suc (Suc (Suc k))) e3"
    using q [of 3] by (intro drain_last [OF assms(1,2) e3(2,4)]) (simp add: eval_nat_numeral)
  from drain_more [OF e3(1-3) _ _ this] q [of 2] have "drains_within 2 rsort locks env srt tsn (Suc (Suc k)) e2"
    by (simp add: eval_nat_numeral)
  from drain_more [OF e2(1-3) _ _ this] q [of 1] have "drains_within 3 rsort locks env srt tsn (Suc k) e1"
    by (simp add: eval_nat_numeral)
  from drain_more [OF e1(1-3) _ _ this] q [of 0] show ?thesis by (simp add: eval_nat_numeral)
qed

lemma drain_ends:
  assumes "std_sort srt" and "ring_sort rsort" and "drainable e"
  shows "\<exists>e'. drain_quietly rsort srt tsn k e = Some e' \<and> e_ring_map e' = [] \<and> drains_to e e'"
proof -
  have "calm (\<lambda>_. (True, \<lambda>_. True)) (\<lambda>_ e. e) k 4" by (simp add: calm_def id_def)
  from drain_in_four [OF assms this, of tsn] show ?thesis unfolding drains_within_def by blast
qed

text \<open>
  C4: the end of the engine thread. Timestamp ordering is on, the engine is ready for a poll, no thread holds
  a ring any more, and during the next four polls the locks are free and no other thread changes the
  engine. Then draining ends with one of these four polls, whatever the rings contain and however
  many there are (what other threads do later plays no part): its result is that of at most four
  polls in a row, no ring is registered any more, and the output has got the regular records of
  every ring, each once and in the order of the ring.
\<close>

theorem drain_delivers_all:
  assumes "std_sort srt" and "ring_sort rsort" and "drainable e"
    and "\<forall>j. k \<le> j \<and> j < k + 4 \<longrightarrow> locks j = (True, \<lambda>_. True) \<and> env j = id"
  shows "\<exists>n e'. 0 < n \<and> n \<le> 4 \<and> quiet_polls rsort srt tsn n e = Some e' \<and> drain_rings rsort locks env srt tsn k e = Some e'
    \<and> e_ring_map e' = []
    \<and> (\<forall>nm. ring_out nm (e_out e') = ring_out nm (e_out e) @ filter (\<lambda>r. \<not> is_special r) (pending e nm))"
proof -
  have c: "calm locks env k 4" using assms(4) by (simp add: calm_def)
  obtain n e' where e': "0 < n" "n \<le> 4" "quiet_polls rsort srt tsn n e = Some e'" "drain_rings rsort locks env srt tsn k e = Some e'"
    "e_ring_map e' = []" "\<And>nm. conserved e' nm = conserved e nm"
    using drain_in_four [OF assms(1-3) c, of tsn] unfolding drains_to_def drains_within_def by blast
  have "pending e' nm = []" for nm using e'(5) by (simp add: pending_def)
  then have "ring_out nm (e_out e') = ring_out nm (e_out e) @ filter (\<lambda>r. \<not> is_special r) (pending e nm)" for nm
    using e'(6) [of nm] by (simp add: conserved_def)
  with e'(1-5) show ?thesis by blast
qed

definition demo_idle :: "unit engine" where
  "demo_idle = demo_engine\<lparr>e_rings := [10 \<mapsto> (demo_log ''A'' 2 [5, 9, 0, 0])\<lparr>rb_refcnt := 1\<rparr>,
     20 \<mapsto> (demo_log ''B'' 1 [7, 0, 0, 0])\<lparr>rb_refcnt := 1\<rparr>], e_dirty := True\<rparr>"

lemma demo_idle_drainable: "drainable demo_idle"
proof -
  have m: "e_ring_map demo_idle = [(''A'', 10), (''B'', 20)]"
    "e_rings demo_idle = [10 \<mapsto> (demo_log ''A'' 2 [5, 9, 0, 0])\<lparr>rb_refcnt := 1\<rparr>, 20 \<mapsto> (demo_log ''B'' 1 [7, 0, 0, 0])\<lparr>rb_refcnt := 1\<rparr>]"
    "e_tso demo_idle = e_tso demo_engine" "e_opts demo_idle = e_opts demo_engine" "e_dirty demo_idle" "e_area_map demo_idle = e_area_map demo_engine"
    by (simp_all add: demo_idle_def) (simp add: demo_engine_def)
  have "ring_ok (demo_log nm t ts) \<Longrightarrow> ring_ok ((demo_log nm t ts)\<lparr>rb_refcnt := 1\<rparr>)" for nm t ts
    by (simp add: ring_ok_def ring_wf_def)
  then have ok: "ring_ok ((demo_log ''A'' 2 [5, 9, 0, 0])\<lparr>rb_refcnt := 1\<rparr>)" "ring_ok ((demo_log ''B'' 1 [7, 0, 0, 0])\<lparr>rb_refcnt := 1\<rparr>)"
    by (simp_all add: demo_log_ok)
  have t: "timely ((demo_log ''A'' 2 [5, 9, 0, 0])\<lparr>rb_refcnt := 1\<rparr>)" "timely ((demo_log ''B'' 1 [7, 0, 0, 0])\<lparr>rb_refcnt := 1\<rparr>)"
    by (simp_all add: timely_def demo_log_def demo_rec_def)
  have "orphaned demo_idle" by (simp add: orphaned_def m owner_tag_def demo_log_def)
  moreover have "internal_ok demo_idle" using demo_internal by (simp add: internal_ok_def internal_area_def m)
  moreover have "eo_features (e_opts demo_engine) AND DISABLE_TSO = 0" by (simp add: demo_engine_def)
  ultimately show ?thesis
    using demo_ready ok t by (simp add: drainable_def m poll_ready_def)
qed

theorem drain_delivers_all_witness:
  "\<exists>e'. drain_rings (\<lambda>_ es. es) (\<lambda>_. (True, \<lambda>_. True)) (\<lambda>_ e. e) (sort_key te_timestamp) (\<lambda>_. ''ts'') 0 demo_idle = Some e'
    \<and> e_ring_map e' = [] \<and> ring_out ''A'' (e_out e') = [demo_rec 5, demo_rec 9]"
proof -
  have ns: "\<not> is_special (demo_rec t)" for t by (simp add: is_special_def demo_rec_def)
  have c: "contents (rb\<lparr>rb_refcnt := n\<rparr>) = contents rb" for rb :: ring and n by (simp add: contents_def)
  have "pending demo_idle ''A'' = [demo_rec 5, demo_rec 9]"
    by (simp add: pending_def demo_idle_def) (simp add: demo_engine_def c demo_contents)
  moreover have "e_out demo_idle = []" by (simp add: demo_idle_def demo_engine_def)
  moreover have "ring_sort (\<lambda>_ es. es)" by (simp add: ring_sort_def)
  ultimately show ?thesis
    using drain_delivers_all [OF isort.std_sort_axioms _ demo_idle_drainable, of "\<lambda>_ es. es" 0 "\<lambda>_. (True, \<lambda>_. True)" "\<lambda>_ e. e" "\<lambda>_. ''ts''"] ns
    by (auto simp: id_def)
qed

end
