(* ===== verification/Thread_Ring.thy ===== *)
theory Thread_Ring
  imports Engine_Loop
begin

text \<open>
  The ring of a thread (\<^verbatim>\<open>include/hogl/tls.hpp\<close>, \<^verbatim>\<open>src/tls.cc\<close>) and the default engine with its
  shared default ring (\<^verbatim>\<open>src/default-engine.cc\<close>, \<^verbatim>\<open>src/default-ringopts.cc\<close>). The thread-local pointer is
  the ring of the caller, which the operations return changed; \<open>this\<close> and \<open>addr\<close> are the addresses
  of the object and of its ring, for the messages.
\<close>

section \<open>The ring of a thread\<close>

record tls =
  tls_previous :: "nat option"
  tls_current :: "nat option"

definition tls_valid :: "tls \<Rightarrow> bool" where
  "tls_valid t \<longleftrightarrow> tls_current t \<noteq> None"

definition tls_ring :: "caller \<Rightarrow> nat" where
  "tls_ring c = c_ring c"

definition tls_update :: "u64 \<Rightarrow> u64 \<Rightarrow> nat \<Rightarrow> caller \<Rightarrow> 're engine \<Rightarrow> (tls \<times> caller \<times> 're engine) option" where
  "tls_update this addr r c e = do {
     let previous = tls_ring c;
     e \<leftarrow> hold_in previous e;
     rb \<leftarrow> e_rings e r;
     e \<leftarrow> post_tls c TLS_DEBUG [str_arg c ''created tls %p. ring %s(%p)'', arg_ptr this, str_arg c (rb_name rb), arg_ptr addr] e;
     Some (\<lparr>tls_previous = Some previous, tls_current = Some r\<rparr>, c\<lparr>c_ring := r\<rparr>, e)
   }"

definition tls_new :: "u64 \<Rightarrow> u64 \<Rightarrow> (u32 \<Rightarrow> u64 option) \<Rightarrow> u64 \<Rightarrow> nat \<Rightarrow> string \<Rightarrow> ring_options \<Rightarrow> caller \<Rightarrow> 're engine
    \<Rightarrow> (tls \<times> caller \<times> 're engine) option" where
  "tls_new this addr alloc dflt nid nm opts c e = do {
     (r, e) \<leftarrow> add_ring c alloc dflt addr nid nm opts e;
     (case r of
        None \<Rightarrow> Some (\<lparr>tls_previous = None, tls_current = None\<rparr>, c, e)
      | Some r \<Rightarrow> tls_update this addr r c e)
   }"

definition tls_new_ring :: "u64 \<Rightarrow> u64 \<Rightarrow> nat \<Rightarrow> caller \<Rightarrow> 're engine \<Rightarrow> (tls \<times> caller \<times> 're engine) option" where
  "tls_new_ring this addr r c e = tls_update this addr r c e"

definition tls_delete :: "u64 \<Rightarrow> u64 \<Rightarrow> tls \<Rightarrow> caller \<Rightarrow> 're engine \<Rightarrow> (caller \<times> 're engine) option" where
  "tls_delete this addr t c e =
     (case tls_current t of
        None \<Rightarrow> do {
          e \<leftarrow> post_tls c I_WARN [str_arg c ''destroyed tls %p null-ring'', arg_ptr this] e;
          Some (c, e)
        }
      | Some r \<Rightarrow> do {
          previous \<leftarrow> tls_previous t;
          let c = c\<lparr>c_ring := previous\<rparr>;
          e \<leftarrow> release_in previous e;
          rb \<leftarrow> e_rings e r;
          e \<leftarrow> post_tls c TLS_DEBUG [str_arg c ''destroyed tls %p ring %p (empty %u)'', arg_ptr this, arg_ptr addr,
                 arg_bool (ring_empty rb)] e;
          e \<leftarrow> release_in r e;
          Some (c, e)
        })"

section \<open>The default engine\<close>

definition default_ring_options :: ring_options where
  "default_ring_options = \<lparr>ro_capacity = 2048, ro_prio = 0, ro_flags = SHARED OR IMMORTAL, ro_record_tailroom = 80\<rparr>"

text \<open>The global state of the process: the default engine, and the rings while there is none.\<close>

record 're process =
  p_engine :: "'re engine option"
  p_rings :: "nat \<Rightarrow> ring option"

datatype activate_error = Already_initialized | Ring_not_valid

text \<open>\<open>did\<close> is the default ring; the other arguments are those of the engine's constructor.\<close>

definition activate :: "nat \<Rightarrow> caller \<Rightarrow> 're matcher \<Rightarrow> (nat \<Rightarrow> u64) \<Rightarrow> (nat \<Rightarrow> tso_entry) \<Rightarrow> tsobuf \<Rightarrow> u32 \<Rightarrow> u64
    \<Rightarrow> 're engine_options \<Rightarrow> 're process \<Rightarrow> (activate_error + 're process) option" where
  "activate did c rem junk tj old old_leftover default_timesource opts p =
     (if p_engine p \<noteq> None then Some (Inl Already_initialized)
      else do {
        rb \<leftarrow> p_rings p did;
        if \<not> ring_immortal rb \<and> \<not> ring_shared rb then Some (Inl Ring_not_valid)
        else do {
          e \<leftarrow> engine_new rem junk tj old old_leftover default_timesource (p_rings p) opts;
          e \<leftarrow> hold_in did e;
          (_, e) \<leftarrow> add_existing_ring c did e;
          Some (Inr (p\<lparr>p_engine := Some e\<rparr>))
        }
      })"

text \<open>
  Destroying the engine waits for its thread, which drains the rings. The polls made before belong
  to the engine state that is found here.
\<close>

definition deactivate :: "nat \<Rightarrow> ring_sorter \<Rightarrow> locking \<Rightarrow> (nat \<Rightarrow> 're engine \<Rightarrow> 're engine) \<Rightarrow> sorter \<Rightarrow> (u64 \<Rightarrow> string)
    \<Rightarrow> 're process \<Rightarrow> 're process option" where
  "deactivate did rsort locks env srt ts_name p =
     (case p_engine p of
        None \<Rightarrow> Some p
      | Some e \<Rightarrow> do {
          e \<leftarrow> release_in did e;
          e \<leftarrow> drain_rings rsort locks env srt ts_name 0 e;
          h \<leftarrow> engine_delete e;
          Some \<lparr>p_engine = None, p_rings = h\<rparr>
        })"

section \<open>Properties\<close>

lemma hold_in_caller:
  assumes "caller_ok c e"
  shows "\<exists>rb. e_rings e (c_ring c) = Some rb \<and> hold_in (c_ring c) e = Some (put_ring (c_ring c) (ring_hold rb) e)
    \<and> caller_ok c (put_ring (c_ring c) (ring_hold rb) e)"
proof -
  obtain rb where rb: "e_rings e (c_ring c) = Some rb" "ring_ok rb" "\<not> ring_blocking rb" using assms by (auto simp: caller_ok_def)
  then have "caller_ok c (put_ring (c_ring c) (ring_hold rb) e)"
    using assms by (simp add: caller_ok_def put_ring_def ring_hold_def ring_ok_def ring_wf_def ring_blocking_def
        internal_ok_def internal_area_def)
  with rb(1) show ?thesis by (simp add: hold_in_def)
qed

lemma release_in_held:
  assumes "e_rings e rid = Some rb" and "2 \<le> rb_refcnt rb"
  shows "release_in rid e = Some (put_ring rid (rb\<lparr>rb_refcnt := rb_refcnt rb - 1\<rparr>) e)"
  using assms by (simp add: release_in_def release_ring_def ring_release_def Let_def put_ring_def)

text \<open>Creating a thread ring under a free name.\<close>

lemma tls_new_spec:
  assumes "reg_wf e" and "e_rings e nid = None" and "ringbuf_new alloc dflt nm opts = Some nr" and "caller_ok c e"
    and "map_of (e_ring_map e) nm = None" and "e_rings e (c_ring c) = Some rb"
  shows "\<exists>e1. tls_new this addr alloc dflt nid nm opts c e =
      Some (\<lparr>tls_previous = Some (c_ring c), tls_current = Some nid\<rparr>, c\<lparr>c_ring := nid\<rparr>, e1)
    \<and> reg_wf e1 \<and> map_of (e_ring_map e1) = (map_of (e_ring_map e))(nm \<mapsto> nid)
    \<and> (\<exists>r. e_rings e1 nid = Some r \<and> rb_name r = nm \<and> rb_refcnt r = 2)
    \<and> (\<exists>r. e_rings e1 (c_ring c) = Some r \<and> rb_name r = rb_name rb \<and> rb_refcnt r = rb_refcnt rb + 1)
    \<and> caller_ok c e1"
proof -
  obtain ea ra where ea: "add_ring c alloc dflt addr nid nm opts e = Some (Some nid, ea)" "reg_wf ea"
    "map_of (e_ring_map ea) = (map_of (e_ring_map e))(nm \<mapsto> nid)" "e_rings ea nid = Some ra" "rb_name ra = nm" "rb_refcnt ra = 2"
    "caller_ok c ea" "\<And>x. x \<noteq> nid \<Longrightarrow> map_option ring_tag (e_rings ea x) = map_option ring_tag (e_rings e x)"
    using add_ring_new [OF assms(1-5), of addr] by blast
  have ne: "c_ring c \<noteq> nid" using assms(2,6) by auto
  obtain rc where rc: "e_rings ea (c_ring c) = Some rc" "hold_in (c_ring c) ea = Some (put_ring (c_ring c) (ring_hold rc) ea)"
    "caller_ok c (put_ring (c_ring c) (ring_hold rc) ea)" using hold_in_caller [OF ea(7)] by blast
  have tag: "ring_tag rc = ring_tag rb" using ea(8) [OF ne] rc(1) assms(6) by simp
  let ?eb = "put_ring (c_ring c) (ring_hold rc) ea"
  let ?as = "[str_arg c ''created tls %p. ring %s(%p)'', arg_ptr this, str_arg c nm, arg_ptr addr]"
  have "valid_args ?as" by (auto simp: valid_args_def arg_ptr_def)
  then obtain e1 where e1: "post_tls c TLS_DEBUG ?as ?eb = Some e1"
    "\<And>x. map_option ring_tag (e_rings e1 x) = map_option ring_tag (e_rings ?eb x)" "e_ring_map e1 = e_ring_map ?eb" "caller_ok c e1"
    using post_tls_keeps [OF rc(3)] by blast
  have "tls_new this addr alloc dflt nid nm opts c e
      = Some (\<lparr>tls_previous = Some (c_ring c), tls_current = Some nid\<rparr>, c\<lparr>c_ring := nid\<rparr>, e1)"
    using ea(1,4,5) rc(2) e1(1) ne by (simp add: tls_new_def tls_update_def tls_ring_def put_ring_def)
  moreover have "reg_wf ?eb"
    using ea(2) rc(1) by (auto simp: reg_wf_def reg_ok_def put_ring_def ring_hold_def)
  then have "reg_wf e1" by (rule reg_wf_tags) (use e1 in simp_all)
  moreover have "\<exists>r. e_rings e1 nid = Some r \<and> rb_name r = nm \<and> rb_refcnt r = 2"
    using e1(2) [of nid] ne ea(4-6) by (cases "e_rings e1 nid") (auto simp: put_ring_def ring_tag_def)
  moreover have "\<exists>r. e_rings e1 (c_ring c) = Some r \<and> rb_name r = rb_name rb \<and> rb_refcnt r = rb_refcnt rb + 1"
    using e1(2) [of "c_ring c"] tag by (cases "e_rings e1 (c_ring c)") (auto simp: put_ring_def ring_tag_def ring_hold_def)
  ultimately show ?thesis using e1(3,4) ea(3) by (simp add: put_ring_def)
qed

text \<open>Destroying it, in any state in which its two rings are still held.\<close>

lemma tls_delete_spec:
  assumes "e_rings e prev = Some rp" and "2 \<le> rb_refcnt rp" and "ring_ok rp" and "\<not> ring_blocking rp"
    and "e_rings e cur = Some rc" and "2 \<le> rb_refcnt rc" and "prev \<noteq> cur" and "ap_wf (c_junk c)" and "internal_ok e"
  shows "\<exists>e'. tls_delete this addr \<lparr>tls_previous = Some prev, tls_current = Some cur\<rparr> c e = Some (c\<lparr>c_ring := prev\<rparr>, e')
    \<and> e_ring_map e' = e_ring_map e
    \<and> (\<exists>r. e_rings e' prev = Some r \<and> rb_refcnt r = rb_refcnt rp - 1)
    \<and> (\<exists>r. e_rings e' cur = Some r \<and> rb_name r = rb_name rc \<and> rb_refcnt r = rb_refcnt rc - 1)"
proof -
  let ?c = "c\<lparr>c_ring := prev\<rparr>"
  let ?ea = "put_ring prev (rp\<lparr>rb_refcnt := rb_refcnt rp - 1\<rparr>) e"
  let ?as = "[str_arg ?c ''destroyed tls %p ring %p (empty %u)'', arg_ptr this, arg_ptr addr, arg_bool (ring_empty rc)]"
  have "caller_ok ?c ?ea"
    using assms by (simp add: caller_ok_def put_ring_def ring_ok_def ring_wf_def ring_blocking_def internal_ok_def internal_area_def)
  moreover have "valid_args ?as" by (auto simp: valid_args_def arg_ptr_def arg_bool_def)
  ultimately obtain eb where eb: "post_tls ?c TLS_DEBUG ?as ?ea = Some eb"
    "\<And>x. map_option ring_tag (e_rings eb x) = map_option ring_tag (e_rings ?ea x)" "e_ring_map eb = e_ring_map ?ea"
    using post_tls_keeps by blast
  have tp: "\<exists>r. e_rings eb prev = Some r \<and> rb_refcnt r = rb_refcnt rp - 1"
    using eb(2) [of prev] by (cases "e_rings eb prev") (auto simp: put_ring_def ring_tag_def)
  obtain r where r: "e_rings eb cur = Some r" "rb_refcnt r = rb_refcnt rc" "rb_name r = rb_name rc"
    using eb(2) [of cur] assms(5,7) by (cases "e_rings eb cur") (auto simp: put_ring_def ring_tag_def)
  have "release_in cur eb = Some (put_ring cur (r\<lparr>rb_refcnt := rb_refcnt r - 1\<rparr>) eb)"
    by (rule release_in_held) (use r assms(6) in simp_all)
  then show ?thesis
    using release_in_held [OF assms(1,2)] assms(5,7) eb(1,3) r tp
    by (simp add: tls_delete_def put_ring_def)
qed


text \<open>
  C22: a thread gets a ring of its own for the lifetime of an object. Under a free name the ring is
  registered, held by the engine and the thread, and becomes the ring that the thread posts to;
  the previous ring is held meanwhile. Whatever is posted until the object is destroyed, after that
  the thread posts to the previous ring again, which has as many holders as before, and the ring
  of the object is held by the engine alone, which will write out its records and remove it.
\<close>

theorem thread_ring_scope:
  assumes "reg_wf e" and "e_rings e nid = None" and "ringbuf_new alloc dflt nm opts = Some nr" and "caller_ok c e"
    and "map_of (e_ring_map e) nm = None" and "e_rings e (c_ring c) = Some rb" and "1 \<le> rb_refcnt rb"
  shows "\<exists>t c1 e1. tls_new this addr alloc dflt nid nm opts c e = Some (t, c1, e1) \<and> tls_valid t \<and> tls_ring c1 = nid
    \<and> reg_wf e1 \<and> map_of (e_ring_map e1) nm = Some nid \<and> caller_ok c e1
    \<and> (\<forall>e2. caller_ok c e2 \<and> (\<forall>x. map_option ring_tag (e_rings e2 x) = map_option ring_tag (e_rings e1 x)) \<longrightarrow>
         (\<exists>e3 r rp. tls_delete this addr t c1 e2 = Some (c, e3) \<and> e_ring_map e3 = e_ring_map e2
            \<and> e_rings e3 nid = Some r \<and> rb_name r = nm \<and> ring_orphan r
            \<and> e_rings e3 (c_ring c) = Some rp \<and> rb_refcnt rp = rb_refcnt rb))"
proof -
  obtain e1 r1 rp1 where e1: "tls_new this addr alloc dflt nid nm opts c e =
      Some (\<lparr>tls_previous = Some (c_ring c), tls_current = Some nid\<rparr>, c\<lparr>c_ring := nid\<rparr>, e1)"
    "reg_wf e1" "map_of (e_ring_map e1) = (map_of (e_ring_map e))(nm \<mapsto> nid)"
    "e_rings e1 nid = Some r1" "rb_name r1 = nm" "rb_refcnt r1 = 2"
    "e_rings e1 (c_ring c) = Some rp1" "rb_refcnt rp1 = rb_refcnt rb + 1" "caller_ok c e1"
    using tls_new_spec [OF assms(1-6), of this addr] by blast
  have ne: "c_ring c \<noteq> nid" using assms(2,6) by auto
  have del: "\<exists>e3 r rp. tls_delete this addr \<lparr>tls_previous = Some (c_ring c), tls_current = Some nid\<rparr> (c\<lparr>c_ring := nid\<rparr>) e2 = Some (c, e3)
      \<and> e_ring_map e3 = e_ring_map e2 \<and> e_rings e3 nid = Some r \<and> rb_name r = nm \<and> ring_orphan r
      \<and> e_rings e3 (c_ring c) = Some rp \<and> rb_refcnt rp = rb_refcnt rb"
    if c2: "caller_ok c e2" and tag: "\<forall>x. map_option ring_tag (e_rings e2 x) = map_option ring_tag (e_rings e1 x)" for e2
  proof -
    obtain rp2 where rp2: "e_rings e2 (c_ring c) = Some rp2" "ring_ok rp2" "\<not> ring_blocking rp2" "ap_wf (c_junk c)" "internal_ok e2"
      using c2 by (auto simp: caller_ok_def)
    have p: "rb_refcnt rp2 = rb_refcnt rb + 1" using tag [rule_format, of "c_ring c"] rp2(1) e1(7,8) by (simp add: ring_tag_def)
    obtain r2 where r2: "e_rings e2 nid = Some r2" "rb_refcnt r2 = 2" "rb_name r2 = nm"
      using tag [rule_format, of nid] e1(4-6) by (cases "e_rings e2 nid") (auto simp: ring_tag_def)
    have "ap_wf (c_junk (c\<lparr>c_ring := nid\<rparr>))" "2 \<le> rb_refcnt rp2" "2 \<le> rb_refcnt r2" using rp2(4) p r2(2) assms(7) by simp_all
    from tls_delete_spec [OF rp2(1) this(2) rp2(2,3) r2(1) this(3) ne this(1) rp2(5), of this addr]
    show ?thesis using p r2 by (auto simp: ring_orphan_def)
  qed
  have all: "\<forall>e2. caller_ok c e2 \<and> (\<forall>x. map_option ring_tag (e_rings e2 x) = map_option ring_tag (e_rings e1 x)) \<longrightarrow>
    (\<exists>e3 r rp. tls_delete this addr \<lparr>tls_previous = Some (c_ring c), tls_current = Some nid\<rparr> (c\<lparr>c_ring := nid\<rparr>) e2 = Some (c, e3)
      \<and> e_ring_map e3 = e_ring_map e2 \<and> e_rings e3 nid = Some r \<and> rb_name r = nm \<and> ring_orphan r
      \<and> e_rings e3 (c_ring c) = Some rp \<and> rb_refcnt rp = rb_refcnt rb)"
    using del by blast
  show ?thesis
    by (rule exI [of _ "\<lparr>tls_previous = Some (c_ring c), tls_current = Some nid\<rparr>"], rule exI [of _ "c\<lparr>c_ring := nid\<rparr>"], rule exI [of _ e1])
      (intro conjI e1(1,2,9) all; use e1(3) in \<open>simp add: tls_valid_def tls_ring_def\<close>)
qed


theorem thread_ring_scope_witness:
  "\<exists>t c1 e1 e3 r. tls_new 0x9000 0x7000 (\<lambda>n. Some 0x10000) 7 30 ''C'' default_ring_opts demo_caller demo_engine = Some (t, c1, e1)
    \<and> tls_ring c1 = 30 \<and> tls_delete 0x9000 0x7000 t c1 e1 = Some (demo_caller, e3) \<and> e_rings e3 30 = Some r \<and> ring_orphan r"
proof -
  have rings: "e_rings demo_engine 10 = Some (demo_log ''A'' 2 [5, 9, 0, 0])" "e_rings demo_engine 30 = None"
    "e_rings demo_engine 20 = Some (demo_log ''B'' 1 [7, 0, 0, 0])" "e_ring_map demo_engine = [(''A'', 10), (''B'', 20)]"
    by (simp_all add: demo_engine_def)
  have c10: "e_rings demo_engine (c_ring demo_caller) = Some (demo_log ''A'' 2 [5, 9, 0, 0])" by (simp add: demo_caller_def rings)
  have wf: "reg_wf demo_engine" by (auto simp: reg_wf_def rings reg_ok_def demo_log_def)
  obtain nr where nr: "ringbuf_new (\<lambda>n. Some 0x10000) 7 ''C'' default_ring_opts = Some nr" using demo_ring_new by blast
  have c: "caller_ok demo_caller demo_engine" by (simp add: demo_caller_ok)
  have "1 \<le> rb_refcnt (demo_log ''A'' 2 [5, 9, 0, 0])" "map_of (e_ring_map demo_engine) ''C'' = None"
    by (simp_all add: demo_log_def rings)
  from thread_ring_scope [OF wf rings(2) nr c this(2) c10 this(1), of "0x9000" "0x7000"] show ?thesis by blast
qed

section \<open>Starting and ending the default engine\<close>

text \<open>A new engine has no rings and an empty ordering buffer.\<close>

lemma engine_new_fields:
  assumes "engine_new rem junk tj old lo dts h opts = Some e" and "eo_features opts AND DISABLE_TSO = 0"
  shows "e_ring_map e = []" "e_rings e = h" "e_opts e = opts" "e_dirty e" "e_out e = []"
    "e_tso e = tso_reset (tso_resize tj (if eo_tso_buffer_capacity opts \<noteq> 0 then eo_tso_buffer_capacity opts else 2048))"
  using assms by (auto simp: engine_new_def Let_def add_internal_area_def bind_eq_Some_conv)

lemma engine_new_defined: "\<exists>e. engine_new rem junk tj old lo dts h opts = Some e \<and> internal_ok e"
proof -
  let ?ss = internal_section_names
  have l: "length ?ss \<le> 2 ^ 32 - 64" by (simp add: internal_section_names_def)
  have s: "?ss = (case Some ?ss of None \<Rightarrow> default_section_names | Some ss \<Rightarrow> ss)" by simp
  obtain a0 where a0: "area_new junk ''HOGL'' (Some ?ss) = Some a0" "area_wf a0" "ar_section a0 = ?ss"
    using area_new_spec [OF s l, of junk "''HOGL''"] by metis
  then have sz: "area_size a0 = 9"
    by (simp add: area_wf_def internal_section_names_def word_unat_eq_iff)
  have step: "\<exists>a'. area_set a (isect x) True = Some a' \<and> area_wf a' \<and> area_size a' = 9" if "area_wf a" "area_size a = 9" for a x
  proof -
    have "isect x < 9" by (cases x) (simp_all add: isect_def)
    then show ?thesis using ar.put_spec [OF that(1), of "isect x" True] that(2) by metis
  qed
  obtain a1 where a1: "area_set a0 (isect I_INFO) True = Some a1" "area_wf a1" "area_size a1 = 9" using step [OF a0(2) sz] by blast
  obtain a2 where a2: "area_set a1 (isect I_WARN) True = Some a2" "area_wf a2" "area_size a2 = 9" using step [OF a1(2,3)] by blast
  obtain a3 where a3: "area_set a2 (isect I_ERROR) True = Some a3" "area_wf a3" "area_size a3 = 9" using step [OF a2(2,3)] by blast
  obtain a4 where a4: "area_set a3 (isect DROPMARK) True = Some a4" "area_wf a4" "area_size a4 = 9" using step [OF a3(2,3)] by blast
  obtain a5 where a5: "area_set a4 (isect TSOFULLMARK) True = Some a5" "area_wf a5" "area_size a5 = 9" using step [OF a4(2,3)] by blast
  obtain a6 where a6: "mask_apply rem (eo_default_mask opts) a5 = Some a6" "area_wf a6" "area_size a6 = 9"
    using mask_apply_verdict [OF a5(2), of rem "eo_default_mask opts"] a5(3) by auto
  show ?thesis
    using a0(1) a1(1) a2(1) a3(1) a4(1) a5(1) a6
    by (simp add: engine_new_def Let_def add_internal_area_def internal_ok_def internal_area_def)
qed

text \<open>The engine with the default ring registered and released by its owner.\<close>

lemma default_ring_drainable:
  assumes "e_ring_map e = []" and "internal_ok e" and "eo_features (e_opts e) AND DISABLE_TSO = 0" and "e_dirty e"
    and "tso_wf (e_tso e)" and "tso_head (e_tso e) = 0" and "tso_live (e_tso e) = []" and "2 \<le> unat (tso_capacity (e_tso e))"
    and "ring_ok rb" and "timely rb" and "rb_refcnt rb = 1"
  shows "drainable (e\<lparr>e_ring_map := [(rb_name rb, did)], e_rings := (e_rings e)(did := Some rb)\<rparr>)"
  using assms by (simp add: drainable_def orphaned_def owner_tag_def internal_ok_def internal_area_def)

lemma two_entries: "n \<noteq> 0 \<Longrightarrow> n \<noteq> 1 \<Longrightarrow> 2 \<le> unat n" for n :: u32
  by (simp add: word_unat_eq_iff [of n])




end
