(* ===== verification/C_Api.thy ===== *)
theory C_Api
  imports Thread_Ring
begin

text \<open>
  The C interface (\<^verbatim>\<open>src/c-api.cc\<close>, \<^verbatim>\<open>include/hogl/c-api\<close>). Handles are the objects themselves. The macros
  choose the type of an argument from its C type; \<open>c_value\<close> has one constructor for each case, with
  \<open>C_other\<close> for the types that no case takes, such as \<^verbatim>\<open>char\<close>, \<^verbatim>\<open>bool\<close> or \<^verbatim>\<open>const void *\<close>. A string comes
  with the result of \<^verbatim>\<open>strlen\<close>, a number in floating point with the bits of the double. Field \<^verbatim>\<open>len\<close> is
  not set for numbers, so its value there is an argument. The constructors of formats and outputs only call those
  of C++ and are left out.
\<close>

section \<open>Definitions\<close>

definition hogl_area_test :: "area \<Rightarrow> u32 \<Rightarrow> bool option" where
  "hogl_area_test a sect = area_test a sect"

definition hogl_area_set :: "area \<Rightarrow> u32 \<Rightarrow> area option" where
  "hogl_area_set a sect = area_set a sect True"

definition hogl_area_set_all :: "area \<Rightarrow> area option" where
  "hogl_area_set_all a = area_set_all a"

definition hogl_area_reset :: "area \<Rightarrow> u32 \<Rightarrow> area option" where
  "hogl_area_reset a sect = area_reset a sect"

definition hogl_area_reset_all :: "area \<Rightarrow> area option" where
  "hogl_area_reset_all a = area_reset_all a"

text \<open>Options of the engine; the scheduling parameters are left out.\<close>

record 're hogl_engine_options =
  ho_features :: u32
  ho_default_mask :: "'re mask option"
  ho_polling_interval_usec :: u32
  ho_tso_buffer_capacity :: u32

definition c_engine_options :: "'re engine_options \<Rightarrow> 're hogl_engine_options option \<Rightarrow> 're engine_options" where
  "c_engine_options dflt opts =
     (case opts of
        None \<Rightarrow> dflt
      | Some o' \<Rightarrow>
          let d = dflt\<lparr>eo_polling_interval_usec := ho_polling_interval_usec o', eo_features := ho_features o',
                       eo_tso_buffer_capacity := ho_tso_buffer_capacity o'\<rparr>
          in (case ho_default_mask o' of None \<Rightarrow> d | Some m \<Rightarrow> d\<lparr>eo_default_mask := mask_copy m\<rparr>))"

definition hogl_activate :: "nat \<Rightarrow> caller \<Rightarrow> 're matcher \<Rightarrow> (nat \<Rightarrow> u64) \<Rightarrow> (nat \<Rightarrow> tso_entry) \<Rightarrow> tsobuf \<Rightarrow> u32 \<Rightarrow> u64
    \<Rightarrow> 're engine_options \<Rightarrow> 're hogl_engine_options option \<Rightarrow> 're process \<Rightarrow> (activate_error + 're process) option" where
  "hogl_activate did c rem junk tj old old_leftover default_timesource dflt opts p =
     activate did c rem junk tj old old_leftover default_timesource (c_engine_options dflt opts) p"

definition hogl_deactivate :: "nat \<Rightarrow> ring_sorter \<Rightarrow> locking \<Rightarrow> (nat \<Rightarrow> 're engine \<Rightarrow> 're engine) \<Rightarrow> sorter \<Rightarrow> (u64 \<Rightarrow> string)
    \<Rightarrow> 're process \<Rightarrow> 're process option" where
  "hogl_deactivate did rsort locks env srt ts_name p = deactivate did rsort locks env srt ts_name p"

definition hogl_add_area :: "caller \<Rightarrow> 're matcher \<Rightarrow> (nat \<Rightarrow> u64) \<Rightarrow> u64 \<Rightarrow> string \<Rightarrow> string list option \<Rightarrow> 're engine
    \<Rightarrow> (area option \<times> 're engine) option" where
  "hogl_add_area c rem junk addr nm sections e = add_area c rem junk addr nm sections e"

definition hogl_apply_mask :: "'re matcher \<Rightarrow> 're mask \<Rightarrow> 're engine \<Rightarrow> 're engine option" where
  "hogl_apply_mask rem m e = engine_apply_mask rem m e"

definition hogl_mask_add :: "'re compiler \<Rightarrow> 're mask \<Rightarrow> string \<Rightarrow> 're mask option" where
  "hogl_mask_add cmp m str = mask_add cmp m str"

definition hogl_mask_clear :: "'re mask \<Rightarrow> 're mask" where
  "hogl_mask_clear m = mask_clear m"

text \<open>The variable arguments end with a null pointer, which is also allowed at once.\<close>

fun mask_add_all :: "'re compiler \<Rightarrow> string list \<Rightarrow> 're mask \<Rightarrow> 're mask option" where
  "mask_add_all cmp [] m = Some m"
| "mask_add_all cmp (s # ss) m = do { m \<leftarrow> mask_add cmp m s; mask_add_all cmp ss m }"

definition hogl_new_mask :: "'re compiler \<Rightarrow> string list \<Rightarrow> 're mask option" where
  "hogl_new_mask cmp strs = mask_add_all cmp strs mask_new"

record hogl_tls_options =
  to_ring_capacity :: u32
  to_ring_priority :: u32
  to_record_tailroom :: u32

definition c_ring_options :: "hogl_tls_options \<Rightarrow> ring_options" where
  "c_ring_options o' = \<lparr>ro_capacity = to_ring_capacity o', ro_prio = to_ring_priority o', ro_flags = 0,
     ro_record_tailroom = (if to_record_tailroom o' \<noteq> 0 then to_record_tailroom o' else 80)\<rparr>"

definition hogl_new_tls :: "u64 \<Rightarrow> u64 \<Rightarrow> (u32 \<Rightarrow> u64 option) \<Rightarrow> u64 \<Rightarrow> nat \<Rightarrow> string \<Rightarrow> hogl_tls_options \<Rightarrow> caller \<Rightarrow> 're engine
    \<Rightarrow> (tls \<times> caller \<times> 're engine) option" where
  "hogl_new_tls this addr alloc dflt nid nm opts c e = tls_new this addr alloc dflt nid nm (c_ring_options opts) c e"

definition hogl_delete_tls :: "u64 \<Rightarrow> u64 \<Rightarrow> tls \<Rightarrow> caller \<Rightarrow> 're engine \<Rightarrow> (caller \<times> 're engine) option" where
  "hogl_delete_tls this addr t c e = tls_delete this addr t c e"

text \<open>The codes of the argument types in C.\<close>

datatype hogl_arg_type = HOGL_ARG_NONE | HOGL_ARG_UINT32 | HOGL_ARG_INT32 | HOGL_ARG_UINT64 | HOGL_ARG_INT64 | HOGL_ARG_POINTER
  | HOGL_ARG_DOUBLE | HOGL_ARG_CSTR | HOGL_ARG_GSTR | HOGL_ARG_HEXDUMP | HOGL_ARG_RAW

fun c_code :: "hogl_arg_type \<Rightarrow> u32" where
  "c_code HOGL_ARG_NONE = 0" | "c_code HOGL_ARG_UINT32 = 1" | "c_code HOGL_ARG_INT32 = 2" | "c_code HOGL_ARG_UINT64 = 3"
| "c_code HOGL_ARG_INT64 = 4" | "c_code HOGL_ARG_POINTER = 5" | "c_code HOGL_ARG_DOUBLE = 6" | "c_code HOGL_ARG_CSTR = 7"
| "c_code HOGL_ARG_GSTR = 8" | "c_code HOGL_ARG_HEXDUMP = 9" | "c_code HOGL_ARG_RAW = 10"

datatype c_value = C_string u64 u64 | C_float u64 | C_double u64 | C_uint64 u64 | C_int64 u64 | C_uint32 u32 | C_int32 u32
  | C_uint16 u16 | C_int16 u16 | C_uint8 u8 | C_int8 u8 | C_pointer u64 | C_other

text \<open>\<^verbatim>\<open>strlen\<close> of a null pointer is undefined.\<close>

definition hogl_strarg :: "u64 \<Rightarrow> u64 \<Rightarrow> arg option" where
  "hogl_strarg str n = (if str = 0 then None else Some \<lparr>a_type = c_code HOGL_ARG_CSTR, a_val = str, a_len = ucast n\<rparr>)"

fun hogl_setarg :: "u32 \<Rightarrow> c_value \<Rightarrow> arg option" where
  "hogl_setarg len (C_string str n) = hogl_strarg str n"
| "hogl_setarg len (C_float d) = Some \<lparr>a_type = c_code HOGL_ARG_DOUBLE, a_val = d, a_len = len\<rparr>"
| "hogl_setarg len (C_double d) = Some \<lparr>a_type = c_code HOGL_ARG_DOUBLE, a_val = d, a_len = len\<rparr>"
| "hogl_setarg len (C_uint64 v) = Some \<lparr>a_type = c_code HOGL_ARG_UINT64, a_val = v, a_len = len\<rparr>"
| "hogl_setarg len (C_int64 v) = Some \<lparr>a_type = c_code HOGL_ARG_INT64, a_val = v, a_len = len\<rparr>"
| "hogl_setarg len (C_uint32 v) = Some \<lparr>a_type = c_code HOGL_ARG_UINT32, a_val = ucast v, a_len = len\<rparr>"
| "hogl_setarg len (C_int32 v) = Some \<lparr>a_type = c_code HOGL_ARG_INT32, a_val = scast v, a_len = len\<rparr>"
| "hogl_setarg len (C_uint16 v) = Some \<lparr>a_type = c_code HOGL_ARG_UINT32, a_val = ucast v, a_len = len\<rparr>"
| "hogl_setarg len (C_int16 v) = Some \<lparr>a_type = c_code HOGL_ARG_INT32, a_val = scast v, a_len = len\<rparr>"
| "hogl_setarg len (C_uint8 v) = Some \<lparr>a_type = c_code HOGL_ARG_UINT32, a_val = ucast v, a_len = len\<rparr>"
| "hogl_setarg len (C_int8 v) = Some \<lparr>a_type = c_code HOGL_ARG_INT32, a_val = scast v, a_len = len\<rparr>"
| "hogl_setarg len (C_pointer p) = Some \<lparr>a_type = c_code HOGL_ARG_POINTER, a_val = p, a_len = len\<rparr>"
| "hogl_setarg len C_other = Some \<lparr>a_type = c_code HOGL_ARG_NONE, a_val = 0, a_len = len\<rparr>"

fun hogl_setargs :: "(nat \<Rightarrow> u32) \<Rightarrow> nat \<Rightarrow> c_value list \<Rightarrow> arg list option" where
  "hogl_setargs lens i [] = Some []"
| "hogl_setargs lens i (v # vs) = do {
     a \<leftarrow> hogl_setarg (lens i) v;
     as \<leftarrow> hogl_setargs lens (Suc i) vs;
     Some (a # as)
   }"

text \<open>\<^verbatim>\<open>__hogl_post_1\<close> to \<^verbatim>\<open>__hogl_post_16\<close>, for the number of arguments, and the macro around them.\<close>

definition hogl_post_n :: "argpack \<Rightarrow> memory \<Rightarrow> u64 \<times> area \<Rightarrow> u32 \<Rightarrow> arg list \<Rightarrow> timestamp \<Rightarrow> ring \<Rightarrow> ring option" where
  "hogl_post_n junk mem a sect args now rb = post junk mem a sect (with_defaults args) now rb"

definition hogl_post :: "(nat \<Rightarrow> u32) \<Rightarrow> argpack \<Rightarrow> memory \<Rightarrow> u64 \<times> area \<Rightarrow> u32 \<Rightarrow> c_value list \<Rightarrow> timestamp \<Rightarrow> ring \<Rightarrow> ring option" where
  "hogl_post lens junk mem a sect vs now rb = do {
     en \<leftarrow> hogl_area_test (snd a) sect;
     if en then do {
       as \<leftarrow> hogl_setargs lens 0 vs;
       hogl_post_n junk mem a sect as now rb
     } else Some rb
   }"

definition hogl_flush :: "(nat \<Rightarrow> ring \<Rightarrow> ring) \<Rightarrow> u32 \<Rightarrow> timestamp \<Rightarrow> ring \<Rightarrow> (bool \<times> nat \<times> ring) option" where
  "hogl_flush env tmo now rb = flush_ring env tmo now rb"

section \<open>Agreement with C++\<close>

text \<open>The argument that the constructors of C++ make of the same value.\<close>

fun cxx_arg :: "c_value \<Rightarrow> arg" where
  "cxx_arg (C_string str n) = arg_cstr str n"
| "cxx_arg (C_float d) = arg_double d"
| "cxx_arg (C_double d) = arg_double d"
| "cxx_arg (C_uint64 v) = arg_u64 v"
| "cxx_arg (C_int64 v) = arg_i64 v"
| "cxx_arg (C_uint32 v) = arg_u32 v"
| "cxx_arg (C_int32 v) = arg_i32 v"
| "cxx_arg (C_uint16 v) = arg_u16 v"
| "cxx_arg (C_int16 v) = arg_i32 (scast v)"
| "cxx_arg (C_uint8 v) = arg_u8 v"
| "cxx_arg (C_int8 v) = arg_i32 (scast v)"
| "cxx_arg (C_pointer p) = arg_ptr p"
| "cxx_arg C_other = arg_none"

fun c_fine :: "c_value \<Rightarrow> bool" where
  "c_fine (C_string str n) \<longleftrightarrow> str \<noteq> 0"
| "c_fine C_other \<longleftrightarrow> False"
| "c_fine v \<longleftrightarrow> True"

text \<open>Arguments that differ only in the unused length of a number.\<close>

definition same_arg :: "arg \<Rightarrow> arg \<Rightarrow> bool" where
  "same_arg a b \<longleftrightarrow> a_type a = a_type b \<and> a_val a = a_val b \<and> (is_simple a \<or> a_len a = a_len b)"

lemma scast_scast: "scast (scast (v :: u16) :: u32) = (scast v :: u64)" "scast (scast (w :: u8) :: u32) = (scast w :: u64)"
  by (auto intro!: bit_word_eqI simp: bit_simps min_def split: if_splits)

lemma setarg_same: "c_fine v \<Longrightarrow> \<exists>a. hogl_setarg len v = Some a \<and> same_arg a (cxx_arg v) \<and> a_type a \<noteq> NONE \<and> a_type a \<le> RAW"
  by (cases v) (simp_all add: same_arg_def is_simple_def hogl_strarg_def arg_cstr_def arg_double_def arg_u64_def arg_i64_def
      arg_u32_def arg_i32_def arg_u16_def arg_u8_def arg_ptr_def scast_scast)

lemma setargs_same:
  "list_all c_fine vs \<Longrightarrow> \<exists>as. hogl_setargs lens i vs = Some as \<and> list_all2 same_arg as (map cxx_arg vs)
    \<and> list_all (\<lambda>a. a_type a \<noteq> NONE \<and> a_type a \<le> RAW) as"
proof (induction vs arbitrary: i)
  case (Cons v vs)
  then obtain a as where "hogl_setarg (lens i) v = Some a" "same_arg a (cxx_arg v)" "a_type a \<noteq> NONE \<and> a_type a \<le> RAW"
    "hogl_setargs lens (Suc i) vs = Some as" "list_all2 same_arg as (map cxx_arg vs)"
    "list_all (\<lambda>a. a_type a \<noteq> NONE \<and> a_type a \<le> RAW) as"
    using setarg_same [of v "lens i"] by fastforce
  then show ?case by simp
qed simp


lemma same_expected: "same_arg a b \<Longrightarrow> expected mem room a = expected mem room b \<and> used mem room a = used mem room b"
  by (auto simp: same_arg_def is_simple_def expected_def used_def data_of_def)

lemma same_room: "list_all2 same_arg as bs \<Longrightarrow> room_at mem room as i = room_at mem room bs i"
proof (induction arbitrary: room i rule: list_all2_induct)
  case (Cons a as b bs)
  with same_expected [OF Cons.hyps(1)] show ?case by (cases i) simp_all
qed simp

lemma same_posted:
  assumes "list_all2 same_arg as bs"
  shows "posted mem a sect as now rb r \<longleftrightarrow> posted mem a sect bs now rb r"
proof -
  have "length as = length bs" and e: "\<And>i. i < length bs \<Longrightarrow> a_type (as ! i) = a_type (bs ! i)
      \<and> expected mem room (as ! i) = expected mem room (bs ! i)" for room
    using assms same_expected by (auto simp: list_all2_conv_all_nth same_arg_def)
  then show ?thesis
    using same_room [OF assms] by (auto simp: posted_def)
qed

section \<open>Properties\<close>

text \<open>
  C16: posting from C does what posting from C++ does. For up to sixteen values of the types that the
  macro knows, and strings that are not null, whatever is in the fields that C does not
  set: a disabled section changes nothing; otherwise the record is appended with the types
  and values of the arguments that C++ would have passed, or counted as dropped on a full ring.
\<close>

theorem c_post_agrees:
  assumes "ring_ok rb" and "\<not> ring_blocking rb" and "ap_wf junk" and "area_wf ar" and "sect < area_size ar"
    and "length vs \<le> 16" and "list_all c_fine vs"
  shows "\<exists>rb' en. hogl_post lens junk mem (a, ar) sect vs now rb = Some rb' \<and> ring_ok rb' \<and> area_test ar sect = Some en
    \<and> (\<not> en \<longrightarrow> rb' = rb)
    \<and> (en \<and> unat (ring_room rb) = 0 \<longrightarrow> contents rb' = contents rb \<and> rb_dropcnt rb' = rb_dropcnt rb + 1)
    \<and> (en \<and> 0 < unat (ring_room rb) \<longrightarrow> rb_dropcnt rb' = rb_dropcnt rb
         \<and> (\<exists>r. contents rb' = contents rb @ [r] \<and> posted mem a sect (map cxx_arg vs) now rb r))"
proof -
  obtain as where as: "hogl_setargs lens 0 vs = Some as" "list_all2 same_arg as (map cxx_arg vs)"
    "list_all (\<lambda>a. a_type a \<noteq> NONE \<and> a_type a \<le> RAW) as"
    using setargs_same [OF assms(7), of lens 0] by blast
  then have v: "valid_args as" using assms(6) list_all2_lengthD [OF as(2)] by (simp add: valid_args_def)
  obtain rb' en where p: "post junk mem (a, ar) sect (with_defaults as) now rb = Some rb'" "ring_ok rb'" "area_test ar sect = Some en"
    "\<not> en \<longrightarrow> rb' = rb"
    "en \<and> unat (ring_room rb) = 0 \<longrightarrow> contents rb' = contents rb \<and> rb_dropcnt rb' = rb_dropcnt rb + 1"
    "en \<and> 0 < unat (ring_room rb) \<longrightarrow> rb_dropcnt rb' = rb_dropcnt rb
      \<and> (\<exists>r. contents rb' = contents rb @ [r] \<and> posted mem a sect as now rb r)"
    using post_spec [OF assms(1,2) v assms(3-5), of mem a now] by blast
  have "hogl_post lens junk mem (a, ar) sect vs now rb = Some rb'"
    using p(1,3,4) as(1) by (cases en) (simp_all add: hogl_post_def hogl_area_test_def hogl_post_n_def)
  with p(2-6) same_posted [OF as(2)] show ?thesis by blast
qed

theorem c_post_agrees_witness:
  "\<exists>rb' r. hogl_post (\<lambda>_. 77) \<lparr>ap_argtype = 0, ap_argval = replicate 16 0, ap_arglen = replicate 16 0\<rparr> (\<lambda>_. 65)
      (0x5000, \<lparr>ar_name = ''NET'', ar_section = [''RX''], ar_bitmap = \<lparr>bm_data = [1], bm_size = 1\<rparr>\<rparr>) 0
      [C_string 0x8000 3, C_int8 0xff] 99
      \<lparr>rb_name = ''r'', rb_flags = 0, rb_prio = 0, rb_rec_top = 0, rb_rec_shift = 8, rb_rec_tailroom = 224,
        rb_capacity = 1, rb_refcnt = 1, rb_block_active = False, rb_timesource = 0, rb_tail = 0, rb_seqnum = 41,
        rb_dropcnt = 0, rb_head = 1, rb_slots = replicate 2 (zero_record 224)\<rparr> = Some rb'
    \<and> contents rb' = [r] \<and> get_arg_type r 0 = CSTR \<and> get_arg_type r 1 = INT32"
proof -
  let ?ap = "\<lparr>ap_argtype = 0, ap_argval = replicate 16 0, ap_arglen = replicate 16 0\<rparr>"
  let ?ar = "\<lparr>ar_name = ''NET'', ar_section = [''RX''], ar_bitmap = \<lparr>bm_data = [1], bm_size = 1\<rparr>\<rparr>"
  let ?rb = "\<lparr>rb_name = ''r'', rb_flags = 0, rb_prio = 0, rb_rec_top = 0, rb_rec_shift = 8, rb_rec_tailroom = 224,
        rb_capacity = 1, rb_refcnt = 1, rb_block_active = False, rb_timesource = 0, rb_tail = 0, rb_seqnum = 41,
        rb_dropcnt = 0, rb_head = 1, rb_slots = replicate 2 (zero_record 224)\<rparr> :: ring"
  have p: "ring_ok ?rb" "\<not> ring_blocking ?rb" "ap_wf ?ap"
    by (auto simp: ring_ok_def ring_wf_def ring_blocking_def zero_record_def mask_eq_exp_minus_1 ap_wf_def intro!: exI [of _ 1])
  have q: "area_wf ?ar" "0 < area_size ?ar" "area_test ?ar 0 = Some True"
    by (simp_all add: area_wf_def area_size_def bm_wf_def bm_nwords_def area_test_def bm_test_def bm_which_word_def bm_which_bit_def)
  have c: "0 < unat (ring_room ?rb)" "contents ?rb = []" by (simp_all add: ring_room_def contents_def span_def)
  obtain rb' r where "hogl_post (\<lambda>_. 77) ?ap (\<lambda>_. 65) (0x5000, ?ar) 0 [C_string 0x8000 3, C_int8 0xff] 99 ?rb = Some rb'"
    "contents rb' = contents ?rb @ [r]" and r: "posted (\<lambda>_. 65) 0x5000 0 (map cxx_arg [C_string 0x8000 3, C_int8 0xff]) 99 ?rb r"
    using c_post_agrees [OF p q(1,2), of "[C_string 0x8000 3, C_int8 0xff]" "\<lambda>_. 77" "\<lambda>_. 65" "0x5000" 99] q(3) c(1) by auto
  moreover have "get_arg_type r 0 = CSTR" "get_arg_type r 1 = INT32"
    using r unfolding posted_def by (auto simp: arg_cstr_def arg_i32_def less_Suc_eq all_conj_distrib)
  ultimately show ?thesis using c(2) by auto
qed

text \<open>The codes agree with those of C++; a null string is defined in C++ only.\<close>

lemma c_codes_match:
  "map c_code [HOGL_ARG_NONE, HOGL_ARG_UINT32, HOGL_ARG_INT32, HOGL_ARG_UINT64, HOGL_ARG_INT64, HOGL_ARG_POINTER, HOGL_ARG_DOUBLE,
     HOGL_ARG_CSTR, HOGL_ARG_GSTR, HOGL_ARG_HEXDUMP, HOGL_ARG_RAW]
   = [NONE, UINT32, INT32, UINT64, INT64, POINTER, DOUBLE, CSTR, GSTR, XDUMP, RAW]"
  by simp

lemma c_null_string: "hogl_setarg len (C_string 0 n) = None" "cxx_arg (C_string 0 n) = \<lparr>a_type = CSTR, a_val = 0, a_len = 0\<rparr>"
  by (simp_all add: hogl_strarg_def arg_cstr_def)

end
