(* ===== verification/Output_File.thy ===== *)
theory Output_File
  imports Ntos
begin

text \<open>
  File output with rotation (\<^verbatim>\<open>include/hogl/output-file.hpp\<close>, \<^verbatim>\<open>src/output-file.cc\<close>):
  the numbering of the chunks with the symbolic link that remembers the last one, and the
  helper thread that rotates while the writer goes on. The file system is the contents of
  the files by number, a directory and the symbolic links. The two mutexes make some
  actions atomic; these are the steps of the step relation.
\<close>

section \<open>Names\<close>

text \<open>\<^verbatim>\<open>std::string::find\<close> and \<^verbatim>\<open>strtoul\<close> in base ten.\<close>

fun find_sub :: "string \<Rightarrow> string \<Rightarrow> nat option" where
  "find_sub p s =
     (if take (length p) s = p then Some 0
      else (case s of [] \<Rightarrow> None | _ # t \<Rightarrow> map_option Suc (find_sub p t)))"

declare find_sub.simps [simp del]

definition is_space :: "char \<Rightarrow> bool" where
  "is_space c \<longleftrightarrow> c = CHR '' '' \<or> 9 \<le> (of_char c :: nat) \<and> (of_char c :: nat) \<le> 13"

definition strtoul10 :: "string \<Rightarrow> u64" where
  "strtoul10 s =
     (let s = dropWhile is_space s;
          neg = (s \<noteq> [] \<and> hd s = CHR ''-'');
          s = (if s \<noteq> [] \<and> (hd s = CHR ''-'' \<or> hd s = CHR ''+'') then tl s else s);
          v = undec (takeWhile is_digit s)
      in if v \<ge> 2 ^ 64 then - 1 else if neg then - word_of_nat v else word_of_nat v)"

record of_names =
  of_symlink :: string
  of_name :: string
  of_pref :: string
  of_sufx :: string
  of_index :: u32
  of_width :: u32
  of_max_count :: u32

definition update_name :: "'a of_names_scheme \<Rightarrow> 'a of_names_scheme" where
  "update_name s = s\<lparr>of_name := of_pref s @ pad0 (unat (of_width s)) (unat (of_index s)) @ of_sufx s\<rparr>"

text \<open>
  Reading the link into an array of the expected size; an error other than a missing link
  gives zero as well.
\<close>

definition read_link :: "(string \<Rightarrow> string option) \<Rightarrow> 'a of_names_scheme \<Rightarrow> u32" where
  "read_link links s =
     (case links (of_symlink s) of
        None \<Rightarrow> 0
      | Some target \<Rightarrow>
          (let len = word_of_nat (length (of_symlink s)) + of_width s + 1 :: u32;
               str = take (unat len) target
           in if find_sub (of_pref s) str \<noteq> Some 0 then 0
              else let str = drop (length (of_pref s)) str in
                (case (if of_sufx s \<noteq> [] then map_option (\<lambda>pos. take pos str) (find_sub (of_sufx s) str) else Some str) of
                   None \<Rightarrow> 0
                 | Some str \<Rightarrow>
                     (let index = strtoul10 str in
                      if index = - 1 then 0
                      else if index \<ge> ucast (of_max_count s) then 0
                      else let index = index + 1 in
                        if index \<ge> ucast (of_max_count s) then 0 else ucast index))))"

definition update_link :: "bool \<Rightarrow> 'a of_names_scheme \<Rightarrow> (string \<Rightarrow> string option) \<Rightarrow> (string \<Rightarrow> string option)" where
  "update_link ok s links = (if ok then links(of_symlink s \<mapsto> of_name s) else links)"

partial_function (option) index_width :: "u32 \<Rightarrow> u32 \<Rightarrow> u32 \<Rightarrow> u32 option" where
  "index_width max_count step width =
     (if step < max_count then index_width max_count (step * 10) (width + 1) else Some width)"

definition split_name :: "string \<Rightarrow> 'a of_names_scheme \<Rightarrow> 'a of_names_scheme" where
  "split_name str s =
     (case find_sub ''#'' str of
        Some split \<Rightarrow>
          (let sufx = drop (split + 1) str;
               cut = (if split > 0 \<and> str ! (split - 1) = (str @ [CHR 0x00]) ! (split + 1) then split - 1 else split)
           in s\<lparr>of_sufx := sufx, of_pref := take split str, of_symlink := take cut str @ sufx\<rparr>)
      | None \<Rightarrow> s\<lparr>of_sufx := [], of_pref := str @ ''.'', of_symlink := str\<rparr>)"

definition init_name :: "(string \<Rightarrow> string option) \<Rightarrow> string \<Rightarrow> 'a of_names_scheme \<Rightarrow> 'a of_names_scheme option" where
  "init_name links str s = do {
     let s = split_name str s;
     w \<leftarrow> index_width (of_max_count s) 10 1;
     let s = s\<lparr>of_width := w\<rparr>;
     Some (update_name (s\<lparr>of_index := read_link links s\<rparr>))
   }"

text \<open>The next index and name, the first part of a rotation.\<close>

definition next_name :: "'a of_names_scheme \<Rightarrow> 'a of_names_scheme" where
  "next_name s =
     (let i = of_index s + 1; i = (if i \<ge> of_max_count s then 0 else i)
      in update_name (s\<lparr>of_index := i\<rparr>))"

subsection \<open>Numbering\<close>

text \<open>Up to a billion chunks the loop finds the number of digits of the indices.\<close>

lemma index_width_ok:
  assumes "step = word_of_nat (10 ^ w)" and "width = word_of_nat w" and "1 \<le> w" and "w \<le> 9" and "unat max_count \<le> 10 ^ 9"
  shows "\<exists>w'. index_width max_count step width = Some (word_of_nat w') \<and> unat max_count \<le> 10 ^ w' \<and> 1 \<le> w' \<and> w' \<le> 9"
  using assms(1-4)
proof (induction "9 - w" arbitrary: w step width)
  case 0
  then have w: "w = 9" by simp
  have "\<not> step < max_count" using 0 w assms(5) by (simp add: word_less_nat_alt)
  then have "index_width max_count step width = Some (word_of_nat 9)" using 0 w by (subst index_width.simps) simp
  then show ?case using assms(5) by (intro exI [of _ 9]) simp
next
  case (Suc k)
  have "(10::nat) ^ w \<le> 10 ^ 9" using Suc.prems(4) by (intro power_increasing) auto
  then have u: "unat step = 10 ^ w" using unat_word_of_nat [of "10 ^ w", where 'a = 32] Suc.prems(1) by simp
  show ?case
  proof (cases "step < max_count")
    case True
    have "\<exists>w'. index_width max_count (step * 10) (width + 1) = Some (word_of_nat w') \<and> unat max_count \<le> 10 ^ w' \<and> 1 \<le> w' \<and> w' \<le> 9"
      by (rule Suc.hyps(1) [of "Suc w"]) (use Suc.hyps(2) Suc.prems in simp_all)
    with True show ?thesis by (subst index_width.simps) simp
  next
    case False
    then have "unat max_count \<le> 10 ^ w" using u by (simp add: word_less_nat_alt)
    with False Suc.prems show ?thesis by (subst index_width.simps) auto
  qed
qed

lemma index_width_total:
  assumes "unat max_count \<le> 10 ^ 9"
  obtains w where "index_width max_count 10 1 = Some (word_of_nat w)" "unat max_count \<le> 10 ^ w" "1 \<le> w" "w \<le> 9"
  using index_width_ok [of 10 1 1 max_count] assms by auto

lemma even_mult_10: "even (unat (s :: u32)) \<Longrightarrow> even (unat (s * 10))"
  by (simp add: unat_word_ariths dvd_mod)

lemma index_width_runs_on:
  assumes "index_width max_count step width = Some w"
  shows "max_count = - 1 \<longrightarrow> even (unat step) \<longrightarrow> False"
proof (rule index_width.raw_induct [OF _ assms])
  fix iw :: "u32 \<Rightarrow> u32 \<Rightarrow> u32 \<Rightarrow> u32 option" and mx step width w
  assume IH: "\<And>mx step width w. iw mx step width = Some w \<Longrightarrow> mx = - 1 \<longrightarrow> even (unat step) \<longrightarrow> False"
    and r: "(if step < mx then iw mx (step * 10) (width + 1) else Some width) = Some w"
  show "mx = - 1 \<longrightarrow> even (unat step) \<longrightarrow> False"
  proof (intro impI)
    assume mx: "mx = - 1" and e: "even (unat step)"
    have "odd (unat (- 1 :: u32))" by (simp add: unsigned_minus_1_eq_mask mask_eq_exp_minus_1)
    then have "step \<noteq> - 1" using e by auto
    then have "step < mx" using mx by (simp add: word_order.not_eq_extremum)
    with r IH [of mx "step * 10" "width + 1" w] mx even_mult_10 [OF e] show False by simp
  qed
qed

lemma find_sub_prefix: "find_sub p (p @ t) = Some 0"
  by (subst find_sub.simps) simp

lemma find_sub_suffix:
  assumes "p \<noteq> []" and "hd p \<notin> set ds"
  shows "find_sub p (ds @ p) = Some (length ds)"
  using assms(2)
proof (induction ds)
  case (Cons d ds)
  have "take (length p) (d # ds @ p) \<noteq> p" using Cons.prems assms(1) by (cases p) auto
  with Cons show ?case by (subst find_sub.simps) simp
qed (subst find_sub.simps, simp)

lemma strtoul10_digits:
  assumes "list_all is_digit s" and "s \<noteq> []" and "undec s < 2 ^ 64"
  shows "strtoul10 s = word_of_nat (undec s)"
proof -
  obtain c t where s: "s = c # t" using assms(2) by (cases s) auto
  then have "is_digit c" using assms(1) by simp
  then have c: "\<not> is_space c" "c \<noteq> CHR ''-''" "c \<noteq> CHR ''+''" by (auto simp: is_digit_def is_space_def)
  have "takeWhile is_digit s = s" using assms(1) by (simp add: takeWhile_eq_all_conv list_all_iff)
  then show ?thesis using assms(3) c unfolding s strtoul10_def Let_def by simp
qed

text \<open>The parts of a name and the length of the link.\<close>

lemma find_sub_char: "find_sub [c] s = (if c \<in> set s then Some (length (takeWhile (\<lambda>x. x \<noteq> c) s)) else None)"
proof (induction s)
  case (Cons x s)
  then show ?case by (subst find_sub.simps) auto
qed (subst find_sub.simps, simp)

lemma split_name_parts:
  shows "length (of_pref (split_name str s)) + length (of_sufx (split_name str s)) \<le> length (of_symlink (split_name str s)) + 1"
    and "length (of_symlink (split_name str s)) \<le> length str" and "of_max_count (split_name str s) = of_max_count s"
proof -
  show "length (of_pref (split_name str s)) + length (of_sufx (split_name str s)) \<le> length (of_symlink (split_name str s)) + 1"
    by (auto simp: split_name_def Let_def split: option.split)
  show "length (of_symlink (split_name str s)) \<le> length str"
  proof (cases "find_sub ''#'' str")
    case (Some k)
    then have k: "k = length (takeWhile (\<lambda>x. x \<noteq> CHR ''#'') str)" "CHR ''#'' \<in> set str"
      by (auto simp: find_sub_char split: if_splits)
    then have "takeWhile (\<lambda>x. x \<noteq> CHR ''#'') str \<noteq> str" by (auto simp: takeWhile_eq_all_conv)
    then have "k < length str"
      using k(1) takeWhile_eq_take [of "\<lambda>x. x \<noteq> CHR ''#''" str] by (metis not_less take_all)
    then show ?thesis using Some by (auto simp: split_name_def Let_def)
  qed (simp add: split_name_def)
  show "of_max_count (split_name str s) = of_max_count s"
    by (simp add: split_name_def Let_def split: option.split)
qed

lemma split_name_same:
  "of_pref (split_name str s) = of_pref (split_name str t)" "of_sufx (split_name str s) = of_sufx (split_name str t)"
  "of_symlink (split_name str s) = of_symlink (split_name str t)"
  by (simp_all add: split_name_def Let_def split: option.split)

text \<open>The link to a chunk gives the number that follows.\<close>

lemma read_link_next:
  fixes s :: "'a of_names_scheme"
  assumes "links (of_symlink s) = Some (of_pref s @ pad0 (unat (of_width s)) (unat i) @ of_sufx s)"
    and "i < of_max_count s" and "unat (of_max_count s) \<le> 10 ^ unat (of_width s)" and "0 < unat (of_width s)" "unat (of_width s) \<le> 9"
    and "length (of_pref s) + length (of_sufx s) \<le> length (of_symlink s) + 1" and "length (of_symlink s) < 2 ^ 31"
    and "of_sufx s = [] \<or> \<not> is_digit (hd (of_sufx s))"
  shows "read_link links s = (if i + 1 = of_max_count s then 0 else i + 1)"
proof -
  let ?d = "pad0 (unat (of_width s)) (unat i)" and ?mx = "of_max_count s"
  let ?len = "word_of_nat (length (of_symlink s)) + of_width s + 1 :: u32"
  have i: "unat i < unat ?mx" using assms(2) by (simp add: word_less_nat_alt)
  then have "length ?d = unat (of_width s)" using assms(3,4) by (intro length_pad0) auto
  moreover have "unat ?len = length (of_symlink s) + unat (of_width s) + 1"
    using assms(5,7) by (simp add: unat_word_ariths unat_word_of_nat)
  ultimately have t: "take (unat ?len) (of_pref s @ ?d @ of_sufx s) = of_pref s @ ?d @ of_sufx s" using assms(6) by simp
  have dp: "drop (length (of_pref s)) (of_pref s @ ?d @ of_sufx s) = ?d @ of_sufx s" by simp
  have dg: "list_all is_digit ?d" "?d \<noteq> []" using pad0_digits by (simp_all add: pad_left_def)
  have "hd (of_sufx s) \<notin> set ?d" if "of_sufx s \<noteq> []" using that assms(8) dg(1) by (auto simp: list_all_iff)
  then have sx: "(if of_sufx s \<noteq> [] then map_option (\<lambda>pos. take pos (?d @ of_sufx s)) (find_sub (of_sufx s) (?d @ of_sufx s)) else Some (?d @ of_sufx s)) = Some ?d"
    using find_sub_suffix [of "of_sufx s" ?d] by simp
  have "unat i < 2 ^ 64" using unat_less [of i] by simp
  then have st: "strtoul10 ?d = ucast i"
    using strtoul10_digits [OF dg] by (simp add: undec_pad0)
  have u: "unat (ucast i :: u64) = unat i" "unat (ucast ?mx :: u64) = unat ?mx" "unat (ucast i + 1 :: u64) = unat i + 1" "unat (i + 1) = unat i + 1"
    using unat_less [of i] unat_less [of ?mx] i by (simp_all add: unsigned_ucast_eq take_bit_nat_eq_self unat_word_ariths)
  have "(ucast i :: u64) \<noteq> - 1"
    using u(1) unat_less [of i] by (auto simp: word_unat_eq_iff unsigned_minus_1_eq_mask mask_eq_exp_minus_1)
  moreover have "\<not> (ucast ?mx :: u64) \<le> ucast i" using i u by (simp add: word_le_nat_alt)
  moreover have "(ucast ?mx :: u64) \<le> ucast i + 1 \<longleftrightarrow> i + 1 = ?mx" using i u by (auto simp: word_le_nat_alt word_unat_eq_iff)
  moreover have "ucast (ucast i + 1 :: u64) = i + 1"
    using u unat_less [of "i + 1"] by (simp add: word_unat_eq_iff unsigned_ucast_eq take_bit_nat_eq_self)
  ultimately show ?thesis
    by (simp only: read_link_def assms(1) option.case Let_def t find_sub_prefix dp sx st simp_thms if_False split: if_split)
qed

section \<open>Numbering: properties\<close>

text \<open>
  C26: opened again, a file output goes on with the number after the chunk its link points to, and
  starts over after the last one, for up to a billion chunks and a suffix that does not
  start with a digit.
\<close>

theorem reopen_continues_numbering:
  fixes s t :: of_names
  assumes "unat (of_max_count s) \<le> 10 ^ 9" and "length str < 2 ^ 31" and "init_name links0 str s = Some s1"
    and "of_sufx s1 = [] \<or> \<not> is_digit (hd (of_sufx s1))" and "i < of_max_count s" and "of_max_count t = of_max_count s"
  shows "\<exists>t1. init_name (update_link True (update_name (s1\<lparr>of_index := i\<rparr>)) links) str t = Some t1
    \<and> of_index t1 = (if i + 1 = of_max_count s then 0 else i + 1)"
proof -
  obtain w where w: "index_width (of_max_count s) 10 1 = Some (word_of_nat w)" "unat (of_max_count s) \<le> 10 ^ w" "1 \<le> w" "w \<le> 9"
    by (rule index_width_total [OF assms(1)])
  let ?s = "split_name str s" and ?t = "(split_name str t)\<lparr>of_width := word_of_nat w\<rparr>"
  note sp = split_name_parts [of str]
  have s1: "s1 = update_name (?s\<lparr>of_width := word_of_nat w, of_index := read_link links0 (?s\<lparr>of_width := word_of_nat w\<rparr>)\<rparr>)"
    using assms(3) w(1) sp(3) [of s] by (simp add: init_name_def Let_def)
  have same: "of_pref s1 = of_pref ?t" "of_sufx s1 = of_sufx ?t" "of_symlink s1 = of_symlink ?t" "of_width s1 = word_of_nat w"
    using split_name_same [of str s t] by (simp_all add: s1 update_name_def)
  have uw: "unat (word_of_nat w :: u32) = w" using w(4) by (simp add: unat_word_of_nat)
  let ?l = "update_link True (update_name (s1\<lparr>of_index := i\<rparr>)) links"
  have lk: "?l (of_symlink ?t) = Some (of_pref ?t @ pad0 (unat (of_width ?t)) (unat i) @ of_sufx ?t)"
    using same by (simp add: update_link_def update_name_def)
  have mx: "of_max_count ?t = of_max_count s" using sp(3) [of t] assms(6) by simp
  have "read_link ?l ?t = (if i + 1 = of_max_count ?t then 0 else i + 1)"
    using assms(2,4,5) mx w uw sp(1,2) [of t] same by (intro read_link_next [where s = ?t and links = ?l and i = i] lk) simp_all
  moreover have "init_name ?l str t = Some (update_name (?t\<lparr>of_index := read_link ?l ?t\<rparr>))"
    using w(1) mx by (simp add: init_name_def Let_def)
  ultimately show ?thesis using mx by (simp add: update_name_def)
qed

theorem reopen_continues_numbering_witness:
  "let s = \<lparr>of_symlink = [], of_name = [], of_pref = [], of_sufx = [], of_index = 0, of_width = 0, of_max_count = 128\<rparr>
   in \<exists>s1 t1. init_name (\<lambda>_. None) ''log.#.txt'' s = Some s1
     \<and> init_name (update_link True (update_name (s1\<lparr>of_index := 41\<rparr>)) (\<lambda>_. None)) ''log.#.txt'' s = Some t1 \<and> of_index t1 = 42"
proof -
  let ?s = "\<lparr>of_symlink = [], of_name = [], of_pref = [], of_sufx = [], of_index = 0, of_width = 0, of_max_count = 128\<rparr>"
  have sp: "of_sufx (split_name ''log.#.txt'' ?s) = ''.txt''" "of_max_count (split_name ''log.#.txt'' ?s) = 128" by code_simp+
  obtain w where "index_width 128 10 1 = Some (word_of_nat w)" by (rule index_width_total [of 128]) simp_all
  then obtain s1 where s1: "init_name (\<lambda>_. None) ''log.#.txt'' ?s = Some s1" "of_sufx s1 = ''.txt''"
    using sp by (simp add: init_name_def Let_def update_name_def)
  have "\<exists>t1. init_name (update_link True (update_name (s1\<lparr>of_index := 41\<rparr>)) (\<lambda>_. None)) ''log.#.txt'' ?s = Some t1
    \<and> of_index t1 = (if 41 + 1 = of_max_count ?s then 0 else 41 + 1)"
    by (rule reopen_continues_numbering [OF _ _ s1(1)]) (simp_all add: s1(2) is_digit_def)
  then show ?thesis using s1(1) by (simp add: Let_def)
qed

text \<open>
  For the largest number of chunks the loop that counts the digits never ends: the power of
  ten wraps around to zero.
\<close>

lemma index_width_diverges: "init_name links str (s\<lparr>of_max_count := 0xffffffff\<rparr>) = None" for s :: of_names
proof -
  have m: "(0xffffffff :: u32) = - 1" by simp
  have "index_width (- 1) 10 1 = None"
    using index_width_runs_on [of "- 1" 10 1] by (cases "index_width (- 1) 10 1") auto
  then show ?thesis
    using split_name_parts(3) [of str "s\<lparr>of_max_count := 0xffffffff\<rparr>"] by (simp add: init_name_def Let_def m)
qed

end
