(* ===== verification/Rotation.thy ===== *)
theory Rotation
  imports Output_File
begin

text \<open>
  The running file output (\<^verbatim>\<open>src/output-file.cc\<close>): the writer, the helper thread that
  rotates, and the calls that change the name or end the output. \<open>of_thread\<close> is where the
  helper thread is; it holds the rotation mutex everywhere but before its start, while it
  waits and after its exit. A signal wakes the thread only if it waits at that moment.
  The format handler is given by the bytes of its header and footer for a name.
\<close>

section \<open>Definitions\<close>

text \<open>Files by number; opening for writing with creation and truncation.\<close>

record file_system =
  fs_data :: "nat \<Rightarrow> bytes"
  fs_dir :: "string \<Rightarrow> nat option"
  fs_free :: nat
  fs_links :: "string \<Rightarrow> string option"

definition fs_open :: "string \<Rightarrow> file_system \<Rightarrow> nat \<times> file_system" where
  "fs_open nm fs =
     (case fs_dir fs nm of
        Some k \<Rightarrow> (k, fs\<lparr>fs_data := (fs_data fs)(k := [])\<rparr>)
      | None \<Rightarrow> (fs_free fs, fs\<lparr>fs_data := (fs_data fs)(fs_free fs := []), fs_dir := (fs_dir fs)(nm \<mapsto> fs_free fs), fs_free := Suc (fs_free fs)\<rparr>))"

definition fs_append :: "nat \<Rightarrow> bytes \<Rightarrow> file_system \<Rightarrow> file_system" where
  "fs_append k d fs = fs\<lparr>fs_data := (fs_data fs)(k := fs_data fs k @ d)\<rparr>"

datatype rot_pc = R_init | R_waiting | R_rotating | R_opened nat | R_swapped nat | R_exited

record output_file = of_names +
  of_max_size :: u64
  of_fd :: nat
  of_size :: u64
  of_killed :: bool
  of_pending :: bool
  of_thread :: rot_pc
  of_signal :: bool
  of_fs :: file_system

definition mutex_free :: "output_file \<Rightarrow> bool" where
  "mutex_free s \<longleftrightarrow> of_thread s = R_init \<or> of_thread s = R_waiting \<or> of_thread s = R_exited"

definition send_signal :: "output_file \<Rightarrow> output_file" where
  "send_signal s = s\<lparr>of_signal := of_signal s \<or> of_thread s = R_waiting\<rparr>"

text \<open>
  \<^verbatim>\<open>writev\<close>: what of \<open>d\<close> the system writes, counting it, and waking the rotation thread
  when the chunk is full and its mutex is free. The result is the number of bytes, or -1.
\<close>

definition of_writev :: "io \<Rightarrow> bytes \<Rightarrow> output_file \<Rightarrow> int \<times> output_file" where
  "of_writev w d s =
     (case w of
        IoError _ \<Rightarrow> (- 1, s)
      | _ \<Rightarrow>
          (let n = (case w of Short n \<Rightarrow> min n (length d) | _ \<Rightarrow> length d);
               s = s\<lparr>of_fs := fs_append (of_fd s) (take n d) (of_fs s)\<rparr>
           in if n > 0
              then (let s = s\<lparr>of_size := of_size s + word_of_nat n\<rparr>
                    in if of_size s \<ge> of_max_size s \<and> \<not> of_pending s \<and> mutex_free s
                       then (int n, send_signal (s\<lparr>of_pending := True\<rparr>)) else (int n, s))
              else (int n, s)))"

definition of_write :: "io \<Rightarrow> bytes \<Rightarrow> output_file \<Rightarrow> int \<times> output_file" where
  "of_write w d s = of_writev w d s"

text \<open>
  The stream in front of it, \<^verbatim>\<open>ostrbuf_file\<close>; unlike a file descriptor it goes on after a
  failure. As there, the result of \<^verbatim>\<open>writev\<close> is cut to 32 bits before the comparison with zero.
\<close>

record ostrbuf_file = ostrbuf +
  fo_of :: output_file

definition file_do_flush :: "io \<Rightarrow> bytes \<Rightarrow> ostrbuf_file \<Rightarrow> ostrbuf_file" where
  "file_do_flush w data s =
     (let d = ob_buf s @ data;
          s = (if d \<noteq> []
               then (let (n, out) = of_writev w d (fo_of s); s = s\<lparr>fo_of := out\<rparr>
                     in if (word_of_int n :: u32) <s 0 then ob_failure (case w of IoError e \<Rightarrow> e | _ \<Rightarrow> ''Success'') s else s)
               else s)
      in ob_reset s)"

text \<open>
  The constructor, with the outcomes of starting the thread, of opening the file, of
  \<^verbatim>\<open>malloc\<close>, of creating the link, and of a write. The header of the first chunk goes into
  the buffer like all later data and reaches the file only when the buffer is flushed. The
  thread has been created when the rest runs.
\<close>

definition output_file_new ::
  "(string \<Rightarrow> bytes) \<Rightarrow> bool \<Rightarrow> bool \<Rightarrow> bool \<Rightarrow> bool \<Rightarrow> io \<Rightarrow> u64 \<Rightarrow> u64 \<Rightarrow> u32 \<Rightarrow> string \<Rightarrow> file_system
    \<Rightarrow> (string + ostrbuf_file) option" where
  "output_file_new header thread_ok open_ok malloc_ok link_ok w capacity max_size max_count filename fs =
     (let s = \<lparr>of_symlink = [], of_name = [], of_pref = [], of_sufx = [], of_index = 0, of_width = 0, of_max_count = max_count,
               of_max_size = max_size, of_fd = 0, of_size = 0, of_killed = False, of_pending = False,
               of_thread = R_init, of_signal = False, of_fs = fs\<rparr>
      in if \<not> thread_ok then Some (Inl ''hogl::output_file: failed to start helper thread.'')
         else do {
           s \<leftarrow> init_name (fs_links fs) filename s;
           if \<not> open_ok then Some (Inl ''hogl::output_file: failed open file'')
           else do {
             let (k, fs) = fs_open (of_name s) fs;
             let b = ostrbuf.extend (ob_new malloc_ok (ucast (ucast capacity :: u32))) (ostrbuf_file.fields (s\<lparr>of_fd := k, of_fs := fs\<rparr>));
             let b = ob_push (file_do_flush w) (header (of_name s)) b;
             let s = fo_of b;
             let fs = of_fs s;
             Some (Inr (b\<lparr>fo_of := s\<lparr>of_fs := fs\<lparr>fs_links := update_link link_ok s (fs_links fs)\<rparr>\<rparr>\<rparr>))
           }
         })"

text \<open>The thread: start, waking up, and the parts of \<^verbatim>\<open>do_rotate\<close> between which the writer can run.\<close>

definition thread_start :: "output_file \<Rightarrow> output_file" where
  "thread_start s = s\<lparr>of_thread := R_waiting\<rparr>"

definition thread_wake :: "output_file \<Rightarrow> output_file" where
  "thread_wake s =
     (let s = s\<lparr>of_signal := False\<rparr> in
      if of_killed s then s\<lparr>of_thread := R_exited\<rparr>
      else if of_pending s then s\<lparr>of_thread := R_rotating\<rparr>
      else s)"

definition rotate_end :: "output_file \<Rightarrow> output_file" where
  "rotate_end s = s\<lparr>of_pending := False, of_thread := R_waiting\<rparr>"

definition rotate_open :: "(string \<Rightarrow> bytes) \<Rightarrow> bool \<Rightarrow> bool \<Rightarrow> output_file \<Rightarrow> output_file" where
  "rotate_open header open_ok header_ok s =
     (let s = next_name s in
      if \<not> open_ok then rotate_end s
      else let (k, fs) = fs_open (of_name s) (of_fs s) in
        if \<not> header_ok then rotate_end (s\<lparr>of_fs := fs\<rparr>)
        else s\<lparr>of_fs := fs_append k (header (of_name s)) fs, of_thread := R_opened k\<rparr>)"

definition rotate_swap :: "nat \<Rightarrow> output_file \<Rightarrow> output_file" where
  "rotate_swap k s = s\<lparr>of_thread := R_swapped (of_fd s), of_fd := k, of_size := 0\<rparr>"

definition rotate_close :: "(string \<Rightarrow> bytes) \<Rightarrow> bool \<Rightarrow> nat \<Rightarrow> output_file \<Rightarrow> output_file" where
  "rotate_close footer link_ok k s =
     (let fs = of_fs s;
          fs = fs\<lparr>fs_links := update_link link_ok s (fs_links fs)\<rparr>;
          fs = fs_append k (footer (of_name s)) fs
      in rotate_end (s\<lparr>of_fs := fs\<rparr>))"

text \<open>The destructor sets the flag without a lock and then signals with the mutex held.\<close>

definition kill_flag :: "output_file \<Rightarrow> output_file" where
  "kill_flag s = s\<lparr>of_killed := True\<rparr>"

definition kill_thread :: "output_file \<Rightarrow> output_file" where
  "kill_thread s = send_signal (kill_flag s)"

definition switch_name :: "string \<Rightarrow> output_file \<Rightarrow> output_file option" where
  "switch_name filename s = do {
     s \<leftarrow> init_name (fs_links (of_fs s)) filename s;
     Some (send_signal (s\<lparr>of_pending := True\<rparr>))
   }"

text \<open>
  The steps the helper thread takes by itself, where a wait ends by a signal; and all steps of
  the output: those of the thread, a wait that ends without a signal, as
  \<^verbatim>\<open>pthread_cond_wait\<close> may, and the calls of the other threads.
\<close>

inductive thread_step :: "(string \<Rightarrow> bytes) \<Rightarrow> (string \<Rightarrow> bytes) \<Rightarrow> output_file \<Rightarrow> output_file \<Rightarrow> bool" for header footer where
  ts_start: "of_thread s = R_init \<Longrightarrow> thread_step header footer s (thread_start s)"
| ts_wake: "of_thread s = R_waiting \<Longrightarrow> of_signal s \<Longrightarrow> thread_step header footer s (thread_wake s)"
| ts_open: "of_thread s = R_rotating \<Longrightarrow> thread_step header footer s (rotate_open header ok ok' s)"
| ts_swap: "of_thread s = R_opened k \<Longrightarrow> thread_step header footer s (rotate_swap k s)"
| ts_close: "of_thread s = R_swapped k \<Longrightarrow> thread_step header footer s (rotate_close footer ok k s)"

inductive of_step :: "(string \<Rightarrow> bytes) \<Rightarrow> (string \<Rightarrow> bytes) \<Rightarrow> output_file \<Rightarrow> output_file \<Rightarrow> bool" for header footer where
  st_thread: "thread_step header footer s t \<Longrightarrow> of_step header footer s t"
| st_spurious: "of_thread s = R_waiting \<Longrightarrow> of_step header footer s (thread_wake s)"
| st_write: "of_step header footer s (snd (of_writev w d s))"
| st_kill: "of_step header footer s (kill_flag s)"
| st_signal: "mutex_free s \<Longrightarrow> of_killed s \<Longrightarrow> of_step header footer s (send_signal s)"
| st_switch: "mutex_free s \<Longrightarrow> switch_name filename s = Some t \<Longrightarrow> of_step header footer s t"

inductive_cases thread_stepE: "thread_step header footer s t"

section \<open>Runs and their chunks\<close>

text \<open>
  A run of the output with its history: the bytes that \<^verbatim>\<open>writev\<close> wrote so far, and the chunks, the
  current one first. A chunk has its file, the header the rotation put into it (none for the first
  chunk, whose header comes through the stream), the bytes written to it, and its age: how many
  rotations, failed or not, were tried since it became the current one. The names of the
  files start over after \<^verbatim>\<open>max_count\<close> of them.

  Two things are left out. A rotation that opens the chunk still in use: this takes
  \<open>max_count - 1\<close> failed rotations in a row, or a \<^verbatim>\<open>max_count\<close> of one, and destroys the chunk.
  And a new name, given by \<^verbatim>\<open>switch_name\<close>, whose numbered files are those of chunks written before.
\<close>

record chunk =
  ch_file :: nat
  ch_head :: bytes
  ch_data :: bytes
  ch_age :: nat

definition older :: "chunk \<Rightarrow> chunk" where
  "older c = c\<lparr>ch_age := Suc (ch_age c)\<rparr>"

text \<open>The name that is used after \<open>j\<close> more rotations.\<close>

definition nth_name :: "'a of_names_scheme \<Rightarrow> nat \<Rightarrow> string" where
  "nth_name s j = of_pref s @ pad0 (unat (of_width s)) ((unat (of_index s) + j) mod unat (of_max_count s)) @ of_sufx s"

text \<open>A directory without hard links.\<close>

definition fs_ok :: "file_system \<Rightarrow> bool" where
  "fs_ok fs \<longleftrightarrow> (\<forall>f k. fs_dir fs f = Some k \<longrightarrow> k < fs_free fs) \<and> (\<forall>f g k. fs_dir fs f = Some k \<longrightarrow> fs_dir fs g = Some k \<longrightarrow> f = g)"

inductive of_run :: "(string \<Rightarrow> bytes) \<Rightarrow> (string \<Rightarrow> bytes) \<Rightarrow> output_file \<Rightarrow> bytes \<Rightarrow> chunk list \<Rightarrow> bool" for header footer where
  ru_new: "fs_ok fs \<Longrightarrow> output_file_new first thread_ok open_ok malloc_ok link_ok w capacity max_size max_count filename fs = Some (Inr b)
    \<Longrightarrow> s = fo_of b \<Longrightarrow> c = fs_data (of_fs s) (of_fd s)
    \<Longrightarrow> of_run header footer s c [\<lparr>ch_file = of_fd s, ch_head = [], ch_data = c, ch_age = 0\<rparr>]"
| ru_write: "of_run header footer s ws (c # cs) \<Longrightarrow> of_writev w d s = (n, t)
    \<Longrightarrow> of_run header footer t (ws @ take (nat n) d) (c\<lparr>ch_data := ch_data c @ take (nat n) d\<rparr> # cs)"
| ru_start: "of_run header footer s ws cs \<Longrightarrow> of_thread s = R_init \<Longrightarrow> of_run header footer (thread_start s) ws cs"
| ru_wake: "of_run header footer s ws cs \<Longrightarrow> of_thread s = R_waiting \<Longrightarrow> of_run header footer (thread_wake s) ws cs"
| ru_open: "of_run header footer s ws (c # cs) \<Longrightarrow> of_thread s = R_rotating \<Longrightarrow> ok \<longrightarrow> Suc (ch_age c) < unat (of_max_count s)
    \<Longrightarrow> of_run header footer (rotate_open header ok ok' s) ws (map older (c # cs))"
| ru_swap: "of_run header footer s ws cs \<Longrightarrow> of_thread s = R_opened k
    \<Longrightarrow> of_run header footer (rotate_swap k s) ws (\<lparr>ch_file = k, ch_head = header (of_name s), ch_data = [], ch_age = 0\<rparr> # cs)"
| ru_close: "of_run header footer s ws cs \<Longrightarrow> of_thread s = R_swapped k \<Longrightarrow> of_run header footer (rotate_close footer ok k s) ws cs"
| ru_kill: "of_run header footer s ws cs \<Longrightarrow> of_run header footer (kill_flag s) ws cs"
| ru_signal: "of_run header footer s ws cs \<Longrightarrow> mutex_free s \<Longrightarrow> of_killed s \<Longrightarrow> of_run header footer (send_signal s) ws cs"
| ru_switch: "of_run header footer s ws cs \<Longrightarrow> mutex_free s \<Longrightarrow> switch_name filename s = Some t
    \<Longrightarrow> \<forall>c \<in> set cs. \<forall>j. fs_dir (of_fs t) (nth_name t j) \<noteq> Some (ch_file c) \<Longrightarrow> of_run header footer t ws cs"

text \<open>
  The files of the chunks: a header, the data, and a footer once the chunk is closed. A chunk is
  live until its name comes around; until then no rotation opens its file.
\<close>

definition chunk_file :: "(string \<Rightarrow> bytes) \<Rightarrow> output_file \<Rightarrow> chunk \<Rightarrow> bool" where
  "chunk_file footer s c \<longleftrightarrow> (\<exists>nm. fs_data (of_fs s) (ch_file c) = ch_head c @ ch_data c
     @ (if ch_file c = of_fd s \<or> of_thread s = R_swapped (ch_file c) then [] else footer nm))"

abbreviation max_chunks :: "output_file \<Rightarrow> nat" where
  "max_chunks s \<equiv> unat (of_max_count s)"

abbreviation live :: "output_file \<Rightarrow> chunk list \<Rightarrow> chunk list" where
  "live s cs \<equiv> filter (\<lambda>c. ch_age c < max_chunks s) cs"

definition reserved :: "output_file \<Rightarrow> nat \<Rightarrow> nat \<Rightarrow> bool" where
  "reserved s k age \<longleftrightarrow> (\<forall>j. 0 < j \<and> j + age < max_chunks s \<longrightarrow> fs_dir (of_fs s) (nth_name s j) \<noteq> Some k)"

definition chunk_ok :: "(string \<Rightarrow> bytes) \<Rightarrow> output_file \<Rightarrow> chunk \<Rightarrow> bool" where
  "chunk_ok footer s c \<longleftrightarrow> ch_file c < fs_free (of_fs s) \<and> chunk_file footer s c \<and> reserved s (ch_file c) (ch_age c)"

definition place_ok :: "(string \<Rightarrow> bytes) \<Rightarrow> output_file \<Rightarrow> chunk list \<Rightarrow> bool" where
  "place_ok header s cs \<longleftrightarrow>
     (\<forall>k. of_thread s = R_opened k \<longrightarrow> k < fs_free (of_fs s) \<and> k \<notin> ch_file ` set (live s cs)
        \<and> fs_data (of_fs s) k = header (of_name s) \<and> reserved s k 0 \<and> hd cs \<in> set (live s cs))
     \<and> (\<forall>k. of_thread s = R_swapped k \<longrightarrow> k \<in> ch_file ` set (live s (tl cs)))"

definition chunks_ok :: "(string \<Rightarrow> bytes) \<Rightarrow> (string \<Rightarrow> bytes) \<Rightarrow> output_file \<Rightarrow> chunk list \<Rightarrow> bool" where
  "chunks_ok header footer s cs \<longleftrightarrow> cs \<noteq> [] \<and> ch_file (hd cs) = of_fd s \<and> fs_ok (of_fs s)
     \<and> (\<forall>c \<in> set cs. ch_age (hd cs) \<le> ch_age c) \<and> distinct (map ch_file (live s cs))
     \<and> (0 < max_chunks s \<longrightarrow> of_index s < of_max_count s) \<and> (\<forall>c \<in> set (live s cs). chunk_ok footer s c)
     \<and> ch_head (last cs) = [] \<and> (\<forall>c \<in> set (butlast cs). \<exists>nm. ch_head c = header nm) \<and> place_ok header s cs"

text \<open>Steps that leave the files, the names and the thread's place alone, or move it between places of no concern.\<close>

definition quiet :: "output_file \<Rightarrow> bool" where
  "quiet s \<longleftrightarrow> (\<forall>k. of_thread s \<noteq> R_opened k \<and> of_thread s \<noteq> R_swapped k)"

lemma mutex_free_quiet: "mutex_free s \<Longrightarrow> quiet s"
  by (auto simp: mutex_free_def quiet_def)

lemma chunk_file_frame:
  "of_fs t = of_fs s \<Longrightarrow> of_fd t = of_fd s \<Longrightarrow> of_thread t = of_thread s \<or> quiet s \<and> quiet t
    \<Longrightarrow> chunk_file footer t c = chunk_file footer s c"
  by (auto simp: chunk_file_def quiet_def)

lemma chunks_ok_frame:
  assumes "chunks_ok header footer s cs" and "of_names.truncate t = of_names.truncate s" and "of_fs t = of_fs s" and "of_fd t = of_fd s"
    and "of_thread t = of_thread s \<or> quiet s \<and> quiet t"
  shows "chunks_ok header footer t cs"
proof -
  have n: "of_pref t = of_pref s" "of_sufx t = of_sufx s" "of_width t = of_width s" "of_index t = of_index s"
    "of_max_count t = of_max_count s" "of_name t = of_name s"
    using assms(2) by (simp_all add: of_names.defs)
  then have r: "reserved t k a = reserved s k a" for k a using assms(3) by (simp add: reserved_def nth_name_def)
  have p: "place_ok header t cs"
    using assms(5)
  proof
    assume "of_thread t = of_thread s"
    then show ?thesis using assms(1,3) n r by (simp add: chunks_ok_def place_ok_def)
  qed (simp add: quiet_def place_ok_def)
  have "chunk_ok footer t c = chunk_ok footer s c" for c
    using assms(3) r chunk_file_frame [OF assms(3-5)] by (simp add: chunk_ok_def)
  with p show ?thesis using assms(1,3,4) n by (simp add: chunks_ok_def)
qed

lemma chunks_okD: "chunks_ok header footer s cs \<Longrightarrow> c \<in> set cs \<Longrightarrow> ch_age c < max_chunks s \<Longrightarrow> chunk_ok footer s c"
  by (simp add: chunks_ok_def)

lemma init_name_frame:
  fixes s t :: output_file
  assumes "init_name links filename s = Some t"
  shows "of_fs t = of_fs s" "of_fd t = of_fd s" "of_thread t = of_thread s" "of_max_count t = of_max_count s" "of_signal t = of_signal s"
proof -
  have "of_fs (split_name filename s) = of_fs s" "of_fd (split_name filename s) = of_fd s" "of_thread (split_name filename s) = of_thread s"
    "of_max_count (split_name filename s) = of_max_count s" "of_signal (split_name filename s) = of_signal s"
    by (simp_all add: split_name_def Let_def split: option.split)
  then show "of_fs t = of_fs s" "of_fd t = of_fd s" "of_thread t = of_thread s" "of_max_count t = of_max_count s" "of_signal t = of_signal s"
    using assms by (auto simp: init_name_def update_name_def Let_def bind_eq_Some_conv)
qed

lemma next_name_frame [simp]:
  "of_fs (next_name s) = of_fs s" "of_fd (next_name s) = of_fd s" "of_thread (next_name s) = of_thread s"
  "of_max_count (next_name s) = of_max_count s" for s :: output_file
  by (simp_all add: next_name_def update_name_def Let_def)

subsection \<open>The numbers of the chunks\<close>

lemma next_index:
  assumes "of_index s < of_max_count s"
  shows "unat (of_index (next_name s)) = Suc (unat (of_index s)) mod unat (of_max_count s)"
proof -
  have i: "unat (of_index s) < unat (of_max_count s)" using assms by (simp add: word_less_nat_alt)
  then have u: "unat (of_index s + 1) = Suc (unat (of_index s))"
    using unat_less [of "of_max_count s"] by (simp add: unat_word_ariths)
  show ?thesis
  proof (cases "of_index s + 1 \<ge> of_max_count s")
    case True
    then have "Suc (unat (of_index s)) = unat (of_max_count s)" using i u by (simp add: word_le_nat_alt)
    with True show ?thesis by (simp add: next_name_def update_name_def)
  next
    case False
    then have "Suc (unat (of_index s)) < unat (of_max_count s)" using u by (simp add: word_le_nat_alt)
    with False u show ?thesis by (simp add: next_name_def update_name_def Let_def)
  qed
qed

lemma next_name_nth:
  assumes "of_index s < of_max_count s"
  shows "of_name (next_name s) = nth_name s 1" and "nth_name (next_name s) j = nth_name s (Suc j)"
    and "of_index (next_name s) < of_max_count s"
proof -
  have f: "of_pref (next_name s) = of_pref s" "of_width (next_name s) = of_width s" "of_sufx (next_name s) = of_sufx s"
    "of_max_count (next_name s) = of_max_count s"
    "of_name (next_name s) = of_pref s @ pad0 (unat (of_width s)) (unat (of_index (next_name s))) @ of_sufx s"
    by (simp_all add: next_name_def update_name_def Let_def)
  note i = next_index [OF assms]
  show "of_name (next_name s) = nth_name s 1" by (simp add: f i nth_name_def)
  have "(Suc (unat (of_index s)) mod unat (of_max_count s) + j) mod unat (of_max_count s) = (unat (of_index s) + Suc j) mod unat (of_max_count s)"
    by (simp add: mod_add_left_eq)
  then show "nth_name (next_name s) j = nth_name s (Suc j)" by (simp add: f i nth_name_def)
  have "0 < unat (of_max_count s)" using assms by (simp add: word_less_nat_alt)
  then show "of_index (next_name s) < of_max_count s" by (simp add: word_less_nat_alt i)
qed

lemma nth_name_inj:
  assumes "nth_name s i = nth_name s j" and "i < j" and "j < i + unat (of_max_count s)"
  shows False
proof -
  let ?m = "unat (of_max_count s)" and ?x = "unat (of_index s)"
  have "pad0 (unat (of_width s)) ((?x + i) mod ?m) = pad0 (unat (of_width s)) ((?x + j) mod ?m)"
    using assms(1) by (simp add: nth_name_def)
  then have "(?x + i) mod ?m = (?x + j) mod ?m" by (metis undec_pad0)
  then have "?m dvd nat \<bar>int (?x + i) - int (?x + j)\<bar>" by (simp only: mod_eq_iff_dvd_symdiff_nat)
  moreover have "nat \<bar>int (?x + i) - int (?x + j)\<bar> = j - i" using assms(2) by linarith
  ultimately have "?m \<le> j - i" using assms(2) by (intro dvd_imp_le) auto
  with assms(2,3) show False by linarith
qed

lemma read_link_less:
  assumes "0 < unat (of_max_count s)"
  shows "read_link links s < of_max_count s"
proof -
  have z: "0 < of_max_count s" using assms by (simp add: word_less_nat_alt)
  have c: "ucast i < of_max_count s" if "\<not> ucast (of_max_count s) \<le> i" for i :: u64
  proof -
    have "unat (ucast (of_max_count s) :: u64) = unat (of_max_count s)"
      using unat_less [of "of_max_count s"] by (simp add: unsigned_ucast_eq take_bit_nat_eq_self)
    then have "unat i < unat (of_max_count s)" using that by (simp add: word_le_nat_alt)
    moreover have "unat (ucast i :: u32) \<le> unat i" by (simp add: unsigned_ucast_eq)
    ultimately show ?thesis by (simp add: word_less_nat_alt)
  qed
  show ?thesis
    by (simp add: read_link_def Let_def z c split: option.split)
qed

lemma init_name_index:
  assumes "init_name links filename s = Some t"
  shows "0 < unat (of_max_count t) \<longrightarrow> of_index t < of_max_count t" and "of_name t = of_name (update_name t)"
proof -
  obtain w where t: "t = update_name ((split_name filename s)\<lparr>of_width := w, of_index := read_link links ((split_name filename s)\<lparr>of_width := w\<rparr>)\<rparr>)"
    using assms by (auto simp: init_name_def bind_eq_Some_conv Let_def)
  show "0 < unat (of_max_count t) \<longrightarrow> of_index t < of_max_count t"
    using read_link_less [of "(split_name filename s)\<lparr>of_width := w\<rparr>" links] by (simp add: t update_name_def)
  show "of_name t = of_name (update_name t)" by (simp add: t update_name_def)
qed

subsection \<open>The invariant\<close>

text \<open>Writing appends to the current file.\<close>

lemma of_writev_effect:
  assumes "of_writev w d s = (n, t)"
  shows "of_fs t = fs_append (of_fd s) (take (nat n) d) (of_fs s)" and "of_fd t = of_fd s" and "of_thread t = of_thread s"
    and "of_names.truncate t = of_names.truncate s"
  using assms by (auto simp: of_writev_def send_signal_def Let_def fs_append_def of_names.defs split: io.splits if_splits)

lemma fs_append_fields [simp]:
  "fs_dir (fs_append k d fs) = fs_dir fs" "fs_free (fs_append k d fs) = fs_free fs" "fs_links (fs_append k d fs) = fs_links fs"
  "fs_data (fs_append k d fs) j = (if j = k then fs_data fs k @ d else fs_data fs j)"
  by (simp_all add: fs_append_def)

lemma fs_ok_append [simp]: "fs_ok (fs_append k d fs) = fs_ok fs"
  by (simp add: fs_ok_def)

lemma same_names:
  fixes s t :: output_file
  assumes "of_names.truncate t = of_names.truncate s"
  shows "of_pref t = of_pref s" "of_sufx t = of_sufx s" "of_width t = of_width s" "of_index t = of_index s"
    "of_max_count t = of_max_count s" "of_name t = of_name s" "nth_name t = nth_name s"
  using assms by (simp_all add: of_names.defs nth_name_def fun_eq_iff)

lemma reserved_same:
  "of_names.truncate t = of_names.truncate s \<Longrightarrow> fs_dir (of_fs t) = fs_dir (of_fs s) \<Longrightarrow> reserved t k a = reserved s k a"
  using same_names [of t s] by (simp add: reserved_def)

text \<open>The current file belongs to no other live chunk.\<close>

lemma others_elsewhere:
  assumes "chunks_ok header footer s (c # cs)" and "c' \<in> set (live s cs)"
  shows "ch_file c' \<noteq> of_fd s"
proof -
  have "ch_age c < max_chunks s" using assms by (auto simp: chunks_ok_def)
  with assms show ?thesis by (force simp: chunks_ok_def)
qed

lemma chunks_ok_write:
  assumes ok: "chunks_ok header footer s (c # cs)" and fs: "of_fs t = fs_append (of_fd s) d (of_fs s)" "of_fd t = of_fd s"
    "of_thread t = of_thread s" "of_names.truncate t = of_names.truncate s"
  shows "chunks_ok header footer t (c\<lparr>ch_data := ch_data c @ d\<rparr> # cs)"
proof -
  note n = same_names [OF fs(4)]
  have r: "reserved t k a = reserved s k a" for k a by (rule reserved_same) (use fs in simp_all)
  have c: "ch_file c = of_fd s" using ok by (simp add: chunks_ok_def)
  have "chunk_ok footer t (c\<lparr>ch_data := ch_data c @ d\<rparr>)" if "ch_age c < max_chunks s"
    using chunks_okD [OF ok _ that] c fs r by (auto simp: chunk_ok_def chunk_file_def)
  moreover have "chunk_ok footer t c'" if "c' \<in> set (live s cs)" for c'
    using chunks_okD [OF ok, of c'] that others_elsewhere [OF ok that] fs r by (simp add: chunk_ok_def chunk_file_def)
  moreover have "place_ok header t (c\<lparr>ch_data := ch_data c @ d\<rparr> # cs)"
    using ok fs n r c by (auto simp: chunks_ok_def place_ok_def)
  ultimately show ?thesis
    using ok fs n c by (auto simp: chunks_ok_def split: if_splits)
qed

lemma fs_open_effect:
  assumes "fs_open nm fs = (k, fs')" and "fs_ok fs"
  shows "fs_ok fs'" and "fs_dir fs' = (fs_dir fs)(nm \<mapsto> k)" and "fs_data fs' = (fs_data fs)(k := [])"
    and "k < fs_free fs'" and "fs_free fs \<le> fs_free fs'" and "fs_dir fs nm = Some k \<or> k = fs_free fs"
  using assms by (auto simp: fs_open_def fs_ok_def less_Suc_eq split: option.splits if_splits) (use less_irrefl in blast)+

lemma reserved_next:
  assumes "of_index s < of_max_count s" and "fs_dir (of_fs t) = fs_dir (of_fs s)" and "of_names.truncate t = of_names.truncate (next_name s)"
    and "reserved s k a"
  shows "reserved t k (Suc a)"
  using assms next_name_nth(2) [OF assms(1)] same_names(5,7) [OF assms(3)] by (simp add: reserved_def)

text \<open>What a rotation leaves alone: all files but the one it opens.\<close>

lemma live_older: "c \<in> set (live s (map older cs)) \<longleftrightarrow> (\<exists>c0 \<in> set cs. c = older c0 \<and> Suc (ch_age c0) < max_chunks s)"
  by (auto simp: older_def)

lemma older_fields [simp]:
  "ch_file (older c) = ch_file c" "ch_head (older c) = ch_head c" "ch_data (older c) = ch_data c" "ch_age (older c) = Suc (ch_age c)"
  by (simp_all add: older_def)

lemma distinct_live_older:
  assumes "distinct (map ch_file (live s cs))"
  shows "distinct (map ch_file (live s (map older cs)))"
proof -
  have "set (live s (map older cs)) = older ` {c \<in> set cs. Suc (ch_age c) < max_chunks s}" for cs by auto
  with assms show ?thesis
  proof (induction cs)
    case (Cons c cs)
    then have IH: "distinct (map ch_file (live s (map older cs)))" by (simp split: if_splits)
    show ?case
    proof (cases "Suc (ch_age c) < max_chunks s")
      case True
      then have "ch_file c \<notin> ch_file ` {c \<in> set cs. ch_age c < max_chunks s}" using Cons.prems(1) by simp
      then have "ch_file c \<notin> ch_file ` set (live s (map older cs))" unfolding Cons.prems(2) by force
      with True IH show ?thesis by simp
    qed (use IH in simp)
  qed simp
qed

lemma chunks_ok_older:
  assumes ok: "chunks_ok header footer s cs" and t: "of_fd t = of_fd s" "of_max_count t = of_max_count s" "fs_ok (of_fs t)"
    "0 < max_chunks s \<Longrightarrow> of_index t < of_max_count t"
    and c: "\<And>c. c \<in> set cs \<Longrightarrow> Suc (ch_age c) < max_chunks s \<Longrightarrow> chunk_ok footer t (older c)"
    and p: "place_ok header t (map older cs)"
  shows "chunks_ok header footer t (map older cs)"
proof -
  have "hd (map older cs) = older (hd cs)" "last (map older cs) = older (last cs)" using ok by (simp_all add: chunks_ok_def hd_map last_map)
  moreover have "\<forall>c \<in> set (live t (map older cs)). chunk_ok footer t c" using c t(2) by auto
  moreover have "distinct (map ch_file (live t (map older cs)))" using distinct_live_older ok t(2) by (simp add: chunks_ok_def)
  ultimately show ?thesis using ok t p by (simp add: chunks_ok_def map_butlast [symmetric])
qed

lemma chunks_ok_failed_open:
  assumes ok: "chunks_ok header footer s cs" and r: "of_thread s = R_rotating"
  shows "chunks_ok header footer (rotate_end (next_name s)) (map older cs)"
proof (rule chunks_ok_older [OF ok])
  let ?t = "rotate_end (next_name s)"
  have t: "of_names.truncate ?t = of_names.truncate (next_name s)" by (simp add: rotate_end_def of_names.defs)
  have idx: "of_index s < of_max_count s" if "0 < max_chunks s" using ok that by (simp add: chunks_ok_def)
  show "of_fd ?t = of_fd s" "of_max_count ?t = of_max_count s" "fs_ok (of_fs ?t)" using ok by (simp_all add: rotate_end_def chunks_ok_def)
  show "of_index ?t < of_max_count ?t" if "0 < max_chunks s"
    using next_name_nth(3) [OF idx [OF that]] by (simp add: rotate_end_def)
  show "place_ok header ?t (map older cs)" by (simp add: place_ok_def rotate_end_def)
  fix c assume c: "c \<in> set cs" "Suc (ch_age c) < max_chunks s"
  then have "chunk_ok footer s c" using chunks_okD [OF ok c(1)] by simp
  moreover have "of_index s < of_max_count s" using idx c(2) by simp
  ultimately show "chunk_ok footer ?t (older c)"
    using reserved_next [of s ?t] t r by (auto simp: chunk_ok_def chunk_file_def rotate_end_def)
qed

text \<open>The file of a live chunk is not the one that is opened next.\<close>

lemma chunk_ok_opened:
  assumes idx: "of_index s < of_max_count s" and fs: "fs_ok (of_fs s)" and o: "fs_open (nth_name s 1) (of_fs s) = (k, fs)"
    and c: "chunk_ok footer s c" "Suc (ch_age c) < max_chunks s" and r: "of_thread s = R_rotating"
    and t: "of_names.truncate t = of_names.truncate (next_name s)" "of_fd t = of_fd s" "fs_dir (of_fs t) = fs_dir fs" "fs_free (of_fs t) = fs_free fs"
      "\<And>j. j \<noteq> k \<Longrightarrow> fs_data (of_fs t) j = fs_data fs j" "\<forall>k. of_thread t \<noteq> R_swapped k"
  shows "chunk_ok footer t (older c)" and "ch_file c \<noteq> k"
proof -
  note e = fs_open_effect [OF o fs]
  have r1: "fs_dir (of_fs s) (nth_name s 1) \<noteq> Some (ch_file c)" using c by (auto simp: chunk_ok_def reserved_def)
  have lt: "ch_file c < fs_free (of_fs s)" using c by (simp add: chunk_ok_def)
  with r1 e(6) show nk: "ch_file c \<noteq> k" by auto
  have "reserved t (ch_file c) (Suc (ch_age c))"
    unfolding reserved_def
  proof (intro allI impI)
    fix j assume j: "0 < j \<and> j + Suc (ch_age c) < max_chunks t"
    then have "fs_dir (of_fs s) (nth_name s (Suc j)) \<noteq> Some (ch_file c)"
      using c(1) same_names(5) [OF t(1)] by (auto simp: chunk_ok_def reserved_def)
    then show "fs_dir (of_fs t) (nth_name t j) \<noteq> Some (ch_file c)"
      using nk e(2) t(3) next_name_nth(2) [OF idx] same_names(7) [OF t(1)] by simp
  qed
  moreover have "chunk_file footer t (older c)"
    using c(1) nk e(3) t(2,5,6) r by (simp add: chunk_ok_def chunk_file_def)
  ultimately show "chunk_ok footer t (older c)" using lt e(5) t(4) by (simp add: chunk_ok_def)
qed

lemma chunks_ok_open:
  assumes ok: "chunks_ok header footer s (c # cs)" and r: "of_thread s = R_rotating" and age: "Suc (ch_age c) < max_chunks s"
  shows "chunks_ok header footer (rotate_open header True ok' s) (map older (c # cs))"
proof -
  let ?t = "rotate_open header True ok' s"
  have idx: "of_index s < of_max_count s" and fs: "fs_ok (of_fs s)" using ok age by (auto simp: chunks_ok_def)
  note nn = next_name_nth [OF idx]
  obtain k fs' where o: "fs_open (nth_name s 1) (of_fs s) = (k, fs')" by fastforce
  note e = fs_open_effect [OF o fs]
  have t: "of_names.truncate ?t = of_names.truncate (next_name s)" "of_fd ?t = of_fd s" "fs_dir (of_fs ?t) = fs_dir fs'"
    "fs_free (of_fs ?t) = fs_free fs'" "\<And>j. j \<noteq> k \<Longrightarrow> fs_data (of_fs ?t) j = fs_data fs' j" "\<forall>k. of_thread ?t \<noteq> R_swapped k"
    "fs_ok (of_fs ?t)" "\<And>j. of_thread ?t = R_opened j \<Longrightarrow> j = k \<and> fs_data (of_fs ?t) k = header (of_name ?t)"
    using o e(1,3) nn(1) by (auto simp: rotate_open_def rotate_end_def Let_def of_names.defs split: if_splits)
  have m: "max_chunks ?t = max_chunks s" using same_names(5) [OF t(1)] by simp
  note c = chunk_ok_opened [OF idx fs o _ _ r t(1-6)]
  have "reserved ?t k 0"
    unfolding reserved_def
  proof (intro allI impI notI)
    fix j assume j: "0 < j \<and> j + 0 < max_chunks ?t" and d: "fs_dir (of_fs ?t) (nth_name ?t j) = Some k"
    have "fs_dir fs' (nth_name s (Suc j)) = Some k" "fs_dir fs' (nth_name s 1) = Some k"
      using d t(3) nn(2) same_names(7) [OF t(1)] e(2) by simp_all
    then have "nth_name s (Suc j) = nth_name s 1" using e(1) unfolding fs_ok_def by blast
    then show False using nth_name_inj [of s 1 "Suc j"] j m by simp
  qed
  moreover have "k \<notin> ch_file ` set (live ?t (map older (c # cs)))"
  proof
    assume "k \<in> ch_file ` set (live ?t (map older (c # cs)))"
    then obtain x where "x \<in> set (live s (map older (c # cs)))" "k = ch_file x" unfolding m by blast
    then obtain c' where c': "c' \<in> set (c # cs)" "Suc (ch_age c') < max_chunks s" "k = ch_file c'" unfolding live_older by force
    then have "chunk_ok footer s c'" using chunks_okD [OF ok, of c'] by simp
    then show False using c(2) c'(2,3) by blast
  qed
  ultimately have "place_ok header ?t (map older (c # cs))"
    using t(4,6,8) e(4) age m unfolding place_ok_def by auto
  moreover have "of_index ?t < of_max_count ?t" using nn(3) same_names(4,5) [OF t(1)] by simp
  moreover have "chunk_ok footer ?t (older c')" if "c' \<in> set (c # cs)" "Suc (ch_age c') < max_chunks s" for c'
    using c(1) chunks_okD [OF ok that(1)] that(2) by simp
  ultimately show ?thesis by (intro chunks_ok_older [OF ok] t(2,7)) (use same_names(5) [OF t(1)] in simp_all)
qed

lemma chunks_ok_swap:
  assumes ok: "chunks_ok header footer s cs" and r: "of_thread s = R_opened k"
  shows "chunks_ok header footer (rotate_swap k s) (\<lparr>ch_file = k, ch_head = header (of_name s), ch_data = [], ch_age = 0\<rparr> # cs)"
proof -
  let ?t = "rotate_swap k s" and ?c = "\<lparr>ch_file = k, ch_head = header (of_name s), ch_data = [], ch_age = 0\<rparr>"
  have t: "of_fs ?t = of_fs s" "of_fd ?t = k" "of_thread ?t = R_swapped (of_fd s)" "of_names.truncate ?t = of_names.truncate s"
    by (simp_all add: rotate_swap_def of_names.defs)
  note n = same_names [OF t(4)]
  have rs: "reserved ?t j a = reserved s j a" for j a by (rule reserved_same) (use t in simp_all)
  have k: "k < fs_free (of_fs s)" "k \<notin> ch_file ` set (live s cs)" "fs_data (of_fs s) k = header (of_name s)" "reserved s k 0"
    "hd cs \<in> set (live s cs)" "cs \<noteq> []" "ch_file (hd cs) = of_fd s" "ch_head (last cs) = []"
    using ok r by (auto simp: chunks_ok_def place_ok_def)
  have "chunk_ok footer ?t c" if c: "c \<in> set (live s cs)" for c
  proof -
    have "ch_file c \<noteq> k" using c k(2) by blast
    moreover have "chunk_ok footer s c" using chunks_okD [OF ok, of c] c by simp
    ultimately show ?thesis using t r rs by (simp add: chunk_ok_def chunk_file_def eq_commute [of "of_fd s"])
  qed
  moreover have "chunk_ok footer ?t ?c" using t k(1,3,4) rs by (simp add: chunk_ok_def chunk_file_def)
  moreover have "place_ok header ?t (?c # cs)" using t n k(5,7) by (force simp: place_ok_def)
  moreover have "distinct (map ch_file (live ?t (?c # cs)))" using ok k(2) n by (simp add: chunks_ok_def)
  moreover have "\<forall>c \<in> set (butlast (?c # cs)). \<exists>nm. ch_head c = header nm" using ok k(6) by (auto simp: chunks_ok_def)
  ultimately show ?thesis using ok t n k(6,8) unfolding chunks_ok_def by simp
qed

lemma chunks_ok_close:
  assumes ok: "chunks_ok header footer s cs" and r: "of_thread s = R_swapped k"
  shows "chunks_ok header footer (rotate_close footer ok' k s) cs"
proof -
  let ?t = "rotate_close footer ok' k s"
  have t: "of_fd ?t = of_fd s" "of_thread ?t = R_waiting" "fs_dir (of_fs ?t) = fs_dir (of_fs s)" "fs_free (of_fs ?t) = fs_free (of_fs s)"
    "\<And>j. fs_data (of_fs ?t) j = (if j = k then fs_data (of_fs s) k @ footer (of_name s) else fs_data (of_fs s) j)"
    "of_names.truncate ?t = of_names.truncate s"
    by (simp_all add: rotate_close_def rotate_end_def Let_def of_names.defs)
  note n = same_names [OF t(6)]
  have rs: "reserved ?t j a = reserved s j a" for j a by (rule reserved_same) (use t in simp_all)
  obtain c0 cs' where cs: "cs = c0 # cs'" using ok by (cases cs) (auto simp: chunks_ok_def)
  have "k \<in> ch_file ` set (live s cs')" using ok r cs by (simp add: chunks_ok_def place_ok_def)
  then have k: "k \<noteq> of_fd s" using others_elsewhere [OF ok [unfolded cs]] by auto
  have "chunk_ok footer ?t c" if c: "c \<in> set (live s cs)" for c
  proof -
    have "chunk_ok footer s c" using chunks_okD [OF ok, of c] c by simp
    then obtain nm where e: "fs_data (of_fs s) (ch_file c) = ch_head c @ ch_data c @ (if ch_file c = of_fd s \<or> ch_file c = k then [] else footer nm)"
      "ch_file c < fs_free (of_fs s)" "reserved s (ch_file c) (ch_age c)"
      unfolding chunk_ok_def chunk_file_def r rot_pc.inject eq_commute [of k "ch_file c"] by blast
    have "chunk_file footer ?t c" unfolding chunk_file_def
      by (rule exI [of _ "if ch_file c = k then of_name s else nm"]) (use e t k in \<open>auto split: if_splits\<close>)
    then show ?thesis using e t rs by (simp add: chunk_ok_def)
  qed
  moreover have "fs_ok (of_fs ?t)" using ok t by (simp add: chunks_ok_def fs_ok_def)
  moreover have "place_ok header ?t cs" using t by (simp add: place_ok_def)
  ultimately show ?thesis using ok t n by (simp add: chunks_ok_def)
qed

text \<open>Pushing data into the stream writes to the current file at most.\<close>

definition same_place :: "output_file \<Rightarrow> output_file \<Rightarrow> bool" where
  "same_place s t \<longleftrightarrow> of_names.truncate t = of_names.truncate s \<and> of_fd t = of_fd s \<and> of_thread t = of_thread s
     \<and> fs_dir (of_fs t) = fs_dir (of_fs s) \<and> fs_free (of_fs t) = fs_free (of_fs s)
     \<and> (of_thread s \<noteq> R_waiting \<longrightarrow> of_signal t = of_signal s)"

lemma same_place_writev: "of_writev w d s = (n, t) \<Longrightarrow> same_place s t"
  by (auto simp: same_place_def of_writev_def send_signal_def Let_def of_names.defs split: io.splits if_splits)

lemma same_place_push: "same_place (fo_of b) (fo_of (ob_push (file_do_flush w) d b))"
proof -
  obtain m out where e: "of_writev w (ob_buf b @ d) (fo_of b) = (m, out)" by fastforce
  have "fo_of (ob_push (file_do_flush w) d b) \<in> {fo_of b, out}"
    by (simp add: ob_push_def ob_do_copy_def file_do_flush_def e Let_def ob_reset_def ob_failure_def)
  with same_place_writev [OF e] show ?thesis by (auto simp: same_place_def)
qed

lemma output_file_new_ok:
  assumes "output_file_new first thread_ok open_ok malloc_ok link_ok w capacity max_size max_count filename fs = Some (Inr b)" and "fs_ok fs"
  defines "s \<equiv> fo_of b"
  shows "of_thread s = R_init" and "fs_ok (of_fs s)" and "fs_dir (of_fs s) (of_name s) = Some (of_fd s)"
    and "of_name s = of_name (update_name s)" and "0 < max_chunks s \<longrightarrow> of_index s < of_max_count s" and "\<not> of_signal s"
proof -
  let ?s0 = "\<lparr>of_symlink = [], of_name = [], of_pref = [], of_sufx = [], of_index = 0, of_width = 0, of_max_count = max_count,
               of_max_size = max_size, of_fd = 0, of_size = 0, of_killed = False, of_pending = False,
               of_thread = R_init, of_signal = False, of_fs = fs\<rparr>"
  obtain s1 where s1: "init_name (fs_links fs) filename ?s0 = Some s1"
    using assms(1) by (auto simp: output_file_new_def Let_def bind_eq_Some_conv split: if_splits)
  obtain k fs1 where o: "fs_open (of_name s1) fs = (k, fs1)" by fastforce
  define b1 where "b1 = ostrbuf.extend (ob_new malloc_ok (ucast (ucast capacity :: u32))) (ostrbuf_file.fields (s1\<lparr>of_fd := k, of_fs := fs1\<rparr>))"
  define u where "u = fo_of (ob_push (file_do_flush w) (first (of_name s1)) b1)"
  have "b = (ob_push (file_do_flush w) (first (of_name s1)) b1)\<lparr>fo_of := u\<lparr>of_fs := (of_fs u)\<lparr>fs_links := update_link link_ok u (fs_links (of_fs u))\<rparr>\<rparr>\<rparr>"
    using assms(1) s1 o by (simp add: output_file_new_def Let_def u_def b1_def split: if_splits)
  then have "s = u\<lparr>of_fs := (of_fs u)\<lparr>fs_links := update_link link_ok u (fs_links (of_fs u))\<rparr>\<rparr>" by (simp add: s_def)
  moreover have "same_place (s1\<lparr>of_fd := k, of_fs := fs1\<rparr>) u"
    using same_place_push [of b1 w "first (of_name s1)"] by (simp add: u_def b1_def ostrbuf.defs ostrbuf_file.defs)
  ultimately have u: "same_place (s1\<lparr>of_fd := k, of_fs := fs1\<rparr>) u" "\<exists>links. s = u\<lparr>of_fs := (of_fs u)\<lparr>fs_links := links\<rparr>\<rparr>" by blast+
  note i = init_name_frame [OF s1] and x = init_name_index [OF s1] and e = fs_open_effect [OF o assms(2)]
  have sp: "of_names.truncate s = of_names.truncate s1" "of_fd s = k" "of_thread s = R_init" "fs_dir (of_fs s) = fs_dir fs1"
    "fs_free (of_fs s) = fs_free fs1" "\<not> of_signal s"
    using u i by (auto simp: same_place_def of_names.defs)
  note n = same_names [OF sp(1)]
  show "of_thread s = R_init" "\<not> of_signal s" by (rule sp)+
  show "fs_ok (of_fs s)" using e(1) sp(4,5) by (simp add: fs_ok_def)
  show "fs_dir (of_fs s) (of_name s) = Some (of_fd s)" using e(2) sp(2,4) n by simp
  show "of_name s = of_name (update_name s)" using x(2) n by (simp add: update_name_def)
  show "0 < max_chunks s \<longrightarrow> of_index s < of_max_count s" using x(1) n by simp
qed

lemma chunks_ok_new:
  assumes "output_file_new first thread_ok open_ok malloc_ok link_ok w capacity max_size max_count filename fs = Some (Inr b)" and "fs_ok fs"
    and "s = fo_of b" and "c = fs_data (of_fs s) (of_fd s)"
  shows "chunks_ok header footer s [\<lparr>ch_file = of_fd s, ch_head = [], ch_data = c, ch_age = 0\<rparr>]"
proof -
  note o = output_file_new_ok [OF assms(1,2), folded assms(3)]
  have "of_fd s < fs_free (of_fs s)" using o(2,3) by (auto simp: fs_ok_def)
  moreover have "reserved s (of_fd s) 0" if m: "0 < max_chunks s"
    unfolding reserved_def
  proof (intro allI impI notI)
    fix j assume j: "0 < j \<and> j + 0 < max_chunks s" and d: "fs_dir (of_fs s) (nth_name s j) = Some (of_fd s)"
    have "unat (of_index s) < max_chunks s" using o(5) m by (simp add: word_less_nat_alt)
    then have "of_name s = nth_name s 0" unfolding o(4) by (simp add: nth_name_def update_name_def)
    then have "nth_name s 0 = nth_name s j" using o(2,3) d unfolding fs_ok_def by metis
    then show False using nth_name_inj [of s 0 j] j by simp
  qed
  ultimately show ?thesis
    using o assms(4) by (auto simp: chunks_ok_def chunk_ok_def chunk_file_def place_ok_def)
qed

lemma chunks_ok_switch:
  assumes ok: "chunks_ok header footer s cs" and "mutex_free s" and sw: "switch_name filename s = Some t"
    and new: "\<forall>c \<in> set cs. \<forall>j. fs_dir (of_fs t) (nth_name t j) \<noteq> Some (ch_file c)"
  shows "chunks_ok header footer t cs"
proof -
  obtain u where u: "init_name (fs_links (of_fs s)) filename s = Some u" "t = send_signal (u\<lparr>of_pending := True\<rparr>)"
    using sw by (auto simp: switch_name_def bind_eq_Some_conv)
  note i = init_name_frame [OF u(1)] and x = init_name_index(1) [OF u(1)]
  have t: "of_fs t = of_fs s" "of_fd t = of_fd s" "of_thread t = of_thread s" "of_max_count t = of_max_count s"
    "0 < max_chunks t \<longrightarrow> of_index t < of_max_count t"
    using i x u(2) by (simp_all add: send_signal_def)
  have "quiet t" using mutex_free_quiet [OF assms(2)] t(3) by (simp add: quiet_def)
  then have "place_ok header t cs" by (simp add: quiet_def place_ok_def)
  moreover have "chunk_ok footer t c" if "c \<in> set (live s cs)" for c
    using chunks_okD [OF ok, of c] that new t by (simp add: chunk_ok_def chunk_file_def reserved_def)
  ultimately show ?thesis using ok t by (simp add: chunks_ok_def)
qed

lemma of_run_chunks:
  assumes "of_run header footer s ws cs"
  shows "chunks_ok header footer s cs \<and> ws = concat (map ch_data (rev cs))"
  using assms
proof (induction rule: of_run.induct)
  case ru_new
  then show ?case using chunks_ok_new by fastforce
next
  case (ru_write s ws c cs w d n t)
  note e = of_writev_effect [OF ru_write.hyps(2)]
  show ?case using chunks_ok_write [OF _ e] ru_write.IH by simp
next
  case (ru_open s ws c cs ok ok')
  have "chunks_ok header footer (rotate_open header ok ok' s) (map older (c # cs))"
  proof (cases ok)
    case True
    then show ?thesis using ru_open chunks_ok_open [of header footer s c cs ok'] by simp
  next
    case False
    then show ?thesis using ru_open.IH ru_open.hyps(2) chunks_ok_failed_open [of header footer s "c # cs"] by (simp add: rotate_open_def Let_def)
  qed
  with ru_open.IH show ?case by (simp add: rev_map comp_def)
next
  case (ru_swap s ws cs k)
  then show ?case using chunks_ok_swap by simp
next
  case (ru_close s ws cs k ok)
  then show ?case using chunks_ok_close by blast
next
  case (ru_start s ws cs)
  then show ?case using chunks_ok_frame [of header footer s cs "thread_start s"] by (simp add: thread_start_def quiet_def of_names.defs)
next
  case (ru_wake s ws cs)
  then show ?case using chunks_ok_frame [of header footer s cs "thread_wake s"] by (simp add: thread_wake_def Let_def quiet_def of_names.defs)
next
  case (ru_kill s ws cs)
  then show ?case using chunks_ok_frame [of header footer s cs "kill_flag s"] by (simp add: kill_flag_def of_names.defs)
next
  case (ru_signal s ws cs)
  then show ?case using chunks_ok_frame [of header footer s cs "send_signal s"] by (simp add: send_signal_def of_names.defs)
next
  case (ru_switch s ws cs filename t)
  then show ?case using chunks_ok_switch by blast
qed

text \<open>A run is made of steps of the output.\<close>

lemma of_run_steps:
  assumes "of_run header footer s ws cs"
  shows "\<exists>s0. of_thread s0 = R_init \<and> \<not> of_signal s0 \<and> (of_step header footer)\<^sup>*\<^sup>* s0 s"
  using assms
proof (induction rule: of_run.induct)
  case ru_new
  then show ?case using output_file_new_ok(1,6) [OF ru_new(2,1)] by (metis rtranclp.rtrancl_refl)
next
  case (ru_write s ws c cs w d n t)
  then show ?case using st_write [of header footer s w d] by (metis rtranclp.rtrancl_into_rtrancl snd_conv)
qed (meson rtranclp.rtrancl_into_rtrancl of_step.intros thread_step.intros)+

section \<open>Properties\<close>

text \<open>
  C10: while the helper thread rotates and the writer goes on, at any interleaving and with waits
  that end without a signal, the chunks together are the bytes that the writes wrote, in order.
  A chunk is on disk as a header, its part of the stream, and a footer once it is closed, in a
  file of its own, as long as fewer than \<^verbatim>\<open>max_count\<close> rotations were tried since it was begun,
  also across failed rotations; older chunks are overwritten when the numbers start over. A
  rotation succeeds with fewer than \<open>max_count - 1\<close> failed ones before it, a new name does not
  name files of chunks, and headers and footers are written completely or not at all.
\<close>

theorem rotation_keeps_stream:
  assumes "of_run header footer s ws cs"
  shows "ws = concat (map ch_data (rev cs)) \<and> ch_file (hd cs) = of_fd s
    \<and> distinct (map ch_file (filter (\<lambda>c. ch_age c < unat (of_max_count s)) cs))
    \<and> (\<forall>c \<in> set cs. ch_age c < unat (of_max_count s) \<longrightarrow> (\<exists>nm. fs_data (of_fs s) (ch_file c) = ch_head c @ ch_data c
         @ (if ch_file c = of_fd s \<or> of_thread s = R_swapped (ch_file c) then [] else footer nm)))
    \<and> ch_head (last cs) = [] \<and> (\<forall>c \<in> set (butlast cs). \<exists>nm. ch_head c = header nm)"
  using of_run_chunks [OF assms] by (simp add: chunks_ok_def chunk_ok_def chunk_file_def)

definition demo_fs :: file_system where
  "demo_fs = \<lparr>fs_data = \<lambda>_. [], fs_dir = Map.empty, fs_free = 0, fs_links = \<lambda>_. None\<rparr>"

definition demo_out :: output_file where
  "demo_out = \<lparr>of_symlink = ''l'', of_name = ''l.0'', of_pref = ''l.'', of_sufx = [], of_index = 0, of_width = 1, of_max_count = 9,
     of_max_size = 2, of_fd = 0, of_size = 1, of_killed = False, of_pending = False, of_thread = R_init, of_signal = False,
     of_fs = \<lparr>fs_data = (\<lambda>_. [])(0 := [72]), fs_dir = [''l.0'' \<mapsto> 0], fs_free = 1, fs_links = [''l'' \<mapsto> ''l.0'']\<rparr>\<rparr>"

lemma demo_new:
  "\<exists>b. output_file_new (\<lambda>_. [72]) True True True True Complete 0 2 9 ''l'' demo_fs = Some (Inr b) \<and> fo_of b = demo_out"
proof -
  have "index_width 9 10 1 = Some 1" by (subst index_width.simps) (simp add: word_less_nat_alt)
  moreover have "pad0 1 0 = ''0''" by code_simp
  moreover have "find_sub ''#'' ''l'' = None" by (simp add: find_sub_char)
  moreover have "\<not> (1 :: u64) \<ge> 2" by (simp add: word_le_nat_alt)
  ultimately show ?thesis
    by (simp add: output_file_new_def demo_fs_def demo_out_def init_name_def split_name_def update_name_def read_link_def fs_open_def
        ob_push_def ob_room_def ob_new_def ostrbuf.defs ostrbuf_file.defs file_do_flush_def of_writev_def fs_append_def ob_reset_def
        update_link_def Let_def)
qed

definition demo_full :: output_file where
  "demo_full = thread_wake (snd (of_writev Complete [1, 2, 3] (thread_start demo_out)))"

definition demo_rotated :: output_file where
  "demo_rotated = rotate_close (\<lambda>_. [70]) True 0 (snd (of_writev Complete [5]
     (rotate_swap 1 (snd (of_writev Complete [4] (rotate_open (\<lambda>_. [72]) True True demo_full))))))"

lemma next_name_demo: "of_name (next_name demo_full) = ''l.1''"
proof -
  have "of_name (next_name demo_full) = ''l.'' @ pad0 1 1"
    by (simp add: demo_full_def demo_out_def thread_start_def of_writev_def thread_wake_def send_signal_def mutex_free_def next_name_def update_name_def Let_def word_le_nat_alt)
  moreover have "pad0 1 1 = ''1''" by code_simp
  ultimately show ?thesis by simp
qed

lemma demo_full_fields: "of_thread demo_full = R_rotating" "fs_dir (of_fs demo_full) = [''l.0'' \<mapsto> 0]" "fs_free (of_fs demo_full) = 1" "of_fd demo_full = 0"
  "unat (of_max_count demo_full) = 9"
  by (simp_all add: demo_full_def demo_out_def thread_start_def of_writev_def thread_wake_def send_signal_def mutex_free_def Let_def word_le_nat_alt)

definition demo_chunks :: "chunk list" where
  "demo_chunks = [\<lparr>ch_file = 1, ch_head = [72], ch_data = [5], ch_age = 0\<rparr>, \<lparr>ch_file = 0, ch_head = [], ch_data = [72, 1, 2, 3, 4], ch_age = 1\<rparr>]"

lemma demo_run: "of_run (\<lambda>_. [72]) (\<lambda>_. [70]) demo_rotated [72, 1, 2, 3, 4, 5] demo_chunks"
proof -
  let ?run = "of_run (\<lambda>_. [72]) (\<lambda>_. [70])"
  let ?o = "rotate_open (\<lambda>_. [72]) True True demo_full"
  let ?c = "\<lambda>d a. \<lparr>ch_file = 0, ch_head = [], ch_data = d, ch_age = a\<rparr>"
  have w: "of_writev Complete d s = (int (length d), snd (of_writev Complete d s))" for d s
    by (simp add: of_writev_def Let_def)
  obtain b where b: "output_file_new (\<lambda>_. [72]) True True True True Complete 0 2 9 ''l'' demo_fs = Some (Inr b)" "demo_out = fo_of b"
    using demo_new by auto
  have "fs_ok demo_fs" by (simp add: fs_ok_def demo_fs_def)
  from ru_new [OF this b refl] have "?run demo_out [72] [?c [72] 0]" by (simp add: demo_out_def)
  then have "?run (thread_start demo_out) [72] [?c [72] 0]" using ru_start [of _ _ demo_out] by (simp add: demo_out_def)
  from ru_write [OF this w, of "[1, 2, 3]"]
  have "?run (snd (of_writev Complete [1, 2, 3] (thread_start demo_out))) [72, 1, 2, 3] [?c [72, 1, 2, 3] 0]" by simp
  then have "?run demo_full [72, 1, 2, 3] [?c [72, 1, 2, 3] 0]"
    unfolding demo_full_def
    by (rule ru_wake) (simp_all add: demo_out_def thread_start_def of_writev_def send_signal_def mutex_free_def Let_def)
  from ru_open [OF this demo_full_fields(1), where ok = True and ok' = True] have "?run ?o [72, 1, 2, 3] [?c [72, 1, 2, 3] 1]"
    by (simp add: demo_full_fields older_def)
  from ru_write [OF this w, of "[4]"]
  have o: "?run (snd (of_writev Complete [4] ?o)) [72, 1, 2, 3, 4] [?c [72, 1, 2, 3, 4] 1]" by simp
  have "of_thread ?o = R_opened 1" by (simp add: rotate_open_def fs_open_def next_name_demo demo_full_fields Let_def)
  then have "of_thread (snd (of_writev Complete [4] ?o)) = R_opened 1" using of_writev_effect(3) [OF w] by metis
  from ru_write [OF ru_swap [OF o this] w, of "[5]"]
  have "?run (snd (of_writev Complete [5] (rotate_swap 1 (snd (of_writev Complete [4] ?o))))) [72, 1, 2, 3, 4, 5] demo_chunks"
    by (simp add: demo_chunks_def)
  moreover have "of_fd ?o = 0" by (simp add: rotate_open_def fs_open_def next_name_demo demo_full_fields Let_def)
  then have "of_thread (snd (of_writev Complete [5] (rotate_swap 1 (snd (of_writev Complete [4] ?o))))) = R_swapped 0"
    using of_writev_effect(3) [OF w, of "[5]" "rotate_swap 1 (snd (of_writev Complete [4] ?o))"] of_writev_effect(2) [OF w, of "[4]" ?o]
    by (simp add: rotate_swap_def)
  ultimately show ?thesis unfolding demo_rotated_def by (rule ru_close)
qed

theorem rotation_keeps_stream_witness:
  "of_fd demo_rotated = 1 \<and> fs_data (of_fs demo_rotated) 0 = [72, 1, 2, 3, 4, 70] \<and> fs_data (of_fs demo_rotated) 1 = [72, 5]"
proof -
  have r: "of_thread demo_rotated = R_waiting" by (simp add: demo_rotated_def rotate_close_def rotate_end_def Let_def)
  have "of_max_count t = of_max_count s" if "of_writev w d s = (n, t)" for w d s n t
    using same_names(5) [OF of_writev_effect(4) [OF that]] .
  then have "of_max_count (snd (of_writev w d s)) = of_max_count s" for w d s by (metis prod.collapse)
  then have "unat (of_max_count demo_rotated) = 9"
    by (simp add: demo_rotated_def rotate_close_def rotate_end_def rotate_swap_def rotate_open_def fs_open_def next_name_demo demo_full_fields Let_def)
  then show ?thesis using rotation_keeps_stream [OF demo_run] r by (auto simp: demo_chunks_def split: if_splits)
qed

text \<open>
  The stream delivers what is pushed into it to the current chunk, in order, if the writes
  are complete.
\<close>

interpretation fio: out_stream "file_do_flush Complete" "\<lambda>s. fs_data (of_fs (fo_of s)) (of_fd (fo_of s))" ob_failed "\<lambda>_. True"
proof
  fix s :: ostrbuf_file and d
  show "ob_failed s \<Longrightarrow> ob_failed (file_do_flush Complete d s)"
    by (simp add: file_do_flush_def Let_def ob_reset_def ob_failure_def split: prod.split)
  obtain n out where e: "of_writev Complete (ob_buf s @ d) (fo_of s) = (n, out)" by fastforce
  have "nat n = length (ob_buf s @ d)" using e by (auto simp: of_writev_def Let_def split: if_splits)
  with of_writev_effect [OF e] e show "fs_data (of_fs (fo_of (file_do_flush Complete d s))) (of_fd (fo_of (file_do_flush Complete d s)))
      = fs_data (of_fs (fo_of s)) (of_fd (fo_of s)) @ ob_buf s @ d \<and> ob_buf (file_do_flush Complete d s) = []"
    by (simp add: file_do_flush_def Let_def ob_reset_def ob_failure_def)
qed simp_all

text \<open>
  C38: with two chunks, a rotation that fails to open its file and the next one that succeeds
  truncate the file still in use: the number is advanced before the open and comes around
  to the current chunk, and all that was written to it is lost.
\<close>

theorem failed_rotation_truncates_active_chunk:
  assumes "of_max_count s = 2" and "of_index s = 0" and "of_name (update_name s) = of_name s"
    and "fs_dir (of_fs s) (of_name s) = Some (of_fd s)" and "of_thread s = R_rotating" and "\<not> of_killed s"
    and "d \<noteq> []" and "of_size s + word_of_nat (length d) \<ge> of_max_size s"
  shows "let t = rotate_open header False ok s; u = thread_wake (snd (of_writev Complete d t)); v = rotate_open header True True u
    in of_thread u = R_rotating \<and> of_fd v = of_fd s \<and> fs_data (of_fs v) (of_fd v) = header (of_name s)"
proof -
  let ?t = "rotate_open header False ok s"
  let ?u = "thread_wake (snd (of_writev Complete d ?t))"
  have t: "of_index ?t = 1" "of_thread ?t = R_waiting" "\<not> of_pending ?t" "\<not> of_killed ?t" "of_size ?t = of_size s" "of_max_size ?t = of_max_size s"
    "of_max_count ?t = 2" "of_fd ?t = of_fd s" "of_fs ?t = of_fs s" "of_pref ?t = of_pref s" "of_sufx ?t = of_sufx s" "of_width ?t = of_width s"
    using assms(1,2,6) by (simp_all add: rotate_open_def next_name_def update_name_def rotate_end_def Let_def word_le_nat_alt)
  have u: "of_index ?u = 1" "of_thread ?u = R_rotating" "of_max_count ?u = 2" "of_fd ?u = of_fd s" "of_pref ?u = of_pref s" "of_sufx ?u = of_sufx s"
    "of_width ?u = of_width s" "fs_dir (of_fs ?u) = fs_dir (of_fs s)"
    using t assms(7,8) by (simp_all add: of_writev_def thread_wake_def send_signal_def mutex_free_def Let_def)
  have nm: "of_name (next_name ?u) = of_name s"
    using u(1,3,5-7) assms(2,3) by (simp add: next_name_def update_name_def Let_def)
  have "of_fd (rotate_open header True True ?u) = of_fd s"
    "fs_data (of_fs (rotate_open header True True ?u)) (of_fd s) = header (of_name s)"
    using u(4,8) assms(4) nm by (simp_all add: rotate_open_def fs_open_def Let_def)
  then show ?thesis using u(2) by (simp add: Let_def)
qed

definition demo_two :: output_file where
  "demo_two = demo_out\<lparr>of_max_count := 2, of_thread := R_rotating, of_pending := True, of_fs := fs_append 0 [1, 2, 3] (of_fs demo_out)\<rparr>"

theorem failed_rotation_truncates_active_chunk_witness:
  "let t = rotate_open (\<lambda>_. [72]) False True demo_two; u = thread_wake (snd (of_writev Complete [4, 5] t)); v = rotate_open (\<lambda>_. [72]) True True u
    in fs_data (of_fs demo_two) 0 = [72, 1, 2, 3] \<and> fs_data (of_fs v) (of_fd v) = [72]"
proof -
  have "pad0 1 0 = ''0''" by code_simp
  then have "of_name (update_name demo_two) = of_name demo_two" by (simp add: demo_two_def demo_out_def update_name_def)
  then have "let t = rotate_open (\<lambda>_. [72]) False True demo_two; u = thread_wake (snd (of_writev Complete [4, 5] t)); v = rotate_open (\<lambda>_. [72]) True True u
    in of_thread u = R_rotating \<and> of_fd v = of_fd demo_two \<and> fs_data (of_fs v) (of_fd v) = (\<lambda>_. [72]) (of_name demo_two)"
    by (intro failed_rotation_truncates_active_chunk) (simp_all add: demo_two_def demo_out_def)
  moreover have "fs_data (of_fs demo_two) 0 = [72, 1, 2, 3]" by (simp add: demo_two_def demo_out_def)
  ultimately show ?thesis unfolding Let_def by blast
qed

text \<open>A rotation goes from place to place and ends where the thread waits.\<close>

lemma thread_step_place:
  assumes "thread_step header footer s t"
  shows "of_killed t = of_killed s"
    and "of_thread s = R_init \<Longrightarrow> t = thread_start s" and "of_thread s = R_waiting \<Longrightarrow> of_signal s \<and> t = thread_wake s"
    and "of_thread s \<noteq> R_exited" and "of_thread t = R_init \<Longrightarrow> False"
  using assms
  by (auto simp: thread_start_def thread_wake_def rotate_open_def rotate_end_def rotate_swap_def rotate_close_def next_name_def update_name_def
      fs_open_def Let_def elim!: thread_stepE split: option.splits if_splits)

lemma kill_flag_set: "of_killed (kill_flag s)"
  by (simp add: kill_flag_def)

lemma thread_stuck:
  assumes "\<not> mutex_free s"
  shows "\<exists>t. thread_step header footer s t"
  using assms by (cases "of_thread s") (auto simp: mutex_free_def intro: thread_step.intros)

text \<open>After the flag is set the thread takes at most four more steps by itself.\<close>

fun thread_rank :: "rot_pc \<Rightarrow> nat" where
  "thread_rank R_rotating = 4"
| "thread_rank (R_opened k) = 3"
| "thread_rank (R_swapped k) = 2"
| "thread_rank R_init = 2"
| "thread_rank R_waiting = 1"
| "thread_rank R_exited = 0"

lemma thread_step_rank:
  assumes "thread_step header footer s t" and "of_killed s"
  shows "thread_rank (of_thread t) < thread_rank (of_thread s)"
  using assms
  by (auto simp: thread_start_def thread_wake_def rotate_open_def rotate_end_def rotate_swap_def rotate_close_def
      fs_open_def Let_def elim!: thread_stepE split: option.splits if_splits)

lemma thread_steps_rank:
  assumes "(thread_step header footer ^^ n) s t" and "of_killed s"
  shows "n + thread_rank (of_thread t) \<le> thread_rank (of_thread s)"
  using assms
proof (induction n arbitrary: t)
  case (Suc n)
  then obtain u where u: "(thread_step header footer ^^ n) s u" "thread_step header footer u t" by auto
  have "of_killed u" using u(1) Suc.prems(2)
    by (induction n arbitrary: u) (auto simp: thread_step_place(1))
  with Suc.IH [OF u(1) Suc.prems(2)] thread_step_rank [OF u(2)] show ?case by simp
qed simp

lemma thread_steps_place:
  assumes "(thread_step header footer)\<^sup>*\<^sup>* s t"
  shows "of_killed t = of_killed s \<and> (of_thread t = R_init \<longrightarrow> t = s)"
  using assms
proof (induction rule: rtranclp_induct)
  case (step t u)
  then show ?case using thread_step_place(1,5) [OF step.hyps(2)] by blast
qed simp

lemma lost_signal:
  assumes "of_thread s = R_init" and "\<not> of_signal s" and "(thread_step header footer)\<^sup>*\<^sup>* s t"
  shows "t = s \<or> t = thread_start s"
  using assms(3)
proof (induction rule: rtranclp_induct)
  case (step t u)
  have "\<not> of_signal (thread_start s)" "of_thread (thread_start s) = R_waiting" using assms(2) by (simp_all add: thread_start_def)
  with step show ?case using thread_step_place(2,3) [OF step.hyps(2)] assms(1) by auto
qed simp

text \<open>
  C39: the end of the helper thread. Once the destructor has set its flag, the thread by itself
  comes within four steps to a place where the rotation mutex is free, and the signal is sent there. If the
  thread had reached its loop before, it has exited or the signal makes it exit with its next
  step, the only one it has. If it has not, the signal is lost: whatever the thread does by itself
  it does not exit, and waits without a signal; only a wait that ends without a signal lets
  it exit.
\<close>

theorem kill_wakes_only_a_waiting_thread:
  assumes "(thread_step header footer ^^ n) (kill_flag s) t"
  shows "n \<le> 4 \<and> (mutex_free t \<or> (\<exists>u. thread_step header footer t u))
    \<and> (mutex_free t \<and> of_thread s \<noteq> R_init \<longrightarrow> of_thread t = R_exited
         \<or> (\<forall>u. thread_step header footer (send_signal t) u \<longleftrightarrow> u = thread_wake (send_signal t)) \<and> of_thread (thread_wake (send_signal t)) = R_exited)
    \<and> (of_thread t = R_init \<and> \<not> of_signal t \<longrightarrow>
         (\<forall>u. (thread_step header footer)\<^sup>*\<^sup>* (send_signal t) u \<longrightarrow> of_thread u \<noteq> R_exited)
         \<and> (\<forall>u. \<not> thread_step header footer (thread_start (send_signal t)) u)
         \<and> of_thread (thread_wake (thread_start (send_signal t))) = R_exited)"
proof (intro conjI impI)
  have "thread_rank r \<le> 4" for r by (cases r) simp_all
  then show "n \<le> 4" using thread_steps_rank [OF assms] by (meson add_leD1 kill_flag_set le_trans)
  show "mutex_free t \<or> (\<exists>u. thread_step header footer t u)" using thread_stuck by blast
  have k: "of_killed t" "of_thread t = R_init \<longrightarrow> t = kill_flag s" using thread_steps_place [OF relpowp_imp_rtranclp [OF assms]] by (simp_all add: kill_flag_def)
  show "of_thread t = R_exited
      \<or> (\<forall>u. thread_step header footer (send_signal t) u \<longleftrightarrow> u = thread_wake (send_signal t)) \<and> of_thread (thread_wake (send_signal t)) = R_exited"
    if "mutex_free t \<and> of_thread s \<noteq> R_init"
  proof (cases "of_thread t = R_exited")
    case False
    then have "of_thread t = R_waiting" using that k(2) by (auto simp: mutex_free_def kill_flag_def)
    then have g: "of_thread (send_signal t) = R_waiting" "of_signal (send_signal t)" by (simp_all add: send_signal_def)
    then have "\<forall>u. thread_step header footer (send_signal t) u \<longleftrightarrow> u = thread_wake (send_signal t)"
      using thread_step_place(3) ts_wake by blast
    then show ?thesis using k(1) by (simp add: thread_wake_def send_signal_def)
  qed simp
  assume i: "of_thread t = R_init \<and> \<not> of_signal t"
  then have g: "of_thread (send_signal t) = R_init" "\<not> of_signal (send_signal t)" "of_killed (send_signal t)"
    using k(1) by (simp_all add: send_signal_def)
  show "\<forall>u. (thread_step header footer)\<^sup>*\<^sup>* (send_signal t) u \<longrightarrow> of_thread u \<noteq> R_exited"
  proof (intro allI impI)
    fix u assume "(thread_step header footer)\<^sup>*\<^sup>* (send_signal t) u"
    from lost_signal [OF g(1,2) this] g(1) show "of_thread u \<noteq> R_exited" by (auto simp: thread_start_def)
  qed
  show "\<forall>u. \<not> thread_step header footer (thread_start (send_signal t)) u"
    using thread_step_place(3) [of header footer "thread_start (send_signal t)"] g(2) by (auto simp: thread_start_def)
  show "of_thread (thread_wake (thread_start (send_signal t))) = R_exited"
    using g(3) by (simp add: thread_wake_def thread_start_def)
qed

theorem kill_wakes_only_a_waiting_thread_witness:
  "of_thread (thread_wake (send_signal (kill_flag (thread_start demo_out)))) = R_exited
    \<and> \<not> (\<exists>u. (thread_step (\<lambda>_. []) (\<lambda>_. []))\<^sup>*\<^sup>* (kill_thread demo_out) u \<and> of_thread u = R_exited)"
  using kill_wakes_only_a_waiting_thread [of 0 "\<lambda>_. []" "\<lambda>_. []" "thread_start demo_out" "kill_flag (thread_start demo_out)"]
    kill_wakes_only_a_waiting_thread [of 0 "\<lambda>_. []" "\<lambda>_. []" demo_out "kill_flag demo_out"]
  by (simp add: demo_out_def kill_flag_def kill_thread_def thread_start_def mutex_free_def)

end
