(* ===== verification/C_Output.thy ===== *)
theory C_Output
  imports C_Api Rotation Format_Basic Schedparam
begin

text \<open>
  Formats and outputs through the C interface (\<^verbatim>\<open>src/c-api.cc\<close>, \<^verbatim>\<open>include/hogl/c-api/output.h\<close>),
  the end of a file output (\<^verbatim>\<open>src/output-file.cc\<close>), and the null output and format. A handle is the
  object with its class; deleting it runs the destructor of that class. \<open>Inl\<close> is an exception
  that leaves the constructor. The outcomes of opening files, of \<^verbatim>\<open>malloc\<close> and of the writes are
  arguments.
\<close>

section \<open>The null output\<close>

definition format_null :: "('d, 's) out_format" where
  "format_null = \<lparr>of_process = \<lambda>_ s. s, of_header = \<lambda>_ _ s. s, of_footer = \<lambda>_ s. s\<rparr>"

definition output_null :: "('d, ostrbuf) out_format \<Rightarrow> bool \<Rightarrow> u32 \<Rightarrow> ostrbuf" where
  "output_null fmt malloc_ok capacity = out_header fmt ''null'' True (null_new malloc_ok capacity)"

definition output_null_delete :: "('d, ostrbuf) out_format \<Rightarrow> ostrbuf \<Rightarrow> ostrbuf option" where
  "output_null_delete fmt s = null_do_flush [] (of_footer fmt None s)"

section \<open>The end of a file output\<close>

text \<open>
  After the signal the destructor waits for the thread; \<open>None\<close> while it has not exited. The
  last footer and what is buffered then go to the current chunk.
\<close>

definition output_file_delete :: "io \<Rightarrow> io \<Rightarrow> bytes \<Rightarrow> ostrbuf_file \<Rightarrow> ostrbuf_file option" where
  "output_file_delete w w' footer s =
     (if of_thread (fo_of s) \<noteq> R_exited then None
      else Some (ob_flush (file_do_flush w') (ob_push (file_do_flush w) footer s)))"

section \<open>Handles\<close>

record hogl_output_options =
  ho_perms :: u32
  ho_max_size :: u64
  ho_max_count :: u32
  ho_buffer_capacity :: u32
  ho_policy :: int
  ho_priority :: int
  ho_cpu_affinity :: "string option"

record output_file_options =
  op_perms :: u32
  op_max_size :: u64
  op_max_count :: u32
  op_buffer_capacity :: u64
  op_schedparam :: "schedparam option"

definition output_file_defaults :: output_file_options where
  "output_file_defaults = \<lparr>op_perms = 438, op_max_size = 1 * 1024 * 1024 * 1024, op_max_count = 128,
     op_buffer_capacity = 8192, op_schedparam = None\<rparr>"

definition c_output_options :: "hogl_output_options option \<Rightarrow> output_file_options" where
  "c_output_options ho =
     (case ho of
        None \<Rightarrow> output_file_defaults
      | Some h \<Rightarrow> output_file_defaults\<lparr>op_perms := ho_perms h, op_max_size := ho_max_size h, op_max_count := ho_max_count h,
          op_buffer_capacity := ucast (ho_buffer_capacity h),
          op_schedparam := Some (schedparam_new (ho_policy h) (ho_priority h) DELETE_ON_EXIT
            (case ho_cpu_affinity h of None \<Rightarrow> '''' | Some a \<Rightarrow> a))\<rparr>)"

datatype hogl_output =
    H_stdio ostrbuf_stdio | H_plainfile ostrbuf_fd | H_file ostrbuf_file

definition hogl_new_format_basic :: "string option \<Rightarrow> format_basic" where
  "hogl_new_format_basic fields' =
     (case fields' of Some f \<Rightarrow> fb_new (parse_fields (Some f)) | None \<Rightarrow> fb_new F_DEFAULT)"

definition hogl_new_output_stdout :: "('d, ostrbuf_stdio) out_format \<Rightarrow> bool \<Rightarrow> (nat \<Rightarrow> io) \<Rightarrow> hogl_output" where
  "hogl_new_output_stdout fmt malloc_ok io = H_stdio (output_stdout fmt malloc_ok 8192 io)"

definition hogl_new_output_stderr :: "('d, ostrbuf_stdio) out_format \<Rightarrow> bool \<Rightarrow> (nat \<Rightarrow> io) \<Rightarrow> hogl_output" where
  "hogl_new_output_stderr fmt malloc_ok io = H_stdio (output_stderr fmt malloc_ok 8192 io)"

definition hogl_new_output_plainfile ::
  "('d, ostrbuf_fd) out_format \<Rightarrow> bool \<Rightarrow> int \<Rightarrow> (nat \<Rightarrow> io) \<Rightarrow> string \<Rightarrow> string + hogl_output" where
  "hogl_new_output_plainfile fmt malloc_ok fd io nm = map_sum id H_plainfile (output_plainfile fmt malloc_ok fd nm 8129 io)"

definition hogl_new_output_pipe :: "('d, ostrbuf_stdio) out_format \<Rightarrow> bool \<Rightarrow> bool \<Rightarrow> (nat \<Rightarrow> io) \<Rightarrow> string + hogl_output" where
  "hogl_new_output_pipe fmt malloc_ok popen_ok io = map_sum id H_stdio (output_pipe fmt malloc_ok popen_ok 8192 io)"

definition hogl_new_output_file ::
  "(string \<Rightarrow> bytes) \<Rightarrow> bool \<Rightarrow> bool \<Rightarrow> bool \<Rightarrow> bool \<Rightarrow> io \<Rightarrow> hogl_output_options option \<Rightarrow> string \<Rightarrow> file_system
    \<Rightarrow> (string + hogl_output) option" where
  "hogl_new_output_file header malloc_ok thread_ok open_ok link_ok w ho nm fs =
     (let opts = c_output_options ho
      in map_option (map_sum id H_file)
           (output_file_new header thread_ok open_ok malloc_ok link_ok w (op_buffer_capacity opts)
              (op_max_size opts) (op_max_count opts) nm fs))"

text \<open>Deleting through the base class runs the destructor of the object's own class.\<close>

definition hogl_delete_output ::
  "('d, ostrbuf_stdio) out_format \<Rightarrow> ('d, ostrbuf_fd) out_format \<Rightarrow> bytes \<Rightarrow> string \<Rightarrow> io \<Rightarrow> io \<Rightarrow> hogl_output \<Rightarrow> hogl_output option" where
  "hogl_delete_output sfmt ffmt footer err w w' h =
     (case h of
        H_stdio s \<Rightarrow> Some (H_stdio (output_stdio_delete sfmt err s))
      | H_plainfile s \<Rightarrow> Some (H_plainfile (output_plainfile_delete ffmt s))
      | H_file s \<Rightarrow> map_option H_file (output_file_delete w w' footer s))"

section \<open>Lemmas\<close>

text \<open>A null output with a null format never buffers and never throws.\<close>

lemma null_output_silent:
  assumes "\<not> ob_failed (null_new malloc_ok capacity)"
  shows "output_null format_null malloc_ok capacity = null_new malloc_ok capacity"
    and "out_process format_null d s = s"
    and "output_null_delete format_null (output_null format_null malloc_ok capacity) = Some (null_new malloc_ok capacity)"
  using assms by (simp_all add: output_null_def output_null_delete_def format_null_def out_header_def out_process_def
      null_do_flush_def null_new_def ob_new_def ob_reset_def ob_failure_def Let_def split: if_splits)

text \<open>The destructor of a file output completes the current chunk: what was buffered, then the footer.\<close>

lemma output_file_delete_completes:
  assumes "of_thread (fo_of s) = R_exited"
  shows "\<exists>t. output_file_delete Complete Complete footer s = Some t \<and> (\<not> ob_failed t \<longrightarrow> ob_buf t = []
    \<and> fs_data (of_fs (fo_of t)) (of_fd (fo_of t)) = fs_data (of_fs (fo_of s)) (of_fd (fo_of s)) @ ob_buf s @ footer)"
  using assms fio.push_flush [where s = s and ds = "[footer]"] by (simp add: output_file_delete_def)

end
