(* ===== verification/Format_Args.thy ===== *)
theory Format_Args
  imports Format_Basic
begin

text \<open>
  The arguments of a record as text (\<^verbatim>\<open>src/format-basic.cc\<close>): hexadecimal and value
  dumps, plain output, output through a format string, and \<^verbatim>\<open>process\<close>, which puts header
  and arguments together. Data is read from the record's storage; a read outside it, a
  division by zero and a loop that does not end are \<open>None\<close>. The record \<open>fmt_lib\<close> holds
  what is left to the \<^verbatim>\<open>fmt\<close> library.
\<close>

section \<open>Definitions\<close>

datatype fmt_arg = A_str bytes | A_ptr u64 | A_i32 u32 | A_u32 u32 | A_i64 u64 | A_u64 u64 | A_dbl u64

text \<open>
  \<open>fl_vprintf\<close> gives the text a format string produces and, when the format is not valid, the
  message of the exception raised after that text.
\<close>

record fmt_lib =
  fl_ptr :: "u64 \<Rightarrow> string"
  fl_float :: "string \<Rightarrow> bytes \<Rightarrow> string"
  fl_vprintf :: "bytes \<Rightarrow> fmt_arg list \<Rightarrow> bytes \<times> string option"

definition sdec :: "int \<Rightarrow> string" where
  "sdec i = (if i < 0 then CHR ''-'' # dec (nat (- i)) else dec (nat i))"

definition out_bytes :: "'a flusher \<Rightarrow> bytes \<Rightarrow> 'a ostrbuf_scheme \<Rightarrow> 'a ostrbuf_scheme" where
  "out_bytes f bs sb = fold (\<lambda>b. ob_push f [b]) bs sb"

definition byte_at :: "bytes \<Rightarrow> nat \<Rightarrow> u8 option" where
  "byte_at buf k = (if k < length buf then Some (buf ! k) else None)"

definition printable :: "u8 \<Rightarrow> bool" where
  "printable b \<longleftrightarrow> 0x20 \<le> b \<and> b \<le> 0x7e"

subsection \<open>Hexadecimal dump\<close>

text \<open>The columns of one line, with \<open>base\<close> the position of the data in the record.\<close>

fun hex_columns :: "'a flusher \<Rightarrow> bytes \<Rightarrow> nat \<Rightarrow> u32 \<Rightarrow> u32 \<Rightarrow> nat list \<Rightarrow> 'a ostrbuf_scheme \<Rightarrow> 'a ostrbuf_scheme option" where
  "hex_columns f buf base n offset [] sb = Some sb"
| "hex_columns f buf base n offset (i # is) sb = do {
     sb \<leftarrow> (if word_of_nat i + offset < n
           then do {
             b \<leftarrow> byte_at buf (base + unat (offset + word_of_nat i));
             Some (out_text f (pad_left CHR ''0'' 2 (hex (unat b)) @ '' '') sb) }
           else Some (ob_push_str f ''   '' sb));
     hex_columns f buf base n offset is sb
   }"

fun text_columns :: "'a flusher \<Rightarrow> bytes \<Rightarrow> nat \<Rightarrow> u32 \<Rightarrow> u32 \<Rightarrow> nat list \<Rightarrow> 'a ostrbuf_scheme \<Rightarrow> 'a ostrbuf_scheme option" where
  "text_columns f buf base n offset [] sb = Some sb"
| "text_columns f buf base n offset (i # is) sb =
     (if word_of_nat i + offset < n
      then do {
        b \<leftarrow> byte_at buf (base + unat (offset + word_of_nat i));
        text_columns f buf base n offset is (ob_push f [if printable b then b else 0x2e] sb) }
      else Some sb)"

partial_function (option) hexdump_from :: "'a flusher \<Rightarrow> bytes \<Rightarrow> nat \<Rightarrow> u32 \<Rightarrow> u8 \<Rightarrow> u32 \<Rightarrow> 'a ostrbuf_scheme \<Rightarrow> 'a ostrbuf_scheme option" where
  "hexdump_from f buf base n line_width offset sb =
     (if offset < n
      then do {
        let sb = out_text f ([CHR 0x0a, CHR 0x09] @ pad0 3 (unat offset) @ '': '') sb;
        sb \<leftarrow> hex_columns f buf base n offset [0..<unat line_width] sb;
        let sb = ob_push_str f ''  '' sb;
        sb \<leftarrow> text_columns f buf base n offset [0..<unat line_width] sb;
        hexdump_from f buf base n line_width (offset + ucast line_width) sb }
      else Some sb)"

definition do_hexdump :: "'a flusher \<Rightarrow> bytes \<Rightarrow> nat \<Rightarrow> u32 \<Rightarrow> xdump_format \<Rightarrow> 'a ostrbuf_scheme \<Rightarrow> 'a ostrbuf_scheme option" where
  "do_hexdump f buf base n xf sb = hexdump_from f buf base n (xf_line_width xf) 0 sb"

subsection \<open>Value dump\<close>

text \<open>\<open>shown\<close> is the text of one value of \<open>w\<close> bytes.\<close>

definition xdump_elem :: "'a flusher \<Rightarrow> bytes \<Rightarrow> nat \<Rightarrow> nat \<Rightarrow> (bytes \<Rightarrow> string) \<Rightarrow> nat \<Rightarrow> 'a ostrbuf_scheme \<Rightarrow> 'a ostrbuf_scheme option" where
  "xdump_elem f buf base w shown i sb = do {
     v \<leftarrow> peek buf (base + i * w) w;
     Some (out_text f (shown v) sb)
   }"

fun xdump_single_from :: "'a flusher \<Rightarrow> bytes \<Rightarrow> nat \<Rightarrow> nat \<Rightarrow> (bytes \<Rightarrow> string) \<Rightarrow> u8 \<Rightarrow> nat list \<Rightarrow> 'a ostrbuf_scheme \<Rightarrow> 'a ostrbuf_scheme option" where
  "xdump_single_from f buf base w shown delim [] sb = Some sb"
| "xdump_single_from f buf base w shown delim (i # is) sb = do {
     sb \<leftarrow> xdump_elem f buf base w shown i (ob_push f [delim] sb);
     xdump_single_from f buf base w shown delim is sb
   }"

definition xdump_single :: "'a flusher \<Rightarrow> bytes \<Rightarrow> nat \<Rightarrow> u32 \<Rightarrow> nat \<Rightarrow> (bytes \<Rightarrow> string) \<Rightarrow> xdump_format \<Rightarrow> 'a ostrbuf_scheme \<Rightarrow> 'a ostrbuf_scheme option" where
  "xdump_single f buf base n w shown xf sb = do {
     sb \<leftarrow> xdump_elem f buf base w shown 0 sb;
     xdump_single_from f buf base w shown (xf_delim xf) [1..<unat n] sb
   }"

text \<open>\<open>k\<close> counts the values on the current line.\<close>

fun xdump_lines_from :: "'a flusher \<Rightarrow> bytes \<Rightarrow> nat \<Rightarrow> nat \<Rightarrow> (bytes \<Rightarrow> string) \<Rightarrow> xdump_format \<Rightarrow> nat \<Rightarrow> nat list \<Rightarrow> 'a ostrbuf_scheme \<Rightarrow> 'a ostrbuf_scheme option" where
  "xdump_lines_from f buf base w shown xf k [] sb = Some sb"
| "xdump_lines_from f buf base w shown xf k (i # is) sb =
     (if 0 < k \<and> k < unat (xf_line_width xf)
      then do {
        sb \<leftarrow> xdump_elem f buf base w shown i (ob_push f [xf_delim xf] sb);
        xdump_lines_from f buf base w shown xf (Suc k) is sb }
      else do {
        sb \<leftarrow> xdump_elem f buf base w shown i (ob_push_str f [CHR 0x0a, CHR 0x09] sb);
        xdump_lines_from f buf base w shown xf 1 is sb })"

definition xdump_multi :: "'a flusher \<Rightarrow> bytes \<Rightarrow> nat \<Rightarrow> u32 \<Rightarrow> nat \<Rightarrow> (bytes \<Rightarrow> string) \<Rightarrow> xdump_format \<Rightarrow> 'a ostrbuf_scheme \<Rightarrow> 'a ostrbuf_scheme option" where
  "xdump_multi f buf base n w shown xf sb =
     (if n = 0 then Some sb
      else if xf_line_width xf = 0 then xdump_single f buf base n w shown xf sb
      else xdump_lines_from f buf base w shown xf 0 [0..<unat n] sb)"

definition flt_fmt :: "nat \<Rightarrow> string" where
  "flt_fmt pr = (if 1 \<le> pr \<and> pr \<le> 5 then ''%.'' @ [digit pr] @ ''f'' else ''%f'')"

definition dbl_fmt :: "nat \<Rightarrow> string" where
  "dbl_fmt pr = (if 1 \<le> pr \<and> pr \<le> 5 then ''%.'' @ [digit pr] @ ''lf'' else ''%f'')"

definition signed_of :: "nat \<Rightarrow> bytes \<Rightarrow> int" where
  "signed_of w v = signed_take_bit (8 * w - 1) (uint (of_le v :: u64))"

text \<open>The conversions of \<^verbatim>\<open>do_xdump\<close>: how a value of \<open>w\<close> bytes is shown, if it can be.\<close>

definition xdump_show :: "fmt_lib \<Rightarrow> xdump_format \<Rightarrow> (bytes \<Rightarrow> string) option" where
  "xdump_show lib xf =
     (let t = xf_type xf; w = unat (xf_byte_width xf) in
      if t = 0x78 \<and> w \<in> {1, 2, 4, 8} then Some (\<lambda>v. hex (unat (of_le v :: u64)))
      else if t = 0x64 \<and> w \<in> {1, 2, 4, 8} then Some (\<lambda>v. sdec (signed_of w v))
      else if t = 0x75 \<and> w \<in> {1, 2, 4, 8} then Some (\<lambda>v. dec (unat (of_le v :: u64)))
      else if t = 0x66 \<and> w = 4 then Some (fl_float lib (flt_fmt (unat (xf_precision xf))))
      else if t = 0x66 \<and> w = 8 then Some (fl_float lib (dbl_fmt (unat (xf_precision xf))))
      else None)"

definition do_xdump :: "'a flusher \<Rightarrow> fmt_lib \<Rightarrow> bytes \<Rightarrow> u32 \<Rightarrow> u32 \<Rightarrow> 'a ostrbuf_scheme \<Rightarrow> 'a ostrbuf_scheme option" where
  "do_xdump f lib buf data len sb = do {
     h \<leftarrow> peek buf (unat data) 4;
     xf \<leftarrow> xdump_format_of h;
     (if xf_byte_width xf = 0 then None
      else do {
        let base = unat data + 4;
        let n = (ucast ((ucast len - 4 :: u64) div ucast (xf_byte_width xf)) :: u32);
        if xf_type xf = 0x48 then do_hexdump f buf base n xf sb
        else (case xdump_show lib xf of
                Some shown \<Rightarrow> xdump_multi f buf base n (unat (xf_byte_width xf)) shown xf sb
              | None \<Rightarrow> Some (out_bytes f (str_bytes ''xdump conversion type '' @ [xf_type xf] @ str_bytes '' not supported'') sb))
      })
   }"

definition do_raw :: "'a flusher \<Rightarrow> fmt_lib \<Rightarrow> u64 \<Rightarrow> u32 \<Rightarrow> 'a ostrbuf_scheme \<Rightarrow> 'a ostrbuf_scheme" where
  "do_raw f lib data len sb = out_text f (''rawdata '' @ dec (unat len) @ '' bytes @ '' @ fl_ptr lib data) sb"

subsection \<open>Arguments\<close>

definition get_arg_str :: "log_record \<Rightarrow> u32 \<Rightarrow> nat \<Rightarrow> str_ptr option" where
  "get_arg_str r t i =
     (if t = CSTR
      then do { (off, len) \<leftarrow> get_arg_data (r_argval r) i; Some (if len = 0 then Literal ''null'' else In_record (unat off)) }
      else do {
        p \<leftarrow> (if is_32bit t then map_option ucast (get_arg_val32 (r_argval r) i) else get_arg_val64 (r_argval r) i);
        Some (In_memory p) })"

definition cstr_at :: "bytes \<Rightarrow> nat \<Rightarrow> bytes option" where
  "cstr_at buf off = (if 0 \<in> set (drop off buf) then Some (takeWhile (\<lambda>b. b \<noteq> 0) (drop off buf)) else None)"

definition deref_str :: "memory \<Rightarrow> log_record \<Rightarrow> str_ptr \<Rightarrow> bytes option" where
  "deref_str mem r p =
     (case p of
        Literal s \<Rightarrow> Some (str_bytes s)
      | In_record off \<Rightarrow> cstr_at (r_argval r) off
      | In_memory a \<Rightarrow>
          (if a = 0 then Some (str_bytes ''(null)'')
           else do { n \<leftarrow> mem_strlen mem a 0; Some (read_mem mem a n) }))"

definition arg_word :: "log_record \<Rightarrow> u32 \<Rightarrow> nat \<Rightarrow> u64 option" where
  "arg_word r t i =
     (if is_32bit t then map_option ucast (get_arg_val32 (r_argval r) i) else get_arg_val64 (r_argval r) i)"

text \<open>\<open>addr\<close> is the address of the record's storage, which only the text of raw data shows.\<close>

definition plain_arg :: "'a flusher \<Rightarrow> fmt_lib \<Rightarrow> memory \<Rightarrow> u64 \<Rightarrow> rec_data \<Rightarrow> nat \<Rightarrow> 'a ostrbuf_scheme \<Rightarrow> 'a ostrbuf_scheme option" where
  "plain_arg f lib mem addr d i sb = do {
     let r = rx_record d;
     let t = get_arg_type r i;
     v \<leftarrow> arg_word r t i;
     let sb = (if i > 0 then ob_push_char f CHR '' '' sb else sb);
     if t = GSTR \<or> t = CSTR then do { s \<leftarrow> deref_str mem r (rx_str d i); Some (out_bytes f s sb) }
     else if t = POINTER then Some (out_text f (fl_ptr lib v) sb)
     else if t = INT32 then Some (out_text f (sdec (sint (ucast v :: u32))) sb)
     else if t = UINT32 then Some (out_text f (dec (unat (ucast v :: u32))) sb)
     else if t = INT64 then Some (out_text f (sdec (sint v)) sb)
     else if t = UINT64 then Some (out_text f (dec (unat v)) sb)
     else if t = DOUBLE then Some (out_text f (fl_float lib ''%lf'' (le_bytes 8 v)) sb)
     else if t = XDUMP then do { (data, len) \<leftarrow> get_arg_data (r_argval r) i; do_xdump f lib (r_argval r) data len sb }
     else if t = RAW then do { (data, len) \<leftarrow> get_arg_data (r_argval r) i; Some (do_raw f lib (addr + ucast data) len sb) }
     else Some (out_text f (dec (unat v)) sb)
   }"

fun plain_args :: "'a flusher \<Rightarrow> fmt_lib \<Rightarrow> memory \<Rightarrow> u64 \<Rightarrow> rec_data \<Rightarrow> nat list \<Rightarrow> 'a ostrbuf_scheme \<Rightarrow> 'a ostrbuf_scheme option" where
  "plain_args f lib mem addr d [] sb = Some sb"
| "plain_args f lib mem addr d (i # is) sb =
     (if get_arg_type (rx_record d) i = NONE then Some sb
      else do { sb \<leftarrow> plain_arg f lib mem addr d i sb; plain_args f lib mem addr d is sb })"

definition output_plain :: "'a flusher \<Rightarrow> fmt_lib \<Rightarrow> memory \<Rightarrow> u64 \<Rightarrow> rec_data \<Rightarrow> 'a ostrbuf_scheme \<Rightarrow> 'a ostrbuf_scheme option" where
  "output_plain f lib mem addr d sb = do {
     sb \<leftarrow> plain_args f lib mem addr d [rx_next d..<16] sb;
     Some (ob_push_char f (CHR 0x0a) sb)
   }"

definition store_fmt_arg :: "memory \<Rightarrow> rec_data \<Rightarrow> nat \<Rightarrow> fmt_arg option" where
  "store_fmt_arg mem d i = do {
     let r = rx_record d;
     let t = get_arg_type r i;
     v \<leftarrow> arg_word r t i;
     if t = CSTR \<or> t = GSTR then map_option A_str (deref_str mem r (rx_str d i))
     else Some (if t = POINTER then A_ptr v
                else if t = INT32 then A_i32 (ucast v)
                else if t = UINT32 then A_u32 (ucast v)
                else if t = INT64 then A_i64 v
                else if t = UINT64 then A_u64 v
                else if t = DOUBLE then A_dbl v
                else if t = XDUMP then A_str (str_bytes ''xdump not supported with format strings'')
                else if t = RAW then A_str (str_bytes ''rawdata data not supported with format strings'')
                else A_u64 v)
   }"

fun store_fmt_args :: "memory \<Rightarrow> rec_data \<Rightarrow> nat list \<Rightarrow> fmt_arg list option" where
  "store_fmt_args mem d [] = Some []"
| "store_fmt_args mem d (i # is) =
     (if get_arg_type (rx_record d) i = NONE then Some []
      else do { a \<leftarrow> store_fmt_arg mem d i; as \<leftarrow> store_fmt_args mem d is; Some (a # as) })"

definition output_fmt :: "'a flusher \<Rightarrow> fmt_lib \<Rightarrow> memory \<Rightarrow> rec_data \<Rightarrow> 'a ostrbuf_scheme \<Rightarrow> 'a ostrbuf_scheme option" where
  "output_fmt f lib mem d sb = do {
     as \<leftarrow> store_fmt_args mem d [rx_next d + 1..<16];
     fmt \<leftarrow> deref_str mem (rx_record d) (rx_str d (rx_next d));
     let (txt, err) = fl_vprintf lib fmt as;
     let sb = out_bytes f txt sb;
     let sb = (case err of None \<Rightarrow> sb | Some what \<Rightarrow> ob_push_str f what sb);
     Some (ob_push_char f (CHR 0x0a) sb)
   }"

definition output_raw :: "'a flusher \<Rightarrow> fmt_lib \<Rightarrow> u64 \<Rightarrow> rec_data \<Rightarrow> 'a ostrbuf_scheme \<Rightarrow> 'a ostrbuf_scheme option" where
  "output_raw f lib addr d sb = do {
     (data, len) \<leftarrow> get_arg_data (r_argval (rx_record d)) 0;
     Some (ob_push_char f (CHR 0x0a) (do_raw f lib (addr + ucast data) len sb))
   }"

fun find_strings :: "log_record \<Rightarrow> nat list \<Rightarrow> (nat \<Rightarrow> str_ptr) \<Rightarrow> (nat \<Rightarrow> str_ptr) option" where
  "find_strings r [] m = Some m"
| "find_strings r (i # is) m =
     (let t = get_arg_type r i in
      if t = NONE then Some m
      else if t = CSTR \<or> t = GSTR then do { p \<leftarrow> get_arg_str r t i; find_strings r is (m(i := p)) }
      else find_strings r is m)"

definition basic_process ::
  "'a flusher \<Rightarrow> fmt_lib \<Rightarrow> (u64 \<Rightarrow> tm) \<Rightarrow> memory \<Rightarrow> (u64 \<Rightarrow> area option) \<Rightarrow> u64 \<Rightarrow> fmt_data \<Rightarrow> format_basic \<Rightarrow> 'a ostrbuf_scheme
    \<Rightarrow> (format_basic \<times> 'a ostrbuf_scheme) option" where
  "basic_process f lib localtime mem areas addr d fb sb = do {
     let r = fd_record d;
     (area, sect) \<leftarrow> names_of areas r;
     strs \<leftarrow> find_strings r [0..<16] (\<lambda>_. In_memory 0);
     let rd = \<lparr>rx_record = r, rx_area = area, rx_sect = sect, rx_ring = fd_ring_name d, rx_str = strs, rx_next = 0\<rparr>;
     (fb, sb) \<leftarrow> (if fb_fields fb = F_DEFAULT then Some (fb, default_header f localtime rd sb)
                else if fb_fields fb = F_FAST0 then fast0_header f rd fb sb
                else if fb_fields fb = F_FAST1 then fast1_header f rd fb sb
                else flexi_header f localtime rd fb sb);
     let t0 = get_arg_type r 0;
     let t1 = get_arg_type r 1;
     sb \<leftarrow> (if t0 = RAW then output_raw f lib addr rd sb
          else if (t0 = CSTR \<or> t0 = GSTR) \<and> t1 \<noteq> NONE \<and> t1 \<noteq> XDUMP \<and> t1 \<noteq> RAW then output_fmt f lib mem rd sb
          else output_plain f lib mem addr rd sb);
     Some (fb, sb)
   }"

section \<open>Dumps\<close>

lemma column_index:
  assumes "offset < n" and "unat n + 256 \<le> 2 ^ 32" and "i < 256"
  shows "unat (offset + word_of_nat i :: u32) = unat offset + i" and "unat (word_of_nat i + offset :: u32) = unat offset + i"
  using assms by (simp_all add: word_less_nat_alt unat_word_ariths unat_word_of_nat)

lemma hex_columns_total:
  assumes "offset < n" and "unat n + 256 \<le> 2 ^ 32" and "base + unat n \<le> length buf" and "\<forall>i \<in> set is. i < 256"
  shows "\<exists>sb'. hex_columns f buf base n offset is sb = Some sb'"
  using assms(4)
proof (induction "is" arbitrary: sb)
  case (Cons i "is")
  then have i: "i < 256" by simp
  note u = column_index [OF assms(1,2) i]
  have "byte_at buf (base + unat (offset + word_of_nat i)) \<noteq> None" if "word_of_nat i + offset < n"
    using that assms(3) u by (simp add: byte_at_def word_less_nat_alt)
  then show ?case using Cons by (auto simp: word_less_nat_alt u)
qed simp

lemma text_columns_total:
  assumes "offset < n" and "unat n + 256 \<le> 2 ^ 32" and "base + unat n \<le> length buf" and "\<forall>i \<in> set is. i < 256"
  shows "\<exists>sb'. text_columns f buf base n offset is sb = Some sb'"
  using assms(4)
proof (induction "is" arbitrary: sb)
  case (Cons i "is")
  then have i: "i < 256" by simp
  note u = column_index [OF assms(1,2) i]
  have "byte_at buf (base + unat (offset + word_of_nat i)) \<noteq> None" if "word_of_nat i + offset < n"
    using that assms(3) u by (simp add: byte_at_def word_less_nat_alt)
  then show ?case using Cons by (auto simp: word_less_nat_alt u)
qed simp

lemma hexdump_ends:
  assumes "unat n + 256 \<le> 2 ^ 32" and "base + unat n \<le> length buf" and "lw \<noteq> 0"
  shows "\<exists>sb'. hexdump_from f buf base n lw offset sb = Some sb'"
proof (induction "unat n - unat offset" arbitrary: offset sb rule: less_induct)
  case less
  show ?case
  proof (cases "offset < n")
    case True
    have w: "\<forall>i \<in> set [0..<unat lw]. i < 256" using unat_less [of lw] by auto
    obtain g where g: "\<And>sb. hex_columns f buf base n offset [0..<unat lw] sb = Some (g sb)"
      using hex_columns_total [OF True assms(1,2) w] by metis
    obtain h where h: "\<And>sb. text_columns f buf base n offset [0..<unat lw] sb = Some (h sb)"
      using text_columns_total [OF True assms(1,2) w] by metis
    have "unat (offset + ucast lw) = unat offset + unat lw"
      using column_index(1) [OF True assms(1), of "unat lw"] unat_less [of lw] by simp
    moreover have "0 < unat lw" using assms(3) by (simp add: unat_gt_0)
    ultimately have "unat n - unat (offset + ucast lw) < unat n - unat offset" using True by (simp add: word_less_nat_alt)
    from less [OF this] g h True show ?thesis by (subst hexdump_from.simps) (simp add: Let_def)
  next
    case False
    then show ?thesis by (subst hexdump_from.simps) simp
  qed
qed

lemma hexdump_diverges:
  assumes "hexdump_from f buf base n 0 offset sb = Some sb'" and "offset < n"
  shows False
proof -
  have "lw = 0 \<longrightarrow> \<not> offset < n" if "hexdump_from f buf base n lw offset sb = Some sb'" for lw
    by (rule hexdump_from.raw_induct [OF _ that]) (auto simp: Let_def bind_eq_Some_conv split: if_splits)
  from this [OF assms(1)] assms(2) show ?thesis by simp
qed

section \<open>Properties\<close>

text \<open>
  C37: a hexadecimal dump of data inside the record ends and stays inside it exactly when the
  number of bytes per line is not zero; with zero, documented as a single line, the loop
  never ends.
\<close>

theorem hexdump_ends_iff:
  assumes "0 < n" and "unat n + 256 \<le> 2 ^ 32" and "base + unat n \<le> length buf"
  shows "(\<exists>sb'. do_hexdump f buf base n xf sb = Some sb') \<longleftrightarrow> xf_line_width xf \<noteq> 0"
proof
  assume "\<exists>sb'. do_hexdump f buf base n xf sb = Some sb'"
  then show "xf_line_width xf \<noteq> 0" using hexdump_diverges [OF _ assms(1)] by (auto simp: do_hexdump_def)
next
  assume "xf_line_width xf \<noteq> 0"
  then show "\<exists>sb'. do_hexdump f buf base n xf sb = Some sb'"
    unfolding do_hexdump_def using hexdump_ends [OF assms(2,3)] by blast
qed

theorem hexdump_ends_iff_witness:
  "let xf = \<lparr>xf_type = 0x48, xf_byte_width = 1, xf_precision = 2, xf_line_width = 0, xf_delim = 0x20\<rparr>;
       sb = fd_new True 1 0 100 (\<lambda>_. Complete); buf = [1, 2, 3]
   in do_hexdump fd_do_flush buf 0 3 xf sb = None \<and> (\<exists>sb'. do_hexdump fd_do_flush buf 0 3 (xf\<lparr>xf_line_width := 20\<rparr>) sb = Some sb')"
proof -
  let ?xf = "\<lparr>xf_type = 0x48, xf_byte_width = 1, xf_precision = 2, xf_line_width = 0, xf_delim = 0x20\<rparr>"
  let ?sb = "fd_new True 1 0 100 (\<lambda>_. Complete)"
  have "(\<exists>sb'. do_hexdump fd_do_flush [1, 2, 3] 0 3 xf ?sb = Some sb') \<longleftrightarrow> xf_line_width xf \<noteq> 0" for xf
    by (rule hexdump_ends_iff) simp_all
  from this [of ?xf] this [of "?xf\<lparr>xf_line_width := 20\<rparr>"] show ?thesis by (simp add: Let_def)
qed

text \<open>
  A dump for which a record had no room is stored as offset and length zero, and is then
  formatted from the start of the record's storage: when the second byte there, of the
  offset of the first argument, has its low four bits clear, the width is zero and the
  formatter divides by zero.
\<close>

lemma xdump_without_room_crashes:
  assumes "get_arg_type r i = XDUMP" and "rx_record d = r" and "get_arg_data (r_argval r) i = Some (0, 0)"
    and "4 \<le> length (r_argval r)" and "(ucast (r_argval r ! 1) :: 4 word) = 0"
  shows "plain_arg f lib mem addr d i sb = None"
proof -
  obtain a b c e rest where buf: "r_argval r = a # b # c # e # rest"
    using assms(4) by (auto simp: Suc_le_length_iff numeral_eq_Suc)
  have "do_xdump f lib (r_argval r) 0 0 sb = None" for sb
    using assms(5) unfolding buf by (simp add: do_xdump_def peek_def xdump_format_of_def)
  then show ?thesis using assms(1-3) by (simp add: plain_arg_def Let_def split: bind_split)
qed

text \<open>A long string followed by a dump, in a record with 128 bytes of storage.\<close>

definition full_record :: "log_record option" where
  "full_record = set_args (\<lambda>_. 97) 128 ([arg_cstr 1000 200, arg_xdump 5000] @ replicate 14 arg_none)
     \<lparr>r_area = 0, r_timestamp = 0, r_seqnum = 0, r_section = 0, r_argtype = 0, r_argval = replicate 128 0\<rparr>"

lemma full_record_xdump:
  "map_option (\<lambda>r. (get_arg_type r 1, get_arg_data (r_argval r) 1, length (r_argval r), r_argval r ! 1)) full_record = Some (9, Some (0, 0), 128, 0)"
  by code_simp

end
