(* ===== verification/Spec2Isabelle.thy ===== *)
theory Spec2Isabelle
  imports Timesource Bitmap Mask Ring_Linear Tools C_Output Format_Args
begin

text \<open>
  \<^bold>\<open>hogl, a C++ logging library, in Isabelle/HOL.\<close>

  \<^bold>\<open>The program.\<close> Application threads \<^emph>\<open>post\<close> records to ring buffers, one per thread or
  shared. A post names an \<^emph>\<open>area\<close> and one of its \<^emph>\<open>sections\<close>; the area's bitmap says which
  sections are enabled, and \<^emph>\<open>masks\<close> (lists of regular expressions) change the bitmaps of all
  areas that the engine knows. The \<^emph>\<open>engine\<close> thread polls all rings, orders the records of a
  poll by timestamp in a bounded buffer, detects gaps in the sequence numbers and hands each
  record to an \<^emph>\<open>output\<close>. A \<^emph>\<open>format\<close> turns the record into text or into the packed raw image
  and pushes it into an output stream buffer; the file output rotates through numbered
  chunks with the help of a thread. The tool \<^verbatim>\<open>hogl-cook\<close> reads a raw log back and formats it.

  \<^bold>\<open>Conventions.\<close> The target is LP64 and little-endian; C integers are words of their width
  and wrap around. An access outside an array, a division by zero, a shift that is too far and
  a failed assertion are \<open>None\<close>, so that a theorem that gives \<open>Some\<close> also says that the code
  stays inside its buffers. The caller's memory is a function from addresses to bytes. What
  is not in the repository (regular expressions, \<^verbatim>\<open>std::sort\<close>, the clock, the operating system,
  the bundled formatting library) is an argument of the definitions that use it. Loops are
  structural recursion or have a termination proof; loops that may run for ever
  (\<open>hexdump_from\<close>, \<open>index_width\<close>, \<open>drain_rings\<close>, \<open>engine_loop\<close>, \<open>load_loop\<close>, \<open>ring_walk\<close>) are \<^theory_text>\<open>partial_function (option)\<close> and theorems say when
  they end. The retry loop of the raw log processor and the flush of a ring take
  the outcomes of the system calls as a finite list or function; the bound on the number of
  sleeps of a flush is a theorem and not an assumption.

  \<^bold>\<open>Theories.\<close> All paths are below \<^verbatim>\<open>src/\<close>.
  \<^item> \<^theory_text>\<open>Hogl_Prelude\<close>: words, little-endian bytes, checked byte buffers, shared lemmas and the
    collections \<open>buf_simps\<close> and \<open>wf_intros\<close>.
  \<^item> \<^theory_text>\<open>Timestamp\<close> (\<^verbatim>\<open>include/hogl/detail/timestamp.hpp\<close>): both storage formats; conversions are
    inverse and the order is chronological for nanoseconds and not for the union format.
  \<^item> \<^theory_text>\<open>Timesource\<close> (\<^verbatim>\<open>timesource.hpp\<close>, \<^verbatim>\<open>src/default-timesource.cc\<close>): time sources, and bounds on the
    clock computed from the cycle counter.
  \<^item> \<^theory_text>\<open>Bitmap\<close>, \<^theory_text>\<open>Area\<close>, \<^theory_text>\<open>Mask\<close> (\<^verbatim>\<open>bitmap.hpp\<close>, \<^verbatim>\<open>area.hpp\<close>, \<^verbatim>\<open>mask.hpp\<close> in
    \<^verbatim>\<open>include/hogl/detail\<close>, \<^verbatim>\<open>src/area.cc\<close>, \<^verbatim>\<open>src/internal.cc\<close>, \<^verbatim>\<open>src/mask.cc\<close>). The locale \<open>bitset\<close> is
    the interface of a set of sections, interpreted by the bitmap and by the area; the mask
    is a client. The last matching entry of a mask decides about a section.
  \<^item> \<^theory_text>\<open>Args\<close>, \<^theory_text>\<open>Log_Record\<close> (\<^verbatim>\<open>args.hpp\<close>, \<^verbatim>\<open>argpack.hpp\<close>, \<^verbatim>\<open>record.hpp\<close>): arguments and
    the byte image of a record. The locale \<open>arg_store\<close> is what storing one argument has to do;
    the inline path and the packed path both interpret it, so both store the same values, stay
    inside the record and truncate in the same way.
  \<^item> \<^theory_text>\<open>Ringbuf\<close> (\<^verbatim>\<open>ringbuf.hpp\<close>, \<^verbatim>\<open>src/ringbuf.cc\<close>, \<^verbatim>\<open>refcount.hpp\<close>): the ring with its masks
    and address arithmetic. The locale \<open>bounded_fifo\<close> is its contract: a queue of limited
    room that counts what it drops.
  \<^item> \<^theory_text>\<open>Ring_Conc\<close> (\<^verbatim>\<open>ringbuf.hpp\<close>, \<^verbatim>\<open>src/engine.cc\<close>): one writer and the reader interleaved at each access
    to shared data, as inductive step relations and as executable moves. The reader never
    sees an incomplete record, and a waiting writer is woken within a bounded number of steps
    without ordering; with ordering the wakeup can be lost.
  \<^item> \<^theory_text>\<open>Ring_Linear\<close>: every interleaving of \<open>Ring_Conc\<close> has the effect of a sequence of calls of \<open>ring_push\<close> and
    \<open>ring_pop\<close>, by a simulation. This justifies that the other theories take them for one step.
  \<^item> \<^theory_text>\<open>Tsobuf\<close> (\<^verbatim>\<open>tsobuf.hpp\<close>): the ordering buffer; \<open>std_sort\<close> is the contract of the library
    sort, which is not stable.
  \<^item> \<^theory_text>\<open>Post\<close> (\<^verbatim>\<open>include/hogl/post.hpp\<close>, \<^verbatim>\<open>src/post.cc\<close>, \<^verbatim>\<open>src/flush.cc\<close>,
    \<^verbatim>\<open>src/timesource.cc\<close>): posting, flushing, changing the time source.
  \<^item> \<^theory_text>\<open>Engine\<close>, \<^theory_text>\<open>Engine_Poll\<close>, \<^theory_text>\<open>Poll_Correct\<close> (\<^verbatim>\<open>src/engine.cc\<close>): one poll, with and without ordering.
    The invariant \<open>poll_inv\<close> relates the index of rings, the ordering buffer and the output to
    ghost lists of what was read; the theorems are that every record is written exactly once
    and in ring order, that two polls empty all rings, and that the output is in timestamp order
    when the buffer is large enough and the timestamps of each ring increase.
  \<^item> \<^theory_text>\<open>Registry\<close> (\<^verbatim>\<open>src/engine.cc\<close>): rings and areas by name, reference counts, masks for areas that
    come later.
  \<^item> \<^theory_text>\<open>Dumps\<close> (\<^verbatim>\<open>src/ringbuf.cc\<close>, \<^verbatim>\<open>src/engine.cc\<close>): the text dumps; dumping the engine changes no
    reference count.
  \<^item> \<^theory_text>\<open>Engine_Loop\<close> (\<^verbatim>\<open>src/engine.cc\<close>): the main loop and the draining of all rings at the end, both
    partial functions; when no thread holds a ring and the engine is left alone for four polls, draining
    ends within these polls (\<open>quiet_polls\<close>) and everything posted has been written.
  \<^item> \<^theory_text>\<open>Thread_Ring\<close> (\<^verbatim>\<open>tls.hpp\<close>, \<^verbatim>\<open>src/tls.cc\<close>, \<^verbatim>\<open>src/default-engine.cc\<close>,
    \<^verbatim>\<open>src/default-ringopts.cc\<close>): the ring of a thread and the default engine and ring.
  \<^item> \<^theory_text>\<open>C_Api\<close> (\<^verbatim>\<open>src/c-api.cc\<close>, \<^verbatim>\<open>include/hogl/c-api\<close>): the C interface; posting from C agrees with C++.
  \<^item> \<^theory_text>\<open>C_Output\<close> (\<^verbatim>\<open>src/c-api.cc\<close>, \<^verbatim>\<open>output-null.hpp\<close>, \<^verbatim>\<open>format-null.hpp\<close>, \<^verbatim>\<open>src/output-file.cc\<close>): formats and
    outputs from C, the null output, the end of a file output.
  \<^item> \<^theory_text>\<open>Ostrbuf\<close> (\<^verbatim>\<open>ostrbuf*.hpp\<close>, \<^verbatim>\<open>src/ostrbuf*.cc\<close>, \<^verbatim>\<open>src/output*.cc\<close> without rotation): stream
    buffers. The locale \<open>out_stream\<close> is what a stream promises of the data pushed into it,
    interpreted by descriptors (without short writes), stdio and the file output; \<open>two_streams\<close> extends it to the tee.
  \<^item> \<^theory_text>\<open>Format_Raw\<close>, \<^theory_text>\<open>Rdbuf\<close>, \<^theory_text>\<open>Raw_Parser\<close>, \<^theory_text>\<open>Cook\<close> (\<^verbatim>\<open>src/format-raw.cc\<close>, \<^verbatim>\<open>tools/rdbuf.cc\<close>,
    \<^verbatim>\<open>tools/raw-parser.cc\<close>, \<^verbatim>\<open>tools/cook.cc\<close>): the raw log from the record to the file and back. The
    locale \<open>byte_source\<close> is what the parser needs of its reader.
  \<^item> \<^theory_text>\<open>Ntos\<close>, \<^theory_text>\<open>Format_Basic\<close>, \<^theory_text>\<open>Format_Args\<close> (\<^verbatim>\<open>ntos.hpp\<close>, \<^verbatim>\<open>src/format-basic.cc\<close>): the text format;
    the hand-written fast headers against the general formatter.
  \<^item> \<^theory_text>\<open>Output_File\<close>, \<^theory_text>\<open>Rotation\<close> (\<^verbatim>\<open>src/output-file.cc\<close>): chunk names, the link to the last chunk, and the
    interleaving of the writer with the rotation thread as step relations (\<open>thread_step\<close>, \<open>of_step\<close>) with waits
    that may end without a signal. A run (\<open>of_run\<close>) starts with the constructor and carries the history of the chunks with
    their ages; a chunk is intact until its number comes around. The header of the first chunk goes through the stream.
  \<^item> \<^theory_text>\<open>Coredump\<close>, \<^theory_text>\<open>Recovery\<close> (\<^verbatim>\<open>tools/coredump.cc\<close>, \<^verbatim>\<open>tools/recovery-engine.cc\<close>): the recovery of
    rings from a core file. The merged chunks are an exact image of the file, the search for rings
    is complete (the locale \<open>scan_visitor\<close> is what the search asks of the check of an object, interpreted by \<open>visit_ring\<close>), records of an accepted ring are inside a chunk, and the dump is ordered; objects are
    kept in one heap per type.
  \<^item> \<^theory_text>\<open>Tools\<close> (\<^verbatim>\<open>tools/cook.cc\<close>, \<^verbatim>\<open>tools/recover.cc\<close>, \<^verbatim>\<open>tools/recovery-engine.cc\<close>): both tools from their
    command lines on; a raw log that was written is formatted completely.
  \<^item> \<^theory_text>\<open>Schedparam\<close> (\<^verbatim>\<open>src/schedparam.cc\<close>): CPU lists and masks as text.

  \<^bold>\<open>Not modelled.\<close> The bundled library below \<^verbatim>\<open>include/hogl/fmt\<close>; barriers and compiler macros; early
  messages and thread titles (\<^verbatim>\<open>src/platform.cc\<close>), messages on standard error; what is inside a format plugin, and
  the library that reads core files; memory that is only freed. Memory is sequentially consistent in the
  interleavings; the engine, the registries and posting are proved for ring operations that are atomic, which
  \<open>Ring_Linear\<close> justifies for one ring. The length of the sleeps of the engine thread is not modelled.
  Reference counts are integers without bound: the overflow of the \<^verbatim>\<open>int\<close> after 2^31 holders is left out. The bytes of a
  core file that are searched stay as loaded while pointers in them are replaced. Headers and footers that the
  rotation writes are complete or missing.
\<close>

end
